(* ===== verification/Prelude.thy ===== *)
theory Prelude
  imports Main "HOL-Library.Word" "HOL-Library.AList" "HOL-Library.Multiset"
begin

text \<open>
  Shared vocabulary of the rypipe-core model: the crate's error type, Rust's \<open>Ordering\<close>,
  the machine-integer conversions and checked operations the sources call, checked indexing
  (a Rust panic is \<open>None\<close>), the byte-wise order of \<open>str\<close>, and hash maps as
  association lists. Rust strings are UTF-8 byte strings; an Isabelle \<open>char\<close> is one byte.
\<close>

unbundle bit_operations_syntax

named_theorems rows_simps \<open>how the column operations act on the rows a column stands for\<close>
named_theorems wf_intros \<open>the column operations keep the storage invariants\<close>

section \<open>Errors and results\<close>

datatype error =
    Utf8_error string
  | Io_error string
  | Plan_error string
  | Memory_error nat nat
  | Merge_error string
  | Arrow_error string
  | Parser_error string
  | Lifetime_error string

type_synonym 'a result = "error + 'a"

definition is_memory_error :: "error \<Rightarrow> bool" where
  "is_memory_error e = (case e of Memory_error _ _ \<Rightarrow> True | _ \<Rightarrow> False)"

fun bind_result :: "'a result \<Rightarrow> ('a \<Rightarrow> 'b result) \<Rightarrow> 'b result" where
  "bind_result (Inl e) f = Inl e"
| "bind_result (Inr x) f = f x"

lemma bind_result_Inr: "bind_result r f = Inr y \<longleftrightarrow> (\<exists>x. r = Inr x \<and> f x = Inr y)"
  by (cases r) simp_all

section \<open>Orderings\<close>

datatype ordering = OLess | OEqual | OGreater

fun reverse_ordering :: "ordering \<Rightarrow> ordering" where
  "reverse_ordering OLess = OGreater"
| "reverse_ordering OEqual = OEqual"
| "reverse_ordering OGreater = OLess"

definition then_with :: "ordering \<Rightarrow> ordering \<Rightarrow> ordering" where
  "then_with a b = (if a = OEqual then b else a)"

definition cmp_ord :: "'a::linorder \<Rightarrow> 'a \<Rightarrow> ordering" where
  "cmp_ord a b = (if a < b then OLess else if a = b then OEqual else OGreater)"

lemma cmp_ord_simps [simp]:
  "cmp_ord a b = OLess \<longleftrightarrow> a < b"
  "cmp_ord a b = OEqual \<longleftrightarrow> a = b"
  "cmp_ord a b = OGreater \<longleftrightarrow> b < a"
  by (auto simp: cmp_ord_def)

lemma reverse_cmp_ord: "reverse_ordering (cmp_ord a b) = cmp_ord b a"
  by (auto simp: cmp_ord_def)

lemma cmp_ord_strict_mono:
  assumes "strict_mono f"
  shows "cmp_ord (f a) (f b) = cmp_ord a b"
  using assms by (auto simp: cmp_ord_def strict_mono_less strict_mono_eq)

text \<open>Lexicographic comparison of two sequences, as \<open>Iterator::cmp\<close> and \<open>str::cmp\<close> do it.\<close>

fun lex_cmp :: "'a::linorder list \<Rightarrow> 'a list \<Rightarrow> ordering" where
  "lex_cmp [] [] = OEqual"
| "lex_cmp [] (_ # _) = OLess"
| "lex_cmp (_ # _) [] = OGreater"
| "lex_cmp (x # xs) (y # ys) = then_with (cmp_ord x y) (lex_cmp xs ys)"

definition byte_of :: "char \<Rightarrow> nat" where
  "byte_of c = of_char c"

definition str_cmp :: "string \<Rightarrow> string \<Rightarrow> ordering" where
  "str_cmp s t = lex_cmp (map byte_of s) (map byte_of t)"

lemma lex_cmp_refl [simp]: "lex_cmp xs xs = OEqual"
  by (induction xs) (auto simp: then_with_def)

lemma lex_cmp_Eq_iff: "lex_cmp xs ys = OEqual \<longleftrightarrow> xs = ys"
  by (induction xs ys rule: lex_cmp.induct) (auto simp: then_with_def)

lemma lex_cmp_reverse: "reverse_ordering (lex_cmp xs ys) = lex_cmp ys xs"
  by (induction xs ys rule: lex_cmp.induct) (auto simp: then_with_def reverse_cmp_ord cmp_ord_def)

section \<open>Machine integers\<close>

definition usize_max :: nat where
  "usize_max = 2 ^ 64 - 1"

definition sat_add :: "nat \<Rightarrow> nat \<Rightarrow> nat" where
  "sat_add a b = min (a + b) usize_max"

definition sat_mul :: "nat \<Rightarrow> nat \<Rightarrow> nat" where
  "sat_mul a b = min (a * b) usize_max"

definition div_ceil :: "nat \<Rightarrow> nat \<Rightarrow> nat" where
  "div_ceil a b = a div b + (if a mod b = 0 then 0 else 1)"

text \<open>\<open>x as i32\<close>, \<open>x as i64\<close>: two's complement wrap-around.\<close>

definition as_i32 :: "int \<Rightarrow> int" where
  "as_i32 x = (x + 2 ^ 31) mod 2 ^ 32 - 2 ^ 31"

definition as_i64 :: "int \<Rightarrow> int" where
  "as_i64 x = (x + 2 ^ 63) mod 2 ^ 64 - 2 ^ 63"

text \<open>\<open>x as usize\<close> for a signed \<open>x\<close>: sign extension to 64 bits.\<close>

definition i32_as_usize :: "int \<Rightarrow> nat" where
  "i32_as_usize x = nat (x mod 2 ^ 64)"

definition i64_range :: "int \<Rightarrow> bool" where
  "i64_range x \<longleftrightarrow> - (2 ^ 63) \<le> x \<and> x < 2 ^ 63"

definition i128_range :: "int \<Rightarrow> bool" where
  "i128_range x \<longleftrightarrow> - (2 ^ 127) \<le> x \<and> x < 2 ^ 127"

definition i32_range :: "int \<Rightarrow> bool" where
  "i32_range x \<longleftrightarrow> - (2 ^ 31) \<le> x \<and> x < 2 ^ 31"

definition i128_checked :: "int \<Rightarrow> int option" where
  "i128_checked x = (if i128_range x then Some x else None)"

lemma i128_checked_Some [simp]: "i128_checked x = Some y \<longleftrightarrow> y = x \<and> i128_range x"
  by (auto simp: i128_checked_def)

lemma as_i32_id [simp]: "i32_range x \<Longrightarrow> as_i32 x = x"
  by (simp add: as_i32_def i32_range_def)

lemma as_i32_range: "i32_range (as_i32 x)"
  using pos_mod_sign [of "2 ^ 32" "x + 2 ^ 31"] pos_mod_bound [of "2 ^ 32" "x + 2 ^ 31"]
  unfolding as_i32_def i32_range_def by simp

lemma as_i64_id [simp]: "i64_range x \<Longrightarrow> as_i64 x = x"
  by (simp add: as_i64_def i64_range_def)

lemma i32_as_usize_nonneg: "0 \<le> x \<Longrightarrow> x < 2 ^ 31 \<Longrightarrow> i32_as_usize x = nat x"
  by (simp add: i32_as_usize_def)

lemma i32_as_usize_of_nat [simp]: "n < 2 ^ 31 \<Longrightarrow> i32_as_usize (as_i32 (int n)) = n"
  by (simp add: as_i32_def i32_as_usize_def)

lemma div_ceil_le:
  assumes b: "0 < b"
  shows "a \<le> b * div_ceil a b"
proof -
  have e: "b * (a div b) + a mod b = a" by simp
  have r: "a mod b < b" using b by simp
  show ?thesis
  proof (cases "a mod b = 0")
    case True
    with e show ?thesis by (simp add: div_ceil_def)
  next
    case False
    then have "b * div_ceil a b = b * (a div b) + b" by (simp add: div_ceil_def)
    with e r show ?thesis by linarith
  qed
qed

lemma div_ceil_8: "div_ceil n 8 = (n + 7) div 8"
  unfolding div_ceil_def by (auto, presburger+)

section \<open>Checked indexing and slices\<close>

text \<open>\<open>xs[i]\<close> and \<open>xs[a..b]\<close>: \<open>None\<close> is the panic.\<close>

definition idx :: "'a list \<Rightarrow> nat \<Rightarrow> 'a option" where
  "idx xs i = (if i < length xs then Some (xs ! i) else None)"

definition slice :: "'a list \<Rightarrow> nat \<Rightarrow> nat \<Rightarrow> 'a list option" where
  "slice xs a b = (if a \<le> b \<and> b \<le> length xs then Some (take (b - a) (drop a xs)) else None)"

lemma at_Some [simp]: "idx xs i = Some x \<longleftrightarrow> i < length xs \<and> xs ! i = x"
  by (auto simp: idx_def)

lemma at_None [simp]: "idx xs i = None \<longleftrightarrow> length xs \<le> i"
  by (auto simp: idx_def)

fun position :: "('a \<Rightarrow> bool) \<Rightarrow> 'a list \<Rightarrow> nat option" where
  "position P [] = None"
| "position P (x # xs) = (if P x then Some 0 else map_option Suc (position P xs))"

lemma position_Some:
  "position P xs = Some i \<Longrightarrow> i < length xs \<and> P (xs ! i) \<and> (\<forall>j<i. \<not> P (xs ! j))"
proof (induction xs arbitrary: i)
  case (Cons x xs)
  show ?case
  proof (cases "P x")
    case False
    with Cons.prems obtain k where k: "position P xs = Some k" "i = Suc k" by auto
    with Cons.IH[of k] False show ?thesis by (auto simp: nth_Cons split: nat.splits)
  qed (use Cons.prems in auto)
qed simp

lemma position_None: "position P xs = None \<longleftrightarrow> (\<forall>x\<in>set xs. \<not> P x)"
  by (induction xs) auto

definition insert_at :: "nat \<Rightarrow> 'a \<Rightarrow> 'a list \<Rightarrow> 'a list" where
  "insert_at i x xs = take i xs @ x # drop i xs"

lemma set_insert_at [simp]: "set (insert_at i x xs) = insert x (set xs)"
  unfolding insert_at_def by (metis append_take_drop_id list.simps(15) set_append Un_insert_right)

lemma length_insert_at [simp]: "length (insert_at i x xs) = Suc (length xs)"
  by (auto simp: insert_at_def min_def)

lemma distinct_insert_at [simp]: "distinct (insert_at i x xs) \<longleftrightarrow> x \<notin> set xs \<and> distinct xs"
proof -
  have "mset (insert_at i x xs) = mset (x # xs)"
    unfolding insert_at_def by (metis append_take_drop_id mset.simps(2) mset_append
        union_mset_add_mset_right)
  then have "distinct (insert_at i x xs) = distinct (x # xs)"
    by (rule mset_eq_imp_distinct_iff)
  then show ?thesis by simp
qed

section \<open>Hash maps\<close>

text \<open>
  A \<open>HashMap\<close> is an association list with distinct keys: \<open>AList.update\<close> is
  \<open>insert\<close>, \<open>AList.delete\<close> is \<open>remove\<close>, \<open>map_of\<close> is \<open>get\<close>. Nothing in the model
  depends on the order of the pairs, as nothing in the code may.
\<close>

type_synonym ('k, 'v) hmap = "('k \<times> 'v) list"

lemma map_of_update [simp]: "map_of (AList.update k v m) = (map_of m)(k \<mapsto> v)"
  by (rule update_conv')

lemma map_of_delete [simp]: "map_of (AList.delete k m) = (map_of m)(k := None)"
  by (rule delete_conv')

definition contains_key :: "('k, 'v) hmap \<Rightarrow> 'k \<Rightarrow> bool" where
  "contains_key m k = (map_of m k \<noteq> None)"

lemma contains_key_iff: "contains_key m k \<longleftrightarrow> k \<in> fst ` set m"
  by (simp add: contains_key_def map_of_eq_None_iff)

lemma nth_append_last [simp]: "(xs @ [x]) ! length xs = x"
  by (simp add: nth_append)

lemma take_append_last: "n \<le> length xs \<Longrightarrow> take n (xs @ ys) = take n xs"
  by simp

end
