(* ===== verification/Row_Store.thy ===== *)
theory Row_Store
  imports Prelude
begin

text \<open>
  The interface between the table builder and its column storage. A column stands for a list
  of optional cells (\<open>None\<close> is null). What is pushed may have to be converted first:
  \<open>cell s v\<close> is the cell the column \<open>s\<close> makes of the input \<open>v\<close>. \<open>row_store\<close> states what
  push, pop, length and lookup promise about the list of cells, and \<open>row_buffer\<close> adds appending
  another chunk's column and splitting a prefix off. The builder's idioms (padding with nulls,
  dropping the rows of an unfinished row, overwriting the current row) are proved once, from
  the laws.
\<close>

locale row_store =
  fixes rows :: "'s \<Rightarrow> 'a option list"
    and ok :: "'s \<Rightarrow> bool"
    and fits :: "'s \<Rightarrow> 'v \<Rightarrow> bool"
    and cell :: "'s \<Rightarrow> 'v \<Rightarrow> 'a option"
    and null :: "'v"
    and push :: "'v \<Rightarrow> 's \<Rightarrow> 's"
    and pop :: "'s \<Rightarrow> 's"
    and len :: "'s \<Rightarrow> nat"
    and get :: "'s \<Rightarrow> nat \<Rightarrow> 'a option"
  assumes ok_push: "ok s \<Longrightarrow> fits s v \<Longrightarrow> ok (push v s)"
    and rows_push: "ok s \<Longrightarrow> fits s v \<Longrightarrow> rows (push v s) = rows s @ [cell s v]"
    and fits_null: "ok s \<Longrightarrow> fits s null"
    and cell_null: "cell s null = None"
    and ok_pop: "ok s \<Longrightarrow> ok (pop s)"
    and rows_pop: "ok s \<Longrightarrow> rows (pop s) = butlast (rows s)"
    and cell_pop: "cell (pop s) v = cell s v"
    and len_rows: "ok s \<Longrightarrow> len s = length (rows s)"
    and get_rows: "ok s \<Longrightarrow> get s i = (if i < length (rows s) then rows s ! i else None)"
begin

lemma pop_push: "ok s \<Longrightarrow> fits s v \<Longrightarrow> rows (pop (push v s)) = rows s"
  by (simp add: rows_pop rows_push ok_push)

lemma pad_nulls:
  "ok s \<Longrightarrow> ok ((push null ^^ n) s) \<and> rows ((push null ^^ n) s) = rows s @ replicate n None"
  by (induction n) (auto simp: ok_push rows_push fits_null cell_null replicate_append_same)

lemma drop_rows:
  "ok s \<Longrightarrow> ok ((pop ^^ n) s) \<and> rows ((pop ^^ n) s) = take (length (rows s) - n) (rows s)"
  by (induction n) (auto simp: ok_pop rows_pop butlast_take)

text \<open>Popping while the column is longer than \<open>n\<close> keeps exactly the first \<open>n\<close> rows.\<close>

lemma truncate_to:
  "ok s \<Longrightarrow> ok ((pop ^^ (len s - n)) s) \<and> rows ((pop ^^ (len s - n)) s) = take n (rows s)"
  using drop_rows [of s "len s - n"] by (cases "n \<le> length (rows s)") (simp_all add: len_rows)

text \<open>The current row's cell is replaced when it was written already: last write wins.\<close>

lemma overwrite:
  assumes "ok s" "len s = n \<or> len s = Suc n" "fits (if n < len s then pop s else s) v"
  shows "ok (push v (if n < len s then pop s else s)) \<and>
    rows (push v (if n < len s then pop s else s)) = take n (rows s) @ [cell s v]"
  using assms by (auto simp: ok_push rows_push ok_pop rows_pop cell_pop len_rows butlast_conv_take)

lemma get_pushed: "ok s \<Longrightarrow> fits s v \<Longrightarrow> get (push v s) (len s) = cell s v"
  by (simp add: get_rows ok_push rows_push len_rows)

end

locale row_buffer = row_store rows ok fits cell null push pop len get
  for rows :: "'s \<Rightarrow> 'a option list" and ok :: "'s \<Rightarrow> bool" and fits :: "'s \<Rightarrow> 'v \<Rightarrow> bool"
    and cell :: "'s \<Rightarrow> 'v \<Rightarrow> 'a option" and null :: "'v"
    and push :: "'v \<Rightarrow> 's \<Rightarrow> 's" and pop :: "'s \<Rightarrow> 's" and len :: "'s \<Rightarrow> nat"
    and get :: "'s \<Rightarrow> nat \<Rightarrow> 'a option" +
  fixes fits_all :: "'s \<Rightarrow> 's \<Rightarrow> bool"
    and append :: "'s \<Rightarrow> 's \<Rightarrow> 's"
    and split_off :: "nat \<Rightarrow> 's \<Rightarrow> 's \<times> 's"
  assumes append_ok: "ok s \<Longrightarrow> ok t \<Longrightarrow> fits_all s t \<Longrightarrow> ok (append s t)"
    and rows_append: "ok s \<Longrightarrow> ok t \<Longrightarrow> fits_all s t \<Longrightarrow> rows (append s t) = rows s @ rows t"
    and split_ok: "ok s \<Longrightarrow> 0 < n \<Longrightarrow> n \<le> len s \<Longrightarrow>
           ok (fst (split_off n s)) \<and> ok (snd (split_off n s))"
    and rows_split: "ok s \<Longrightarrow> 0 < n \<Longrightarrow> n \<le> len s \<Longrightarrow>
           rows (fst (split_off n s)) = take n (rows s) \<and> rows (snd (split_off n s)) = drop n (rows s)"
begin

text \<open>Splitting a batch off and appending the rest back loses no row and keeps the order.\<close>

lemma split_append:
  assumes "ok s" "0 < n" "n \<le> len s" "split_off n s = (a, b)" "fits_all a b"
  shows "rows (append a b) = rows s"
  using split_ok [OF assms(1-3)] rows_split [OF assms(1-3)] assms(4,5)
  by (simp add: rows_append)

lemma split_conserves:
  assumes "ok s" "0 < n" "n \<le> len s"
  shows "rows (fst (split_off n s)) @ rows (snd (split_off n s)) = rows s"
    "len (fst (split_off n s)) = n" "len (snd (split_off n s)) = len s - n"
  using split_ok [OF assms] rows_split [OF assms] assms by (simp_all add: len_rows)

lemma append_len: "ok s \<Longrightarrow> ok t \<Longrightarrow> fits_all s t \<Longrightarrow> len (append s t) = len s + len t"
  by (simp add: len_rows append_ok rows_append)

end

end
