(* ===== verification/Validity.thy ===== *)
theory Validity
  imports Prelude
begin

text \<open>
  \<open>ValidityBitmap\<close> of columnar.rs: one bit per row in bytes, a length and a null count, and
  its refinement of a list of Booleans. The unused high bits of the last byte are kept zero,
  which \<open>push\<close> relies on (it only sets bits) and \<open>append\<close> restores with a mask.
\<close>

record validity =
  vbits :: "8 word list"
  vlen :: nat
  null_count :: nat

definition vb_empty :: validity where
  "vb_empty = \<lparr>vbits = [], vlen = 0, null_count = 0\<rparr>"

definition vb_push :: "bool \<Rightarrow> validity \<Rightarrow> validity" where
  "vb_push valid v =
     (let bs = (if vlen v mod 8 = 0 then vbits v @ [0] else vbits v); i = vlen v div 8
      in if valid
         then \<lparr>vbits = bs[i := bs ! i OR push_bit (vlen v mod 8) 1], vlen = Suc (vlen v),
               null_count = null_count v\<rparr>
         else \<lparr>vbits = bs, vlen = Suc (vlen v), null_count = Suc (null_count v)\<rparr>)"

definition vb_pop :: "validity \<Rightarrow> bool option \<times> validity" where
  "vb_pop v =
     (if vlen v = 0 then (None, v)
      else let n = vlen v - 1; i = n div 8; byte = vbits v ! i;
               valid = (byte AND push_bit (n mod 8) 1 \<noteq> 0);
               bs = (vbits v)[i := byte AND NOT (push_bit (n mod 8) 1)]
           in (Some valid,
               \<lparr>vbits = (if n mod 8 = 0 then butlast bs else bs), vlen = n,
                null_count = (if valid then null_count v else null_count v - 1)\<rparr>))"

definition vb_is_valid :: "validity \<Rightarrow> nat \<Rightarrow> bool" where
  "vb_is_valid v i \<longleftrightarrow> i < vlen v \<and> (vbits v ! (i div 8)) AND push_bit (i mod 8) 1 \<noteq> 0"

definition vb_rows :: "validity \<Rightarrow> bool list" where
  "vb_rows v = map (vb_is_valid v) [0..<vlen v]"

definition vb_bytes_used :: "validity \<Rightarrow> nat" where
  "vb_bytes_used v = length (vbits v)"

text \<open>Byte-aligned appends copy the bytes and mask the last one; others push bit by bit.\<close>

definition vb_append :: "validity \<Rightarrow> validity \<Rightarrow> validity" where
  "vb_append v w =
     (if vlen v mod 8 = 0
      then let bs = vbits v @ vbits w; n = vlen v + vlen w
           in \<lparr>vbits = (if n mod 8 \<noteq> 0 \<and> bs \<noteq> []
                       then butlast bs @ [last bs AND (push_bit (n mod 8) 1 - 1)] else bs),
               vlen = n, null_count = null_count v + null_count w\<rparr>
      else fold vb_push (vb_rows w) v)"

definition vb_split_off :: "nat \<Rightarrow> validity \<Rightarrow> validity \<times> validity" where
  "vb_split_off n v =
     (fold vb_push (map (vb_is_valid v) [0..<n]) vb_empty,
      fold vb_push (map (vb_is_valid v) [n..<vlen v]) vb_empty)"

section \<open>The bits of a byte list\<close>

definition flat :: "8 word list \<Rightarrow> bool list" where
  "flat bs = map (\<lambda>i. bit (bs ! (i div 8)) (i mod 8)) [0..<8 * length bs]"

lemma length_flat [simp]: "length (flat bs) = 8 * length bs"
  by (simp add: flat_def)

lemma flat_nth: "i < 8 * length bs \<Longrightarrow> flat bs ! i = bit (bs ! (i div 8)) (i mod 8)"
  by (simp add: flat_def)

lemma flat_append: "flat (bs @ cs) = flat bs @ flat cs"
proof (rule nth_equalityI)
  fix i
  assume i: "i < length (flat (bs @ cs))"
  show "flat (bs @ cs) ! i = (flat bs @ flat cs) ! i"
  proof (cases "i < 8 * length bs")
    case True
    then have "i div 8 < length bs" by (simp add: less_mult_imp_div_less mult.commute)
    with True show ?thesis by (simp add: flat_nth nth_append)
  next
    case False
    then have le: "length bs \<le> i div 8" by (simp add: less_eq_div_iff_mult_less_eq mult.commute)
    obtain j where "i = 8 * length bs + j" using False by (metis leI le_iff_add)
    then have "(i - 8 * length bs) div 8 = i div 8 - length bs" "(i - 8 * length bs) mod 8 = i mod 8"
      by simp_all
    with False le i show ?thesis by (simp add: flat_nth nth_append)
  qed
qed simp

lemma flat_zero [simp]: "flat [0] = replicate 8 False"
  by (rule nth_equalityI) (auto simp: flat_nth)

lemma flat_update:
  assumes "i < 8 * length bs" "\<And>k. k < 8 \<Longrightarrow> bit w k = (if k = i mod 8 then b else bit (bs ! (i div 8)) k)"
  shows "flat (bs[i div 8 := w]) = (flat bs)[i := b]"
proof (rule nth_equalityI)
  fix j
  assume j: "j < length (flat (bs[i div 8 := w]))"
  have len: "i div 8 < length bs" using assms(1) by (simp add: less_mult_imp_div_less mult.commute)
  show "flat (bs[i div 8 := w]) ! j = (flat bs)[i := b] ! j"
  proof (cases "j div 8 = i div 8")
    case True
    have "j = i \<longleftrightarrow> j mod 8 = i mod 8" using True by (metis div_mult_mod_eq)
    with True j len show ?thesis by (auto simp: flat_nth nth_list_update assms(2))
  next
    case False
    then have "j \<noteq> i" by auto
    with False j show ?thesis by (simp add: flat_nth)
  qed
qed simp

lemma bit_set: "k < 8 \<Longrightarrow> bit (w OR 2 ^ n :: 8 word) k = (k = n \<or> bit w k)"
  by (auto simp: bit_or_iff bit_exp_iff)

lemma bit_clear: "k < 8 \<Longrightarrow> bit (w AND NOT (2 ^ n) :: 8 word) k = (k \<noteq> n \<and> bit w k)"
  by (auto simp: bit_and_iff bit_not_iff bit_exp_iff)

lemma bit_test: "(w AND 2 ^ n = 0) = (\<not> bit w n)" for w :: "8 word"
  using bit_iff_and_push_bit_not_eq_0 [of w n] by (simp add: push_bit_of_1)

lemma flat_set: "i < 8 * length bs \<Longrightarrow>
    flat (bs[i div 8 := bs ! (i div 8) OR 2 ^ (i mod 8)]) = (flat bs)[i := True]"
  by (rule flat_update) (simp_all add: bit_set)

lemma flat_clear: "i < 8 * length bs \<Longrightarrow>
    flat (bs[i div 8 := bs ! (i div 8) AND NOT (2 ^ (i mod 8))]) = (flat bs)[i := False]"
  by (rule flat_update) (simp_all add: bit_clear)

section \<open>The bitmap stands for its rows\<close>

definition count_false :: "bool list \<Rightarrow> nat" where
  "count_false xs = length (filter Not xs)"

lemma count_false_append [simp]: "count_false (xs @ ys) = count_false xs + count_false ys"
  by (simp add: count_false_def)

lemma count_false_simps [simp]: "count_false [] = 0" "count_false [b] = (if b then 0 else 1)"
  by (simp_all add: count_false_def)

definition vb_ok :: "validity \<Rightarrow> bool" where
  "vb_ok v \<longleftrightarrow>
     vlen v \<le> 8 * length (vbits v) \<and> 8 * length (vbits v) < vlen v + 8 \<and>
     flat (vbits v) = vb_rows v @ replicate (8 * length (vbits v) - vlen v) False \<and>
     null_count v = count_false (vb_rows v)"

lemma length_vb_rows [simp]: "length (vb_rows v) = vlen v"
  by (simp add: vb_rows_def)

lemma vb_rows_take_flat: "vlen v \<le> 8 * length (vbits v) \<Longrightarrow> vb_rows v = take (vlen v) (flat (vbits v))"
  by (rule nth_equalityI)
     (auto simp: vb_rows_def vb_is_valid_def flat_nth bit_test)

lemma vb_is_valid_rows: "vb_is_valid v i \<longleftrightarrow> i < length (vb_rows v) \<and> vb_rows v ! i"
  by (auto simp: vb_rows_def vb_is_valid_def)

lemma vb_ok_intro:
  assumes "flat (vbits v) = xs @ replicate p False" "length xs = vlen v" "p < 8" "null_count v = count_false xs"
  shows "vb_ok v \<and> vb_rows v = xs"
proof -
  have len: "8 * length (vbits v) = vlen v + p"
    using arg_cong [OF assms(1), of length] assms(2) by simp
  then have "vb_rows v = xs" using assms(1,2) by (simp add: vb_rows_take_flat)
  with len assms show ?thesis by (simp add: vb_ok_def)
qed

lemma vb_ok_flat:
  assumes "vb_ok v"
  obtains p where "flat (vbits v) = vb_rows v @ replicate p False" "p < 8"
    "vlen v + p = 8 * length (vbits v)" "null_count v = count_false (vb_rows v)"
  using assms by (intro that [of "8 * length (vbits v) - vlen v"]) (auto simp: vb_ok_def)

lemma vb_empty_ok [simp]: "vb_ok vb_empty" "vb_rows vb_empty = []"
  by (simp_all add: vb_ok_def vb_rows_def vb_empty_def flat_def)

lemma list_update_append_replicate:
  "length xs = n \<Longrightarrow> 0 < p \<Longrightarrow> (xs @ replicate p False)[n := b] = (xs @ [b]) @ replicate (p - 1) False"
  by (cases p) (auto simp: list_update_append)

lemma vb_push_ok:
  assumes "vb_ok v"
  shows "vb_ok (vb_push b v) \<and> vb_rows (vb_push b v) = vb_rows v @ [b]"
proof -
  obtain p where p: "flat (vbits v) = vb_rows v @ replicate p False" "p < 8"
    "vlen v + p = 8 * length (vbits v)" "null_count v = count_false (vb_rows v)"
    using assms by (rule vb_ok_flat)
  define bs where "bs = (if vlen v mod 8 = 0 then vbits v @ [0] else vbits v)"
  define q where "q = (if p = 0 then 8 else p)"
  have p0: "vlen v mod 8 = 0 \<longleftrightarrow> p = 0" using p(2,3) by presburger
  have fb: "flat bs = vb_rows v @ replicate q False"
    by (simp add: bs_def q_def p0 p(1) flat_append)
  have q: "0 < q" "q \<le> 8" "vlen v + q = 8 * length bs"
    using p(2,3) p0 by (auto simp: q_def bs_def)
  have upd: "flat (if b then bs[vlen v div 8 := bs ! (vlen v div 8) OR 2 ^ (vlen v mod 8)] else bs)
      = (vb_rows v @ [b]) @ replicate (q - 1) False"
  proof (cases b)
    case True
    then show ?thesis
      using flat_set [of "vlen v" bs] q by (simp add: fb list_update_append_replicate)
  next
    case False
    with q(1) show ?thesis by (cases q) (simp_all add: fb)
  qed
  show ?thesis
    by (rule vb_ok_intro [where p = "q - 1"])
       (use upd q p(4) in \<open>auto simp: vb_push_def Let_def bs_def [symmetric] split: if_splits\<close>)
qed

lemma vb_push_fold_ok:
  "vb_ok v \<Longrightarrow> vb_ok (fold vb_push bs v) \<and> vb_rows (fold vb_push bs v) = vb_rows v @ bs"
  by (induction bs arbitrary: v) (auto simp: vb_push_ok)

lemma vb_pop_ok:
  assumes "vb_ok v" "vlen v \<noteq> 0"
  shows "fst (vb_pop v) = Some (last (vb_rows v)) \<and> vb_ok (snd (vb_pop v)) \<and>
         vb_rows (snd (vb_pop v)) = butlast (vb_rows v)"
proof -
  obtain p where p: "flat (vbits v) = vb_rows v @ replicate p False" "p < 8"
    "vlen v + p = 8 * length (vbits v)" "null_count v = count_false (vb_rows v)"
    using assms(1) by (rule vb_ok_flat)
  define n where "n = vlen v - 1"
  define bs where "bs = (vbits v)[n div 8 := vbits v ! (n div 8) AND NOT (2 ^ (n mod 8))]"
  have n: "vlen v = Suc n" "n < 8 * length (vbits v)" using assms(2) p(3) by (auto simp: n_def)
  have rows: "vb_rows v = butlast (vb_rows v) @ [last (vb_rows v)]"
    using n(1) by (intro append_butlast_last_id [symmetric]) (metis length_vb_rows length_0_conv nat.simps(3))
  have lb: "length (butlast (vb_rows v)) = n" by (simp add: n(1))
  have valid: "(vbits v ! (n div 8) AND 2 ^ (n mod 8) \<noteq> 0) = last (vb_rows v)"
  proof -
    have "bit (vbits v ! (n div 8)) (n mod 8) = flat (vbits v) ! n" using n(2) by (simp add: flat_nth)
    also have "\<dots> = last (vb_rows v)" using n(1) by (subst p(1), subst rows) (simp add: nth_append)
    finally show ?thesis by (simp add: bit_test)
  qed
  have fb: "flat bs = butlast (vb_rows v) @ replicate (Suc p) False"
  proof -
    have "flat bs = (flat (vbits v))[n := False]" unfolding bs_def using n(2) by (rule flat_clear)
    also have "\<dots> = butlast (vb_rows v) @ replicate (Suc p) False"
      by (subst p(1), subst rows) (simp only: append_assoc list_update_append lb, simp)
    finally show ?thesis .
  qed
  define bs' where "bs' = (if n mod 8 = 0 then butlast bs else bs)"
  have fb': "flat bs' = butlast (vb_rows v) @ replicate (if n mod 8 = 0 then 0 else Suc p) False"
  proof (cases "n mod 8 = 0")
    case True
    have p7: "Suc p = 8" using True p(2,3) n(1) by presburger
    have "bs \<noteq> []" using n(2) by (auto simp: bs_def)
    then have "flat (butlast bs) @ flat [last bs] = butlast (vb_rows v) @ replicate 8 False"
      using fb p7 flat_append [of "butlast bs" "[last bs]"] by simp
    then have "flat (butlast bs) = butlast (vb_rows v)"
      by (rule append_eq_append_conv [THEN iffD1, THEN conjunct1, rotated]) simp
    with True show ?thesis by (simp add: bs'_def)
  qed (simp add: bs'_def fb)
  have cf: "null_count v = count_false (butlast (vb_rows v)) + (if last (vb_rows v) then 0 else 1)"
    using p(4) by (subst (asm) rows) simp
  have pop: "vb_pop v = (Some (last (vb_rows v)), \<lparr>vbits = bs', vlen = n,
      null_count = (if last (vb_rows v) then null_count v else null_count v - 1)\<rparr>)"
    unfolding vb_pop_def n(1) Let_def diff_Suc_1 push_bit_of_1 valid bs_def [symmetric]
    by (simp add: bs'_def)
  have "n mod 8 \<noteq> 0 \<Longrightarrow> Suc p < 8" using p(2,3) n(1) by presburger
  then have "vb_ok (snd (vb_pop v)) \<and> vb_rows (snd (vb_pop v)) = butlast (vb_rows v)"
    using fb' lb cf unfolding pop snd_conv
    by (intro vb_ok_intro [where p = "if n mod 8 = 0 then 0 else Suc p"]) auto
  then show ?thesis unfolding pop by simp
qed

lemma and_mask_id:
  assumes "\<And>k. m \<le> k \<Longrightarrow> k < 8 \<Longrightarrow> \<not> bit w k"
  shows "w AND (2 ^ m - 1) = (w :: 8 word)"
proof (rule bit_word_eqI)
  fix k assume "k < LENGTH(8)"
  then show "bit (w AND (2 ^ m - 1)) k = bit w k"
    using assms [of k]
    by (cases "k < m") (auto simp: bit_and_iff mask_eq_exp_minus_1 [symmetric] bit_mask_iff)
qed

lemma nth_pad: "length xs \<le> i \<Longrightarrow> i < length xs + q \<Longrightarrow> (xs @ replicate q x) ! i = x"
  by (simp add: nth_append)

lemma bits_in_last_byte:
  fixes n q l :: nat
  assumes "n + q = 8 * l" "q < 8" "n mod 8 \<noteq> 0"
  shows "n = 8 * (l - 1) + n mod 8"
proof -
  have e: "n = 8 * (n div 8) + n mod 8" and m: "n mod 8 < 8" by simp_all
  have "n div 8 = l - 1" using e m assms by linarith
  then show ?thesis using e by simp
qed

lemma vb_append_ok:
  assumes "vb_ok v" "vb_ok w"
  shows "vb_ok (vb_append v w) \<and> vb_rows (vb_append v w) = vb_rows v @ vb_rows w"
proof (cases "vlen v mod 8 = 0")
  case False
  then show ?thesis using vb_push_fold_ok [OF assms(1)] by (simp add: vb_append_def)
next
  case True
  obtain p where p: "flat (vbits v) = vb_rows v @ replicate p False" "p < 8"
    "vlen v + p = 8 * length (vbits v)" "null_count v = count_false (vb_rows v)"
    using assms(1) by (rule vb_ok_flat)
  obtain q where q: "flat (vbits w) = vb_rows w @ replicate q False" "q < 8"
    "vlen w + q = 8 * length (vbits w)" "null_count w = count_false (vb_rows w)"
    using assms(2) by (rule vb_ok_flat)
  let ?bs = "vbits v @ vbits w" and ?n = "vlen v + vlen w"
  have p0: "p = 0" using True p(2,3) by presburger
  have fb: "flat ?bs = (vb_rows v @ vb_rows w) @ replicate q False"
    by (simp add: flat_append p(1) q(1) p0)
  have len: "?n + q = 8 * length ?bs" using p(3) q(3) p0 by simp
  have mask: "butlast ?bs @ [last ?bs AND (2 ^ (?n mod 8) - 1)] = ?bs" if "?n mod 8 \<noteq> 0" "?bs \<noteq> []"
  proof -
    have "\<not> bit (last ?bs) k" if k: "?n mod 8 \<le> k" "k < 8" for k
    proof -
      define i where "i = 8 * (length ?bs - 1) + k"
      have L: "length ?bs = Suc (length ?bs - 1)" using \<open>?bs \<noteq> []\<close> by (cases ?bs) simp_all
      have i: "i < 8 * length ?bs" "i div 8 = length ?bs - 1" "i mod 8 = k"
        using k(2) L by (simp_all add: i_def)
      have "?n = 8 * (length ?bs - 1) + ?n mod 8"
        using bits_in_last_byte [OF len q(2) \<open>?n mod 8 \<noteq> 0\<close>] .
      then have "?n \<le> i" using k(1) by (simp add: i_def)
      have "bit (last ?bs) k = flat ?bs ! i"
        unfolding flat_nth [OF i(1)] i(2,3) last_conv_nth [OF \<open>?bs \<noteq> []\<close>] ..
      also have "\<dots> = False"
        unfolding fb using \<open>?n \<le> i\<close> i(1) len by (intro nth_pad) simp_all
      finally show ?thesis by simp
    qed
    then have "last ?bs AND (2 ^ (?n mod 8) - 1) = last ?bs" by (intro and_mask_id)
    then show ?thesis using \<open>?bs \<noteq> []\<close> by simp
  qed
  have "vb_append v w = \<lparr>vbits = ?bs, vlen = ?n, null_count = null_count v + null_count w\<rparr>"
    using True mask unfolding vb_append_def Let_def push_bit_of_1 by auto
  then show ?thesis
    using fb q(2,4) p(4) by (intro vb_ok_intro [where p = q]) auto
qed

lemma vb_split_off_ok:
  assumes "vb_ok v" "n \<le> vlen v" "vb_split_off n v = (a, b)"
  shows "vb_ok a \<and> vb_ok b \<and> vb_rows a = take n (vb_rows v) \<and> vb_rows b = drop n (vb_rows v)"
proof -
  have "map (vb_is_valid v) [0..<n] = take n (vb_rows v)" "map (vb_is_valid v) [n..<vlen v] = drop n (vb_rows v)"
    using assms(2) by (simp_all add: vb_rows_def take_map drop_map)
  then show ?thesis
    using assms(3) vb_push_fold_ok [OF vb_empty_ok(1)] by (auto simp: vb_split_off_def)
qed

lemma vb_push_in_range:
  "vb_ok v \<Longrightarrow> vlen v div 8 < length (if vlen v mod 8 = 0 then vbits v @ [0] else vbits v)"
  by (auto simp: vb_ok_def) presburger

lemma vlen_push [simp]: "vlen (vb_push b v) = Suc (vlen v)"
  by (simp add: vb_push_def Let_def)

lemma vlen_pop [simp]: "vlen (snd (vb_pop v)) = vlen v - 1"
  by (simp add: vb_pop_def Let_def)

lemmas vb_push_rows = vb_push_ok [THEN conjunct2] and vb_push_keeps = vb_push_ok [THEN conjunct1]

declare vb_push_rows [rows_simps] vb_push_keeps [wf_intros]

text \<open>
  C27. The bitmap is a faithful, compact list of Booleans: pushing, popping, appending
  (byte-wise or bit by bit) and splitting act on the rows it stands for as snoc, butlast,
  append and take/drop, and every operation keeps the null count equal to the number of
  invalid rows and the spare bits of the last byte zero.
\<close>

theorem validity_refines_list:
  assumes "vb_ok v" "vb_ok w" "n \<le> vlen v"
  shows "vb_ok (vb_push b v) \<and> vb_rows (vb_push b v) = vb_rows v @ [b] \<and>
    (if vlen v = 0 then vb_pop v = (None, v)
     else fst (vb_pop v) = Some (last (vb_rows v)) \<and> vb_ok (snd (vb_pop v)) \<and>
          vb_rows (snd (vb_pop v)) = butlast (vb_rows v)) \<and>
    vb_ok (vb_append v w) \<and> vb_rows (vb_append v w) = vb_rows v @ vb_rows w \<and>
    (case vb_split_off n v of (x, y) \<Rightarrow>
       vb_ok x \<and> vb_ok y \<and> vb_rows x = take n (vb_rows v) \<and> vb_rows y = drop n (vb_rows v))"
  using vb_push_ok [OF assms(1)] vb_pop_ok [OF assms(1)] vb_append_ok [OF assms(1,2)]
    vb_split_off_ok [OF assms(1,3)]
  by (auto simp: vb_pop_def)

theorem validity_refines_list_witness:
  "vb_rows (vb_push False (fold vb_push [True, False, True] vb_empty)) = [True, False, True, False]"
proof -
  have ok: "vb_ok (fold vb_push [True, False, True] vb_empty) \<and>
      vb_rows (fold vb_push [True, False, True] vb_empty) = [True, False, True]"
    using vb_push_fold_ok [OF vb_empty_ok(1), of "[True, False, True]"] by (simp only: vb_empty_ok append_Nil)
  show ?thesis
    using validity_refines_list [OF conjunct1 [OF ok] vb_empty_ok(1), of 0 False] ok by simp
qed

end
