(* ===== verification/Rust_Std.thy ===== *)
theory Rust_Std
  imports Prelude
begin

text \<open>
  The operations of Rust's standard library on \<open>str\<close> and on integers that the sources call:
  prefixes and suffixes, \<open>split_once\<close>, \<open>trim\<close> over the Unicode white space, \<open>replace\<close>,
  the parsing and the decimal printing of integers. Strings are UTF-8 byte strings.
\<close>

section \<open>Substrings\<close>

definition starts_with :: "string \<Rightarrow> string \<Rightarrow> bool" where
  "starts_with s p = (take (length p) s = p)"

definition ends_with :: "string \<Rightarrow> string \<Rightarrow> bool" where
  "ends_with s p = (length p \<le> length s \<and> drop (length s - length p) s = p)"

definition strip_prefix :: "string \<Rightarrow> string \<Rightarrow> string option" where
  "strip_prefix p s = (if starts_with s p then Some (drop (length p) s) else None)"

definition strip_suffix :: "string \<Rightarrow> string \<Rightarrow> string option" where
  "strip_suffix p s = (if ends_with s p then Some (take (length s - length p) s) else None)"

fun str_contains :: "string \<Rightarrow> string \<Rightarrow> bool" where
  "str_contains [] p = (p = [])"
| "str_contains (c # s) p = (starts_with (c # s) p \<or> str_contains s p)"

fun split_once :: "char \<Rightarrow> string \<Rightarrow> (string \<times> string) option" where
  "split_once c [] = None"
| "split_once c (x # xs) =
     (if x = c then Some ([], xs)
      else (case split_once c xs of None \<Rightarrow> None | Some (a, b) \<Rightarrow> Some (x # a, b)))"

lemma strip_prefix_append [simp]: "strip_prefix p (p @ s) = Some s"
  by (simp add: strip_prefix_def starts_with_def)

lemma strip_prefix_Some: "strip_prefix p s = Some t \<longleftrightarrow> s = p @ t"
  by (auto simp: strip_prefix_def starts_with_def) (metis append_take_drop_id)

lemma strip_suffix_Some: "strip_suffix p s = Some t \<longleftrightarrow> s = t @ p"
  by (auto simp: strip_suffix_def ends_with_def) (metis append_take_drop_id)

lemma split_once_append [simp]: "c \<notin> set a \<Longrightarrow> split_once c (a @ c # b) = Some (a, b)"
  by (induction a) auto

lemma split_once_SomeD: "split_once c s = Some (a, b) \<Longrightarrow> s = a @ c # b \<and> c \<notin> set a"
  by (induction s arbitrary: a) (auto split: if_splits option.splits)

lemma split_once_Some: "split_once c s = Some (a, b) \<longleftrightarrow> s = a @ c # b \<and> c \<notin> set a"
  using split_once_SomeD split_once_append by blast

lemma split_once_None: "split_once c s = None \<longleftrightarrow> c \<notin> set s"
  by (induction s) (auto split: option.splits)

text \<open>
  \<open>s.replace(old, new)\<close>: leftmost non-overlapping matches. An empty pattern matches before
  every character and at the end; a character starts at a byte that is no UTF-8 continuation
  byte.
\<close>

definition is_continuation :: "char \<Rightarrow> bool" where
  "is_continuation c \<longleftrightarrow> 128 \<le> byte_of c \<and> byte_of c < 192"

definition chars_count :: "string \<Rightarrow> nat" where
  "chars_count s = length (filter (\<lambda>c. \<not> is_continuation c) s)"

function str_replace_ne :: "string \<Rightarrow> string \<Rightarrow> string \<Rightarrow> string" where
  "str_replace_ne old new s =
     (if s = [] \<or> old = [] then s
      else if starts_with s old then new @ str_replace_ne old new (drop (length old) s)
      else hd s # str_replace_ne old new (tl s))"
  by pat_completeness auto
termination
  by (relation "measure (\<lambda>(old, new, s). length s)") auto

declare str_replace_ne.simps [simp del]

fun interleave_chars :: "string \<Rightarrow> string \<Rightarrow> string" where
  "interleave_chars new [] = new"
| "interleave_chars new (c # s) =
     (if is_continuation c then c # interleave_chars new s else new @ c # interleave_chars new s)"

definition str_replace :: "string \<Rightarrow> string \<Rightarrow> string \<Rightarrow> string" where
  "str_replace old new s = (if old = [] then interleave_chars new s else str_replace_ne old new s)"

section \<open>UTF-8\<close>

text \<open>\<open>str::from_utf8(..).is_ok()\<close>: no overlong forms, no surrogates, nothing past U+10FFFF.\<close>

definition cont :: "nat \<Rightarrow> bool" where
  "cont b \<longleftrightarrow> 128 \<le> b \<and> b < 192"

fun utf8_bytes :: "nat list \<Rightarrow> bool" where
  "utf8_bytes [] = True"
| "utf8_bytes (a # r) =
     (if a < 128 then utf8_bytes r
      else case r of [] \<Rightarrow> False
        | b # r2 \<Rightarrow>
           if 194 \<le> a \<and> a \<le> 223 then cont b \<and> utf8_bytes r2
           else case r2 of [] \<Rightarrow> False
             | c # r3 \<Rightarrow>
                if 224 \<le> a \<and> a \<le> 239
                then (if a = 224 then 160 \<le> b \<and> b < 192 else if a = 237 then 128 \<le> b \<and> b < 160 else cont b)
                     \<and> cont c \<and> utf8_bytes r3
                else case r3 of [] \<Rightarrow> False
                  | d # r4 \<Rightarrow>
                     240 \<le> a \<and> a \<le> 244 \<and>
                     (if a = 240 then 144 \<le> b \<and> b < 192 else if a = 244 then 128 \<le> b \<and> b < 144 else cont b)
                     \<and> cont c \<and> cont d \<and> utf8_bytes r4)"

definition utf8_valid :: "string \<Rightarrow> bool" where
  "utf8_valid s = utf8_bytes (map byte_of s)"

lemma utf8_ascii: "list_all (\<lambda>c. byte_of c < 128) s \<Longrightarrow> utf8_valid s"
  unfolding utf8_valid_def by (induction s) auto

text \<open>
  \<open>String::from_utf8_lossy\<close>: every maximal prefix of an ill-formed sequence becomes U+FFFD.
  \<open>utf8_chunk\<close> gives the bytes taken by the next character and whether they are well formed;
  a missing byte reads as 0.
\<close>

definition byte_at :: "nat list \<Rightarrow> nat \<Rightarrow> nat" where
  "byte_at bs i = (if i < length bs then bs ! i else 0)"

definition second_ok :: "nat \<Rightarrow> nat \<Rightarrow> bool" where
  "second_ok a b =
     (if a = 224 then 160 \<le> b \<and> b < 192 else if a = 237 then 128 \<le> b \<and> b < 160
      else if a = 240 then 144 \<le> b \<and> b < 192 else if a = 244 then 128 \<le> b \<and> b < 144 else cont b)"

definition utf8_chunk :: "nat list \<Rightarrow> nat \<times> bool" where
  "utf8_chunk bs =
     (let a = byte_at bs 0
      in if a < 128 then (1, True)
         else if 194 \<le> a \<and> a \<le> 223 then (if cont (byte_at bs 1) then (2, True) else (1, False))
         else if 224 \<le> a \<and> a \<le> 239 then
           (if \<not> second_ok a (byte_at bs 1) then (1, False)
            else if \<not> cont (byte_at bs 2) then (2, False) else (3, True))
         else if 240 \<le> a \<and> a \<le> 244 then
           (if \<not> second_ok a (byte_at bs 1) then (1, False)
            else if \<not> cont (byte_at bs 2) then (2, False)
            else if \<not> cont (byte_at bs 3) then (3, False) else (4, True))
         else (1, False))"

lemma utf8_chunk_pos: "0 < fst (utf8_chunk bs)"
  by (auto simp: utf8_chunk_def Let_def)

function utf8_lossy :: "string \<Rightarrow> string" where
  "utf8_lossy s =
     (if s = [] then []
      else let (n, valid) = utf8_chunk (map byte_of s)
           in (if valid then take n s else map char_of [239::nat, 191, 189]) @ utf8_lossy (drop n s))"
  by pat_completeness auto
termination
proof (relation "measure length", goal_cases)
  case (2 s p n valid)
  then have "0 < n" "s \<noteq> []" using utf8_chunk_pos by (metis fst_conv)+
  then show ?case by simp
qed simp

declare utf8_lossy.simps [simp del]

lemma utf8_bytes_chunk:
  assumes "utf8_bytes bs" "bs \<noteq> []"
  shows "snd (utf8_chunk bs) \<and> fst (utf8_chunk bs) \<le> length bs \<and> utf8_bytes (drop (fst (utf8_chunk bs)) bs)"
proof -
  obtain a r where bs: "bs = a # r" using assms(2) by (cases bs) auto
  note defs = utf8_chunk_def byte_at_def Let_def second_ok_def cont_def
  consider (one) "a < 128" | (two) "194 \<le> a" "a \<le> 223" | (three) "224 \<le> a" "a \<le> 239"
    | (four) "240 \<le> a" "a \<le> 244" | (bad) "128 \<le> a" "a < 194 \<or> 244 < a"
    by linarith
  then show ?thesis
  proof cases
    case one
    with assms bs show ?thesis by (simp add: utf8_chunk_def byte_at_def)
  next
    case two
    with assms bs obtain b r2 where "r = b # r2" "cont b" "utf8_bytes r2" by (cases r) auto
    with two bs show ?thesis by (simp add: utf8_chunk_def byte_at_def)
  next
    case three
    with assms bs obtain b c r3 where "r = b # c # r3" "second_ok a b" "cont c" "utf8_bytes r3"
      by (cases r; cases "tl r") (auto simp: second_ok_def)
    with three bs show ?thesis by (simp add: utf8_chunk_def byte_at_def)
  next
    case four
    with assms bs obtain b c d r4 where "r = b # c # d # r4" "second_ok a b" "cont c" "cont d" "utf8_bytes r4"
      by (cases r; cases "tl r"; cases "tl (tl r)") (auto simp: second_ok_def)
    with four bs show ?thesis by (simp add: utf8_chunk_def byte_at_def numeral_3_eq_3)
  next
    case bad
    with assms bs show ?thesis by (auto split: list.splits)
  qed
qed

lemma utf8_lossy_valid: "utf8_valid s \<Longrightarrow> utf8_lossy s = s"
proof (induction s rule: utf8_lossy.induct)
  case (1 s)
  show ?case
  proof (cases "s = []")
    case False
    obtain n v where nv: "utf8_chunk (map byte_of s) = (n, v)" by fastforce
    have "v" "utf8_valid (drop n s)"
      using utf8_bytes_chunk [of "map byte_of s"] 1(2) False nv by (auto simp: utf8_valid_def drop_map)
    then show ?thesis using 1(1) [OF False nv [symmetric] refl] False nv
      by (subst utf8_lossy.simps) simp
  qed (simp add: utf8_lossy.simps)
qed

section \<open>White space\<close>

text \<open>
  The length in bytes of the white-space character (Unicode \<open>White_Space\<close>) a string starts
  with, 0 if there is none. For the end of a string the same bytes are read backwards.
\<close>

fun ws_prefix :: "nat list \<Rightarrow> nat" where
  "ws_prefix (a # b # c # _) =
     (if 9 \<le> a \<and> a \<le> 13 \<or> a = 32 then 1
      else if a = 194 \<and> (b = 133 \<or> b = 160) then 2
      else if a = 225 \<and> b = 154 \<and> c = 128 \<or>
              a = 226 \<and> b = 128 \<and> (128 \<le> c \<and> c \<le> 138 \<or> c = 168 \<or> c = 169 \<or> c = 175) \<or>
              a = 226 \<and> b = 129 \<and> c = 159 \<or> a = 227 \<and> b = 128 \<and> c = 128 then 3
      else 0)"
| "ws_prefix [a, b] =
     (if 9 \<le> a \<and> a \<le> 13 \<or> a = 32 then 1
      else if a = 194 \<and> (b = 133 \<or> b = 160) then 2 else 0)"
| "ws_prefix [a] = (if 9 \<le> a \<and> a \<le> 13 \<or> a = 32 then 1 else 0)"
| "ws_prefix [] = 0"

fun ws_suffix_rev :: "nat list \<Rightarrow> nat" where
  "ws_suffix_rev (c # b # a # _) =
     (if ws_prefix [c] = 1 then 1
      else if ws_prefix [b, c] = 2 then 2
      else if ws_prefix [a, b, c] = 3 then 3 else 0)"
| "ws_suffix_rev [c, b] = (if ws_prefix [c] = 1 then 1 else if ws_prefix [b, c] = 2 then 2 else 0)"
| "ws_suffix_rev [c] = ws_prefix [c]"
| "ws_suffix_rev [] = 0"

lemma ws_prefix_le: "ws_prefix bs \<le> length bs"
  by (cases bs rule: ws_prefix.cases) auto

lemma ws_suffix_rev_le: "ws_suffix_rev bs \<le> length bs"
  by (cases bs rule: ws_suffix_rev.cases) auto

function trim_start :: "string \<Rightarrow> string" where
  "trim_start s = (let n = ws_prefix (map byte_of s) in if n = 0 then s else trim_start (drop n s))"
  by pat_completeness auto
termination
proof (relation "measure length", goal_cases)
  case (2 s n)
  then have "s \<noteq> []" by auto
  with 2 show ?case by simp
qed simp

function trim_end_rev :: "string \<Rightarrow> string" where
  "trim_end_rev s =
     (let n = ws_suffix_rev (map byte_of s) in if n = 0 then s else trim_end_rev (drop n s))"
  by pat_completeness auto
termination
proof (relation "measure length", goal_cases)
  case (2 s n)
  then have "s \<noteq> []" by auto
  with 2 show ?case by simp
qed simp

declare trim_start.simps [simp del] trim_end_rev.simps [simp del]

definition trim_end :: "string \<Rightarrow> string" where
  "trim_end s = rev (trim_end_rev (rev s))"

definition trim :: "string \<Rightarrow> string" where
  "trim s = trim_end (trim_start s)"

lemma trim_start_id: "ws_prefix (map byte_of s) = 0 \<Longrightarrow> trim_start s = s"
  by (subst trim_start.simps) simp

lemma trim_end_id: "ws_suffix_rev (map byte_of (rev s)) = 0 \<Longrightarrow> trim_end s = s"
  by (simp add: trim_end_def, subst trim_end_rev.simps) simp

section \<open>Decimal digits\<close>

definition is_ascii_digit :: "char \<Rightarrow> bool" where
  "is_ascii_digit c \<longleftrightarrow> 48 \<le> byte_of c \<and> byte_of c \<le> 57"

definition digit_val :: "char \<Rightarrow> nat" where
  "digit_val c = byte_of c - 48"

definition digit_char :: "nat \<Rightarrow> char" where
  "digit_char d = char_of (48 + d)"

definition digits_val :: "string \<Rightarrow> nat" where
  "digits_val s = foldl (\<lambda>a c. 10 * a + digit_val c) 0 s"

fun nat_to_string :: "nat \<Rightarrow> string" where
  "nat_to_string n =
     (if n < 10 then [digit_char n] else nat_to_string (n div 10) @ [digit_char (n mod 10)])"

declare nat_to_string.simps [simp del]

definition int_to_string :: "int \<Rightarrow> string" where
  "int_to_string x = (if x < 0 then ''-'' else '''') @ nat_to_string (nat \<bar>x\<bar>)"

lemma byte_of_digit_char [simp]: "d < 10 \<Longrightarrow> byte_of (digit_char d) = 48 + d"
  by (simp add: byte_of_def digit_char_def of_char_of)

lemma is_ascii_digit_digit_char [simp]: "d < 10 \<Longrightarrow> is_ascii_digit (digit_char d)"
  by (simp add: is_ascii_digit_def)

lemma digit_val_digit_char [simp]: "d < 10 \<Longrightarrow> digit_val (digit_char d) = d"
  by (simp add: digit_val_def)

lemma digit_val_less: "is_ascii_digit c \<Longrightarrow> digit_val c < 10"
  by (auto simp: is_ascii_digit_def digit_val_def)

lemma byte_of_less_iff:
  "is_ascii_digit c \<Longrightarrow> is_ascii_digit d \<Longrightarrow> cmp_ord (byte_of c) (byte_of d) = cmp_ord (digit_val c) (digit_val d)"
  by (auto simp: is_ascii_digit_def digit_val_def cmp_ord_def)

lemma digits_val_Nil [simp]: "digits_val [] = 0"
  by (simp add: digits_val_def)

lemma digits_val_snoc [simp]: "digits_val (s @ [c]) = 10 * digits_val s + digit_val c"
  by (simp add: digits_val_def)

lemma digits_val_append: "digits_val (s @ t) = digits_val s * 10 ^ length t + digits_val t"
proof (induction t rule: rev_induct)
  case (snoc c t)
  then show ?case
    by (simp only: append_assoc [symmetric] digits_val_snoc) (simp add: algebra_simps)
qed simp

lemma digits_val_Cons: "digits_val (c # s) = digit_val c * 10 ^ length s + digits_val s"
  using digits_val_append [of "[c]" s] by (simp add: digits_val_def)

lemma digits_val_bound: "list_all is_ascii_digit s \<Longrightarrow> digits_val s < 10 ^ length s"
proof (induction s rule: rev_induct)
  case (snoc c s)
  then have "digits_val s + 1 \<le> 10 ^ length s" "digit_val c < 10"
    by (auto simp: digit_val_less Suc_le_eq)
  then show ?case by simp
qed simp

lemma digits_val_zeros [simp]: "digits_val (replicate n (CHR ''0'')) = 0"
  by (induction n) (auto simp: digits_val_Cons digit_val_def byte_of_def)

lemma digits_val_pad: "digits_val (s @ replicate n (CHR ''0'')) = digits_val s * 10 ^ n"
  by (simp add: digits_val_append)

lemma nat_to_string_digits [simp]: "list_all is_ascii_digit (nat_to_string n)"
proof (induction n rule: nat_to_string.induct)
  case (1 n)
  then show ?case by (subst nat_to_string.simps) auto
qed

lemma digits_val_nat_to_string [simp]: "digits_val (nat_to_string n) = n"
proof (induction n rule: nat_to_string.induct)
  case (1 n)
  show ?case
  proof (cases "n < 10")
    case True
    then show ?thesis by (subst nat_to_string.simps) (simp add: digits_val_Cons)
  next
    case False
    with 1 show ?thesis by (subst nat_to_string.simps) simp
  qed
qed

lemma nat_to_string_nonempty [simp]: "nat_to_string n \<noteq> []"
  by (subst nat_to_string.simps) simp

lemma nat_to_string_lower: "0 < n \<Longrightarrow> 10 ^ (length (nat_to_string n) - 1) \<le> n"
proof (induction n rule: nat_to_string.induct)
  case (1 n)
  show ?case
  proof (cases "n < 10")
    case True
    with 1 show ?thesis by (subst nat_to_string.simps) simp
  next
    case False
    then have pos: "0 < n div 10" by simp
    have len: "length (nat_to_string n) - 1 = Suc (length (nat_to_string (n div 10)) - 1)"
      using False by (subst nat_to_string.simps) (cases "nat_to_string (n div 10)"; simp)
    have "10 ^ (length (nat_to_string (n div 10)) - 1) \<le> n div 10"
      using 1(1) [OF False pos] .
    then have "10 * 10 ^ (length (nat_to_string (n div 10)) - 1) \<le> 10 * (n div 10)" by simp
    also have "\<dots> \<le> n" by simp
    finally show ?thesis unfolding len power_Suc .
  qed
qed

lemma nat_to_string_upper: "n < 10 ^ length (nat_to_string n)"
  using digits_val_bound [OF nat_to_string_digits [of n]] by simp

text \<open>Equally long digit strings are ordered as the numbers they stand for.\<close>

lemma lex_cmp_digits:
  assumes "length s = length t" "list_all is_ascii_digit s" "list_all is_ascii_digit t"
  shows "lex_cmp (map byte_of s) (map byte_of t) = cmp_ord (digits_val s) (digits_val t)"
  using assms
proof (induction s t rule: list_induct2)
  case (Cons c s d t)
  have bs: "digits_val s < 10 ^ length t" "digits_val t < 10 ^ length t"
    using digits_val_bound Cons by fastforce+
  have head: "cmp_ord (byte_of c) (byte_of d) = cmp_ord (digit_val c) (digit_val d)"
    using Cons.prems by (simp add: byte_of_less_iff)
  have lt: "x * 10 ^ length t + u < y * 10 ^ length t + v" if "x < y" "u < 10 ^ length t"
    for x y u v :: nat
  proof -
    from that have "x * 10 ^ length t + u < (x + 1) * 10 ^ length t" by simp
    also have "\<dots> \<le> y * 10 ^ length t" using that by (intro mult_le_mono1) simp
    finally show ?thesis by simp
  qed
  have IH: "lex_cmp (map byte_of s) (map byte_of t) = cmp_ord (digits_val s) (digits_val t)"
    using Cons by simp
  show ?case
  proof (cases "digit_val c" "digit_val d" rule: linorder_cases)
    case less
    with lt [OF less bs(1), of "digits_val t"] bs Cons.hyps show ?thesis
      unfolding list.map lex_cmp.simps head by (simp add: then_with_def digits_val_Cons cmp_ord_def)
  next
    case equal
    with IH Cons.hyps show ?thesis
      unfolding list.map lex_cmp.simps head by (simp add: then_with_def digits_val_Cons cmp_ord_def)
  next
    case greater
    with lt [OF greater bs(2), of "digits_val s"] bs Cons.hyps show ?thesis
      unfolding list.map lex_cmp.simps head by (simp add: then_with_def digits_val_Cons cmp_ord_def)
  qed
qed (simp add: cmp_ord_def)

section \<open>Parsing integers\<close>

text \<open>\<open>str::parse::<iN>()\<close>: an optional sign, then one digit at least, within the range.\<close>

definition parse_signed :: "(int \<Rightarrow> bool) \<Rightarrow> string \<Rightarrow> int option" where
  "parse_signed rng s =
     (case s of [] \<Rightarrow> None
      | c # r \<Rightarrow>
         (let (neg, ds) = (if c = CHR ''-'' then (True, r) else if c = CHR ''+'' then (False, r)
                           else (False, s));
              v = (if neg then - int (digits_val ds) else int (digits_val ds))
          in if ds \<noteq> [] \<and> list_all is_ascii_digit ds \<and> rng v then Some v else None))"

definition parse_i64 :: "string \<Rightarrow> int option" where
  "parse_i64 = parse_signed i64_range"

definition parse_i128 :: "string \<Rightarrow> int option" where
  "parse_i128 = parse_signed i128_range"

definition parse_i32 :: "string \<Rightarrow> int option" where
  "parse_i32 = parse_signed i32_range"

definition parse_u8 :: "string \<Rightarrow> nat option" where
  "parse_u8 s =
     (let ds = (case s of [] \<Rightarrow> [] | c # r \<Rightarrow> if c = CHR ''+'' then r else s)
      in if ds \<noteq> [] \<and> list_all is_ascii_digit ds \<and> digits_val ds < 256 then Some (digits_val ds) else None)"

definition parse_bool :: "string \<Rightarrow> bool option" where
  "parse_bool s = (if s = ''true'' then Some True else if s = ''false'' then Some False else None)"

definition bool_to_string :: "bool \<Rightarrow> string" where
  "bool_to_string b = (if b then ''true'' else ''false'')"

lemma not_digit_sign [simp]: "\<not> is_ascii_digit (CHR ''-'')" "\<not> is_ascii_digit (CHR ''+'')"
  "\<not> is_ascii_digit (CHR ''.'')"
  by (simp_all add: is_ascii_digit_def byte_of_def)

lemma digit_sign_neq [simp]: "is_ascii_digit c \<Longrightarrow> c \<noteq> CHR ''-''" "is_ascii_digit c \<Longrightarrow> c \<noteq> CHR ''+''"
  "is_ascii_digit c \<Longrightarrow> c \<noteq> CHR ''.''"
  using not_digit_sign by blast+

lemma parse_signed_digits:
  assumes "list_all is_ascii_digit s" "s \<noteq> []"
  shows "parse_signed rng s = (if rng (int (digits_val s)) then Some (int (digits_val s)) else None)"
  using assms by (cases s) (auto simp: parse_signed_def)

lemma parse_signed_int_to_string: "rng x \<Longrightarrow> parse_signed rng (int_to_string x) = Some x"
proof (cases "x < 0")
  case True
  then show "rng x \<Longrightarrow> ?thesis" by (simp add: parse_signed_def int_to_string_def)
next
  case False
  then show "rng x \<Longrightarrow> ?thesis" by (simp add: parse_signed_digits int_to_string_def)
qed

lemma parse_bool_to_string [simp]: "parse_bool (bool_to_string b) = Some b"
  by (simp add: parse_bool_def bool_to_string_def)

end
