(* ===== verification/F64.thy ===== *)
theory F64
  imports Rust_Std
begin

text \<open>
  IEEE 754 binary64 as the sources use it: conversion from integers, comparison, the four
  operations, the saturating conversions back to integers, \<open>str::parse::<f64>\<close> and the
  shortest decimal \<open>to_string\<close>. A finite value is a sign, a mantissa \<open>m\<close> and an exponent
  \<open>e\<close> standing for \<open>m * 2 ^ e\<close>; every operation computes exactly and rounds once, to
  nearest with ties to even.
\<close>

datatype f64 = NaN | Infinity bool | Finite bool nat int

fun bit_len :: "nat \<Rightarrow> nat" where
  "bit_len n = (if n = 0 then 0 else Suc (bit_len (n div 2)))"

declare bit_len.simps [simp del]

definition round_even_div :: "nat \<Rightarrow> nat \<Rightarrow> nat" where
  "round_even_div num den =
     (let q = num div den; r = num mod den
      in if 2 * r < den then q else if den < 2 * r then q + 1 else if even q then q else q + 1)"

text \<open>The binary64 value nearest to \<open>num / den\<close>.\<close>

definition f64_round :: "bool \<Rightarrow> nat \<Rightarrow> nat \<Rightarrow> f64" where
  "f64_round neg num den =
     (if num = 0 then Finite neg 0 0
      else let d = int (bit_len num) - int (bit_len den);
               ge = (if 0 \<le> d then den * 2 ^ nat d \<le> num else den \<le> num * 2 ^ nat (- d));
               e = max (if ge then d - 52 else d - 53) (- 1074);
               m = (if 0 \<le> e then round_even_div num (den * 2 ^ nat e)
                    else round_even_div (num * 2 ^ nat (- e)) den);
               (m', e') = (if m = 2 ^ 53 then (2 ^ 52, e + 1) else (m, e))
           in if m' = 0 then Finite neg 0 0 else if e' > 971 then Infinity neg
              else Finite neg m' e')"

definition f64_of_int :: "int \<Rightarrow> f64" where
  "f64_of_int x = f64_round (x < 0) (nat \<bar>x\<bar>) 1"

text \<open>The signed numerator of a finite value over \<open>2 ^ k\<close>, for \<open>k\<close> large enough.\<close>

definition scaled :: "int \<Rightarrow> bool \<Rightarrow> nat \<Rightarrow> int \<Rightarrow> int" where
  "scaled k s m e = (if s then -1 else 1) * int m * 2 ^ nat (e + k)"

fun f64_partial_cmp :: "f64 \<Rightarrow> f64 \<Rightarrow> ordering option" where
  "f64_partial_cmp NaN _ = None"
| "f64_partial_cmp _ NaN = None"
| "f64_partial_cmp (Infinity s) (Infinity t) = Some (cmp_ord (\<not> s) (\<not> t))"
| "f64_partial_cmp (Infinity s) (Finite _ _ _) = Some (if s then OLess else OGreater)"
| "f64_partial_cmp (Finite _ _ _) (Infinity s) = Some (if s then OGreater else OLess)"
| "f64_partial_cmp (Finite s m e) (Finite t n f) =
     (let k = max (- e) (- f) in Some (cmp_ord (scaled k s m e) (scaled k t n f)))"

definition f64_eq :: "f64 \<Rightarrow> f64 \<Rightarrow> bool" where
  "f64_eq a b \<longleftrightarrow> f64_partial_cmp a b = Some OEqual"

definition f64_ge :: "f64 \<Rightarrow> f64 \<Rightarrow> bool" where
  "f64_ge a b \<longleftrightarrow> f64_partial_cmp a b \<in> {Some OEqual, Some OGreater}"

definition f64_le :: "f64 \<Rightarrow> f64 \<Rightarrow> bool" where
  "f64_le a b \<longleftrightarrow> f64_ge b a"

definition f64_round_scaled :: "bool \<Rightarrow> int \<Rightarrow> int \<Rightarrow> f64" where
  "f64_round_scaled zero_neg x k =
     (if x = 0 then Finite zero_neg 0 0
      else if 0 \<le> k then f64_round (x < 0) (nat \<bar>x\<bar>) (2 ^ nat k)
      else f64_round (x < 0) (nat \<bar>x\<bar> * 2 ^ nat (- k)) 1)"

fun f64_neg :: "f64 \<Rightarrow> f64" where
  "f64_neg NaN = NaN"
| "f64_neg (Infinity s) = Infinity (\<not> s)"
| "f64_neg (Finite s m e) = Finite (\<not> s) m e"

fun f64_add :: "f64 \<Rightarrow> f64 \<Rightarrow> f64" where
  "f64_add NaN _ = NaN"
| "f64_add _ NaN = NaN"
| "f64_add (Infinity s) (Infinity t) = (if s = t then Infinity s else NaN)"
| "f64_add (Infinity s) (Finite _ _ _) = Infinity s"
| "f64_add (Finite _ _ _) (Infinity s) = Infinity s"
| "f64_add (Finite s m e) (Finite t n f) =
     (let k = max (- e) (- f)
      in f64_round_scaled (s \<and> t \<and> m = 0 \<and> n = 0) (scaled k s m e + scaled k t n f) k)"

definition f64_sub :: "f64 \<Rightarrow> f64 \<Rightarrow> f64" where
  "f64_sub a b = f64_add a (f64_neg b)"

fun f64_mul :: "f64 \<Rightarrow> f64 \<Rightarrow> f64" where
  "f64_mul NaN _ = NaN"
| "f64_mul _ NaN = NaN"
| "f64_mul (Infinity s) (Infinity t) = Infinity (s \<noteq> t)"
| "f64_mul (Infinity s) (Finite t n _) = (if n = 0 then NaN else Infinity (s \<noteq> t))"
| "f64_mul (Finite s m _) (Infinity t) = (if m = 0 then NaN else Infinity (s \<noteq> t))"
| "f64_mul (Finite s m e) (Finite t n f) =
     (if m = 0 \<or> n = 0 then Finite (s \<noteq> t) 0 0
      else if 0 \<le> e + f then f64_round (s \<noteq> t) (m * n * 2 ^ nat (e + f)) 1
      else f64_round (s \<noteq> t) (m * n) (2 ^ nat (- (e + f))))"

fun f64_div :: "f64 \<Rightarrow> f64 \<Rightarrow> f64" where
  "f64_div NaN _ = NaN"
| "f64_div _ NaN = NaN"
| "f64_div (Infinity _) (Infinity _) = NaN"
| "f64_div (Infinity s) (Finite t _ _) = Infinity (s \<noteq> t)"
| "f64_div (Finite s _ _) (Infinity t) = Finite (s \<noteq> t) 0 0"
| "f64_div (Finite s m e) (Finite t n f) =
     (if n = 0 then (if m = 0 then NaN else Infinity (s \<noteq> t))
      else if 0 \<le> e - f then f64_round (s \<noteq> t) (m * 2 ^ nat (e - f)) n
      else f64_round (s \<noteq> t) m (n * 2 ^ nat (f - e)))"

definition f64_is_zero :: "f64 \<Rightarrow> bool" where
  "f64_is_zero x = (case x of Finite _ m _ \<Rightarrow> m = 0 | _ \<Rightarrow> False)"

text \<open>\<open>x as i64\<close>, \<open>x as usize\<close>: truncate toward zero and saturate; NaN gives 0.\<close>

definition trunc_nat :: "nat \<Rightarrow> int \<Rightarrow> nat" where
  "trunc_nat m e = (if 0 \<le> e then m * 2 ^ nat e else m div 2 ^ nat (- e))"

fun f64_as_i64 :: "f64 \<Rightarrow> int" where
  "f64_as_i64 NaN = 0"
| "f64_as_i64 (Infinity s) = (if s then - (2 ^ 63) else 2 ^ 63 - 1)"
| "f64_as_i64 (Finite s m e) =
     max (- (2 ^ 63)) (min (2 ^ 63 - 1) ((if s then -1 else 1) * int (trunc_nat m e)))"

fun f64_as_usize :: "f64 \<Rightarrow> nat" where
  "f64_as_usize NaN = 0"
| "f64_as_usize (Infinity s) = (if s then 0 else usize_max)"
| "f64_as_usize (Finite s m e) = (if s then 0 else min usize_max (trunc_nat m e))"

text \<open>\<open>x.fract() == 0.0\<close>; infinities and NaN have a NaN fraction.\<close>

fun f64_fract_zero :: "f64 \<Rightarrow> bool" where
  "f64_fract_zero (Finite s m e) = (0 \<le> e \<or> m mod 2 ^ nat (- e) = 0)"
| "f64_fract_zero _ = False"

section \<open>Text\<close>

definition lower_ascii :: "string \<Rightarrow> string" where
  "lower_ascii s = map (\<lambda>c. if 65 \<le> byte_of c \<and> byte_of c \<le> 90 then char_of (byte_of c + 32) else c) s"

definition f64_of_decimal :: "bool \<Rightarrow> nat \<Rightarrow> int \<Rightarrow> f64" where
  "f64_of_decimal neg m e =
     (if 0 \<le> e then f64_round neg (m * 10 ^ nat e) 1 else f64_round neg m (10 ^ nat (- e)))"

text \<open>\<open>str::parse::<f64>()\<close>: sign, then \<open>inf\<close>, \<open>infinity\<close>, \<open>nan\<close> or a decimal number.\<close>

definition parse_exponent :: "string \<Rightarrow> int option" where
  "parse_exponent s = parse_signed (\<lambda>_. True) s"

definition parse_unsigned_f64 :: "bool \<Rightarrow> string \<Rightarrow> f64 option" where
  "parse_unsigned_f64 neg s =
     (let ip = takeWhile is_ascii_digit s; r = dropWhile is_ascii_digit s;
          (fp, r') = (case r of [] \<Rightarrow> ([], [])
             | c # t \<Rightarrow> if c = CHR ''.'' then (takeWhile is_ascii_digit t, dropWhile is_ascii_digit t)
                       else ([], r))
      in if ip = [] \<and> fp = [] then None
         else case r' of [] \<Rightarrow> Some (f64_of_decimal neg (digits_val (ip @ fp)) (- int (length fp)))
           | c # t \<Rightarrow>
              (if c = CHR ''e'' \<or> c = CHR ''E''
               then map_option (\<lambda>x. f64_of_decimal neg (digits_val (ip @ fp)) (x - int (length fp)))
                      (parse_exponent t)
               else None))"

definition parse_f64 :: "string \<Rightarrow> f64 option" where
  "parse_f64 s =
     (let (neg, r) = (case s of [] \<Rightarrow> (False, [])
            | c # t \<Rightarrow> if c = CHR ''-'' then (True, t) else if c = CHR ''+'' then (False, t) else (False, s));
          l = lower_ascii r
      in if l = ''inf'' \<or> l = ''infinity'' then Some (Infinity neg)
         else if l = ''nan'' then Some NaN
         else parse_unsigned_f64 neg r)"

text \<open>
  \<open>to_string\<close>: the shortest decimal that reads back as the same value, the nearest one among
  those, in positional notation. \<open>digits_at k\<close> gives the two candidates \<open>d * 10 ^ k\<close> around it.
  The search goes down from the position in front of the first digit of the integer part, at most
  309, and 17 significant digits name every value, the smallest of which is above \<open>10 ^ -324\<close>. It ends
  after at most 18 steps for a value from one on and at \<open>10 ^ -341\<close> for a smaller one, so its 1100 steps are enough.
\<close>

definition f64_ratio :: "nat \<Rightarrow> int \<Rightarrow> nat \<times> nat" where
  "f64_ratio m e = (if 0 \<le> e then (m * 2 ^ nat e, 1) else (m, 2 ^ nat (- e)))"

definition digits_at :: "int \<Rightarrow> nat \<Rightarrow> nat \<Rightarrow> nat list" where
  "digits_at k num den =
     (let (n, d) = (if 0 \<le> k then (num, den * 10 ^ nat k) else (num * 10 ^ nat (- k), den));
          q = n div d; r = n mod d
      in if 2 * r < d \<or> 2 * r = d \<and> even q then [q, q + 1] else [q + 1, q])"

fun shortest_from :: "nat \<Rightarrow> int \<Rightarrow> nat \<Rightarrow> nat \<Rightarrow> nat \<Rightarrow> int \<Rightarrow> (nat \<times> int) option" where
  "shortest_from 0 k num den m e = None"
| "shortest_from (Suc fuel) k num den m e =
     (case List.find (\<lambda>q. f64_eq (f64_of_decimal False q k) (Finite False m e)) (digits_at k num den) of
        Some q \<Rightarrow> Some (q, k)
      | None \<Rightarrow> shortest_from fuel (k - 1) num den m e)"

definition positional :: "nat \<Rightarrow> int \<Rightarrow> string" where
  "positional q k =
     (let ds = nat_to_string q
      in if 0 \<le> k then ds @ replicate (nat k) (CHR ''0'')
         else let n = nat (- k); p = replicate (Suc n - length ds) (CHR ''0'') @ ds
              in take (length p - n) p @ ''.'' @ drop (length p - n) p)"

fun f64_to_string :: "f64 \<Rightarrow> string" where
  "f64_to_string NaN = ''NaN''"
| "f64_to_string (Infinity s) = (if s then ''-inf'' else ''inf'')"
| "f64_to_string (Finite s m e) =
     (let (num, den) = f64_ratio m e; k = int (length (nat_to_string (num div den)))
      in (if s then ''-'' else '''') @
         (if m = 0 then ''0''
          else case shortest_from 1100 k num den m e of
                 Some (q, k') \<Rightarrow> positional q k' | None \<Rightarrow> ''''))"

section \<open>The order on numbers\<close>

lemma f64_partial_cmp_reverse:
  "f64_partial_cmp b a = map_option reverse_ordering (f64_partial_cmp a b)"
  by (cases a; cases b) (auto simp: reverse_cmp_ord max.commute Let_def)

lemma f64_partial_cmp_refl: "a \<noteq> NaN \<Longrightarrow> f64_partial_cmp a a = Some OEqual"
  by (cases a) (auto simp: Let_def)

lemma f64_partial_cmp_None: "f64_partial_cmp a b = None \<longleftrightarrow> a = NaN \<or> b = NaN"
  by (cases a; cases b) (auto simp: Let_def)

lemma f64_as_i64_range: "i64_range (f64_as_i64 x)"
  by (cases x) (auto simp: i64_range_def)

end
