(* ===== verification/Plan.thy ===== *)
theory Plan
  imports F64
begin

text \<open>
  The data model and the execution plan: \<open>Value\<close> (value.rs), \<open>FieldType\<close>, \<open>ExecutionPlan\<close>
  and its builder methods (plan.rs), the operators and the \<open>FilterPredicate\<close> tree
  (plan/predicate.rs), and the parameter \<open>externals\<close> for the crates the code calls.
\<close>

section \<open>Code outside the repository\<close>

text \<open>
  What the model takes as a parameter: the \<open>lexical\<close> number parsers, \<open>chrono\<close> (parsing a
  date or a date-time against a format, reading a date-time in a unit, printing), \<open>regex\<close>
  matching, and the Unicode case tables. Dates and date-times are opaque indices.
\<close>

record externals =
  lex_i64 :: "string \<Rightarrow> int option"
  lex_f64 :: "string \<Rightarrow> f64 option"
  naive_date :: "string \<Rightarrow> string \<Rightarrow> nat option"
  naive_datetime :: "string \<Rightarrow> string \<Rightarrow> nat option"
  midnight :: "nat \<Rightarrow> nat"
  days_since_epoch :: "nat \<Rightarrow> int"
  dt_secs :: "nat \<Rightarrow> int"
  dt_millis :: "nat \<Rightarrow> int"
  dt_micros :: "nat \<Rightarrow> int"
  dt_nanos_opt :: "nat \<Rightarrow> int option"
  format_epoch_days :: "int \<Rightarrow> string option"
  format_from_timestamp :: "int \<Rightarrow> int \<Rightarrow> string option"
  regex_is_match :: "string \<Rightarrow> string \<Rightarrow> bool"
  to_lowercase :: "string \<Rightarrow> string"
  to_uppercase :: "string \<Rightarrow> string"

text \<open>A concrete instance for examples: numbers and ASCII letters, no dates, literal patterns.\<close>

definition sample_externals :: externals where
  "sample_externals = \<lparr>lex_i64 = parse_i64, lex_f64 = parse_f64, naive_date = (\<lambda>_ _. None),
     naive_datetime = (\<lambda>_ _. None), midnight = id, days_since_epoch = int, dt_secs = int,
     dt_millis = (\<lambda>d. 1000 * int d), dt_micros = (\<lambda>d. 1000000 * int d),
     dt_nanos_opt = (\<lambda>d. Some (1000000000 * int d)), format_epoch_days = (\<lambda>_. None),
     format_from_timestamp = (\<lambda>_ _. None), regex_is_match = (\<lambda>p s. str_contains s p),
     to_lowercase = lower_ascii,
     to_uppercase = map (\<lambda>c. if 97 \<le> byte_of c \<and> byte_of c \<le> 122 then char_of (byte_of c - 32) else c)\<rparr>"

section \<open>Values and types\<close>

datatype field_value =
    Str string
  | Int64 int
  | Float64 f64
  | Bool bool
  | Date32 int
  | Timestamp int
  | Null

fun as_str :: "field_value \<Rightarrow> string option" where
  "as_str (Str s) = Some s"
| "as_str _ = None"

datatype time_unit = Second | Millisecond | Microsecond | Nanosecond

datatype field_type =
    FT_String
  | FT_Int64
  | FT_Float64
  | FT_Boolean
  | FT_Dictionary
  | FT_Date32
  | FT_Timestamp time_unit "string option"
  | FT_Decimal128 nat

definition micro_us :: string where
  "micro_us = [char_of (194::nat), char_of (181::nat), CHR ''s'']"

definition parse_unit :: "string \<Rightarrow> time_unit option" where
  "parse_unit u =
     (if u = '''' \<or> u = ''us'' \<or> u = micro_us then Some Microsecond
      else if u = ''s'' then Some Second
      else if u = ''ms'' then Some Millisecond
      else if u = ''ns'' then Some Nanosecond
      else None)"

definition parse_timestamp_spec :: "string \<Rightarrow> field_type option" where
  "parse_timestamp_spec s =
     (case strip_prefix ''timestamp'' s of None \<Rightarrow> None
      | Some rest \<Rightarrow>
         if rest = [] then Some (FT_Timestamp Microsecond None)
         else case Option.bind (strip_prefix ''['' rest) (strip_suffix '']'') of None \<Rightarrow> None
         | Some inner \<Rightarrow>
            (case (case split_once (CHR '','') inner of
                Some (unit, opt) \<Rightarrow>
                  (case strip_prefix ''format='' opt of None \<Rightarrow> None
                   | Some fmt \<Rightarrow> if fmt = [] then None else Some (unit, Some fmt))
              | None \<Rightarrow>
                  (case strip_prefix ''format='' inner of
                     Some fmt \<Rightarrow> if fmt = [] then None else Some (''us'', Some fmt)
                   | None \<Rightarrow> Some (inner, None)))
             of None \<Rightarrow> None
             | Some (unit_str, format) \<Rightarrow>
                 map_option (\<lambda>u. FT_Timestamp u format) (parse_unit unit_str)))"

definition field_type_from_str :: "string \<Rightarrow> string + field_type" where
  "field_type_from_str s =
     (if s = ''string'' then Inr FT_String
      else if s = ''int64'' then Inr FT_Int64
      else if s = ''float64'' then Inr FT_Float64
      else if s = ''bool'' \<or> s = ''boolean'' then Inr FT_Boolean
      else if s = ''dictionary'' then Inr FT_Dictionary
      else if s = ''date32'' then Inr FT_Date32
      else if starts_with s ''timestamp'' then
        (case parse_timestamp_spec s of
           Some t \<Rightarrow> Inr t | None \<Rightarrow> Inl (''invalid timestamp spec: '' @ s))
      else if s = ''decimal128'' then Inr (FT_Decimal128 18)
      else if starts_with s ''decimal128('' then
        (case Option.bind (strip_prefix ''decimal128('' s) (strip_suffix '')'') of
           None \<Rightarrow> Inl (''invalid decimal128 spec: '' @ s)
         | Some inner \<Rightarrow>
             (case parse_u8 inner of
                None \<Rightarrow> Inl (''invalid decimal128 scale: '' @ inner)
              | Some scale \<Rightarrow>
                  if 38 < scale then Inl (''decimal128 scale exceeds 38: '' @ nat_to_string scale)
                  else Inr (FT_Decimal128 scale)))
      else Inl (''unknown field type: '' @ s))"

section \<open>Filter predicates\<close>

datatype compare_op = Gt | Lt | Ge | Le | Eq | Ne

datatype arith_op = Add | Sub | Mul | Div

datatype trim_mode = Both | Start | End

definition arith_op_from_str :: "string \<Rightarrow> arith_op option" where
  "arith_op_from_str s =
     (if s = ''+'' \<or> s = ''add'' then Some Add
      else if s = ''-'' \<or> s = ''sub'' then Some Sub
      else if s = ''*'' \<or> s = ''mul'' then Some Mul
      else if s = ''/'' \<or> s = ''div'' then Some Div
      else None)"

definition compare_op_from_str :: "string \<Rightarrow> compare_op option" where
  "compare_op_from_str s =
     (if s = ''>'' \<or> s = ''gt'' then Some Gt
      else if s = ''<'' \<or> s = ''lt'' then Some Lt
      else if s = ''>='' \<or> s = ''ge'' then Some Ge
      else if s = ''<='' \<or> s = ''le'' then Some Le
      else if s = ''=='' \<or> s = ''eq'' then Some Eq
      else if s = ''!='' \<or> s = ''ne'' then Some Ne
      else None)"

text \<open>A \<open>RegexSpec\<close> is its pattern: equality uses the pattern only, matching is external.\<close>

datatype filter_predicate =
    NotEqual string string
  | Equal string string
  | Compare string compare_op string
  | CompareLiteral string compare_op string
  | StartsWith string string
  | EndsWith string string
  | In string "string list"
  | NotIn string "string list"
  | Always bool
  | NotField string
  | ArithmeticCompare string arith_op f64 compare_op string
  | Strip string compare_op string trim_mode
  | Lower string compare_op string
  | Upper string compare_op string
  | Replace string string string compare_op string
  | Length string compare_op string
  | Contains string string
  | IsNull string
  | IsType string field_type
  | Regex string string
  | And filter_predicate filter_predicate
  | Or filter_predicate filter_predicate
  | Not filter_predicate

section \<open>The execution plan\<close>

record execution_plan =
  field_map :: "(string, string) hmap"
  drop_fields :: "string list"
  field_types :: "(string, field_type) hmap"
  dictionary_columns :: "string list"
  plan_filter :: "filter_predicate option"
  schema_order :: "string list"
  auto_dict :: bool
  dict_threshold :: "f64 option"
  dict_max_size :: "nat option"
  strict_types :: bool
  max_split_chunks :: "nat option"
  min_chunk_bytes :: "nat option"
  observer :: bool

definition plan_new :: execution_plan where
  "plan_new = \<lparr>field_map = [], drop_fields = [], field_types = [], dictionary_columns = [],
     plan_filter = None, schema_order = [], auto_dict = False, dict_threshold = None,
     dict_max_size = None, strict_types = False, max_split_chunks = None,
     min_chunk_bytes = None, observer = False\<rparr>"

definition plan_rename :: "execution_plan \<Rightarrow> string \<Rightarrow> string \<Rightarrow> execution_plan" where
  "plan_rename p raw output = p\<lparr>field_map := AList.update raw output (field_map p)\<rparr>"

definition plan_drop :: "execution_plan \<Rightarrow> string \<Rightarrow> execution_plan" where
  "plan_drop p f = p\<lparr>drop_fields := List.insert f (drop_fields p)\<rparr>"

definition plan_drop_many :: "execution_plan \<Rightarrow> string list \<Rightarrow> execution_plan" where
  "plan_drop_many p fs = p\<lparr>drop_fields := fold List.insert fs (drop_fields p)\<rparr>"

definition plan_type_as :: "execution_plan \<Rightarrow> string \<Rightarrow> field_type \<Rightarrow> execution_plan" where
  "plan_type_as p f t = p\<lparr>field_types := AList.update f t (field_types p)\<rparr>"

definition plan_dictionary :: "execution_plan \<Rightarrow> string \<Rightarrow> execution_plan" where
  "plan_dictionary p f = p\<lparr>dictionary_columns := List.insert f (dictionary_columns p)\<rparr>"

definition plan_filter_eq :: "execution_plan \<Rightarrow> string \<Rightarrow> string \<Rightarrow> execution_plan" where
  "plan_filter_eq p f v = p\<lparr>plan_filter := Some (Equal f v)\<rparr>"

definition plan_filter_ne :: "execution_plan \<Rightarrow> string \<Rightarrow> string \<Rightarrow> execution_plan" where
  "plan_filter_ne p f v = p\<lparr>plan_filter := Some (NotEqual f v)\<rparr>"

definition plan_filter_compare ::
    "execution_plan \<Rightarrow> string \<Rightarrow> compare_op \<Rightarrow> string \<Rightarrow> execution_plan" where
  "plan_filter_compare p a op b = p\<lparr>plan_filter := Some (Compare a op b)\<rparr>"

definition plan_schema_order :: "execution_plan \<Rightarrow> string list \<Rightarrow> execution_plan" where
  "plan_schema_order p order = p\<lparr>schema_order := order\<rparr>"

definition plan_with_auto_dict :: "execution_plan \<Rightarrow> bool \<Rightarrow> execution_plan" where
  "plan_with_auto_dict p yes = p\<lparr>auto_dict := yes\<rparr>"

definition plan_with_dict_threshold :: "execution_plan \<Rightarrow> f64 \<Rightarrow> execution_plan" where
  "plan_with_dict_threshold p t = p\<lparr>dict_threshold := Some t\<rparr>"

definition plan_with_dict_max_size :: "execution_plan \<Rightarrow> nat \<Rightarrow> execution_plan" where
  "plan_with_dict_max_size p n = p\<lparr>dict_max_size := Some n\<rparr>"

definition plan_with_strict_types :: "execution_plan \<Rightarrow> bool \<Rightarrow> execution_plan" where
  "plan_with_strict_types p yes = p\<lparr>strict_types := yes\<rparr>"

definition plan_with_max_split_chunks :: "execution_plan \<Rightarrow> nat \<Rightarrow> execution_plan" where
  "plan_with_max_split_chunks p cap = p\<lparr>max_split_chunks := Some cap\<rparr>"

definition plan_with_min_chunk_bytes :: "execution_plan \<Rightarrow> nat \<Rightarrow> execution_plan" where
  "plan_with_min_chunk_bytes p bytes = p\<lparr>min_chunk_bytes := Some (max bytes 1)\<rparr>"

definition plan_with_observer :: "execution_plan \<Rightarrow> execution_plan" where
  "plan_with_observer p = p\<lparr>observer := True\<rparr>"

definition column_type :: "execution_plan \<Rightarrow> string \<Rightarrow> field_type" where
  "column_type p name =
     (case map_of (field_types p) name of
        Some ft \<Rightarrow> ft
      | None \<Rightarrow> if name \<in> set (dictionary_columns p) then FT_Dictionary else FT_String)"

text \<open>The rename step alone: \<open>resolve\<close> of plan/predicate.rs and \<open>ren\<close> of plan.rs.\<close>

definition renamed :: "execution_plan \<Rightarrow> string \<Rightarrow> string" where
  "renamed p f = (case map_of (field_map p) f of Some r \<Rightarrow> r | None \<Rightarrow> f)"

text \<open>The raw field names a predicate mentions, left to right.\<close>

fun pred_matches :: "execution_plan \<Rightarrow> string \<Rightarrow> filter_predicate \<Rightarrow> bool" where
  "pred_matches p r (Equal f _) = (renamed p f = r)"
| "pred_matches p r (NotEqual f _) = (renamed p f = r)"
| "pred_matches p r (CompareLiteral f _ _) = (renamed p f = r)"
| "pred_matches p r (StartsWith f _) = (renamed p f = r)"
| "pred_matches p r (EndsWith f _) = (renamed p f = r)"
| "pred_matches p r (In f _) = (renamed p f = r)"
| "pred_matches p r (NotIn f _) = (renamed p f = r)"
| "pred_matches p r (NotField f) = (renamed p f = r)"
| "pred_matches p r (ArithmeticCompare f _ _ _ _) = (renamed p f = r)"
| "pred_matches p r (Strip f _ _ _) = (renamed p f = r)"
| "pred_matches p r (Lower f _ _) = (renamed p f = r)"
| "pred_matches p r (Upper f _ _) = (renamed p f = r)"
| "pred_matches p r (Replace f _ _ _ _) = (renamed p f = r)"
| "pred_matches p r (Length f _ _) = (renamed p f = r)"
| "pred_matches p r (Contains f _) = (renamed p f = r)"
| "pred_matches p r (IsNull f) = (renamed p f = r)"
| "pred_matches p r (IsType f _) = (renamed p f = r)"
| "pred_matches p r (Regex f _) = (renamed p f = r)"
| "pred_matches p r (Always _) = False"
| "pred_matches p r (Compare a _ b) = (renamed p a = r \<or> renamed p b = r)"
| "pred_matches p r (And a b) = (pred_matches p r a \<or> pred_matches p r b)"
| "pred_matches p r (Or a b) = (pred_matches p r a \<or> pred_matches p r b)"
| "pred_matches p r (Not a) = pred_matches p r a"

definition filter_references :: "execution_plan \<Rightarrow> string \<Rightarrow> bool" where
  "filter_references p r = (case plan_filter p of None \<Rightarrow> False | Some f \<Rightarrow> pred_matches p r f)"

definition resolve_field :: "execution_plan \<Rightarrow> string \<Rightarrow> string option" where
  "resolve_field p raw =
     (let resolved = renamed p raw
      in if resolved \<in> set (drop_fields p) then None
         else if schema_order p \<noteq> [] \<and> resolved \<notin> set (schema_order p)
                 \<and> \<not> filter_references p resolved then None
         else Some resolved)"

lemma resolve_field_Some:
  "resolve_field p raw = Some r \<longleftrightarrow>
     r = renamed p raw \<and> r \<notin> set (drop_fields p) \<and>
     (schema_order p = [] \<or> r \<in> set (schema_order p) \<or> filter_references p r)"
  by (auto simp: resolve_field_def Let_def)

lemma resolve_field_trivial:
  "field_map p = [] \<Longrightarrow> drop_fields p = [] \<Longrightarrow> schema_order p = [] \<Longrightarrow> resolve_field p n = Some n"
  by (simp add: resolve_field_def renamed_def Let_def)

section \<open>The predicate's field names\<close>

text \<open>\<open>TableBuilder::collect_predicate_field_names\<close>: \<open>resolve_field(f).unwrap_or(f)\<close> of every field.\<close>

definition resolve_or_raw :: "execution_plan \<Rightarrow> string \<Rightarrow> string" where
  "resolve_or_raw p f = (case resolve_field p f of Some r \<Rightarrow> r | None \<Rightarrow> f)"

fun collect_predicate_field_names ::
    "execution_plan \<Rightarrow> filter_predicate \<Rightarrow> string list \<Rightarrow> string list" where
  "collect_predicate_field_names p (Equal f _) names = names @ [resolve_or_raw p f]"
| "collect_predicate_field_names p (NotEqual f _) names = names @ [resolve_or_raw p f]"
| "collect_predicate_field_names p (CompareLiteral f _ _) names = names @ [resolve_or_raw p f]"
| "collect_predicate_field_names p (StartsWith f _) names = names @ [resolve_or_raw p f]"
| "collect_predicate_field_names p (EndsWith f _) names = names @ [resolve_or_raw p f]"
| "collect_predicate_field_names p (In f _) names = names @ [resolve_or_raw p f]"
| "collect_predicate_field_names p (NotIn f _) names = names @ [resolve_or_raw p f]"
| "collect_predicate_field_names p (NotField f) names = names @ [resolve_or_raw p f]"
| "collect_predicate_field_names p (ArithmeticCompare f _ _ _ _) names = names @ [resolve_or_raw p f]"
| "collect_predicate_field_names p (Strip f _ _ _) names = names @ [resolve_or_raw p f]"
| "collect_predicate_field_names p (Lower f _ _) names = names @ [resolve_or_raw p f]"
| "collect_predicate_field_names p (Upper f _ _) names = names @ [resolve_or_raw p f]"
| "collect_predicate_field_names p (Replace f _ _ _ _) names = names @ [resolve_or_raw p f]"
| "collect_predicate_field_names p (Length f _ _) names = names @ [resolve_or_raw p f]"
| "collect_predicate_field_names p (Contains f _) names = names @ [resolve_or_raw p f]"
| "collect_predicate_field_names p (IsNull f) names = names @ [resolve_or_raw p f]"
| "collect_predicate_field_names p (IsType f _) names = names @ [resolve_or_raw p f]"
| "collect_predicate_field_names p (Regex f _) names = names @ [resolve_or_raw p f]"
| "collect_predicate_field_names p (Always _) names = names"
| "collect_predicate_field_names p (Compare a _ b) names =
     names @ [resolve_or_raw p a, resolve_or_raw p b]"
| "collect_predicate_field_names p (And a b) names =
     collect_predicate_field_names p b (collect_predicate_field_names p a names)"
| "collect_predicate_field_names p (Or a b) names =
     collect_predicate_field_names p b (collect_predicate_field_names p a names)"
| "collect_predicate_field_names p (Not a) names = collect_predicate_field_names p a names"

text \<open>The raw names a predicate mentions.\<close>

fun pred_fields :: "filter_predicate \<Rightarrow> string set" where
  "pred_fields (Equal f _) = {f}"
| "pred_fields (NotEqual f _) = {f}"
| "pred_fields (CompareLiteral f _ _) = {f}"
| "pred_fields (StartsWith f _) = {f}"
| "pred_fields (EndsWith f _) = {f}"
| "pred_fields (In f _) = {f}"
| "pred_fields (NotIn f _) = {f}"
| "pred_fields (NotField f) = {f}"
| "pred_fields (ArithmeticCompare f _ _ _ _) = {f}"
| "pred_fields (Strip f _ _ _) = {f}"
| "pred_fields (Lower f _ _) = {f}"
| "pred_fields (Upper f _ _) = {f}"
| "pred_fields (Replace f _ _ _ _) = {f}"
| "pred_fields (Length f _ _) = {f}"
| "pred_fields (Contains f _) = {f}"
| "pred_fields (IsNull f) = {f}"
| "pred_fields (IsType f _) = {f}"
| "pred_fields (Regex f _) = {f}"
| "pred_fields (Always _) = {}"
| "pred_fields (Compare a _ b) = {a, b}"
| "pred_fields (And a b) = pred_fields a \<union> pred_fields b"
| "pred_fields (Or a b) = pred_fields a \<union> pred_fields b"
| "pred_fields (Not a) = pred_fields a"

lemma pred_matches_fields: "pred_matches p r f \<longleftrightarrow> r \<in> renamed p ` pred_fields f"
  by (induction f) auto

lemma collect_names_fields:
  "set (collect_predicate_field_names p f names) = set names \<union> resolve_or_raw p ` pred_fields f"
  by (induction f arbitrary: names) auto

lemma resolve_pred_field:
  assumes "plan_filter p = Some f" "x \<in> pred_fields f"
  shows "resolve_field p x = (if renamed p x \<in> set (drop_fields p) then None else Some (renamed p x))"
  using assms by (auto simp: resolve_field_def Let_def filter_references_def pred_matches_fields)

text \<open>
  A field the row filter mentions survives the schema projection exactly when its output
  name is not dropped, so the predicate sees every column it needs.
\<close>

theorem filter_field_survives_projection:
  assumes "plan_filter p = Some f" "x \<in> pred_fields f"
  shows "resolve_field p x = Some (renamed p x) \<longleftrightarrow> renamed p x \<notin> set (drop_fields p)"
  using resolve_pred_field [OF assms] by simp

theorem filter_field_survives_projection_witness:
  "resolve_field ((plan_schema_order plan_new [''b''])\<lparr>plan_filter := Some (Equal ''a'' ''x'')\<rparr>) ''a'' = Some ''a''"
proof -
  let ?p = "(plan_schema_order plan_new [''b''])\<lparr>plan_filter := Some (Equal ''a'' ''x'')\<rparr>"
  have "plan_filter ?p = Some (Equal ''a'' ''x'')" "''a'' \<in> pred_fields (Equal ''a'' ''x'')" by simp_all
  from filter_field_survives_projection [OF this] show ?thesis
    by (simp add: renamed_def plan_schema_order_def plan_new_def)
qed

end
