(* ===== verification/Scalar.thy ===== *)
theory Scalar
  imports Plan
begin

text \<open>
  Scalar parsing and printing (columnar/scalar_parse.rs) and the decimal comparison of
  plan/predicate.rs: decimals as scaled \<open>i128\<close> values, dates and timestamps over chrono.
\<close>

section \<open>Decimals\<close>

definition POW10_MAX :: nat where
  "POW10_MAX = 38"

definition i128_checked_pow10 :: "nat \<Rightarrow> int option" where
  "i128_checked_pow10 n = i128_checked (10 ^ n)"

definition parse_decimal_parts :: "string \<Rightarrow> string \<Rightarrow> nat \<Rightarrow> int option" where
  "parse_decimal_parts int_part frac_part scale =
     (if int_part = [] \<and> frac_part = [] then None
      else if \<not> list_all is_ascii_digit (int_part @ frac_part) then None
      else Option.bind (if int_part = [] then Some 0 else parse_i128 int_part) (\<lambda>int_val.
        Option.bind (i128_checked_pow10 scale) (\<lambda>p.
        Option.bind (i128_checked (int_val * p)) (\<lambda>val.
          if frac_part = [] then Some val
          else let digits = take (min (length frac_part) scale) frac_part
               in if digits = [] then Some val
                  else Option.bind (parse_i128 digits) (\<lambda>frac.
                    Option.bind (i128_checked_pow10 (scale - length digits)) (\<lambda>q.
                    Option.bind (i128_checked (frac * q)) (\<lambda>frac_scaled.
                      i128_checked (val + frac_scaled))))))))"

definition parse_decimal128 :: "string \<Rightarrow> nat \<Rightarrow> int option" where
  "parse_decimal128 s0 scale =
     (let s1 = trim s0;
          (neg, s) = (case strip_prefix ''-'' s1 of Some rest \<Rightarrow> (True, rest)
                      | None \<Rightarrow> (False, case strip_prefix ''+'' s1 of Some r \<Rightarrow> r | None \<Rightarrow> s1));
          (int_part, frac_part) = (case split_once (CHR ''.'') s of Some p \<Rightarrow> p | None \<Rightarrow> (s, []))
      in map_option (\<lambda>val. if neg then - val else val) (parse_decimal_parts int_part frac_part scale))"

definition format_decimal128 :: "int \<Rightarrow> nat \<Rightarrow> string" where
  "format_decimal128 v scale =
     (if scale = 0 then int_to_string v
      else let sign = (if v < 0 then ''-'' else '''');
               ds = nat_to_string (nat \<bar>v\<bar>);
               digits = (if length ds \<le> scale then replicate (scale + 1 - length ds) (CHR ''0'') @ ds
                         else ds);
               split = length digits - scale
           in sign @ take split digits @ ''.'' @ drop split digits)"

text \<open>\<open>compare_decimal128\<close> compares the decimal digits, padded with zeros to a common scale.\<close>

definition digit_or_zero :: "string \<Rightarrow> nat \<Rightarrow> nat" where
  "digit_or_zero s i = (case idx s i of Some c \<Rightarrow> byte_of c | None \<Rightarrow> 48)"

definition compare_decimal128 :: "int \<Rightarrow> nat \<Rightarrow> int \<Rightarrow> nat \<Rightarrow> ordering" where
  "compare_decimal128 a a_scale b b_scale =
     (if a = 0 \<or> b = 0 \<or> a_scale = b_scale then cmp_ord a b
      else if a < 0 \<and> \<not> b < 0 then OLess
      else if \<not> a < 0 \<and> b < 0 then OGreater
      else let scale = max a_scale b_scale;
               as = nat_to_string (nat \<bar>a\<bar>); bs = nat_to_string (nat \<bar>b\<bar>);
               a_len = length as + scale - a_scale;
               b_len = length bs + scale - b_scale;
               width = max a_len b_len;
               order = then_with (cmp_ord a_len b_len)
                         (lex_cmp (map (digit_or_zero as) [0..<width])
                                  (map (digit_or_zero bs) [0..<width]))
           in if a < 0 then reverse_ordering order else order)"

subsection \<open>The comparison is the comparison of the scaled numbers\<close>

lemma digit_or_zero_pad:
  assumes "width = length s + k"
  shows "map (digit_or_zero s) [0..<width] = map byte_of (s @ replicate k (CHR ''0''))"
proof (rule nth_equalityI)
  fix i
  assume "i < length (map (digit_or_zero s) [0..<width])"
  with assms show "map (digit_or_zero s) [0..<width] ! i = map byte_of (s @ replicate k (CHR ''0'')) ! i"
    by (auto simp: digit_or_zero_def idx_def nth_append byte_of_def split: if_splits)
qed (use assms in simp)

lemma digits_order_by_length:
  assumes "0 < m" "0 < n" "length (nat_to_string m) + j < length (nat_to_string n) + k"
  shows "m * 10 ^ j < n * 10 ^ k"
proof -
  let ?lm = "length (nat_to_string m)" and ?ln = "length (nat_to_string n)"
  have "m * 10 ^ j < 10 ^ (?lm + j)"
    using nat_to_string_upper [of m] by (simp add: power_add)
  also have "\<dots> \<le> 10 ^ (?ln - 1 + k)"
    using assms(3) nat_to_string_nonempty [of n]
    by (intro power_increasing) (auto simp: Suc_le_eq length_greater_0_conv simp del: nat_to_string_nonempty)
  also have "\<dots> \<le> n * 10 ^ k"
    using nat_to_string_lower [OF assms(2)] by (simp add: power_add)
  finally show ?thesis .
qed

lemma decimal_digits_order:
  fixes m n j k :: nat
  assumes "0 < m" "0 < n"
  defines "a_len \<equiv> length (nat_to_string m) + j" and "b_len \<equiv> length (nat_to_string n) + k"
  shows "then_with (cmp_ord a_len b_len)
           (lex_cmp (map (digit_or_zero (nat_to_string m)) [0..<max a_len b_len])
                    (map (digit_or_zero (nat_to_string n)) [0..<max a_len b_len]))
         = cmp_ord (m * 10 ^ j) (n * 10 ^ k)"
proof (cases a_len b_len rule: linorder_cases)
  case less
  with digits_order_by_length [OF assms(1,2), of j k] show ?thesis
    by (simp add: then_with_def a_len_def b_len_def cmp_ord_def)
next
  case greater
  with digits_order_by_length [OF assms(2,1), of k j] show ?thesis
    by (simp add: then_with_def a_len_def b_len_def cmp_ord_def)
next
  case equal
  let ?s = "nat_to_string m @ replicate j (CHR ''0'')"
  let ?t = "nat_to_string n @ replicate k (CHR ''0'')"
  have w: "max a_len b_len = length (nat_to_string m) + j" "max a_len b_len = length (nat_to_string n) + k"
    using equal by (simp_all add: a_len_def b_len_def)
  have digits: "list_all is_ascii_digit ?s" "list_all is_ascii_digit ?t"
    by (auto simp: list_all_length is_ascii_digit_def byte_of_def)
       (use nat_to_string_digits in \<open>auto simp: nth_append list_all_length is_ascii_digit_def byte_of_def\<close>)
  have "lex_cmp (map (digit_or_zero (nat_to_string m)) [0..<max a_len b_len])
                (map (digit_or_zero (nat_to_string n)) [0..<max a_len b_len])
        = lex_cmp (map byte_of ?s) (map byte_of ?t)"
    unfolding digit_or_zero_pad [OF w(1)] digit_or_zero_pad [OF w(2)] ..
  also have "\<dots> = cmp_ord (digits_val ?s) (digits_val ?t)"
    using equal digits by (intro lex_cmp_digits) (simp_all add: a_len_def b_len_def)
  finally show ?thesis
    using equal by (simp add: then_with_def digits_val_pad)
qed

text \<open>
  Comparing two decimals digit by digit gives the order of the numbers themselves: the
  result of \<open>compare_decimal128\<close> is the order of \<open>a\<close> and \<open>b\<close> brought to the larger scale,
  with no bound on the scales and no intermediate product that could overflow.
\<close>

theorem compare_decimal128_correct:
  "compare_decimal128 a sa b sb =
     cmp_ord (a * 10 ^ (max sa sb - sa)) (b * 10 ^ (max sa sb - sb))"
proof -
  let ?A = "a * 10 ^ (max sa sb - sa)" and ?B = "b * 10 ^ (max sa sb - sb)"
  let ?m = "nat \<bar>a\<bar>" and ?n = "nat \<bar>b\<bar>"
  consider (easy) "a = 0 \<or> b = 0 \<or> sa = sb" | (nn) "0 < a" "0 < b" "sa \<noteq> sb"
    | (neg) "a < 0" "b < 0" "sa \<noteq> sb" | (mixed) "a < 0" "0 < b" "sa \<noteq> sb" | (mixed') "0 < a" "b < 0" "sa \<noteq> sb"
    by linarith
  then show ?thesis
  proof cases
    case easy
    then show ?thesis
      by (auto simp: compare_decimal128_def cmp_ord_def zero_less_mult_iff mult_less_0_iff)
  next
    case mixed
    then have "?A < 0" "0 < ?B" by (simp_all add: mult_neg_pos)
    then have "cmp_ord ?A ?B = OLess" by (simp add: less_trans [of ?A 0 ?B])
    moreover from mixed have "compare_decimal128 a sa b sb = OLess"
      by (simp add: compare_decimal128_def)
    ultimately show ?thesis by (simp only:)
  next
    case mixed'
    then have "?B < 0" "0 < ?A" by (simp_all add: mult_neg_pos)
    then have "cmp_ord ?A ?B = OGreater" by (simp add: less_trans [of ?B 0 ?A])
    moreover from mixed' have "compare_decimal128 a sa b sb = OGreater"
      by (simp add: compare_decimal128_def)
    ultimately show ?thesis by (simp only:)
  next
    case nn
    have "compare_decimal128 a sa b sb =
            cmp_ord (?m * 10 ^ (max sa sb - sa)) (?n * 10 ^ (max sa sb - sb))"
      using nn decimal_digits_order [of ?m ?n "max sa sb - sa" "max sa sb - sb"]
      by (simp add: compare_decimal128_def Let_def)
    also have "\<dots> = cmp_ord (int (?m * 10 ^ (max sa sb - sa))) (int (?n * 10 ^ (max sa sb - sb)))"
      by (simp only: cmp_ord_def of_nat_less_iff of_nat_eq_iff)
    also have "\<dots> = cmp_ord ?A ?B" using nn by simp
    finally show ?thesis .
  next
    case neg
    have "compare_decimal128 a sa b sb =
            reverse_ordering (cmp_ord (?m * 10 ^ (max sa sb - sa)) (?n * 10 ^ (max sa sb - sb)))"
      using neg decimal_digits_order [of ?m ?n "max sa sb - sa" "max sa sb - sb"]
      by (simp add: compare_decimal128_def Let_def)
    also have "\<dots> = cmp_ord (int (?n * 10 ^ (max sa sb - sb))) (int (?m * 10 ^ (max sa sb - sa)))"
      unfolding reverse_cmp_ord by (simp only: cmp_ord_def of_nat_less_iff of_nat_eq_iff)
    also have "\<dots> = cmp_ord (- ?B) (- ?A)" using neg by simp
    also have "\<dots> = cmp_ord ?A ?B" by (simp only: cmp_ord_def neg_less_iff_less neg_equal_iff_equal eq_commute)
    finally show ?thesis .
  qed
qed

subsection \<open>Parsing\<close>

lemma pow10_range: "scale \<le> POW10_MAX \<Longrightarrow> i128_range (10 ^ scale)"
proof -
  assume "scale \<le> POW10_MAX"
  then have "(10::int) ^ scale \<le> 10 ^ 38" by (intro power_increasing) (auto simp: POW10_MAX_def)
  then show ?thesis by (simp add: i128_range_def) (smt (verit) zero_le_power)
qed

lemma i128_bind: "Option.bind (i128_checked x) f = (if i128_range x then f x else None)"
  by (simp add: i128_checked_def)

lemma i128_checked_nonneg:
  "i128_checked (int a * 10 ^ m + int b * 10 ^ n) =
     (if int a * 10 ^ m + int b * 10 ^ n < 2 ^ 127 then Some (int a * 10 ^ m + int b * 10 ^ n) else None)"
proof -
  have "0 \<le> int a * 10 ^ m + int b * 10 ^ n" by simp
  then have "- (2 ^ 127) \<le> int a * 10 ^ m + int b * 10 ^ n" by (rule order_trans [rotated]) simp
  then show ?thesis by (simp only: i128_checked_def i128_range_def) simp
qed

lemma parse_decimal_parts_spec:
  fixes ip fp :: string and scale :: nat
  assumes digits: "list_all is_ascii_digit (ip @ fp)" and ne: "ip \<noteq> [] \<or> fp \<noteq> []"
    and scale: "scale \<le> POW10_MAX"
  defines "k \<equiv> min (length fp) scale"
  defines "v \<equiv> int (digits_val ip) * 10 ^ scale + int (digits_val (take k fp)) * 10 ^ (scale - k)"
  shows "parse_decimal_parts ip fp scale = i128_checked v"
proof -
  obtain D where D: "take k fp = D" by simp
  have lD: "length D = k" and D0: "fp = [] \<Longrightarrow> D = []" by (auto simp: D [symmetric] k_def)
  have dip: "list_all is_ascii_digit ip" using digits by simp
  have dD: "list_all is_ascii_digit D"
    using digits D by (metis append_take_drop_id list_all_append)
  let ?i = "int (digits_val ip)" and ?f = "int (digits_val D)"
  have ipv: "(if ip = [] then Some 0 else parse_i128 ip) = i128_checked ?i"
    using dip by (cases "ip = []") (simp_all add: parse_i128_def parse_signed_digits i128_checked_def i128_range_def)
  have fv: "D \<noteq> [] \<Longrightarrow> parse_i128 D = i128_checked ?f"
    using dD by (simp add: parse_i128_def parse_signed_digits i128_checked_def)
  have p: "i128_checked_pow10 n = Some (10 ^ n)" if "n \<le> scale" for n
    using pow10_range [of n] that scale by (simp add: i128_checked_pow10_def)
  have unfolded: "parse_decimal_parts ip fp scale =
      Option.bind (i128_checked ?i) (\<lambda>i. Option.bind (i128_checked (i * 10 ^ scale)) (\<lambda>val.
        if D = [] then Some val
        else Option.bind (i128_checked ?f) (\<lambda>f. Option.bind (i128_checked (f * 10 ^ (scale - k)))
               (\<lambda>x. i128_checked (val + x)))))"
    unfolding parse_decimal_parts_def ipv p [OF order_refl] k_def [symmetric] D Let_def lD
    using ne digits D0 fv p [of "scale - k"] by (auto intro!: arg_cong2 [where f = Option.bind] ext)
  have v: "v = ?i * 10 ^ scale + ?f * 10 ^ (scale - k)" by (simp add: v_def D)
  have pos: "(1::int) \<le> 10 ^ scale" "(1::int) \<le> 10 ^ (scale - k)" by simp_all
  have le: "?i \<le> ?i * 10 ^ scale" "?f \<le> ?f * 10 ^ (scale - k)"
    using pos by (simp_all add: mult_le_cancel_left1)
  have nonneg: "0 \<le> ?i" "0 \<le> ?f" "0 \<le> ?i * 10 ^ scale" "0 \<le> ?f * 10 ^ (scale - k)" by simp_all
  have ok: "i128_checked x = Some x" if "i128_range v" "0 \<le> x" "x \<le> v" for x
    using that by (auto simp: i128_range_def)
  show ?thesis
  proof (cases "i128_range v")
    case True
    have c: "i128_checked ?i = Some ?i" "i128_checked (?i * 10 ^ scale) = Some (?i * 10 ^ scale)"
      "i128_checked ?f = Some ?f" "i128_checked (?f * 10 ^ (scale - k)) = Some (?f * 10 ^ (scale - k))"
      "i128_checked v = Some v"
      by (rule ok [OF True]; use le nonneg v in linarith)+
    show ?thesis
    proof (cases "D = []")
      case True
      with v have "v = ?i * 10 ^ scale" by simp
      with True c show ?thesis unfolding unfolded by (simp only: c bind.simps if_True refl)
    next
      case False
      then show ?thesis unfolding unfolded by (simp only: c bind.simps if_False v [symmetric])
    qed
  next
    case False
    then have none: "i128_checked v = None" by (simp add: i128_checked_def)
    have "D = [] \<Longrightarrow> v = ?i * 10 ^ scale" using v by simp
    with False show ?thesis
      unfolding unfolded none by (auto simp: i128_bind i128_checked_def v)
  qed
qed

definition signed :: "bool \<Rightarrow> string" where
  "signed neg = (if neg then ''-'' else '''')"

lemma ws_prefix_ascii:
  assumes "bs \<noteq> []" "hd bs < 128" "\<not> (9 \<le> hd bs \<and> hd bs \<le> 13)" "hd bs \<noteq> 32"
  shows "ws_prefix bs = 0"
  using assms by (cases bs rule: ws_prefix.cases) auto

lemma ws_suffix_ascii:
  assumes "bs \<noteq> []" "hd bs < 128" "\<not> (9 \<le> hd bs \<and> hd bs \<le> 13)" "hd bs \<noteq> 32"
  shows "ws_suffix_rev bs = 0"
  using assms by (cases bs rule: ws_suffix_rev.cases) auto

lemma trim_id:
  assumes "s \<noteq> []" "33 \<le> byte_of (hd s)" "byte_of (hd s) < 128" "33 \<le> byte_of (last s)" "byte_of (last s) < 128"
  shows "trim s = s"
proof -
  have "ws_prefix (map byte_of s) = 0"
    using assms by (intro ws_prefix_ascii) (auto simp: hd_map)
  moreover have "ws_suffix_rev (map byte_of (rev s)) = 0"
    using assms by (intro ws_suffix_ascii) (auto simp: hd_map hd_rev)
  ultimately show ?thesis by (simp add: trim_def trim_start_id trim_end_id)
qed

lemma parse_decimal128_signed:
  assumes digits: "list_all is_ascii_digit (ip @ fp)" and ip: "ip \<noteq> []"
  shows "parse_decimal128 (signed neg @ ip @ (if dot then ''.'' @ fp else [])) scale =
           map_option (\<lambda>v. if neg then - v else v)
             (parse_decimal_parts ip (if dot then fp else []) scale)"
proof -
  let ?body = "ip @ (if dot then ''.'' @ fp else [])"
  let ?s = "signed neg @ ?body"
  have ascii: "33 \<le> byte_of c \<and> byte_of c < 128" if "c \<in> set ?s" for c
  proof -
    from that consider "c = CHR ''-''" | "c = CHR ''.''" | "is_ascii_digit c"
      using digits by (auto simp: signed_def list_all_iff split: if_splits)
    then show ?thesis by cases (auto simp: byte_of_def is_ascii_digit_def)
  qed
  have ne: "?s \<noteq> []" using ip by simp
  have trim: "trim ?s = ?s"
    using ascii [OF hd_in_set [OF ne]] ascii [OF last_in_set [OF ne]] ne by (intro trim_id) simp_all
  obtain c r where c: "ip = c # r" "is_ascii_digit c" using ip digits by (cases ip) auto
  have sgn: "strip_prefix ''-'' ?body = None" "strip_prefix ''+'' ?body = None"
    using c by (auto simp: strip_prefix_def starts_with_def)
  have nodot: "CHR ''.'' \<notin> set ip"
    using digits not_digit_sign(3) by (auto simp: list_all_iff simp del: not_digit_sign)
  have split: "(case split_once (CHR ''.'') ?body of Some p \<Rightarrow> p | None \<Rightarrow> (?body, []))
      = (ip, if dot then fp else [])"
    using nodot split_once_append [OF nodot, of fp] split_once_None [of "CHR ''.''" ip]
    by (cases dot) simp_all
  have sn: "strip_prefix ''-'' (signed neg @ ?body) = (if neg then Some ?body else None)"
    using sgn(1) strip_prefix_append [of "''-''" ?body]
    by (cases neg) (simp_all only: signed_def if_True if_False append_Nil)
  show ?thesis
    unfolding parse_decimal128_def trim Let_def sn using split sgn by (cases neg) (simp_all add: signed_def)
qed

text \<open>
  A signed decimal literal with integer digits parses to the scaled integer of its
  digits, fraction digits beyond the scale cut off, and to nothing exactly when that value
  does not fit an \<open>i128\<close>.
\<close>

theorem parse_decimal128_value:
  assumes "list_all is_ascii_digit (ip @ fp)" "ip \<noteq> []" "scale \<le> POW10_MAX"
  shows "parse_decimal128 (signed neg @ ip @ ''.'' @ fp) scale =
    (let k = min (length fp) scale;
         v = int (digits_val ip) * 10 ^ scale + int (digits_val (take k fp)) * 10 ^ (scale - k)
     in if v < 2 ^ 127 then Some (if neg then - v else v) else None)"
proof -
  have "parse_decimal128 (signed neg @ ip @ ''.'' @ fp) scale =
      map_option (\<lambda>v. if neg then - v else v) (parse_decimal_parts ip fp scale)"
    using parse_decimal128_signed [OF assms(1,2), of neg True scale] by simp
  also have "\<dots> = (let k = min (length fp) scale;
         v = int (digits_val ip) * 10 ^ scale + int (digits_val (take k fp)) * 10 ^ (scale - k)
     in map_option (\<lambda>v. if neg then - v else v) (i128_checked v))"
    using parse_decimal_parts_spec [OF assms(1) disjI1 [OF assms(2)] assms(3)] by (simp only: Let_def)
  finally show ?thesis
    by (simp only: Let_def i128_checked_nonneg) (simp split: if_splits)
qed

theorem parse_decimal128_value_witness:
  "list_all is_ascii_digit (''12'' @ ''3456'') \<and>
   parse_decimal128 ''-12.3456'' 2 = Some (- 1234)"
proof -
  have d: "list_all is_ascii_digit (''12'' @ ''3456'')"
    by (simp add: is_ascii_digit_def byte_of_def)
  have v: "digits_val ''12'' = 12" "digits_val ''34'' = 34"
    by (simp_all add: digits_val_def digit_val_def byte_of_def)
  have "parse_decimal128 (signed True @ ''12'' @ ''.'' @ ''3456'') 2 = Some (- 1234)"
    using parse_decimal128_value [OF d, of 2 True] by (simp add: POW10_MAX_def v Let_def)
  with d show ?thesis by (simp add: signed_def)
qed

subsection \<open>Round trip\<close>

definition padded_digits :: "nat \<Rightarrow> nat \<Rightarrow> string" where
  "padded_digits n scale =
     (let ds = nat_to_string n
      in if length ds \<le> scale then replicate (scale + 1 - length ds) (CHR ''0'') @ ds else ds)"

lemma zero_digit [simp]: "is_ascii_digit (CHR ''0'')"
  by (simp add: is_ascii_digit_def byte_of_def)

lemma padded_digits:
  "list_all is_ascii_digit (padded_digits n scale)" "digits_val (padded_digits n scale) = n"
  "scale < length (padded_digits n scale)"
  by (auto simp: padded_digits_def Let_def digits_val_append list_all_iff)
     (use nat_to_string_digits in \<open>auto simp: list_all_iff\<close>)

lemma format_decimal128_shape:
  assumes "0 < scale"
  obtains ip fp where
    "format_decimal128 v scale = signed (v < 0) @ ip @ ''.'' @ fp" "ip \<noteq> []" "length fp = scale"
    "list_all is_ascii_digit (ip @ fp)" "digits_val (ip @ fp) = nat \<bar>v\<bar>"
proof
  let ?d = "padded_digits (nat \<bar>v\<bar>) scale" and ?k = "length (padded_digits (nat \<bar>v\<bar>) scale) - scale"
  show "format_decimal128 v scale = signed (v < 0) @ take ?k ?d @ ''.'' @ drop ?k ?d"
    using assms by (simp add: format_decimal128_def signed_def padded_digits_def Let_def)
  show "take ?k ?d \<noteq> []" "length (drop ?k ?d) = scale"
    using padded_digits(3) [of scale "nat \<bar>v\<bar>"] by auto
  show "list_all is_ascii_digit (take ?k ?d @ drop ?k ?d)" "digits_val (take ?k ?d @ drop ?k ?d) = nat \<bar>v\<bar>"
    using padded_digits by simp_all
qed

text \<open>
  C28. Printing a stored decimal and parsing it at the same scale gives the value back for every
  \<open>i128\<close> except \<open>i128::MIN\<close>, whose magnitude does not fit and which parses to nothing.
\<close>

theorem decimal128_roundtrip:
  assumes "i128_range v" "scale \<le> POW10_MAX"
  shows "parse_decimal128 (format_decimal128 v scale) scale = (if v = - (2 ^ 127) then None else Some v)"
proof -
  have fits: "(int (nat \<bar>v\<bar>) < 2 ^ 127) = (v \<noteq> - (2 ^ 127))"
    using assms(1) by (auto simp: i128_range_def)
  have same: "(if v < 0 then - int (nat \<bar>v\<bar>) else int (nat \<bar>v\<bar>)) = v" by simp
  show ?thesis
  proof (cases "scale = 0")
    case True
    have d: "list_all is_ascii_digit (nat_to_string (nat \<bar>v\<bar>) @ [])" by simp
    have "parse_decimal128 (format_decimal128 v scale) scale =
        map_option (\<lambda>x. if v < 0 then - x else x) (parse_decimal_parts (nat_to_string (nat \<bar>v\<bar>)) [] 0)"
      using parse_decimal128_signed [OF d, of "v < 0" False 0] True
      by (simp add: format_decimal128_def int_to_string_def signed_def)
    also have "parse_decimal_parts (nat_to_string (nat \<bar>v\<bar>)) [] 0 = i128_checked (int (nat \<bar>v\<bar>))"
      using parse_decimal_parts_spec [OF d, of 0] by simp
    finally show ?thesis
      using assms(1) fits by (auto simp: i128_checked_def i128_range_def)
  next
    case False
    then obtain ip fp where f: "format_decimal128 v scale = signed (v < 0) @ ip @ ''.'' @ fp"
      "ip \<noteq> []" "length fp = scale" "list_all is_ascii_digit (ip @ fp)" "digits_val (ip @ fp) = nat \<bar>v\<bar>"
      using format_decimal128_shape by blast
    have sum: "int (digits_val ip) * 10 ^ scale + int (digits_val fp) = int (nat \<bar>v\<bar>)"
      unfolding f(5) [symmetric] digits_val_append f(3) by simp
    show ?thesis
      unfolding f(1) parse_decimal128_value [OF f(4,2) assms(2)]
      by (simp only: Let_def f(3) min.idem diff_self_eq_0 power_0 mult_1_right take_all_iff [THEN iffD2] order_refl
            sum fits) (use same in auto)
  qed
qed

theorem decimal128_roundtrip_witness:
  "i128_range (- 1234) \<and> parse_decimal128 (format_decimal128 (- 1234) 2) 2 = Some (- 1234)"
proof -
  have r: "i128_range (- 1234)" by (simp add: i128_range_def)
  show ?thesis using r decimal128_roundtrip [OF r, of 2] by (simp add: POW10_MAX_def)
qed

section \<open>Dates and timestamps\<close>

definition parse_date32 :: "externals \<Rightarrow> string \<Rightarrow> int option" where
  "parse_date32 X s = map_option (\<lambda>d. as_i32 (days_since_epoch X d)) (naive_date X (trim s) ''%Y-%m-%d'')"

definition or_else :: "'a option \<Rightarrow> 'a option \<Rightarrow> 'a option" where
  "or_else a b = (case a of Some x \<Rightarrow> Some x | None \<Rightarrow> b)"

definition saturating_i64 :: "int \<Rightarrow> int" where
  "saturating_i64 x = max (- (2 ^ 63)) (min (2 ^ 63 - 1) x)"

definition parse_timestamp :: "externals \<Rightarrow> string \<Rightarrow> time_unit \<Rightarrow> string option \<Rightarrow> int option" where
  "parse_timestamp X s unit format =
     (let t = trim s;
          with_format = (case format of None \<Rightarrow> None
            | Some fmt \<Rightarrow> or_else (naive_datetime X t fmt) (map_option (midnight X) (naive_date X t fmt)));
          iso = or_else (naive_datetime X t ''%Y-%m-%dT%H:%M:%S%.f'')
                  (or_else (naive_datetime X t ''%Y-%m-%d %H:%M:%S%.f'')
                    (map_option (midnight X) (naive_date X t ''%Y-%m-%d'')))
      in map_option (\<lambda>dt. case unit of
             Second \<Rightarrow> dt_secs X dt
           | Millisecond \<Rightarrow> dt_millis X dt
           | Microsecond \<Rightarrow> dt_micros X dt
           | Nanosecond \<Rightarrow> (case dt_nanos_opt X dt of Some n \<Rightarrow> n
                            | None \<Rightarrow> saturating_i64 (dt_micros X dt * 1000)))
         (or_else with_format iso))"

definition format_date32 :: "externals \<Rightarrow> int \<Rightarrow> string" where
  "format_date32 X days = (case format_epoch_days X days of Some s \<Rightarrow> s | None \<Rightarrow> int_to_string days)"

text \<open>\<open>div_euclid\<close> and \<open>rem_euclid\<close> by a positive divisor are \<open>div\<close> and \<open>mod\<close> on \<open>int\<close>.\<close>

definition timestamp_parts :: "int \<Rightarrow> time_unit \<Rightarrow> int \<times> int" where
  "timestamp_parts v unit = (case unit of
       Second \<Rightarrow> (v, 0)
     | Millisecond \<Rightarrow> (v div 1000, v mod 1000 * 1000000)
     | Microsecond \<Rightarrow> (v div 1000000, v mod 1000000 * 1000)
     | Nanosecond \<Rightarrow> (v div 1000000000, v mod 1000000000))"

definition format_timestamp :: "externals \<Rightarrow> int \<Rightarrow> time_unit \<Rightarrow> string" where
  "format_timestamp X v unit =
     (let (secs, nanos) = timestamp_parts v unit
      in case format_from_timestamp X secs nanos of Some s \<Rightarrow> s | None \<Rightarrow> int_to_string v)"

definition units_per_second :: "time_unit \<Rightarrow> int" where
  "units_per_second u = (case u of Second \<Rightarrow> 1 | Millisecond \<Rightarrow> 1000 | Microsecond \<Rightarrow> 1000000
     | Nanosecond \<Rightarrow> 1000000000)"

lemma unit_split_exact:
  fixes v q r k m n :: int
  assumes "0 \<le> r" "r < k" "v = q * k + r" "k * m = n" "0 < m"
  shows "0 \<le> r * m \<and> r * m < n \<and> v * n = k * (q * n + r * m)"
proof -
  have "r * m < k * m" using assms(2,5) by simp
  moreover have "v * n = k * (q * n) + r * n" unfolding assms(3) by (simp add: algebra_simps)
  moreover have "r * n = k * (r * m)" unfolding assms(4) [symmetric] by (simp add: algebra_simps)
  ultimately show ?thesis using assms by (simp add: algebra_simps)
qed

text \<open>
  The seconds and nanoseconds a timestamp is printed from denote the same instant, and the
  nanosecond part always fits below one second, also for instants before the epoch.
\<close>

theorem timestamp_parts_exact:
  "case timestamp_parts v unit of (secs, nanos) \<Rightarrow>
     0 \<le> nanos \<and> nanos < 1000000000 \<and>
     v * 1000000000 = units_per_second unit * (secs * 1000000000 + nanos)"
proof -
  show ?thesis
  proof (cases unit)
    case Second
    then show ?thesis by (simp add: timestamp_parts_def units_per_second_def)
  next
    case Millisecond
    then show ?thesis
      using unit_split_exact [of "v mod 1000" 1000 v "v div 1000" 1000000 1000000000]
      by (simp add: timestamp_parts_def units_per_second_def)
  next
    case Microsecond
    then show ?thesis
      using unit_split_exact [of "v mod 1000000" 1000000 v "v div 1000000" 1000 1000000000]
      by (simp add: timestamp_parts_def units_per_second_def)
  next
    case Nanosecond
    have "0 \<le> v mod 1000000000 * 1 \<and> v mod 1000000000 * 1 < 1000000000 \<and>
        v * 1000000000 = 1000000000 * (v div 1000000000 * 1000000000 + v mod 1000000000 * 1)"
      by (rule unit_split_exact) simp_all
    then show ?thesis
      unfolding Nanosecond timestamp_parts_def units_per_second_def time_unit.case prod.case
      by (simp only: mult_1_right)
  qed
qed

section \<open>Strict typing\<close>

definition parses_as :: "externals \<Rightarrow> string \<Rightarrow> field_type \<Rightarrow> bool" where
  "parses_as X s ft = (case ft of
       FT_String \<Rightarrow> True
     | FT_Dictionary \<Rightarrow> True
     | FT_Int64 \<Rightarrow> lex_i64 X s \<noteq> None
     | FT_Float64 \<Rightarrow> lex_f64 X s \<noteq> None
     | FT_Boolean \<Rightarrow> parse_bool s \<noteq> None
     | FT_Date32 \<Rightarrow> parse_date32 X s \<noteq> None
     | FT_Timestamp unit fmt \<Rightarrow> parse_timestamp X s unit fmt \<noteq> None
     | FT_Decimal128 scale \<Rightarrow> parse_decimal128 s scale \<noteq> None)"

end
