(* ===== verification/Columns.thy ===== *)
theory Columns
  imports Row_Store Validity Scalar
begin

text \<open>
  The fixed-width column stores of columnar.rs: \<open>PrimColumn\<close> and \<open>NullableColumn\<close>, values
  plus a validity bitmap. Each is an instance of the row-store interface.
  A store's \<open>Default\<close> value pads the cells of null rows.
\<close>

section \<open>PrimColumn\<close>

record 'a prim_column =
  pdata :: "'a list"
  pvalid :: validity

definition prim_empty :: "'a prim_column" where
  "prim_empty = \<lparr>pdata = [], pvalid = vb_empty\<rparr>"

definition prim_push :: "'a \<Rightarrow> 'a option \<Rightarrow> 'a prim_column \<Rightarrow> 'a prim_column" where
  "prim_push dflt v c =
     \<lparr>pdata = pdata c @ [case v of Some x \<Rightarrow> x | None \<Rightarrow> dflt], pvalid = vb_push (v \<noteq> None) (pvalid c)\<rparr>"

definition prim_pop :: "'a prim_column \<Rightarrow> 'a prim_column" where
  "prim_pop c = \<lparr>pdata = butlast (pdata c), pvalid = snd (vb_pop (pvalid c))\<rparr>"

definition prim_len :: "'a prim_column \<Rightarrow> nat" where
  "prim_len c = vlen (pvalid c)"

definition prim_get :: "'a prim_column \<Rightarrow> nat \<Rightarrow> 'a option" where
  "prim_get c i = (if vb_is_valid (pvalid c) i then Some (pdata c ! i) else None)"

definition prim_append :: "'a prim_column \<Rightarrow> 'a prim_column \<Rightarrow> 'a prim_column" where
  "prim_append c d = \<lparr>pdata = pdata c @ pdata d, pvalid = vb_append (pvalid c) (pvalid d)\<rparr>"

definition prim_split_off :: "nat \<Rightarrow> 'a prim_column \<Rightarrow> 'a prim_column \<times> 'a prim_column" where
  "prim_split_off n c =
     (let (a, b) = vb_split_off n (pvalid c)
      in (\<lparr>pdata = take n (pdata c), pvalid = a\<rparr>, \<lparr>pdata = drop n (pdata c), pvalid = b\<rparr>))"

definition prim_bytes_used :: "nat \<Rightarrow> 'a prim_column \<Rightarrow> nat" where
  "prim_bytes_used elem c = length (pdata c) * elem + vb_bytes_used (pvalid c)"

definition prim_rows :: "'a prim_column \<Rightarrow> 'a option list" where
  "prim_rows c = map (prim_get c) [0..<prim_len c]"

definition prim_ok :: "'a prim_column \<Rightarrow> bool" where
  "prim_ok c \<longleftrightarrow> vb_ok (pvalid c) \<and> length (pdata c) = vlen (pvalid c)"

definition masked :: "'a list \<Rightarrow> bool list \<Rightarrow> 'a option list" where
  "masked xs bs = map2 (\<lambda>x b. if b then Some x else None) xs bs"

lemma masked_simps [simp]:
  "length xs = length bs \<Longrightarrow> masked (xs @ ys) (bs @ cs) = masked xs bs @ masked ys cs"
  "masked [x] [b] = [if b then Some x else None]" "masked [] [] = []"
  by (simp_all add: masked_def)

lemma length_masked [simp]: "length (masked xs bs) = min (length xs) (length bs)"
  by (simp add: masked_def)

lemma masked_take: "take n (masked xs bs) = masked (take n xs) (take n bs)"
  "drop n (masked xs bs) = masked (drop n xs) (drop n bs)"
  by (simp_all add: masked_def take_map drop_map take_zip drop_zip)

lemma masked_butlast: "length xs = length bs \<Longrightarrow> masked (butlast xs) (butlast bs) = butlast (masked xs bs)"
  by (simp add: butlast_conv_take masked_take)

lemma prim_rows_masked: "prim_ok c \<Longrightarrow> prim_rows c = masked (pdata c) (vb_rows (pvalid c))"
  by (rule nth_equalityI)
     (auto simp: prim_rows_def prim_ok_def prim_len_def prim_get_def masked_def vb_is_valid_rows)

lemma prim_empty_ok [simp]: "prim_ok prim_empty" "prim_rows prim_empty = []"
  by (simp_all add: prim_ok_def prim_rows_def prim_empty_def prim_len_def vb_empty_def vb_ok_def
      vb_rows_def flat_def)

lemma prim_push_ok:
  assumes "prim_ok c"
  shows "prim_ok (prim_push d v c) \<and> prim_rows (prim_push d v c) = prim_rows c @ [v]"
proof -
  have "prim_ok (prim_push d v c)"
    using assms vb_push_ok [of "pvalid c"] by (simp add: prim_ok_def prim_push_def)
  with assms vb_push_ok [of "pvalid c"] show ?thesis
    by (auto simp: prim_rows_masked prim_push_def prim_ok_def split: option.splits)
qed

lemma vb_pop_all: "vb_ok v \<Longrightarrow> vb_ok (snd (vb_pop v)) \<and> vb_rows (snd (vb_pop v)) = butlast (vb_rows v)"
  using vb_pop_ok [of v] by (cases "vlen v = 0") (auto simp: vb_pop_def vb_rows_def)

lemma prim_pop_ok:
  assumes "prim_ok c"
  shows "prim_ok (prim_pop c) \<and> prim_rows (prim_pop c) = butlast (prim_rows c)"
proof -
  have "prim_ok (prim_pop c)"
    using assms vb_pop_all [of "pvalid c"] by (simp add: prim_ok_def prim_pop_def)
  with assms vb_pop_all [of "pvalid c"] show ?thesis
    by (simp add: prim_rows_masked prim_pop_def prim_ok_def masked_butlast)
qed

lemma prim_append_ok:
  assumes "prim_ok c" "prim_ok d"
  shows "prim_ok (prim_append c d) \<and> prim_rows (prim_append c d) = prim_rows c @ prim_rows d"
proof -
  have v: "vb_ok (vb_append (pvalid c) (pvalid d))"
    "vb_rows (vb_append (pvalid c) (pvalid d)) = vb_rows (pvalid c) @ vb_rows (pvalid d)"
    using assms vb_append_ok by (auto simp: prim_ok_def)
  then have "vlen (vb_append (pvalid c) (pvalid d)) = vlen (pvalid c) + vlen (pvalid d)"
    by (metis length_append length_vb_rows)
  with assms v have "prim_ok (prim_append c d)" by (simp add: prim_ok_def prim_append_def)
  with assms v show ?thesis by (simp add: prim_rows_masked prim_append_def prim_ok_def)
qed

lemma prim_split_ok:
  assumes "prim_ok c" "n \<le> prim_len c"
  shows "prim_ok (fst (prim_split_off n c)) \<and> prim_ok (snd (prim_split_off n c)) \<and>
    prim_rows (fst (prim_split_off n c)) = take n (prim_rows c) \<and>
    prim_rows (snd (prim_split_off n c)) = drop n (prim_rows c)"
proof -
  obtain a b where ab: "vb_split_off n (pvalid c) = (a, b)" by fastforce
  have v: "vb_ok a" "vb_ok b" "vb_rows a = take n (vb_rows (pvalid c))" "vb_rows b = drop n (vb_rows (pvalid c))"
    using vb_split_off_ok [OF _ _ ab] assms by (auto simp: prim_ok_def prim_len_def)
  have l: "vlen a = n" "vlen b = vlen (pvalid c) - n"
    using arg_cong [OF v(3), of length] arg_cong [OF v(4), of length] assms(2)
    by (simp_all add: prim_len_def)
  have ok: "prim_ok (fst (prim_split_off n c))" "prim_ok (snd (prim_split_off n c))"
    using v l assms by (simp_all add: prim_split_off_def ab prim_ok_def prim_len_def)
  show ?thesis
    using ok assms(1)
    by (simp add: prim_rows_masked) (simp add: prim_split_off_def ab v masked_take)
qed

lemma prim_len_rows: "prim_len c = length (prim_rows c)"
  by (simp add: prim_rows_def)

lemma prim_get_rows: "prim_get c i = (if i < length (prim_rows c) then prim_rows c ! i else None)"
  by (auto simp: prim_rows_def prim_get_def prim_len_def vb_is_valid_def)

interpretation prim: row_buffer prim_rows prim_ok "\<lambda>_ _. True" "\<lambda>_ v. v" None "prim_push d" prim_pop prim_len prim_get
  "\<lambda>_ _. True" prim_append prim_split_off for d
  by unfold_locales
     (auto simp: prim_push_ok prim_pop_ok prim_append_ok prim_split_ok prim_get_rows simp flip: prim_len_rows)

section \<open>NullableColumn\<close>

record 'a nullable_column =
  nvalues :: "'a list"
  nvalid :: validity

definition null_empty :: "'a nullable_column" where
  "null_empty = \<lparr>nvalues = [], nvalid = vb_empty\<rparr>"

definition null_push :: "'a \<Rightarrow> 'a option \<Rightarrow> 'a nullable_column \<Rightarrow> 'a nullable_column" where
  "null_push dflt v c =
     \<lparr>nvalues = nvalues c @ [case v of Some x \<Rightarrow> x | None \<Rightarrow> dflt], nvalid = vb_push (v \<noteq> None) (nvalid c)\<rparr>"

text \<open>\<open>self.validity.pop()?; self.values.pop()\<close>: nothing is popped from an empty column.\<close>

definition null_pop :: "'a nullable_column \<Rightarrow> 'a option \<times> 'a nullable_column" where
  "null_pop c =
     (case vb_pop (nvalid c) of
        (None, v) \<Rightarrow> (None, c\<lparr>nvalid := v\<rparr>)
      | (Some _, v) \<Rightarrow> (if nvalues c = [] then None else Some (last (nvalues c)),
                        \<lparr>nvalues = butlast (nvalues c), nvalid = v\<rparr>))"

definition null_len :: "'a nullable_column \<Rightarrow> nat" where
  "null_len c = vlen (nvalid c)"

definition null_get :: "'a nullable_column \<Rightarrow> nat \<Rightarrow> 'a option" where
  "null_get c i = (if vb_is_valid (nvalid c) i then Some (nvalues c ! i) else None)"

definition null_split_off :: "nat \<Rightarrow> 'a nullable_column \<Rightarrow> 'a nullable_column \<times> 'a nullable_column" where
  "null_split_off n c =
     (let (a, b) = vb_split_off n (nvalid c)
      in (\<lparr>nvalues = take n (nvalues c), nvalid = a\<rparr>, \<lparr>nvalues = drop n (nvalues c), nvalid = b\<rparr>))"

definition null_iter :: "'a nullable_column \<Rightarrow> 'a option list" where
  "null_iter c = map (null_get c) [0..<null_len c]"

text \<open>A code beyond the map is left alone; a negative code is a huge \<open>usize\<close>.\<close>

definition remap_code :: "int list \<Rightarrow> int \<Rightarrow> int" where
  "remap_code m v = (case idx m (i32_as_usize v) of Some r \<Rightarrow> r | None \<Rightarrow> v)"

definition remap_codes :: "int list \<Rightarrow> int nullable_column \<Rightarrow> int nullable_column" where
  "remap_codes m c =
     c\<lparr>nvalues := map (\<lambda>(i, v). if i < null_len c \<and> vb_is_valid (nvalid c) i then remap_code m v else v)
                    (enumerate 0 (nvalues c))\<rparr>"

definition as_prim :: "'a nullable_column \<Rightarrow> 'a prim_column" where
  "as_prim c = \<lparr>pdata = nvalues c, pvalid = nvalid c\<rparr>"

definition null_ok :: "'a nullable_column \<Rightarrow> bool" where
  "null_ok c \<longleftrightarrow> prim_ok (as_prim c)"

lemma as_prim_simps:
  "null_iter c = prim_rows (as_prim c)" "null_len c = prim_len (as_prim c)"
  "null_get c i = prim_get (as_prim c) i" "as_prim (null_push d v c) = prim_push d v (as_prim c)"
  by (simp_all add: as_prim_def null_iter_def prim_rows_def null_len_def prim_len_def null_get_def
      prim_get_def null_push_def prim_push_def fun_eq_iff)

lemma as_prim_pop: "null_ok c \<Longrightarrow> as_prim (snd (null_pop c)) = prim_pop (as_prim c)"
  by (cases "vlen (nvalid c) = 0")
     (auto simp: null_ok_def prim_ok_def as_prim_def null_pop_def prim_pop_def vb_pop_def Let_def)

lemma null_pop_ok:
  "null_ok c \<Longrightarrow> null_ok (snd (null_pop c)) \<and> null_iter (snd (null_pop c)) = butlast (null_iter c)"
  using prim_pop_ok [of "as_prim c"] as_prim_pop [of c] by (simp add: null_ok_def as_prim_simps)

lemma null_split_ok:
  assumes "null_ok c" "n \<le> null_len c"
  shows "null_ok (fst (null_split_off n c)) \<and> null_ok (snd (null_split_off n c)) \<and>
    null_iter (fst (null_split_off n c)) = take n (null_iter c) \<and>
    null_iter (snd (null_split_off n c)) = drop n (null_iter c)"
proof -
  have "as_prim (fst (null_split_off n c)) = fst (prim_split_off n (as_prim c))"
    "as_prim (snd (null_split_off n c)) = snd (prim_split_off n (as_prim c))"
    by (simp_all add: null_split_off_def prim_split_off_def as_prim_def split: prod.splits)
  with prim_split_ok [of "as_prim c" n] assms show ?thesis by (simp add: null_ok_def as_prim_simps)
qed

interpretation nullable: row_store null_iter null_ok "\<lambda>_ _. True" "\<lambda>_ v. v" None "null_push d" "snd \<circ> null_pop" null_len null_get
  for d
  by unfold_locales
     (auto simp: as_prim_pop [unfolded null_ok_def] prim_pop_ok as_prim_simps null_ok_def prim_push_ok
        prim_get_rows simp flip: prim_len_rows)

lemma remap_codes_rows:
  assumes "null_ok c"
  shows "null_ok (remap_codes m c) \<and> null_iter (remap_codes m c) = map (map_option (remap_code m)) (null_iter c)"
proof -
  have ok: "null_ok (remap_codes m c)"
    using assms by (simp add: null_ok_def prim_ok_def as_prim_def remap_codes_def)
  moreover have "null_iter (remap_codes m c) = map (map_option (remap_code m)) (null_iter c)"
    using assms
    by (intro nth_equalityI)
       (auto simp: null_iter_def null_get_def null_len_def remap_codes_def nth_enumerate_eq
          null_ok_def prim_ok_def as_prim_def vb_is_valid_def)
  ultimately show ?thesis by blast
qed

end
