(* ===== verification/Str_Columns.thy ===== *)
theory Str_Columns
  imports Columns
begin

text \<open>
  \<open>StrColumn\<close> of columnar.rs and the dictionary value table behind \<open>dict_code\<close>: strings in
  one contiguous arena addressed by \<open>i32\<close> offsets. The offsets wrap beyond 2 GiB of text, so
  the invariants bound the arena; under them every offset is in range.
\<close>

section \<open>Arenas\<close>

text \<open>The arena and the offsets of a list of byte strings.\<close>

definition offs :: "string list \<Rightarrow> int list" where
  "offs xs = map (\<lambda>i. int (length (concat (take i xs)))) [0..<Suc (length xs)]"

lemma offs_Nil [simp]: "offs [] = [0]"
  by (simp add: offs_def)

lemma length_offs [simp]: "length (offs xs) = Suc (length xs)"
  by (simp add: offs_def)

lemma offs_nth: "i \<le> length xs \<Longrightarrow> offs xs ! i = int (length (concat (take i xs)))"
  by (simp add: offs_def nth_append del: upt_Suc)

lemma offs_append: "offs (xs @ ys) = offs xs @ map (\<lambda>o'. int (length (concat xs)) + o') (tl (offs ys))"
proof (rule nth_equalityI)
  fix i
  assume "i < length (offs (xs @ ys))"
  then show "offs (xs @ ys) ! i = (offs xs @ map (\<lambda>o'. int (length (concat xs)) + o') (tl (offs ys))) ! i"
    by (auto simp: offs_nth nth_append nth_tl Suc_diff_Suc not_less Suc_diff_le)
qed simp

lemma offs_snoc: "offs (xs @ [x]) = offs xs @ [int (length (concat xs)) + int (length x)]"
  by (simp add: offs_append) (simp add: offs_def)

lemma offs_take:
  assumes "n \<le> length xs"
  shows "take (Suc n) (offs xs) = offs (take n xs)"
proof (rule nth_equalityI)
  fix i
  assume "i < length (take (Suc n) (offs xs))"
  then have "i \<le> n" using assms by simp
  with assms show "take (Suc n) (offs xs) ! i = offs (take n xs) ! i" by (simp add: offs_nth min_def)
qed (use assms in simp)

lemma offs_drop:
  assumes "n \<le> length xs"
  shows "map (\<lambda>o'. o' - int (length (concat (take n xs)))) (drop n (offs xs)) = offs (drop n xs)"
proof (rule nth_equalityI)
  fix i
  assume "i < length (map (\<lambda>o'. o' - int (length (concat (take n xs)))) (drop n (offs xs)))"
  then have i: "n + i \<le> length xs" using assms by simp
  have "concat (take (n + i) xs) = concat (take n xs) @ concat (take i (drop n xs))"
    by (simp add: take_add)
  with i assms show "map (\<lambda>o'. o' - int (length (concat (take n xs)))) (drop n (offs xs)) ! i = offs (drop n xs) ! i"
    by (simp add: offs_nth)
qed (use assms in simp)

lemma slice_offs:
  assumes "i < length xs"
  shows "slice (concat xs) (length (concat (take i xs))) (length (concat (take (Suc i) xs))) = Some (xs ! i)"
proof -
  have "concat xs = concat (take i xs) @ xs ! i @ concat (drop (Suc i) xs)"
    using id_take_nth_drop [OF assms] by (metis concat.simps(2) concat_append)
  moreover have "concat (take (Suc i) xs) = concat (take i xs) @ xs ! i"
    using assms by (simp add: take_Suc_conv_app_nth)
  ultimately show ?thesis by (simp add: slice_def)
qed

lemma concat_take_le: "length (concat (take i xs)) \<le> length (concat xs)"
  by (metis append_take_drop_id concat_append le_add1 length_append)

section \<open>StrColumn\<close>

record str_column =
  sdata :: string
  soffsets :: "int list"
  svalid :: validity

definition str_default :: str_column where
  "str_default = \<lparr>sdata = [], soffsets = [], svalid = vb_empty\<rparr>"

definition str_empty :: str_column where
  "str_empty = \<lparr>sdata = [], soffsets = [0], svalid = vb_empty\<rparr>"

definition str_len :: "str_column \<Rightarrow> nat" where
  "str_len c = vlen (svalid c)"

definition str_push :: "string option \<Rightarrow> str_column \<Rightarrow> str_column" where
  "str_push v c =
     (let d = (case v of Some s \<Rightarrow> sdata c @ s | None \<Rightarrow> sdata c)
      in \<lparr>sdata = d, soffsets = soffsets c @ [as_i32 (int (length d))], svalid = vb_push (v \<noteq> None) (svalid c)\<rparr>)"

definition str_pop :: "str_column \<Rightarrow> str_column" where
  "str_pop c =
     (case vb_pop (svalid c) of
        (None, v) \<Rightarrow> c\<lparr>svalid := v\<rparr>
      | (Some _, v) \<Rightarrow>
          (let os = butlast (soffsets c)
           in \<lparr>sdata = take (i32_as_usize (last os)) (sdata c), soffsets = os, svalid = v\<rparr>))"

text \<open>
  The prefix of \<open>n\<close> rows is drained into the first component. The two shortcuts are the
  code's: an empty prefix is the \<open>Default\<close> column, a full one takes the whole column.
\<close>

definition str_split_off :: "nat \<Rightarrow> str_column \<Rightarrow> str_column \<times> str_column" where
  "str_split_off n c =
     (if n = 0 then (str_default, c)
      else if n = str_len c then (c, str_default\<lparr>soffsets := [0]\<rparr>)
      else let at = i32_as_usize (soffsets c ! n); (a, b) = vb_split_off n (svalid c)
           in (\<lparr>sdata = take at (sdata c), soffsets = take (Suc n) (soffsets c), svalid = a\<rparr>,
               \<lparr>sdata = drop at (sdata c),
                soffsets = 0 # map (\<lambda>off. off - as_i32 (int at)) (drop (n + 1) (soffsets c)),
                svalid = b\<rparr>))"

definition str_bytes_used :: "str_column \<Rightarrow> nat" where
  "str_bytes_used c = length (sdata c) + length (soffsets c) * 4 + vb_bytes_used (svalid c)"

definition str_get :: "str_column \<Rightarrow> nat \<Rightarrow> string option" where
  "str_get c i =
     (if \<not> vb_is_valid (svalid c) i then None
      else case slice (sdata c) (i32_as_usize (soffsets c ! i)) (i32_as_usize (soffsets c ! (i + 1))) of
             Some s \<Rightarrow> if utf8_valid s then Some s else None
           | None \<Rightarrow> None)"

definition str_append :: "str_column \<Rightarrow> str_column \<Rightarrow> str_column" where
  "str_append c d =
     (let base = as_i32 (int (length (sdata c)))
      in \<lparr>sdata = sdata c @ sdata d,
          soffsets = soffsets c @ map (\<lambda>off. as_i32 (off + base)) (tl (soffsets d)),
          svalid = vb_append (svalid c) (svalid d)\<rparr>)"

definition str_rows :: "str_column \<Rightarrow> string option list" where
  "str_rows c = map (str_get c) [0..<str_len c]"

definition cell_bytes :: "string option list \<Rightarrow> string list" where
  "cell_bytes xs = map (case_option [] id) xs"

lemma cell_bytes_simps [simp]: "cell_bytes [] = []" "cell_bytes (xs @ ys) = cell_bytes xs @ cell_bytes ys"
  "cell_bytes [v] = [case_option [] id v]" "length (cell_bytes xs) = length xs"
  "take n (cell_bytes xs) = cell_bytes (take n xs)" "drop n (cell_bytes xs) = cell_bytes (drop n xs)"
  by (simp_all add: cell_bytes_def take_map drop_map)

definition str_repr :: "str_column \<Rightarrow> string option list \<Rightarrow> bool" where
  "str_repr c xs \<longleftrightarrow>
     sdata c = concat (cell_bytes xs) \<and> soffsets c = offs (cell_bytes xs) \<and>
     vb_ok (svalid c) \<and> vb_rows (svalid c) = map (\<lambda>v. v \<noteq> None) xs \<and>
     (\<forall>s. Some s \<in> set xs \<longrightarrow> utf8_valid s) \<and> length (sdata c) < 2 ^ 31"

definition str_ok :: "str_column \<Rightarrow> bool" where
  "str_ok c \<longleftrightarrow> str_repr c (str_rows c)"

definition str_fits :: "str_column \<Rightarrow> string option \<Rightarrow> bool" where
  "str_fits c v = (case v of None \<Rightarrow> True
     | Some s \<Rightarrow> utf8_valid s \<and> length (sdata c) + length s < 2 ^ 31)"

definition str_fits_all :: "str_column \<Rightarrow> str_column \<Rightarrow> bool" where
  "str_fits_all c d \<longleftrightarrow> length (sdata c) + length (sdata d) < 2 ^ 31"

lemma str_repr_len: "str_repr c xs \<Longrightarrow> str_len c = length xs"
  by (auto simp: str_repr_def str_len_def dest: arg_cong [where f = length])

lemma usize_offs:
  assumes "length (concat xs) < 2 ^ 31" "i \<le> length xs"
  shows "i32_as_usize (offs xs ! i) = length (concat (take i xs))"
  using concat_take_le [of i xs] assms by (simp add: offs_nth i32_as_usize_def)

lemma str_repr_bound: "str_repr c xs \<Longrightarrow> length (concat (cell_bytes xs)) < 2 ^ 31"
  by (auto simp: str_repr_def)

lemma str_repr_get: "str_repr c xs \<Longrightarrow> i < length xs \<Longrightarrow> str_get c i = xs ! i"
proof -
  assume r: "str_repr c xs" and i: "i < length xs"
  have v: "vb_is_valid (svalid c) i = (xs ! i \<noteq> None)"
    using r i by (simp add: vb_is_valid_rows str_repr_def)
  note bound = str_repr_bound [OF r]
  have s: "slice (sdata c) (i32_as_usize (soffsets c ! i)) (i32_as_usize (soffsets c ! (i + 1)))
      = Some (cell_bytes xs ! i)"
    using r i slice_offs [of i "cell_bytes xs"] usize_offs [OF bound, of i] usize_offs [OF bound, of "Suc i"]
    by (simp add: str_repr_def)
  show ?thesis
  proof (cases "xs ! i")
    case (Some t)
    then have "utf8_valid t" using r i by (auto simp: str_repr_def dest: nth_mem)
    with Some v s i show ?thesis by (simp add: str_get_def cell_bytes_def)
  qed (simp add: str_get_def v)
qed

lemma str_repr_rows: "str_repr c xs \<Longrightarrow> str_rows c = xs"
  by (rule nth_equalityI) (auto simp: str_rows_def str_repr_get str_repr_len)

lemma str_repr_ok: "str_repr c xs \<Longrightarrow> str_ok c \<and> str_rows c = xs"
  using str_repr_rows by (simp add: str_ok_def)

lemma str_empty_ok [simp]: "str_ok str_empty" "str_rows str_empty = []"
  using str_repr_ok [of str_empty "[]"] by (simp_all add: str_repr_def str_empty_def)

lemma str_push_ok:
  assumes "str_ok c" "str_fits c v"
  shows "str_ok (str_push v c) \<and> str_rows (str_push v c) = str_rows c @ [v]"
proof (rule str_repr_ok)
  show "str_repr (str_push v c) (str_rows c @ [v])"
    using assms vb_push_ok [of "svalid c"]
    by (cases v) (auto simp: str_ok_def str_repr_def str_push_def str_fits_def offs_snoc Let_def i32_range_def)
qed

lemma str_pop_ok:
  assumes "str_ok c"
  shows "str_ok (str_pop c) \<and> str_rows (str_pop c) = butlast (str_rows c)"
proof (cases "str_rows c" rule: rev_cases)
  case Nil
  with assms have "vlen (svalid c) = 0" by (simp add: str_rows_def str_len_def)
  with Nil assms show ?thesis by (simp add: str_pop_def vb_pop_def)
next
  case (snoc xs v)
  from assms snoc have r: "str_repr c (xs @ [v])" by (simp add: str_ok_def)
  then have n0: "vlen (svalid c) \<noteq> 0" using str_repr_len [OF r] by (simp add: str_len_def)
  obtain b w where pop: "vb_pop (svalid c) = (Some b, w)"
    using vb_pop_ok [OF _ n0] r by (cases "vb_pop (svalid c)") (auto simp: str_repr_def)
  have w: "vb_ok w" "vb_rows w = map (\<lambda>v. v \<noteq> None) xs"
    using vb_pop_ok [OF _ n0] r pop by (auto simp: str_repr_def)
  have os: "butlast (soffsets c) = offs (cell_bytes xs)"
    using r by (simp add: str_repr_def offs_snoc)
  have last: "i32_as_usize (last (offs (cell_bytes xs))) = length (concat (cell_bytes xs))"
  proof -
    have "length (concat (cell_bytes xs)) < 2 ^ 31" using str_repr_bound [OF r] by simp
    from usize_offs [OF this, of "length xs"] show ?thesis
      by (simp add: last_conv_nth [of "offs _"] flip: length_0_conv)
  qed
  have "str_pop c = \<lparr>sdata = concat (cell_bytes xs), soffsets = offs (cell_bytes xs), svalid = w\<rparr>"
    using r by (simp add: str_pop_def pop Let_def os last) (simp add: str_repr_def)
  moreover have "length (concat (cell_bytes xs)) < 2 ^ 31" using str_repr_bound [OF r] by simp
  moreover have "\<forall>s. Some s \<in> set xs \<longrightarrow> utf8_valid s" using r by (auto simp: str_repr_def)
  ultimately have "str_repr (str_pop c) xs" using w by (simp add: str_repr_def)
  with snoc show ?thesis by (simp add: str_repr_ok)
qed

lemma str_append_ok:
  assumes "str_ok c" "str_ok d" "str_fits_all c d"
  shows "str_ok (str_append c d) \<and> str_rows (str_append c d) = str_rows c @ str_rows d"
proof (rule str_repr_ok)
  let ?xs = "cell_bytes (str_rows c)" and ?ys = "cell_bytes (str_rows d)"
  have r: "str_repr c (str_rows c)" "str_repr d (str_rows d)" using assms by (simp_all add: str_ok_def)
  have lens: "length (concat ?xs) + length (concat ?ys) < 2 ^ 31"
    using r assms(3) by (simp add: str_repr_def str_fits_all_def)
  have "map (\<lambda>off. as_i32 (off + as_i32 (int (length (sdata c))))) (tl (offs ?ys))
      = map (\<lambda>o'. int (length (concat ?xs)) + o') (tl (offs ?ys))"
  proof (rule map_cong [OF refl])
    fix off
    assume "off \<in> set (tl (offs ?ys))"
    then have "off \<in> set (offs ?ys)" by (cases "offs ?ys") auto
    then obtain i where "i \<le> length ?ys" "off = offs ?ys ! i"
      by (auto simp: in_set_conv_nth less_Suc_eq_le)
    then have "0 \<le> off" "off \<le> int (length (concat ?ys))"
      using concat_take_le [of i ?ys] by (simp_all add: offs_nth)
    with lens r(1) show "as_i32 (off + as_i32 (int (length (sdata c)))) = int (length (concat ?xs)) + off"
      by (simp add: str_repr_def i32_range_def)
  qed
  with r lens vb_append_ok [of "svalid c" "svalid d"]
  show "str_repr (str_append c d) (str_rows c @ str_rows d)"
    by (auto simp: str_repr_def str_append_def offs_append Let_def)
qed

lemma offs_drop_Cons:
  assumes "n \<le> length xs"
  shows "0 # map (\<lambda>o'. o' - int (length (concat (take n xs)))) (drop (n + 1) (offs xs)) = offs (drop n xs)"
proof -
  have "drop n (offs xs) = offs xs ! n # drop (n + 1) (offs xs)"
    using assms by (simp add: Cons_nth_drop_Suc)
  with offs_drop [OF assms] assms show ?thesis by (simp add: offs_nth)
qed

lemma str_split_ok:
  assumes "str_ok c" "0 < n" "n \<le> str_len c"
  shows "str_ok (fst (str_split_off n c)) \<and> str_ok (snd (str_split_off n c)) \<and>
    str_rows (fst (str_split_off n c)) = take n (str_rows c) \<and>
    str_rows (snd (str_split_off n c)) = drop n (str_rows c)"
proof (cases "n = str_len c")
  case True
  have "str_default\<lparr>soffsets := [0]\<rparr> = str_empty" by (simp add: str_default_def str_empty_def)
  moreover have "str_len str_empty = 0" by (simp add: str_len_def str_empty_def vb_empty_def)
  moreover have "length (str_rows c) = str_len c" by (simp add: str_rows_def)
  ultimately show ?thesis using True assms by (simp add: str_split_off_def)
next
  case False
  define xs where "xs = str_rows c"
  have r: "str_repr c xs" using assms(1) by (simp add: str_ok_def xs_def)
  have n: "n \<le> length xs" using str_repr_len [OF r] assms(3) by simp
  have b: "length (concat (cell_bytes xs)) < 2 ^ 31" using r by (rule str_repr_bound)
  have at: "i32_as_usize (soffsets c ! n) = length (concat (cell_bytes (take n xs)))"
    using usize_offs [OF b, of n] n r by (simp add: str_repr_def)
  have bt: "length (concat (cell_bytes (take n xs))) < 2 ^ 31"
    using b concat_take_le [of n "cell_bytes xs"] by simp
  have bd: "length (concat (cell_bytes (drop n xs))) < 2 ^ 31"
    using b arg_cong [OF append_take_drop_id [of n "cell_bytes xs"], of "\<lambda>l. length (concat l)"] by simp
  have cc: "concat (cell_bytes xs) = concat (cell_bytes (take n xs)) @ concat (cell_bytes (drop n xs))"
    by (metis append_take_drop_id cell_bytes_simps(2) concat_append)
  obtain v w where vw: "vb_split_off n (svalid c) = (v, w)" by fastforce
  have vs: "vb_ok v \<and> vb_ok w \<and> vb_rows v = take n (vb_rows (svalid c)) \<and> vb_rows w = drop n (vb_rows (svalid c))"
    using vb_split_off_ok [OF _ _ vw] r assms(3) by (simp add: str_repr_def str_len_def)
  have ran: "i32_range (int (length (concat (cell_bytes (take n xs)))))"
    using bt by (simp add: i32_range_def)
  have split: "str_split_off n c =
      (\<lparr>sdata = concat (cell_bytes (take n xs)), soffsets = offs (cell_bytes (take n xs)), svalid = v\<rparr>,
       \<lparr>sdata = concat (cell_bytes (drop n xs)), soffsets = offs (cell_bytes (drop n xs)), svalid = w\<rparr>)"
    using r False assms(2) offs_take [of n "cell_bytes xs"] offs_drop_Cons [of n "cell_bytes xs"] n
    unfolding str_split_off_def at vw Let_def
    by (simp add: str_repr_def cc as_i32_id [OF ran])
  have "str_repr (fst (str_split_off n c)) (take n xs)" "str_repr (snd (str_split_off n c)) (drop n xs)"
    using r vs bt bd unfolding split
    by (auto simp: str_repr_def take_map drop_map dest: in_set_takeD in_set_dropD)
  then show ?thesis using str_repr_ok by (auto simp: xs_def)
qed

lemma length_str_rows [simp]: "length (str_rows c) = str_len c"
  by (simp add: str_rows_def)

lemma str_get_beyond: "\<not> i < str_len c \<Longrightarrow> str_get c i = None"
  by (simp add: str_get_def str_len_def vb_is_valid_def)

interpretation str: row_buffer str_rows str_ok str_fits "\<lambda>_ v. v" None str_push str_pop str_len str_get
  str_fits_all str_append str_split_off
proof unfold_locales
  fix c i
  assume "str_ok c"
  show "str_get c i = (if i < length (str_rows c) then str_rows c ! i else None)"
    by (simp add: str_rows_def str_get_beyond)
qed (auto simp: str_push_ok str_pop_ok str_append_ok str_split_ok str_fits_def)

end
