(* ===== verification/Dict_Table.thy ===== *)
theory Dict_Table
  imports Str_Columns
begin

text \<open>
  The value table of a dictionary column: the distinct values in one arena with \<open>i32\<close>
  offsets, and the side index from a value to its code. \<open>dict_code\<close> is the one operation that
  grows it; a table stands for the list of its values, whose positions are the codes.
\<close>

record dict_table =
  ddata :: string
  doffsets :: "int list"
  dindex :: "(string, int) hmap"

definition dict_new :: dict_table where
  "dict_new = \<lparr>ddata = [], doffsets = [0], dindex = []\<rparr>"

definition dict_code :: "dict_table \<Rightarrow> string \<Rightarrow> int \<times> dict_table" where
  "dict_code t v =
     (case map_of (dindex t) v of
        Some code \<Rightarrow> (code, t)
      | None \<Rightarrow>
          (let code = as_i32 (as_i32 (int (length (doffsets t))) - 1); d = ddata t @ v
           in (code, \<lparr>ddata = d, doffsets = doffsets t @ [as_i32 (int (length d))],
                      dindex = AList.update v code (dindex t)\<rparr>)))"

text \<open>
  The bytes of a code, as the lookups of \<open>get_filter_view\<close>, \<open>get_filter_value\<close> and
  \<open>get_typed_value\<close> reach them: \<open>None\<close> for a code without two offsets (the \<open>?\<close> of the code)
  and for offsets that do not slice the arena (its panic), which \<open>dict_ok\<close> excludes.
\<close>

definition dict_entry :: "dict_table \<Rightarrow> int \<Rightarrow> string option" where
  "dict_entry t code =
     (let ci = i32_as_usize code
      in Option.bind (idx (doffsets t) ci) (\<lambda>start.
         Option.bind (idx (doffsets t) (ci + 1)) (\<lambda>end.
           slice (ddata t) (i32_as_usize start) (i32_as_usize end))))"

definition dict_str :: "dict_table \<Rightarrow> int \<Rightarrow> string option" where
  "dict_str t code = Option.bind (dict_entry t code) (\<lambda>s. if utf8_valid s then Some s else None)"

definition dict_size :: "dict_table \<Rightarrow> nat" where
  "dict_size t = length (doffsets t) - 1"

definition dict_values :: "dict_table \<Rightarrow> string list" where
  "dict_values t = map (\<lambda>i. case dict_entry t (int i) of Some s \<Rightarrow> s | None \<Rightarrow> []) [0..<dict_size t]"

definition dict_repr :: "dict_table \<Rightarrow> string list \<Rightarrow> bool" where
  "dict_repr t vs \<longleftrightarrow>
     ddata t = concat vs \<and> doffsets t = offs vs \<and> distinct vs \<and> list_all utf8_valid vs \<and>
     (\<forall>v. map_of (dindex t) v = map_option int (position (\<lambda>u. u = v) vs)) \<and>
     length (concat vs) < 2 ^ 31 \<and> length vs < 2 ^ 31"

definition dict_ok :: "dict_table \<Rightarrow> bool" where
  "dict_ok t \<longleftrightarrow> dict_repr t (dict_values t)"

definition dict_fits :: "dict_table \<Rightarrow> string \<Rightarrow> bool" where
  "dict_fits t v \<longleftrightarrow>
     utf8_valid v \<and> length (ddata t) + length v < 2 ^ 31 \<and> length (doffsets t) + 1 < 2 ^ 31"

lemma usize_small: "i < 2 ^ 31 \<Longrightarrow> i32_as_usize (int i) = i"
  by (simp add: i32_as_usize_def)

lemma position_distinct: "distinct vs \<Longrightarrow> i < length vs \<Longrightarrow> position (\<lambda>u. u = vs ! i) vs = Some i"
proof (induction vs arbitrary: i)
  case (Cons v vs)
  then show ?case by (cases i) auto
qed simp

lemma position_snoc:
  "position P (xs @ [x]) = (case position P xs of Some i \<Rightarrow> Some i
     | None \<Rightarrow> if P x then Some (length xs) else None)"
  by (induction xs) (auto split: option.splits)

lemma dict_repr_size: "dict_repr t vs \<Longrightarrow> dict_size t = length vs"
  by (simp add: dict_repr_def dict_size_def)

lemma dict_repr_entry:
  assumes "dict_repr t vs" "i < length vs"
  shows "dict_entry t (int i) = Some (vs ! i)"
proof -
  have b: "length (concat vs) < 2 ^ 31" "length vs < 2 ^ 31" using assms by (simp_all add: dict_repr_def)
  have os: "i32_as_usize (offs vs ! i) = length (concat (take i vs))"
    "i32_as_usize (offs vs ! Suc i) = length (concat (take (Suc i) vs))"
    using usize_offs [OF b(1), of i] usize_offs [OF b(1), of "Suc i"] assms(2) by simp_all
  have "i < 2 ^ 31" using b(2) assms(2) by linarith
  then have "i32_as_usize (int i) = i" by (rule usize_small)
  with assms slice_offs [OF assms(2)] os show ?thesis
    by (simp add: dict_entry_def dict_repr_def idx_def Let_def)
qed

lemma dict_repr_values: "dict_repr t vs \<Longrightarrow> dict_values t = vs"
  by (rule nth_equalityI) (auto simp: dict_values_def dict_repr_size dict_repr_entry)

lemma dict_repr_ok: "dict_repr t vs \<Longrightarrow> dict_ok t \<and> dict_values t = vs"
  using dict_repr_values by (simp add: dict_ok_def)

lemma dict_new_ok [simp]: "dict_ok dict_new" "dict_values dict_new = []"
  using dict_repr_ok [of dict_new "[]"] by (simp_all add: dict_repr_def dict_new_def)

lemma dict_ok_str:
  assumes "dict_ok t" "i < length (dict_values t)"
  shows "dict_str t (int i) = Some (dict_values t ! i)" "dict_entry t (int i) = Some (dict_values t ! i)"
    "utf8_valid (dict_values t ! i)"
proof -
  have r: "dict_repr t (dict_values t)" using assms(1) by (simp add: dict_ok_def)
  then show e: "dict_entry t (int i) = Some (dict_values t ! i)" using assms(2) by (rule dict_repr_entry)
  show u: "utf8_valid (dict_values t ! i)" using r assms(2) by (simp add: dict_repr_def list_all_length)
  from e u show "dict_str t (int i) = Some (dict_values t ! i)" by (simp add: dict_str_def)
qed

text \<open>
  \<open>dict_code\<close> returns the position of the value, extending the table at the end exactly when
  the value is new: codes handed out before stay valid.
\<close>

lemma dict_code_ok:
  assumes "dict_ok t" "dict_fits t v"
  defines "vs \<equiv> dict_values t"
  defines "ws \<equiv> (if v \<in> set vs then vs else vs @ [v])"
  shows "dict_ok (snd (dict_code t v)) \<and> dict_values (snd (dict_code t v)) = ws \<and>
    (\<exists>i < length ws. fst (dict_code t v) = int i \<and> ws ! i = v)"
proof -
  have r: "dict_repr t vs" using assms(1) by (simp add: dict_ok_def vs_def)
  have ix: "map_of (dindex t) v = map_option int (position (\<lambda>u. u = v) vs)"
    using r by (simp add: dict_repr_def)
  show ?thesis
  proof (cases "v \<in> set vs")
    case True
    then obtain i where i: "position (\<lambda>u. u = v) vs = Some i"
      using position_None [of "\<lambda>u. u = v" vs] by (cases "position (\<lambda>u. u = v) vs") auto
    from position_Some [OF i] True show ?thesis
      using assms(1) i by (auto simp: dict_code_def ix ws_def vs_def)
  next
    case False
    then have none: "position (\<lambda>u. u = v) vs = None" by (auto simp: position_None)
    have len: "length vs + 2 < 2 ^ 31" "length (concat vs) + length v < 2 ^ 31"
      using assms(2) r by (simp_all add: dict_fits_def dict_repr_def)
    then have code: "as_i32 (as_i32 (int (length (doffsets t))) - 1) = int (length vs)"
      using r by (simp add: dict_repr_def i32_range_def)
    have sz: "as_i32 (int (length (concat vs) + length v)) = int (length (concat vs)) + int (length v)"
      using len(2) by (simp add: i32_range_def)
    have eq: "dict_code t v = (int (length vs), \<lparr>ddata = concat (vs @ [v]), doffsets = offs (vs @ [v]),
        dindex = AList.update v (int (length vs)) (dindex t)\<rparr>)"
      using r sz unfolding dict_code_def ix none code Let_def
      by (simp add: dict_repr_def offs_snoc)
    have "dict_repr (snd (dict_code t v)) (vs @ [v])"
      using r assms(2) False none len unfolding eq
      by (auto simp: dict_repr_def dict_fits_def position_snoc split: option.splits)
    then show ?thesis using dict_repr_ok False eq by (auto simp: ws_def intro!: exI [of _ "length vs"])
  qed
qed

lemma dict_code_mono:
  assumes "dict_ok t" "dict_fits t v" "i < length (dict_values t)"
  shows "i < length (dict_values (snd (dict_code t v)))"
    "dict_values (snd (dict_code t v)) ! i = dict_values t ! i"
  using dict_code_ok [OF assms(1,2)] assms(3) by (auto simp: nth_append)

lemma dict_str_code:
  assumes "dict_ok t" "dict_fits t v"
  shows "dict_str (snd (dict_code t v)) (fst (dict_code t v)) = Some v"
  using dict_code_ok [OF assms] dict_ok_str(1) by metis

section \<open>Encoding a list of rows\<close>

text \<open>The loop of \<open>promote_to_variant\<close> and \<open>try_upgrade_to_dict\<close>: one code per row, nulls kept.\<close>

fun dict_encode :: "string option list \<Rightarrow> int nullable_column \<Rightarrow> dict_table \<Rightarrow> int nullable_column \<times> dict_table" where
  "dict_encode [] codes t = (codes, t)"
| "dict_encode (None # vs) codes t = dict_encode vs (null_push 0 None codes) t"
| "dict_encode (Some s # vs) codes t =
     (let (code, t') = dict_code t s in dict_encode vs (null_push 0 (Some code) codes) t')"

text \<open>What a pair of codes and table stands for, and the invariant of such a pair.\<close>

definition dict_rows :: "int nullable_column \<Rightarrow> dict_table \<Rightarrow> string option list" where
  "dict_rows codes t = map (\<lambda>c. Option.bind c (dict_str t)) (null_iter codes)"

definition coded :: "dict_table \<Rightarrow> int option \<Rightarrow> bool" where
  "coded t c = (case c of None \<Rightarrow> True | Some k \<Rightarrow> 0 \<le> k \<and> nat k < length (dict_values t))"

definition dict_col_ok :: "int nullable_column \<Rightarrow> dict_table \<Rightarrow> bool" where
  "dict_col_ok codes t \<longleftrightarrow> null_ok codes \<and> dict_ok t \<and> list_all (coded t) (null_iter codes)"

lemma coded_str:
  assumes "dict_ok t" "coded t (Some k)"
  shows "dict_str t k = Some (dict_values t ! nat k)"
  using dict_ok_str(1) [OF assms(1), of "nat k"] assms(2) by (simp add: coded_def)

lemma coded_grow:
  assumes "dict_ok t" "dict_fits t v" "coded t c"
  shows "coded (snd (dict_code t v)) c"
    "Option.bind c (dict_str (snd (dict_code t v))) = Option.bind c (dict_str t)"
proof -
  show c: "coded (snd (dict_code t v)) c"
    using dict_code_mono [OF assms(1,2)] assms(3) by (auto simp: coded_def split: option.splits)
  show "Option.bind c (dict_str (snd (dict_code t v))) = Option.bind c (dict_str t)"
  proof (cases c)
    case (Some k)
    then show ?thesis
      using coded_str [OF assms(1)] coded_str [of "snd (dict_code t v)" k] c assms(3)
        dict_code_ok [OF assms(1,2)] dict_code_mono(2) [OF assms(1,2), of "nat k"]
      by (simp add: coded_def)
  qed simp
qed

lemma dict_col_null:
  assumes "dict_col_ok codes t"
  shows "dict_col_ok (null_push 0 None codes) t \<and> dict_rows (null_push 0 None codes) t = dict_rows codes t @ [None]"
  using assms nullable.ok_push [of codes 0 None] nullable.rows_push [of codes 0 None]
  by (simp add: dict_col_ok_def dict_rows_def coded_def)

lemma dict_col_push:
  assumes "dict_col_ok codes t" "dict_fits t v"
  shows "dict_col_ok (null_push 0 (Some (fst (dict_code t v))) codes) (snd (dict_code t v)) \<and>
    dict_rows (null_push 0 (Some (fst (dict_code t v))) codes) (snd (dict_code t v)) = dict_rows codes t @ [Some v]"
proof -
  have ok: "null_ok codes" "dict_ok t" and cs: "list_all (coded t) (null_iter codes)"
    using assms(1) by (simp_all add: dict_col_ok_def)
  have "coded (snd (dict_code t v)) (Some (fst (dict_code t v)))"
    using dict_code_ok [OF ok(2) assms(2)] by (auto simp: coded_def)
  moreover have "list_all (coded (snd (dict_code t v))) (null_iter codes)"
    using cs coded_grow(1) [OF ok(2) assms(2)] by (simp add: list_all_iff)
  moreover have "map (\<lambda>c. Option.bind c (dict_str (snd (dict_code t v)))) (null_iter codes) = dict_rows codes t"
    using cs coded_grow(2) [OF ok(2) assms(2)] by (simp add: dict_rows_def list_all_iff)
  ultimately show ?thesis
    using ok dict_code_ok [OF ok(2) assms(2)] dict_str_code [OF ok(2) assms(2)]
      nullable.ok_push [OF ok(1) TrueI] nullable.rows_push [OF ok(1) TrueI]
    by (simp add: dict_col_ok_def dict_rows_def)
qed

text \<open>Room for every string of a list, whatever is in the table already.\<close>

definition dict_room :: "dict_table \<Rightarrow> string option list \<Rightarrow> bool" where
  "dict_room t vs \<longleftrightarrow> (\<forall>s. Some s \<in> set vs \<longrightarrow> utf8_valid s) \<and>
     length (ddata t) + length (concat (cell_bytes vs)) < 2 ^ 31 \<and>
     length (doffsets t) + length vs + 1 < 2 ^ 31"

lemma dict_code_sizes:
  "length (ddata (snd (dict_code t v))) \<le> length (ddata t) + length v"
  "length (doffsets (snd (dict_code t v))) \<le> Suc (length (doffsets t))"
  by (auto simp: dict_code_def Let_def split: option.splits)

lemma dict_room_Some:
  assumes "dict_room t (Some s # vs)"
  shows "dict_fits t s" "dict_room (snd (dict_code t s)) vs"
  using assms dict_code_sizes [of t s] by (auto simp: dict_room_def dict_fits_def cell_bytes_def)

lemma dict_encode_ok:
  assumes "dict_col_ok codes t" "dict_room t vs"
  shows "dict_col_ok (fst (dict_encode vs codes t)) (snd (dict_encode vs codes t)) \<and>
    dict_rows (fst (dict_encode vs codes t)) (snd (dict_encode vs codes t)) = dict_rows codes t @ vs"
  using assms
proof (induction vs codes t rule: dict_encode.induct)
  case (2 vs codes t)
  have "dict_room t vs" using 2(3) by (auto simp: dict_room_def cell_bytes_def)
  with 2 dict_col_null [OF 2(2)] show ?case by simp
next
  case (3 s vs codes t)
  obtain k t' where kt: "dict_code t s = (k, t')" by fastforce
  from 3(1) [OF kt [symmetric] refl] 3(2,3) dict_col_push [OF 3(2), of s] dict_room_Some [OF 3(3)] kt
  show ?case by simp
qed simp

end
