(* ===== verification/Column_Builder.thy ===== *)
theory Column_Builder
  imports Dict_Table
begin

text \<open>
  \<open>ColumnBuilder\<close> of columnar.rs: the typed columns of a table under construction. A value of
  any type may be pushed into a column of any type; the cell it becomes is \<open>cell_of\<close>. The
  column stands for its list of typed cells, and is an instance of the row-store interface;
  splitting, merging, promoting and dictionary-encoding are shown to act on that list.
\<close>

section \<open>The columns\<close>

datatype typed_value =
    TV_Str string
  | TV_Int64 int
  | TV_Float64 f64
  | TV_Bool bool
  | TV_Date32 int
  | TV_Timestamp int time_unit
  | TV_Decimal128 int nat

datatype column_builder =
    CB_String str_column
  | CB_Int64 "int prim_column"
  | CB_Float64 "f64 prim_column"
  | CB_Boolean "bool prim_column"
  | CB_Date32 "int prim_column"
  | CB_Timestamp time_unit "string option" "int prim_column"
  | CB_Decimal128 nat "int prim_column"
  | CB_Dictionary "int nullable_column" dict_table

abbreviation f64_zero :: f64 where
  "f64_zero \<equiv> Finite False 0 0"

fun cb_with_capacity :: "field_type \<Rightarrow> column_builder" where
  "cb_with_capacity FT_String = CB_String str_empty"
| "cb_with_capacity FT_Int64 = CB_Int64 prim_empty"
| "cb_with_capacity FT_Float64 = CB_Float64 prim_empty"
| "cb_with_capacity FT_Boolean = CB_Boolean prim_empty"
| "cb_with_capacity FT_Date32 = CB_Date32 prim_empty"
| "cb_with_capacity (FT_Timestamp unit fmt) = CB_Timestamp unit fmt prim_empty"
| "cb_with_capacity (FT_Decimal128 scale) = CB_Decimal128 scale prim_empty"
| "cb_with_capacity FT_Dictionary = CB_Dictionary null_empty dict_new"

definition cb_push_dict :: "string \<Rightarrow> int nullable_column \<Rightarrow> dict_table \<Rightarrow> column_builder" where
  "cb_push_dict s codes t = (let (code, t') = dict_code t s in CB_Dictionary (null_push 0 (Some code) codes) t')"

text \<open>\<open>push\<close> (an owned string) and \<open>push_str\<close> (a borrowed one) convert in the same way.\<close>

fun cb_push_str :: "externals \<Rightarrow> string option \<Rightarrow> column_builder \<Rightarrow> column_builder" where
  "cb_push_str X v (CB_String c) = CB_String (str_push v c)"
| "cb_push_str X v (CB_Int64 c) = CB_Int64 (prim_push 0 (Option.bind v (lex_i64 X)) c)"
| "cb_push_str X v (CB_Float64 c) = CB_Float64 (prim_push f64_zero (Option.bind v (lex_f64 X)) c)"
| "cb_push_str X v (CB_Boolean c) = CB_Boolean (prim_push False (Option.bind v parse_bool) c)"
| "cb_push_str X v (CB_Date32 c) = CB_Date32 (prim_push 0 (Option.bind v (parse_date32 X)) c)"
| "cb_push_str X v (CB_Timestamp unit fmt c) =
     CB_Timestamp unit fmt (prim_push 0 (Option.bind v (\<lambda>s. parse_timestamp X s unit fmt)) c)"
| "cb_push_str X v (CB_Decimal128 scale c) =
     CB_Decimal128 scale (prim_push 0 (Option.bind v (\<lambda>s. parse_decimal128 s scale)) c)"
| "cb_push_str X v (CB_Dictionary codes t) =
     (case v of Some s \<Rightarrow> cb_push_dict s codes t | None \<Rightarrow> CB_Dictionary (null_push 0 None codes) t)"

definition cb_push :: "externals \<Rightarrow> string option \<Rightarrow> column_builder \<Rightarrow> column_builder" where
  "cb_push X v c = cb_push_str X v c"

definition cb_unit :: "column_builder \<Rightarrow> time_unit option" where
  "cb_unit c = (case c of CB_Timestamp unit _ _ \<Rightarrow> Some unit | _ \<Rightarrow> None)"

fun cb_push_value :: "externals \<Rightarrow> field_value \<Rightarrow> column_builder \<Rightarrow> column_builder" where
  "cb_push_value X Null c = cb_push X None c"
| "cb_push_value X (Str s) c = cb_push_str X (Some s) c"
| "cb_push_value X (Int64 i) c =
     (case c of
        CB_Int64 v \<Rightarrow> CB_Int64 (prim_push 0 (Some i) v)
      | CB_Float64 v \<Rightarrow> CB_Float64 (prim_push f64_zero (Some (f64_of_int i)) v)
      | CB_String col \<Rightarrow> CB_String (str_push (Some (int_to_string i)) col)
      | CB_Dictionary codes t \<Rightarrow> cb_push_dict (int_to_string i) codes t
      | _ \<Rightarrow> cb_push X None c)"
| "cb_push_value X (Float64 f) c =
     (case c of
        CB_Float64 v \<Rightarrow> CB_Float64 (prim_push f64_zero (Some f) v)
      | CB_Int64 v \<Rightarrow> CB_Int64 (prim_push 0 (Some (f64_as_i64 f)) v)
      | CB_String col \<Rightarrow> CB_String (str_push (Some (f64_to_string f)) col)
      | CB_Dictionary codes t \<Rightarrow> cb_push_dict (f64_to_string f) codes t
      | _ \<Rightarrow> cb_push X None c)"
| "cb_push_value X (Bool b) c =
     (case c of
        CB_Boolean v \<Rightarrow> CB_Boolean (prim_push False (Some b) v)
      | CB_String col \<Rightarrow> CB_String (str_push (Some (bool_to_string b)) col)
      | CB_Dictionary codes t \<Rightarrow> cb_push_dict (bool_to_string b) codes t
      | _ \<Rightarrow> cb_push X None c)"
| "cb_push_value X (Date32 d) c =
     (case c of
        CB_Date32 v \<Rightarrow> CB_Date32 (prim_push 0 (Some d) v)
      | CB_Int64 v \<Rightarrow> CB_Int64 (prim_push 0 (Some d) v)
      | CB_Float64 v \<Rightarrow> CB_Float64 (prim_push f64_zero (Some (f64_of_int d)) v)
      | CB_String col \<Rightarrow> CB_String (str_push (Some (format_date32 X d)) col)
      | CB_Dictionary codes t \<Rightarrow> cb_push_dict (format_date32 X d) codes t
      | _ \<Rightarrow> cb_push X None c)"
| "cb_push_value X (Timestamp ts) c =
     (let text = (case cb_unit c of Some unit \<Rightarrow> format_timestamp X ts unit | None \<Rightarrow> int_to_string ts)
      in case c of
        CB_Timestamp unit fmt v \<Rightarrow> CB_Timestamp unit fmt (prim_push 0 (Some ts) v)
      | CB_Int64 v \<Rightarrow> CB_Int64 (prim_push 0 (Some ts) v)
      | CB_Float64 v \<Rightarrow> CB_Float64 (prim_push f64_zero (Some (f64_of_int ts)) v)
      | CB_String col \<Rightarrow> CB_String (str_push (Some text) col)
      | CB_Dictionary codes t \<Rightarrow> cb_push_dict text codes t
      | _ \<Rightarrow> cb_push X None c)"

fun cb_pop :: "column_builder \<Rightarrow> column_builder" where
  "cb_pop (CB_String c) = CB_String (str_pop c)"
| "cb_pop (CB_Int64 c) = CB_Int64 (prim_pop c)"
| "cb_pop (CB_Float64 c) = CB_Float64 (prim_pop c)"
| "cb_pop (CB_Boolean c) = CB_Boolean (prim_pop c)"
| "cb_pop (CB_Date32 c) = CB_Date32 (prim_pop c)"
| "cb_pop (CB_Timestamp unit fmt c) = CB_Timestamp unit fmt (prim_pop c)"
| "cb_pop (CB_Decimal128 scale c) = CB_Decimal128 scale (prim_pop c)"
| "cb_pop (CB_Dictionary codes t) = CB_Dictionary (snd (null_pop codes)) t"

fun cb_len :: "column_builder \<Rightarrow> nat" where
  "cb_len (CB_String c) = str_len c"
| "cb_len (CB_Int64 c) = prim_len c"
| "cb_len (CB_Float64 c) = prim_len c"
| "cb_len (CB_Boolean c) = prim_len c"
| "cb_len (CB_Date32 c) = prim_len c"
| "cb_len (CB_Timestamp _ _ c) = prim_len c"
| "cb_len (CB_Decimal128 _ c) = prim_len c"
| "cb_len (CB_Dictionary codes _) = null_len codes"

text \<open>The element sizes are those of \<open>i64\<close>, \<open>f64\<close>, \<open>bool\<close>, \<open>i32\<close> and \<open>i128\<close>.\<close>

fun cb_bytes_used :: "column_builder \<Rightarrow> nat" where
  "cb_bytes_used (CB_String c) = str_bytes_used c"
| "cb_bytes_used (CB_Int64 c) = prim_bytes_used 8 c"
| "cb_bytes_used (CB_Float64 c) = prim_bytes_used 8 c"
| "cb_bytes_used (CB_Boolean c) = prim_bytes_used 1 c"
| "cb_bytes_used (CB_Date32 c) = prim_bytes_used 4 c"
| "cb_bytes_used (CB_Timestamp _ _ c) = prim_bytes_used 8 c"
| "cb_bytes_used (CB_Decimal128 _ c) = prim_bytes_used 16 c"
| "cb_bytes_used (CB_Dictionary codes t) = null_len codes * 4 + length (ddata t) + length (doffsets t) * 4"

text \<open>\<open>None\<close> is the panic of \<open>assert!(n <= self.len())\<close>.\<close>

definition both :: "('a \<Rightarrow> 'b) \<Rightarrow> 'a \<times> 'a \<Rightarrow> 'b \<times> 'b" where
  "both f p = (f (fst p), f (snd p))"

fun cb_split_at :: "nat \<Rightarrow> column_builder \<Rightarrow> column_builder \<times> column_builder" where
  "cb_split_at n (CB_String c) = both CB_String (str_split_off n c)"
| "cb_split_at n (CB_Int64 c) = both CB_Int64 (prim_split_off n c)"
| "cb_split_at n (CB_Float64 c) = both CB_Float64 (prim_split_off n c)"
| "cb_split_at n (CB_Boolean c) = both CB_Boolean (prim_split_off n c)"
| "cb_split_at n (CB_Date32 c) = both CB_Date32 (prim_split_off n c)"
| "cb_split_at n (CB_Timestamp unit fmt c) = both (CB_Timestamp unit fmt) (prim_split_off n c)"
| "cb_split_at n (CB_Decimal128 scale c) = both (CB_Decimal128 scale) (prim_split_off n c)"
| "cb_split_at n (CB_Dictionary codes t) = both (\<lambda>cs. CB_Dictionary cs t) (null_split_off n codes)"

definition cb_split_off :: "nat \<Rightarrow> column_builder \<Rightarrow> (column_builder \<times> column_builder) option" where
  "cb_split_off n c = (if n \<le> cb_len c then Some (cb_split_at n c) else None)"

section \<open>Lookups\<close>

fun get_filter_view :: "column_builder \<Rightarrow> nat \<Rightarrow> string option" where
  "get_filter_view (CB_String c) i = str_get c i"
| "get_filter_view (CB_Dictionary codes t) i = Option.bind (null_get codes i) (dict_str t)"
| "get_filter_view _ i = None"

fun get_filter_value :: "externals \<Rightarrow> column_builder \<Rightarrow> nat \<Rightarrow> string option" where
  "get_filter_value X (CB_String c) i = str_get c i"
| "get_filter_value X (CB_Int64 c) i = map_option int_to_string (prim_get c i)"
| "get_filter_value X (CB_Float64 c) i = map_option f64_to_string (prim_get c i)"
| "get_filter_value X (CB_Boolean c) i = map_option bool_to_string (prim_get c i)"
| "get_filter_value X (CB_Date32 c) i = map_option (format_date32 X) (prim_get c i)"
| "get_filter_value X (CB_Timestamp unit _ c) i = map_option (\<lambda>ts. format_timestamp X ts unit) (prim_get c i)"
| "get_filter_value X (CB_Decimal128 scale c) i = map_option (\<lambda>n. format_decimal128 n scale) (prim_get c i)"
| "get_filter_value X (CB_Dictionary codes t) i =
     Option.bind (null_get codes i) (\<lambda>code. map_option utf8_lossy (dict_entry t code))"

fun get_typed_value :: "column_builder \<Rightarrow> nat \<Rightarrow> typed_value option" where
  "get_typed_value (CB_String c) i = map_option TV_Str (str_get c i)"
| "get_typed_value (CB_Int64 c) i = map_option TV_Int64 (prim_get c i)"
| "get_typed_value (CB_Float64 c) i = map_option TV_Float64 (prim_get c i)"
| "get_typed_value (CB_Boolean c) i = map_option TV_Bool (prim_get c i)"
| "get_typed_value (CB_Date32 c) i = map_option TV_Date32 (prim_get c i)"
| "get_typed_value (CB_Timestamp unit _ c) i = map_option (\<lambda>v. TV_Timestamp v unit) (prim_get c i)"
| "get_typed_value (CB_Decimal128 scale c) i = map_option (\<lambda>n. TV_Decimal128 n scale) (prim_get c i)"
| "get_typed_value (CB_Dictionary codes t) i = map_option TV_Str (Option.bind (null_get codes i) (dict_str t))"

definition is_some_and :: "('a \<Rightarrow> bool) \<Rightarrow> 'a option \<Rightarrow> bool" where
  "is_some_and P v = (case v of Some x \<Rightarrow> P x | None \<Rightarrow> False)"

definition bool_words :: "string list" where
  "bool_words = [''true'', ''false'', ''1'', ''0'', ''yes'', ''no'']"

text \<open>\<open>i64::MAX as f64\<close> rounds up to \<open>2 ^ 63\<close>.\<close>

definition float_is_i64 :: "f64 \<Rightarrow> bool" where
  "float_is_i64 f \<longleftrightarrow>
     f64_fract_zero f \<and> f64_ge f (f64_of_int (- (2 ^ 63))) \<and> f64_le f (f64_of_int (2 ^ 63 - 1))"

fun is_type_at_str :: "externals \<Rightarrow> string option \<Rightarrow> field_type \<Rightarrow> bool" where
  "is_type_at_str X v FT_String = (v \<noteq> None)"
| "is_type_at_str X v FT_Int64 = is_some_and (\<lambda>s. parse_i64 s \<noteq> None) v"
| "is_type_at_str X v FT_Float64 = is_some_and (\<lambda>s. parse_f64 s \<noteq> None) v"
| "is_type_at_str X v FT_Boolean = is_some_and (\<lambda>s. to_lowercase X s \<in> set bool_words) v"
| "is_type_at_str X v FT_Date32 = is_some_and (\<lambda>s. parse_date32 X s \<noteq> None) v"
| "is_type_at_str X v (FT_Timestamp _ _) =
     is_some_and (\<lambda>s. parse_i64 s \<noteq> None \<or> parse_date32 X s \<noteq> None) v"
| "is_type_at_str X v (FT_Decimal128 _) =
     is_some_and (\<lambda>s. parse_i128 (trim s) \<noteq> None \<or> parse_f64 s \<noteq> None) v"
| "is_type_at_str X v FT_Dictionary = (v \<noteq> None)"

fun is_type_at :: "externals \<Rightarrow> column_builder \<Rightarrow> nat \<Rightarrow> field_type \<Rightarrow> bool" where
  "is_type_at X (CB_String c) i ft = is_type_at_str X (str_get c i) ft"
| "is_type_at X (CB_Int64 c) i ft =
     (case ft of FT_Int64 \<Rightarrow> prim_get c i \<noteq> None | FT_Float64 \<Rightarrow> prim_get c i \<noteq> None
      | FT_String \<Rightarrow> prim_get c i \<noteq> None
      | FT_Boolean \<Rightarrow> is_some_and (\<lambda>n. n = 0 \<or> n = 1) (prim_get c i) | _ \<Rightarrow> False)"
| "is_type_at X (CB_Float64 c) i ft =
     (case ft of FT_Float64 \<Rightarrow> prim_get c i \<noteq> None | FT_String \<Rightarrow> prim_get c i \<noteq> None
      | FT_Int64 \<Rightarrow> is_some_and float_is_i64 (prim_get c i)
      | FT_Boolean \<Rightarrow> is_some_and (\<lambda>f. f64_is_zero f \<or> f64_eq f (f64_of_int 1)) (prim_get c i) | _ \<Rightarrow> False)"
| "is_type_at X (CB_Boolean c) i ft =
     (case ft of FT_Boolean \<Rightarrow> prim_get c i \<noteq> None | FT_String \<Rightarrow> prim_get c i \<noteq> None
      | FT_Int64 \<Rightarrow> prim_get c i \<noteq> None | FT_Float64 \<Rightarrow> prim_get c i \<noteq> None | _ \<Rightarrow> False)"
| "is_type_at X (CB_Date32 c) i ft =
     (case ft of FT_Date32 \<Rightarrow> prim_get c i \<noteq> None | FT_String \<Rightarrow> prim_get c i \<noteq> None
      | FT_Int64 \<Rightarrow> prim_get c i \<noteq> None | _ \<Rightarrow> False)"
| "is_type_at X (CB_Timestamp u1 _ c) i ft =
     (case ft of FT_Timestamp u2 _ \<Rightarrow> u1 = u2 \<and> prim_get c i \<noteq> None
      | FT_String \<Rightarrow> prim_get c i \<noteq> None | FT_Int64 \<Rightarrow> prim_get c i \<noteq> None | _ \<Rightarrow> False)"
| "is_type_at X (CB_Decimal128 _ c) i ft =
     (case ft of FT_Decimal128 _ \<Rightarrow> prim_get c i \<noteq> None | FT_String \<Rightarrow> prim_get c i \<noteq> None
      | FT_Int64 \<Rightarrow> prim_get c i \<noteq> None | FT_Float64 \<Rightarrow> prim_get c i \<noteq> None | _ \<Rightarrow> False)"
| "is_type_at X (CB_Dictionary codes _) i ft =
     (case ft of FT_Dictionary \<Rightarrow> null_get codes i \<noteq> None | FT_String \<Rightarrow> null_get codes i \<noteq> None
      | _ \<Rightarrow> False)"

section \<open>Unification across chunks\<close>

fun variant_key :: "column_builder \<Rightarrow> string" where
  "variant_key (CB_String _) = ''string''"
| "variant_key (CB_Int64 _) = ''int64''"
| "variant_key (CB_Float64 _) = ''float64''"
| "variant_key (CB_Boolean _) = ''boolean''"
| "variant_key (CB_Date32 _) = ''date32''"
| "variant_key (CB_Timestamp unit _ _) =
     (case unit of Second \<Rightarrow> ''timestamp[s]'' | Millisecond \<Rightarrow> ''timestamp[ms]''
      | Microsecond \<Rightarrow> ''timestamp[us]'' | Nanosecond \<Rightarrow> ''timestamp[ns]'')"
| "variant_key (CB_Decimal128 scale _) =
     (if scale = 0 then ''decimal128(0)'' else if scale = 2 then ''decimal128(2)''
      else if scale = 4 then ''decimal128(4)'' else if scale = 8 then ''decimal128(8)''
      else if scale = 10 then ''decimal128(10)'' else if scale = 18 then ''decimal128(18)''
      else ''decimal128'')"
| "variant_key (CB_Dictionary _ _) = ''dictionary''"

definition VARIANT_KEYS :: "string list" where
  "VARIANT_KEYS =
     [''string'', ''int64'', ''float64'', ''boolean'', ''date32'', ''timestamp[s]'', ''timestamp[ms]'',
      ''timestamp[us]'', ''timestamp[ns]'', ''dictionary'']"

definition unify_variants :: "string \<Rightarrow> string \<Rightarrow> string option" where
  "unify_variants a b =
     (if a = b then List.find (\<lambda>k. k = a) VARIANT_KEYS
      else if (a, b) = (''int64'', ''float64'') \<or> (a, b) = (''float64'', ''int64'') then Some ''float64''
      else if (a, b) = (''string'', ''dictionary'') \<or> (a, b) = (''dictionary'', ''string'')
           then Some ''dictionary''
      else None)"

text \<open>An error leaves the column as it was: the code puts the taken storage back.\<close>

definition cb_promote :: "string \<Rightarrow> column_builder \<Rightarrow> column_builder result" where
  "cb_promote target c =
     (let failure = Inl (Merge_error (''cannot promote column to unified variant '' @ target))
      in if variant_key c = target then Inr c
         else case c of
           CB_Int64 v \<Rightarrow>
             if target \<noteq> ''float64'' then failure
             else Inr (CB_Float64 \<lparr>pdata = map f64_of_int (pdata v), pvalid = pvalid v\<rparr>)
         | CB_String old \<Rightarrow>
             if target \<noteq> ''dictionary'' then failure
             else (let (codes, t) = dict_encode (str_rows old) null_empty dict_new
                   in Inr (CB_Dictionary codes t))
         | _ \<Rightarrow> failure)"

text \<open>
  Remapping another chunk's dictionary into ours: the loop over its entries, then one pass over
  its codes. \<open>None\<close> is a panic (an offset that does not slice the arena, or a code outside the
  map).
\<close>

fun dict_remap :: "dict_table \<Rightarrow> nat list \<Rightarrow> dict_table \<Rightarrow> (int list \<times> dict_table) option" where
  "dict_remap b [] a = Some ([], a)"
| "dict_remap b (i # is) a =
     (case dict_entry b (int i) of None \<Rightarrow> None
      | Some bytes \<Rightarrow>
          (let (code, a') = dict_code a (if utf8_valid bytes then bytes else [])
           in map_option (\<lambda>(remap, a''). (code # remap, a'')) (dict_remap b is a')))"

fun push_remapped :: "int list \<Rightarrow> int option list \<Rightarrow> int nullable_column \<Rightarrow> int nullable_column option" where
  "push_remapped remap [] codes = Some codes"
| "push_remapped remap (None # cs) codes = push_remapped remap cs (null_push 0 None codes)"
| "push_remapped remap (Some code # cs) codes =
     (case idx remap (i32_as_usize code) of None \<Rightarrow> None
      | Some r \<Rightarrow> push_remapped remap cs (null_push 0 (Some r) codes))"

definition prim_extend :: "'a prim_column \<Rightarrow> 'a prim_column \<Rightarrow> 'a prim_column" where
  "prim_extend a b = (if prim_len a = 0 then b else prim_append a b)"

text \<open>\<open>None\<close> is a panic, \<open>Some (Inl _)\<close> the error result with \<open>self\<close> unchanged.\<close>

definition type_mismatch :: "column_builder result option" where
  "type_mismatch = Some (Inl (Merge_error ''extend_owned: column type mismatch across chunks''))"

fun cb_extend_owned :: "column_builder \<Rightarrow> column_builder \<Rightarrow> column_builder result option" where
  "cb_extend_owned (CB_String a) other =
     (case other of CB_String b \<Rightarrow>
        (if str_len a = 0 then Some (Inr (CB_String b))
         else if soffsets b = [] then None else Some (Inr (CB_String (str_append a b))))
      | _ \<Rightarrow> type_mismatch)"
| "cb_extend_owned (CB_Int64 a) other =
     (case other of CB_Int64 b \<Rightarrow> Some (Inr (CB_Int64 (prim_extend a b))) | _ \<Rightarrow> type_mismatch)"
| "cb_extend_owned (CB_Float64 a) other =
     (case other of CB_Float64 b \<Rightarrow> Some (Inr (CB_Float64 (prim_extend a b))) | _ \<Rightarrow> type_mismatch)"
| "cb_extend_owned (CB_Boolean a) other =
     (case other of CB_Boolean b \<Rightarrow> Some (Inr (CB_Boolean (prim_extend a b))) | _ \<Rightarrow> type_mismatch)"
| "cb_extend_owned (CB_Date32 a) other =
     (case other of CB_Date32 b \<Rightarrow> Some (Inr (CB_Date32 (prim_extend a b))) | _ \<Rightarrow> type_mismatch)"
| "cb_extend_owned (CB_Timestamp ua fmt a) other =
     (case other of CB_Timestamp ub _ b \<Rightarrow>
        (if ua \<noteq> ub then Some (Inl (Merge_error ''extend_owned: timestamp unit mismatch''))
         else Some (Inr (CB_Timestamp ua fmt (prim_extend a b))))
      | _ \<Rightarrow> type_mismatch)"
| "cb_extend_owned (CB_Decimal128 sa a) other =
     (case other of CB_Decimal128 sb b \<Rightarrow>
        (if sa \<noteq> sb then Some (Inl (Merge_error ''extend_owned: decimal128 scale mismatch''))
         else Some (Inr (CB_Decimal128 sa (prim_extend a b))))
      | _ \<Rightarrow> type_mismatch)"
| "cb_extend_owned (CB_Dictionary ac at) other =
     (case other of CB_Dictionary bc bt \<Rightarrow>
        (if null_len ac = 0 then Some (Inr (CB_Dictionary bc bt))
         else if doffsets bt = [] then None
         else (case dict_remap bt [0..<dict_size bt] at of None \<Rightarrow> None
           | Some (remap, at') \<Rightarrow>
               map_option (\<lambda>cs. Inr (CB_Dictionary cs at')) (push_remapped remap (null_iter bc) ac)))
      | _ \<Rightarrow> type_mismatch)"

section \<open>Dictionary upgrade\<close>

definition distinct_values :: "string option list \<Rightarrow> nat" where
  "distinct_values vs = length (remdups (List.map_filter id vs))"

definition cb_try_upgrade :: "nat \<Rightarrow> f64 \<Rightarrow> nat \<Rightarrow> column_builder \<Rightarrow> column_builder" where
  "cb_try_upgrade min_rows max_ratio max_size c =
     (case c of
        CB_String old \<Rightarrow>
          (if str_len old < min_rows then c
           else (let ratio_cap = max (f64_as_usize (f64_mul (f64_of_int (int (str_len old))) max_ratio)) 16
                 in if min ratio_cap max_size < distinct_values (str_rows old) then c
                    else (let (codes, t) = dict_encode (str_rows old) null_empty dict_new
                          in CB_Dictionary codes t)))
      | _ \<Rightarrow> c)"

definition cb_dict_codes :: "column_builder \<Rightarrow> int nullable_column option" where
  "cb_dict_codes c = (case c of CB_Dictionary codes _ \<Rightarrow> Some codes | _ \<Rightarrow> None)"

definition cb_replace_dict :: "dict_table \<Rightarrow> column_builder \<Rightarrow> column_builder" where
  "cb_replace_dict t c = (case c of CB_Dictionary codes _ \<Rightarrow> CB_Dictionary codes t | _ \<Rightarrow> c)"

section \<open>Export\<close>

datatype data_type =
    DT_Utf8 | DT_Int64 | DT_Float64 | DT_Boolean | DT_Date32
  | DT_Timestamp time_unit
  | DT_Decimal128 nat int
  | DT_Dictionary

fun arrow_datatype :: "column_builder \<Rightarrow> data_type" where
  "arrow_datatype (CB_String _) = DT_Utf8"
| "arrow_datatype (CB_Int64 _) = DT_Int64"
| "arrow_datatype (CB_Float64 _) = DT_Float64"
| "arrow_datatype (CB_Boolean _) = DT_Boolean"
| "arrow_datatype (CB_Date32 _) = DT_Date32"
| "arrow_datatype (CB_Timestamp unit _ _) = DT_Timestamp unit"
| "arrow_datatype (CB_Decimal128 scale _) = DT_Decimal128 38 (int (min scale 38))"
| "arrow_datatype (CB_Dictionary _ _) = DT_Dictionary"

text \<open>
  An exported array is its type and its cells. What is left behind: the buffers are taken, a
  decimal column keeps its rows, a dictionary column keeps its index.
\<close>

record arrow_array =
  atype :: data_type
  acells :: "typed_value option list"

fun cb_taken :: "column_builder \<Rightarrow> column_builder" where
  "cb_taken (CB_String _) = CB_String str_default"
| "cb_taken (CB_Int64 _) = CB_Int64 prim_empty"
| "cb_taken (CB_Float64 _) = CB_Float64 prim_empty"
| "cb_taken (CB_Boolean _) = CB_Boolean prim_empty"
| "cb_taken (CB_Date32 _) = CB_Date32 prim_empty"
| "cb_taken (CB_Timestamp unit fmt _) = CB_Timestamp unit fmt prim_empty"
| "cb_taken (CB_Decimal128 scale c) = CB_Decimal128 scale c"
| "cb_taken (CB_Dictionary _ t) = CB_Dictionary null_empty \<lparr>ddata = [], doffsets = [], dindex = dindex t\<rparr>"

definition cb_rows :: "column_builder \<Rightarrow> typed_value option list" where
  "cb_rows c = map (get_typed_value c) [0..<cb_len c]"

text \<open>
  \<open>with_precision_and_scale(38, scale)\<close> of the arrow crate refuses a scale above its maximum of 38; a
  negative scale passes. An empty decimal column casts its scale to \<open>i8\<close> as it is, a column with rows
  clamps it to 38 first: only the empty one can fail, or get another type than \<open>arrow_datatype\<close> says.
  A cell keeps the scale it was stored with.
\<close>

definition with_scale :: "int \<Rightarrow> typed_value option list \<Rightarrow> arrow_array result" where
  "with_scale scale cells =
     (if 38 < scale then Inl (Arrow_error (''scale '' @ nat_to_string (nat scale) @ '' is greater than max 38''))
      else Inr \<lparr>atype = DT_Decimal128 38 scale, acells = cells\<rparr>)"

definition to_arrow_array :: "column_builder \<Rightarrow> arrow_array result \<times> column_builder" where
  "to_arrow_array c =
     (if cb_len c = 0
      then (case c of CB_Decimal128 scale _ \<Rightarrow> with_scale (sint (of_nat scale :: 8 word)) []
            | _ \<Rightarrow> Inr \<lparr>atype = arrow_datatype c, acells = []\<rparr>, c)
      else (case c of CB_Decimal128 scale _ \<Rightarrow> with_scale (int (min scale 38)) (cb_rows c)
            | _ \<Rightarrow> Inr \<lparr>atype = arrow_datatype c, acells = cb_rows c\<rparr>, cb_taken c))"

end
