(* ===== verification/Column_Laws.thy ===== *)
theory Column_Laws
  imports Column_Builder
begin

text \<open>
  What the operations of Column_Builder promise about the cells a column stands for. The
  column builder is an instance of the row-store interface, with \<open>cell_of\<close> as its
  conversion; merging, promotion and dictionary encoding keep the rows.
\<close>

section \<open>Rows and invariant\<close>

fun cb_ok :: "column_builder \<Rightarrow> bool" where
  "cb_ok (CB_String c) = str_ok c"
| "cb_ok (CB_Int64 c) = prim_ok c"
| "cb_ok (CB_Float64 c) = prim_ok c"
| "cb_ok (CB_Boolean c) = prim_ok c"
| "cb_ok (CB_Date32 c) = prim_ok c"
| "cb_ok (CB_Timestamp _ _ c) = prim_ok c"
| "cb_ok (CB_Decimal128 _ c) = prim_ok c"
| "cb_ok (CB_Dictionary codes t) = dict_col_ok codes t"

lemma rows_map: "map (\<lambda>i. f (g i)) [0..<n] = map f (map g [0..<n])"
  by simp

lemma length_dict_rows [simp]: "length (dict_rows codes t) = null_len codes"
  by (simp add: dict_rows_def null_iter_def)

lemma cb_rows_simps [rows_simps]:
  "cb_rows (CB_String c) = map (map_option TV_Str) (str_rows c)"
  "cb_rows (CB_Int64 p) = map (map_option TV_Int64) (prim_rows p)"
  "cb_rows (CB_Float64 q) = map (map_option TV_Float64) (prim_rows q)"
  "cb_rows (CB_Boolean r) = map (map_option TV_Bool) (prim_rows r)"
  "cb_rows (CB_Date32 p) = map (map_option TV_Date32) (prim_rows p)"
  "cb_rows (CB_Timestamp u fmt p) = map (map_option (\<lambda>v. TV_Timestamp v u)) (prim_rows p)"
  "cb_rows (CB_Decimal128 scale p) = map (map_option (\<lambda>n. TV_Decimal128 n scale)) (prim_rows p)"
  "cb_rows (CB_Dictionary codes t) = map (map_option TV_Str) (dict_rows codes t)"
  by (simp_all add: cb_rows_def str_rows_def prim_rows_def dict_rows_def null_iter_def)

lemma length_cb_rows [simp]: "length (cb_rows c) = cb_len c"
  by (simp add: cb_rows_def)

lemma get_typed_value_rows: "get_typed_value c i = (if i < cb_len c then cb_rows c ! i else None)"
proof (cases "i < cb_len c")
  case False
  then show ?thesis
    by (cases c) (auto simp: str_get_beyond prim_get_rows null_get_def vb_is_valid_def null_len_def
        simp flip: prim_len_rows)
qed (simp add: cb_rows_def)

section \<open>Conversion\<close>

text \<open>The text a value is stored as in a string or dictionary column.\<close>

fun text_of :: "externals \<Rightarrow> field_value \<Rightarrow> string option" where
  "text_of X Null = None"
| "text_of X (Str s) = Some s"
| "text_of X (Int64 i) = Some (int_to_string i)"
| "text_of X (Float64 f) = Some (f64_to_string f)"
| "text_of X (Bool b) = Some (bool_to_string b)"
| "text_of X (Date32 d) = Some (format_date32 X d)"
| "text_of X (Timestamp ts) = Some (int_to_string ts)"

fun int_of :: "externals \<Rightarrow> field_value \<Rightarrow> int option" where
  "int_of X (Str s) = lex_i64 X s"
| "int_of X (Int64 i) = Some i"
| "int_of X (Float64 f) = Some (f64_as_i64 f)"
| "int_of X (Date32 d) = Some d"
| "int_of X (Timestamp ts) = Some ts"
| "int_of X _ = None"

fun float_of :: "externals \<Rightarrow> field_value \<Rightarrow> f64 option" where
  "float_of X (Str s) = lex_f64 X s"
| "float_of X (Int64 i) = Some (f64_of_int i)"
| "float_of X (Float64 f) = Some f"
| "float_of X (Date32 d) = Some (f64_of_int d)"
| "float_of X (Timestamp ts) = Some (f64_of_int ts)"
| "float_of X _ = None"

fun bool_of :: "field_value \<Rightarrow> bool option" where
  "bool_of (Str s) = parse_bool s"
| "bool_of (Bool b) = Some b"
| "bool_of _ = None"

fun date_of :: "externals \<Rightarrow> field_value \<Rightarrow> int option" where
  "date_of X (Str s) = parse_date32 X s"
| "date_of X (Date32 d) = Some d"
| "date_of X _ = None"

fun timestamp_of :: "externals \<Rightarrow> time_unit \<Rightarrow> string option \<Rightarrow> field_value \<Rightarrow> int option" where
  "timestamp_of X u fmt (Str s) = parse_timestamp X s u fmt"
| "timestamp_of X u fmt (Timestamp ts) = Some ts"
| "timestamp_of X u fmt _ = None"

fun decimal_of :: "nat \<Rightarrow> field_value \<Rightarrow> int option" where
  "decimal_of scale (Str s) = parse_decimal128 s scale"
| "decimal_of scale _ = None"

fun cell_of :: "externals \<Rightarrow> column_builder \<Rightarrow> field_value \<Rightarrow> typed_value option" where
  "cell_of X (CB_String _) v = map_option TV_Str (text_of X v)"
| "cell_of X (CB_Int64 _) v = map_option TV_Int64 (int_of X v)"
| "cell_of X (CB_Float64 _) v = map_option TV_Float64 (float_of X v)"
| "cell_of X (CB_Boolean _) v = map_option TV_Bool (bool_of v)"
| "cell_of X (CB_Date32 _) v = map_option TV_Date32 (date_of X v)"
| "cell_of X (CB_Timestamp u fmt _) v = map_option (\<lambda>t. TV_Timestamp t u) (timestamp_of X u fmt v)"
| "cell_of X (CB_Decimal128 scale _) v = map_option (\<lambda>n. TV_Decimal128 n scale) (decimal_of scale v)"
| "cell_of X (CB_Dictionary _ _) v = map_option TV_Str (text_of X v)"

text \<open>Room for a value: the arenas address fewer than \<open>2 ^ 31\<close> bytes and hold valid UTF-8.\<close>

fun cb_fits :: "externals \<Rightarrow> column_builder \<Rightarrow> field_value \<Rightarrow> bool" where
  "cb_fits X (CB_String c) v = str_fits c (text_of X v)"
| "cb_fits X (CB_Dictionary _ t) v = (case text_of X v of None \<Rightarrow> True | Some s \<Rightarrow> dict_fits t s)"
| "cb_fits X _ v = True"

lemma prim_push_ok' [simp]:
  "prim_ok c \<Longrightarrow> prim_ok (prim_push d v c)"
  "prim_ok c \<Longrightarrow> prim_rows (prim_push d v c) = prim_rows c @ [v]"
  by (simp_all add: prim_push_ok)

lemma cb_push_dict_ok:
  "dict_col_ok codes t \<Longrightarrow> dict_fits t s \<Longrightarrow>
     cb_ok (cb_push_dict s codes t) \<and>
     cb_rows (cb_push_dict s codes t) = map (map_option TV_Str) (dict_rows codes t) @ [Some (TV_Str s)]"
  using dict_col_push [of codes t s]
  by (cases "dict_code t s") (simp add: cb_push_dict_def rows_simps)

lemma cb_push_None:
  assumes "cb_ok c"
  shows "cb_ok (cb_push X None c) \<and> cb_rows (cb_push X None c) = cb_rows c @ [None]"
  using assms str_push_ok [of _ None] dict_col_null
  by (cases c) (auto simp: cb_push_def rows_simps str_fits_def)

lemma cb_push_str_ok:
  assumes "cb_ok c" "cb_fits X c (Str s)"
  shows "cb_ok (cb_push_str X (Some s) c) \<and>
    cb_rows (cb_push_str X (Some s) c) = cb_rows c @ [cell_of X c (Str s)]"
  using assms str_push_ok [of _ "Some s"] cb_push_dict_ok
  by (cases c) (auto simp: rows_simps)

lemma cb_push_value_ok:
  assumes "cb_ok c" "cb_fits X c v"
  shows "cb_ok (cb_push_value X v c) \<and> cb_rows (cb_push_value X v c) = cb_rows c @ [cell_of X c v]"
proof (cases v)
  case Null
  with cb_push_None [OF assms(1)] show ?thesis by (cases c) simp_all
next
  case (Str s)
  with cb_push_str_ok assms show ?thesis by simp
qed (use assms cb_push_None [of c X] str_push_ok cb_push_dict_ok in
      \<open>cases c; simp add: cb_unit_def rows_simps Let_def\<close>)+

lemma cb_pop_ok:
  assumes "cb_ok c"
  shows "cb_ok (cb_pop c) \<and> cb_rows (cb_pop c) = butlast (cb_rows c)"
proof (cases c)
  case (CB_Dictionary codes t)
  then have ok: "null_ok codes" "dict_ok t" "list_all (coded t) (null_iter codes)"
    using assms by (simp_all add: dict_col_ok_def)
  have "list_all (coded t) (butlast (null_iter codes))"
    using ok(3) by (auto simp: list_all_iff dest: in_set_butlastD)
  then show ?thesis using CB_Dictionary ok null_pop_ok [OF ok(1)]
    by (simp add: rows_simps dict_col_ok_def dict_rows_def map_butlast)
qed (use assms in \<open>simp_all add: rows_simps map_butlast str_pop_ok prim_pop_ok\<close>)

lemma cell_of_pop [simp]: "cell_of X (cb_pop c) v = cell_of X c v"
  by (cases c) simp_all

interpretation col: row_store cb_rows cb_ok "cb_fits X" "cell_of X" Null "cb_push_value X" cb_pop cb_len
  get_typed_value for X
proof unfold_locales
  fix s v
  show "cb_ok s \<Longrightarrow> cb_fits X s v \<Longrightarrow> cb_ok (cb_push_value X v s)"
    and "cb_ok s \<Longrightarrow> cb_fits X s v \<Longrightarrow> cb_rows (cb_push_value X v s) = cb_rows s @ [cell_of X s v]"
    using cb_push_value_ok by blast+
  show "cb_fits X s Null" by (cases s) (simp_all add: str_fits_def)
  show "cell_of X s Null = None" by (cases s) simp_all
qed (auto simp: cb_pop_ok get_typed_value_rows)

lemma cb_with_capacity_ok [simp]: "cb_ok (cb_with_capacity ft)" "cb_rows (cb_with_capacity ft) = []"
  "cb_len (cb_with_capacity ft) = 0"
proof -
  have n: "null_iter null_empty = []" "null_ok null_empty"
    by (simp_all add: null_iter_def null_empty_def null_len_def vb_empty_def null_ok_def as_prim_def prim_ok_def
        vb_ok_def vb_rows_def flat_def)
  show "cb_ok (cb_with_capacity ft)" by (cases ft) (simp_all add: dict_col_ok_def n)
  show r: "cb_rows (cb_with_capacity ft) = []" by (cases ft) (simp_all add: rows_simps dict_rows_def n)
  show "cb_len (cb_with_capacity ft) = 0" using arg_cong [OF r, of length] by simp
qed


section \<open>Splitting\<close>

text \<open>The first \<open>n\<close> rows move out, the rest stay; a dictionary is copied.\<close>

lemma cb_split_at_ok:
  assumes "cb_ok c" "0 < n" "n \<le> cb_len c"
  shows "cb_ok (fst (cb_split_at n c)) \<and> cb_ok (snd (cb_split_at n c)) \<and>
    cb_rows (fst (cb_split_at n c)) = take n (cb_rows c) \<and>
    cb_rows (snd (cb_split_at n c)) = drop n (cb_rows c)"
proof (cases c)
  case (CB_Dictionary codes t)
  then have ok: "null_ok codes" "dict_ok t" "list_all (coded t) (null_iter codes)" "n \<le> null_len codes"
    using assms by (simp_all add: dict_col_ok_def)
  have "list_all (coded t) (take n (null_iter codes))" "list_all (coded t) (drop n (null_iter codes))"
    using ok(3) by (auto simp: list_all_iff dest: in_set_takeD in_set_dropD)
  then show ?thesis using CB_Dictionary ok null_split_ok [OF ok(1,4)]
    by (simp add: both_def rows_simps dict_col_ok_def dict_rows_def take_map drop_map)
qed (use assms in \<open>simp_all add: both_def rows_simps take_map drop_map str_split_ok prim_split_ok\<close>)

section \<open>Kinds\<close>

text \<open>The declared type a column was built from; it decides the conversion of every value.\<close>

fun cb_kind :: "column_builder \<Rightarrow> field_type" where
  "cb_kind (CB_String _) = FT_String"
| "cb_kind (CB_Int64 _) = FT_Int64"
| "cb_kind (CB_Float64 _) = FT_Float64"
| "cb_kind (CB_Boolean _) = FT_Boolean"
| "cb_kind (CB_Date32 _) = FT_Date32"
| "cb_kind (CB_Timestamp u fmt _) = FT_Timestamp u fmt"
| "cb_kind (CB_Decimal128 scale _) = FT_Decimal128 scale"
| "cb_kind (CB_Dictionary _ _) = FT_Dictionary"

lemma cb_kind_with_capacity [simp]: "cb_kind (cb_with_capacity ft) = ft"
  by (cases ft) simp_all

lemma cb_kind_push_dict [simp]: "cb_kind (cb_push_dict s codes t) = FT_Dictionary"
  by (simp add: cb_push_dict_def split: prod.splits)

lemma cb_kind_push_str [simp]: "cb_kind (cb_push_str X v c) = cb_kind c"
  by (cases c) (simp_all split: option.splits)

lemma cb_kind_push_value [simp]: "cb_kind (cb_push_value X v c) = cb_kind c"
  by (cases v; cases c) (simp_all add: cb_push_def Let_def)

lemma cb_kind_pop [simp]: "cb_kind (cb_pop c) = cb_kind c"
  by (cases c) simp_all

lemma cb_kind_split [simp]:
  "cb_kind (fst (cb_split_at n c)) = cb_kind c" "cb_kind (snd (cb_split_at n c)) = cb_kind c"
  by (cases c; simp add: both_def)+

lemma cell_of_kind: "cb_kind c = cb_kind d \<Longrightarrow> cell_of X c v = cell_of X d v"
  by (cases c; cases d) auto

section \<open>Merging two chunks' columns\<close>

text \<open>The same storage variant, as \<open>extend_owned\<close> requires; timestamp formats may differ.\<close>

fun same_variant :: "field_type \<Rightarrow> field_type \<Rightarrow> bool" where
  "same_variant (FT_Timestamp u _) k = (case k of FT_Timestamp v _ \<Rightarrow> u = v | _ \<Rightarrow> False)"
| "same_variant j k = (j = k)"

fun merge_fits :: "column_builder \<Rightarrow> column_builder \<Rightarrow> bool" where
  "merge_fits (CB_String a) d = (case d of CB_String b \<Rightarrow> str_fits_all a b | _ \<Rightarrow> True)"
| "merge_fits (CB_Dictionary ac at) d =
     (case d of CB_Dictionary bc bt \<Rightarrow> dict_room at (map Some (dict_values bt)) | _ \<Rightarrow> True)"
| "merge_fits _ d = True"

lemma prim_extend_ok:
  assumes "prim_ok a" "prim_ok b"
  shows "prim_ok (prim_extend a b) \<and> prim_rows (prim_extend a b) = prim_rows a @ prim_rows b"
  using assms prim_append_ok [OF assms] prim_len_rows [of a] by (auto simp: prim_extend_def)

text \<open>The map built from another table sends its codes to the codes of the same values.\<close>

lemma dict_remap_ok:
  assumes "dict_ok b" "dict_ok a" "\<forall>i \<in> set is. i < length (dict_values b)"
    and "dict_room a (map (\<lambda>i. Some (dict_values b ! i)) is)"
  shows "\<exists>remap a'. dict_remap b is a = Some (remap, a') \<and> dict_ok a' \<and> length remap = length is \<and>
    (\<exists>ws. dict_values a' = dict_values a @ ws) \<and>
    (\<forall>j < length is. 0 \<le> remap ! j \<and> nat (remap ! j) < length (dict_values a') \<and>
       dict_values a' ! nat (remap ! j) = dict_values b ! (is ! j))"
  using assms(2-4)
proof (induction "is" arbitrary: a)
  case (Cons i "is")
  let ?s = "dict_values b ! i"
  have i: "i < length (dict_values b)" using Cons.prems(2) by simp
  note e = dict_ok_str(2,3) [OF assms(1) i]
  obtain code a1 where c: "dict_code a ?s = (code, a1)" by fastforce
  have room: "dict_fits a ?s" "dict_room a1 (map (\<lambda>i. Some (dict_values b ! i)) is)"
    using dict_room_Some [of a ?s] Cons.prems(3) c by simp_all
  have a1: "dict_ok a1" "dict_values a1 = (if ?s \<in> set (dict_values a) then dict_values a else dict_values a @ [?s])"
    "0 \<le> code" "nat code < length (dict_values a1)" "dict_values a1 ! nat code = ?s"
    using dict_code_ok [OF Cons.prems(1) room(1)] c by (auto split: if_splits)
  obtain remap a' ws where r: "dict_remap b is a1 = Some (remap, a')" "dict_ok a'" "length remap = length is"
    "dict_values a' = dict_values a1 @ ws"
    "\<forall>j < length is. 0 \<le> remap ! j \<and> nat (remap ! j) < length (dict_values a') \<and>
       dict_values a' ! nat (remap ! j) = dict_values b ! (is ! j)"
    using Cons.IH [OF a1(1) _ room(2)] Cons.prems(2) by auto
  have "dict_remap b (i # is) a = Some (code # remap, a')"
    using e c r(1) by simp
  moreover have "\<exists>ws. dict_values a' = dict_values a @ ws" using r(4) a1(2) by simp
  moreover have "nat code < length (dict_values a')" "dict_values a' ! nat code = ?s"
    using a1(4,5) r(4) by (simp_all add: nth_append)
  ultimately show ?case using r(2,3,5) a1(3)
    by (auto simp: nth_Cons split: nat.splits)
qed simp

lemma push_remapped_ok:
  assumes "null_ok codes" "list_all (\<lambda>c. case c of None \<Rightarrow> True | Some k \<Rightarrow> 0 \<le> k \<and> nat k < length remap \<and> k < 2 ^ 31) cs"
  shows "\<exists>codes'. push_remapped remap cs codes = Some codes' \<and> null_ok codes' \<and>
    null_iter codes' = null_iter codes @ map (map_option (\<lambda>k. remap ! nat k)) cs"
  using assms
proof (induction remap cs codes rule: push_remapped.induct)
  case (2 remap cs codes)
  then show ?case
    using nullable.ok_push [OF 2(2) TrueI, of 0 None] nullable.rows_push [OF 2(2) TrueI, of 0 None] by auto
next
  case (3 remap code cs codes)
  then have k: "0 \<le> code" "nat code < length remap" "i32_as_usize code = nat code"
    by (auto simp: i32_as_usize_nonneg)
  then have ix: "idx remap (i32_as_usize code) = Some (remap ! nat code)" by simp
  have "push_remapped remap (Some code # cs) codes =
      push_remapped remap cs (null_push 0 (Some (remap ! nat code)) codes)"
    unfolding push_remapped.simps ix by simp
  then show ?case
    using 3(1) [OF ix] 3(2,3) nullable.ok_push [OF 3(2) TrueI, of 0 "Some (remap ! nat code)"]
      nullable.rows_push [OF 3(2) TrueI, of 0 "Some (remap ! nat code)"] by (auto simp del: push_remapped.simps)
qed simp

lemma dict_values_bound: "dict_ok t \<Longrightarrow> length (dict_values t) < 2 ^ 31"
  by (simp add: dict_ok_def dict_repr_def)

lemma dict_extend_ok:
  assumes "dict_col_ok ac at" "dict_col_ok bc bt" "dict_room at (map Some (dict_values bt))"
  shows "\<exists>remap at' cs. dict_remap bt [0..<dict_size bt] at = Some (remap, at') \<and>
    push_remapped remap (null_iter bc) ac = Some cs \<and> dict_col_ok cs at' \<and>
    dict_rows cs at' = dict_rows ac at @ dict_rows bc bt"
proof -
  have oka: "null_ok ac" "dict_ok at" "list_all (coded at) (null_iter ac)"
    and okb: "null_ok bc" "dict_ok bt" "list_all (coded bt) (null_iter bc)"
    using assms(1,2) by (simp_all add: dict_col_ok_def)
  have sz: "dict_size bt = length (dict_values bt)" by (simp add: dict_values_def)
  have "map (\<lambda>i. Some (dict_values bt ! i)) [0..<dict_size bt] = map Some (dict_values bt)"
    unfolding sz by (rule nth_equalityI) simp_all
  then obtain remap at' ws where r: "dict_remap bt [0..<dict_size bt] at = Some (remap, at')" "dict_ok at'"
      "length remap = dict_size bt" "dict_values at' = dict_values at @ ws"
      "\<forall>j < dict_size bt. 0 \<le> remap ! j \<and> nat (remap ! j) < length (dict_values at') \<and>
         dict_values at' ! nat (remap ! j) = dict_values bt ! j"
    using dict_remap_ok [OF okb(2) oka(2), of "[0..<dict_size bt]"] assms(3) sz by auto
  have in_map: "list_all (\<lambda>c. case c of None \<Rightarrow> True | Some k \<Rightarrow> 0 \<le> k \<and> nat k < length remap \<and> k < 2 ^ 31) (null_iter bc)"
    using okb(3) dict_values_bound [OF okb(2)] r(3) sz
    by (fastforce simp: list_all_iff coded_def split: option.splits)
  obtain cs where cs: "push_remapped remap (null_iter bc) ac = Some cs" "null_ok cs"
      "null_iter cs = null_iter ac @ map (map_option (\<lambda>k. remap ! nat k)) (null_iter bc)"
    using push_remapped_ok [OF oka(1) in_map] by auto
  have ca: "coded at' c \<and> Option.bind c (dict_str at') = Option.bind c (dict_str at)" if "c \<in> set (null_iter ac)" for c
  proof (cases c)
    case (Some k)
    then have k: "coded at (Some k)" using that oka(3) by (auto simp: list_all_iff)
    then have k': "coded at' (Some k)" using r(4) by (simp add: coded_def)
    with Some k coded_str [OF oka(2) k] coded_str [OF r(2) k'] r(4) show ?thesis
      by (simp add: coded_def nth_append)
  qed (simp add: coded_def)
  have cb: "coded at' (map_option (\<lambda>k. remap ! nat k) c) \<and>
      Option.bind (map_option (\<lambda>k. remap ! nat k) c) (dict_str at') = Option.bind c (dict_str bt)"
    if "c \<in> set (null_iter bc)" for c
  proof (cases c)
    case (Some k)
    then have k: "coded bt (Some k)" using that okb(3) by (auto simp: list_all_iff)
    then have j: "nat k < dict_size bt" using sz by (simp add: coded_def)
    then have k': "coded at' (Some (remap ! nat k))" using r(5) by (simp add: coded_def)
    with Some j coded_str [OF okb(2) k] coded_str [OF r(2) k'] r(5) show ?thesis by simp
  qed (simp add: coded_def)
  have "dict_col_ok cs at'"
    using cs(2,3) r(2) ca cb by (auto simp: dict_col_ok_def list_all_iff)
  moreover have "dict_rows cs at' = dict_rows ac at @ dict_rows bc bt"
    using cs(3) ca cb by (simp add: dict_rows_def)
  ultimately show ?thesis using r(1) cs(1) by blast
qed

lemma str_ok_offsets: "str_ok c \<Longrightarrow> soffsets c \<noteq> []"
  using length_offs [of "cell_bytes (str_rows c)"] by (auto simp: str_ok_def str_repr_def simp del: length_offs)

lemma dict_ok_offsets: "dict_ok t \<Longrightarrow> doffsets t \<noteq> []"
  using length_offs [of "dict_values t"] by (auto simp: dict_ok_def dict_repr_def simp del: length_offs)

lemma cb_extend_ok:
  assumes "cb_ok c" "cb_ok d" "same_variant (cb_kind c) (cb_kind d)" "merge_fits c d"
  shows "\<exists>e. cb_extend_owned c d = Some (Inr e) \<and> cb_ok e \<and> same_variant (cb_kind c) (cb_kind e) \<and>
    cb_rows e = cb_rows c @ cb_rows d"
proof (cases c)
  case (CB_String a)
  then obtain b where "d = CB_String b" using assms(3) by (cases d) auto
  then show ?thesis using CB_String assms str_append_ok [of a b] str_ok_offsets [of b]
    by (auto simp: rows_simps str_rows_def)
next
  case (CB_Dictionary ac at)
  then obtain bc bt where d: "d = CB_Dictionary bc bt" using assms(3) by (cases d) auto
  then show ?thesis
    using CB_Dictionary assms dict_extend_ok [of ac at bc bt] dict_ok_offsets [of bt]
    by (auto simp: rows_simps dict_rows_def null_iter_def dict_col_ok_def)
qed (use assms prim_extend_ok in \<open>cases d; auto simp: rows_simps\<close>)+

lemma cb_extend_mismatch:
  assumes "\<not> same_variant (cb_kind c) (cb_kind d)"
  shows "\<exists>m. cb_extend_owned c d = Some (Inl (Merge_error m))"
  using assms by (cases c; cases d) (auto simp: type_mismatch_def)


section \<open>Promotion and dictionary encoding keep the rows\<close>

lemma null_empty_ok [simp]: "null_ok null_empty" "null_iter null_empty = []"
  by (simp_all add: null_iter_def null_empty_def null_len_def vb_empty_def null_ok_def as_prim_def prim_ok_def
      vb_ok_def vb_rows_def flat_def)

lemma dict_encode_sizes:
  "length (ddata (snd (dict_encode vs codes t))) \<le> length (ddata t) + length (concat (cell_bytes vs)) \<and>
   length (doffsets (snd (dict_encode vs codes t))) \<le> length (doffsets t) + length vs"
proof (induction vs codes t rule: dict_encode.induct)
  case (3 s vs codes t)
  obtain k t' where kt: "dict_code t s = (k, t')" by fastforce
  from 3 [OF kt [symmetric] refl] kt dict_code_sizes [of t s] show ?case by (simp add: cell_bytes_def)
qed (simp_all add: cell_bytes_def)

definition encoded :: "string option list \<Rightarrow> column_builder" where
  "encoded vs = (let (codes, t) = dict_encode vs null_empty dict_new in CB_Dictionary codes t)"

lemma encoded_ok:
  assumes "dict_room dict_new vs"
  shows "cb_ok (encoded vs) \<and> cb_rows (encoded vs) = map (map_option TV_Str) vs"
proof -
  have "dict_col_ok null_empty dict_new" by (simp add: dict_col_ok_def)
  then show ?thesis
    using dict_encode_ok [of null_empty dict_new vs] assms
    by (cases "dict_encode vs null_empty dict_new") (simp add: encoded_def rows_simps dict_rows_def)
qed

text \<open>Bytes of text and number of entries a column would need in a dictionary.\<close>

fun cb_arena :: "column_builder \<Rightarrow> nat" where
  "cb_arena (CB_String c) = length (sdata c)"
| "cb_arena (CB_Dictionary _ t) = length (ddata t)"
| "cb_arena _ = 0"

fun cb_entries :: "column_builder \<Rightarrow> nat" where
  "cb_entries (CB_String c) = str_len c"
| "cb_entries (CB_Dictionary _ t) = dict_size t"
| "cb_entries _ = 0"

lemma str_dict_room:
  assumes "str_ok c" "str_len c + 2 < 2 ^ 31"
  shows "dict_room dict_new (str_rows c)"
  using assms by (auto simp: dict_room_def dict_new_def str_ok_def str_repr_def)

lemma encoded_sizes:
  assumes "str_ok c"
  shows "cb_arena (encoded (str_rows c)) \<le> length (sdata c)" "cb_entries (encoded (str_rows c)) \<le> str_len c"
proof -
  obtain codes t where e: "dict_encode (str_rows c) null_empty dict_new = (codes, t)" by fastforce
  have "sdata c = concat (cell_bytes (str_rows c))" using assms by (simp add: str_ok_def str_repr_def)
  then have "length (ddata t) \<le> length (sdata c)" "length (doffsets t) \<le> Suc (str_len c)"
    using dict_encode_sizes [of "str_rows c" null_empty dict_new] unfolding e by (simp_all add: dict_new_def)
  then show "cb_arena (encoded (str_rows c)) \<le> length (sdata c)" "cb_entries (encoded (str_rows c)) \<le> str_len c"
    by (simp_all add: encoded_def e dict_size_def)
qed

lemma cb_kind_encoded [simp]: "cb_kind (encoded vs) = FT_Dictionary"
  by (simp add: encoded_def split: prod.splits)

fun widen :: "string \<Rightarrow> typed_value option \<Rightarrow> typed_value option" where
  "widen target (Some (TV_Int64 i)) =
     (if target = ''float64'' then Some (TV_Float64 (f64_of_int i)) else Some (TV_Int64 i))"
| "widen target v = v"

lemma widen_other:
  assumes "k \<noteq> ''float64'' \<or> (\<forall>i. v \<noteq> Some (TV_Int64 i))"
  shows "widen k v = v"
proof (cases v)
  case (Some t)
  with assms show ?thesis by (cases t) auto
qed simp

lemma widen_str [simp]: "widen k (map_option TV_Str v) = map_option TV_Str v"
  by (cases v) simp_all

lemma widen_float [simp]: "widen k (map_option TV_Float64 v) = map_option TV_Float64 v"
  by (cases v) simp_all

lemma widen_int: "widen k (map_option TV_Int64 v) =
    (if k = ''float64'' then map_option TV_Float64 (map_option f64_of_int v) else map_option TV_Int64 v)"
  by (cases v) simp_all

lemma masked_map: "masked (map f xs) bs = map (map_option f) (masked xs bs)"
  by (rule nth_equalityI) (simp_all add: masked_def)

lemma prim_map_rows:
  assumes "prim_ok c"
  shows "prim_ok \<lparr>pdata = map f (pdata c), pvalid = pvalid c\<rparr>"
    "prim_rows \<lparr>pdata = map f (pdata c), pvalid = pvalid c\<rparr> = map (map_option f) (prim_rows c)"
proof -
  show "prim_ok \<lparr>pdata = map f (pdata c), pvalid = pvalid c\<rparr>" using assms by (simp add: prim_ok_def)
  with assms show "prim_rows \<lparr>pdata = map f (pdata c), pvalid = pvalid c\<rparr> = map (map_option f) (prim_rows c)"
    by (simp add: prim_rows_masked masked_map)
qed

lemma variant_key_string: "variant_key c = ''string'' \<longleftrightarrow> cb_kind c = FT_String"
  and variant_key_dictionary: "variant_key c = ''dictionary'' \<longleftrightarrow> cb_kind c = FT_Dictionary"
  and variant_key_float: "variant_key c = ''float64'' \<longleftrightarrow> cb_kind c = FT_Float64"
  and variant_key_int: "variant_key c = ''int64'' \<longleftrightarrow> cb_kind c = FT_Int64"
  by (cases c; simp split: time_unit.splits)+

lemma widen_id_rows:
  assumes "cb_kind c \<noteq> FT_Int64 \<or> k \<noteq> ''float64''"
  shows "map (widen k) (cb_rows c) = cb_rows c"
proof -
  have "widen k (get_typed_value c i) = get_typed_value c i" for i
    using assms by (intro widen_other) (cases c; auto)
  then show ?thesis by (simp add: cb_rows_def)
qed

text \<open>Promoting to an accepted key keeps every cell, integers widened to floats.\<close>

lemma cb_promote_ok:
  assumes "cb_ok c" "cb_entries c + 2 < 2 ^ 31"
    and "variant_key c = k \<or> variant_key c = ''int64'' \<and> k = ''float64'' \<or>
         variant_key c = ''string'' \<and> k = ''dictionary''"
  shows "\<exists>c'. cb_promote k c = Inr c' \<and> cb_ok c' \<and> variant_key c' = k \<and>
    cb_rows c' = map (widen k) (cb_rows c) \<and> cb_arena c' \<le> cb_arena c \<and> cb_entries c' \<le> cb_entries c"
proof (cases "variant_key c = k")
  case True
  then have "cb_kind c \<noteq> FT_Int64 \<or> k \<noteq> ''float64''" by (auto simp: variant_key_float)
  with True assms(1) show ?thesis by (simp add: cb_promote_def widen_id_rows)
next
  case False
  then consider (int) v where "c = CB_Int64 v" "k = ''float64''" | (str) v where "c = CB_String v" "k = ''dictionary''"
    using assms(3) by (cases c) (auto split: time_unit.splits if_splits)
  then show ?thesis
  proof cases
    case int
    then show ?thesis using assms(1) prim_map_rows [of v f64_of_int]
      by (simp add: cb_promote_def rows_simps widen_int)
  next
    case str
    then have ok: "str_ok v" "dict_room dict_new (str_rows v)" using assms str_dict_room by simp_all
    have pr: "cb_promote k c = Inr (encoded (str_rows v))"
      using str by (simp add: cb_promote_def encoded_def split: prod.splits)
    have "variant_key (encoded (str_rows v)) = k" using str by (simp add: variant_key_dictionary)
    with pr str encoded_ok [OF ok(2)] encoded_sizes [OF ok(1)] show ?thesis by (simp add: rows_simps)
  qed
qed

lemma merge_fits_sizes:
  assumes "cb_ok c" "cb_ok d" "cb_arena c + cb_arena d < 2 ^ 31" "cb_entries c + cb_entries d + 2 < 2 ^ 31"
  shows "merge_fits c d"
proof (cases c)
  case (CB_String a)
  with assms show ?thesis by (cases d) (auto simp: str_fits_all_def)
next
  case (CB_Dictionary ac at)
  show ?thesis
  proof (cases d)
    case (CB_Dictionary bc bt)
    have r: "dict_repr at (dict_values at)" "dict_repr bt (dict_values bt)"
      using assms(1,2) CB_Dictionary \<open>c = CB_Dictionary ac at\<close> by (simp_all add: dict_col_ok_def dict_ok_def)
    have cells: "cell_bytes (map Some (dict_values bt)) = dict_values bt"
      by (simp add: cell_bytes_def comp_def)
    have "dict_room at (map Some (dict_values bt))"
      unfolding dict_room_def cells
      using assms(3,4) r CB_Dictionary \<open>c = CB_Dictionary ac at\<close> dict_repr_size [OF r(1)] dict_repr_size [OF r(2)]
      by (auto simp: dict_repr_def list_all_iff)
    with CB_Dictionary \<open>c = CB_Dictionary ac at\<close> show ?thesis by simp
  qed (use CB_Dictionary in simp_all)
qed simp_all

lemma same_key_variant:
  assumes "variant_key c = variant_key d" "variant_key c \<in> set VARIANT_KEYS"
  shows "same_variant (cb_kind c) (cb_kind d)"
  using assms
  by (cases c; cases d) (auto simp: VARIANT_KEYS_def split: time_unit.splits if_splits)

lemma find_key: "List.find (\<lambda>k. k = a) ks = Some b \<longleftrightarrow> b = a \<and> a \<in> set ks"
  by (induction ks) auto

lemma unify_variants_Some:
  "unify_variants a b = Some k \<longleftrightarrow>
     a = b \<and> k = a \<and> a \<in> set VARIANT_KEYS \<or>
     k = ''float64'' \<and> {a, b} = {''int64'', ''float64''} \<or>
     k = ''dictionary'' \<and> {a, b} = {''string'', ''dictionary''}"
  by (auto simp: unify_variants_def find_key doubleton_eq_iff)

lemma unify_variants_commute: "unify_variants a b = unify_variants b a"
  by (auto simp: unify_variants_def)

lemma unify_promotable:
  assumes "unify_variants a b = Some k"
  shows "a = k \<or> a = ''int64'' \<and> k = ''float64'' \<or> a = ''string'' \<and> k = ''dictionary''" "k \<in> set VARIANT_KEYS"
  using assms unfolding unify_variants_Some by (auto simp: doubleton_eq_iff VARIANT_KEYS_def)

lemma unify_merge:
  assumes ok: "cb_ok c" "cb_ok d"
    and k: "unify_variants (variant_key c) (variant_key d) = Some k"
    and room: "cb_arena c + cb_arena d < 2 ^ 31" "cb_entries c + cb_entries d + 2 < 2 ^ 31"
  shows "\<exists>c' d' e. cb_promote k c = Inr c' \<and> cb_promote k d = Inr d' \<and>
    cb_extend_owned c' d' = Some (Inr e) \<and> cb_ok e \<and> cb_rows e = map (widen k) (cb_rows c @ cb_rows d)"
proof -
  note k' = k [unfolded unify_variants_commute [of "variant_key c"]]
  obtain c' where c': "cb_promote k c = Inr c'" "cb_ok c'" "variant_key c' = k"
      "cb_rows c' = map (widen k) (cb_rows c)" "cb_arena c' \<le> cb_arena c" "cb_entries c' \<le> cb_entries c"
    using cb_promote_ok [OF ok(1) _ unify_promotable(1) [OF k]] room by auto
  obtain d' where d': "cb_promote k d = Inr d'" "cb_ok d'" "variant_key d' = k"
      "cb_rows d' = map (widen k) (cb_rows d)" "cb_arena d' \<le> cb_arena d" "cb_entries d' \<le> cb_entries d"
    using cb_promote_ok [OF ok(2) _ unify_promotable(1) [OF k']] room by auto
  have "merge_fits c' d'"
    by (rule merge_fits_sizes) (use c' d' room in linarith)+
  moreover have "same_variant (cb_kind c') (cb_kind d')"
    using same_key_variant c'(3) d'(3) unify_promotable(2) [OF k] by simp
  ultimately obtain e where "cb_extend_owned c' d' = Some (Inr e)" "cb_ok e" "cb_rows e = cb_rows c' @ cb_rows d'"
    using cb_extend_ok [OF c'(2) d'(2)] by auto
  with c' d' show ?thesis by auto
qed

lemma cb_try_upgrade_ok:
  assumes "cb_ok c" "cb_entries c + 2 < 2 ^ 31"
  shows "cb_ok (cb_try_upgrade m r s c) \<and> cb_rows (cb_try_upgrade m r s c) = cb_rows c"
proof (cases "cb_try_upgrade m r s c = c")
  case False
  then obtain v where v: "c = CB_String v" by (auto simp: cb_try_upgrade_def split: column_builder.splits)
  with False have up: "cb_try_upgrade m r s c = encoded (str_rows v)"
    by (simp add: cb_try_upgrade_def encoded_def Let_def split: if_splits prod.splits)
  have "dict_room dict_new (str_rows v)" using assms v str_dict_room by simp
  from up v encoded_ok [OF this] show ?thesis by (simp add: rows_simps)
qed (use assms in simp)


text \<open>The dictionary of an encoded list holds exactly its distinct strings.\<close>

lemma dict_encode_values:
  assumes "dict_col_ok codes t" "dict_room t vs"
  shows "set (dict_values (snd (dict_encode vs codes t))) = set (dict_values t) \<union> set (List.map_filter id vs)"
  using assms
proof (induction vs codes t rule: dict_encode.induct)
  case (2 vs codes t)
  have "dict_room t vs" using 2(3) by (auto simp: dict_room_def cell_bytes_def)
  with 2 dict_col_null [OF 2(2)] show ?case by simp
next
  case (3 s vs codes t)
  obtain k t' where kt: "dict_code t s = (k, t')" by fastforce
  have "dict_ok t" using 3(2) by (simp add: dict_col_ok_def)
  from 3(1) [OF kt [symmetric] refl] 3(2,3) dict_col_push [OF 3(2), of s] dict_room_Some [OF 3(3)] kt
    dict_code_ok [OF this, of s]
  show ?case by auto
qed simp

fun cb_dict_size :: "column_builder \<Rightarrow> nat" where
  "cb_dict_size (CB_Dictionary _ t) = dict_size t"
| "cb_dict_size _ = 0"

lemma encoded_dict_size:
  assumes "dict_room dict_new vs"
  shows "cb_dict_size (encoded vs) = distinct_values vs"
proof -
  obtain codes t where e: "dict_encode vs null_empty dict_new = (codes, t)" by fastforce
  have ok: "dict_col_ok null_empty dict_new" by (simp add: dict_col_ok_def)
  have t: "dict_ok t" "set (dict_values t) = set (List.map_filter id vs)"
    using dict_encode_ok [OF ok assms] dict_encode_values [OF ok assms] e by (simp_all add: dict_col_ok_def)
  have d: "distinct (dict_values t)" using t(1) by (simp add: dict_ok_def dict_repr_def)
  have "dict_size t = length (dict_values t)" by (simp add: dict_values_def)
  also have "\<dots> = card (set (dict_values t))" using distinct_card [OF d] by simp
  also have "\<dots> = distinct_values vs" unfolding t(2) distinct_values_def by (simp add: length_remdups_card_conv)
  finally show ?thesis by (simp add: encoded_def e)
qed

lemma str_sizes: "str_ok c \<Longrightarrow> length (sdata c) = length (concat (cell_bytes (str_rows c)))"
  by (simp add: str_ok_def str_repr_def)

lemma str_split_sizes:
  assumes "str_ok c" "0 < n" "n \<le> str_len c"
  shows "length (sdata (fst (str_split_off n c))) \<le> length (sdata c)"
    "length (sdata (snd (str_split_off n c))) \<le> length (sdata c)"
    "str_len (fst (str_split_off n c)) \<le> str_len c" "str_len (snd (str_split_off n c)) \<le> str_len c"
proof -
  obtain a b where ab: "str_split_off n c = (a, b)" by fastforce
  have r: "str_ok a" "str_ok b" "str_rows a = take n (str_rows c)" "str_rows b = drop n (str_rows c)"
    using str_split_ok [OF assms] ab by simp_all
  have e: "cell_bytes (str_rows c) = cell_bytes (str_rows a) @ cell_bytes (str_rows b)"
    unfolding r(3,4) cell_bytes_simps(2) [symmetric] by simp
  have "length (sdata c) = length (sdata a) + length (sdata b)"
    unfolding str_sizes [OF assms(1)] str_sizes [OF r(1)] str_sizes [OF r(2)] e by simp
  moreover have "str_len a \<le> str_len c" "str_len b \<le> str_len c"
    using arg_cong [OF r(3), of length] arg_cong [OF r(4), of length] by simp_all
  ultimately show "length (sdata (fst (str_split_off n c))) \<le> length (sdata c)"
    "length (sdata (snd (str_split_off n c))) \<le> length (sdata c)"
    "str_len (fst (str_split_off n c)) \<le> str_len c" "str_len (snd (str_split_off n c)) \<le> str_len c"
    unfolding ab by simp_all
qed

section \<open>Properties\<close>

lemma cells_after_push:
  assumes "cb_ok c" "cb_fits X c v"
  shows "get_typed_value (cb_push_value X v c) (cb_len c) = cell_of X c v"
    "i < cb_len c \<Longrightarrow> get_typed_value (cb_push_value X v c) i = get_typed_value c i"
proof -
  have r: "cb_rows (cb_push_value X v c) = cb_rows c @ [cell_of X c v]"
    using cb_push_value_ok [OF assms] by simp
  then have l: "cb_len (cb_push_value X v c) = Suc (cb_len c)" by (metis length_append_singleton length_cb_rows)
  show "get_typed_value (cb_push_value X v c) (cb_len c) = cell_of X c v"
    using r l by (simp add: get_typed_value_rows nth_append)
  show "i < cb_len c \<Longrightarrow> get_typed_value (cb_push_value X v c) i = get_typed_value c i"
    using r l by (simp add: get_typed_value_rows nth_append)
qed

text \<open>
  Pushing any value into a column of any type adds one row holding the value converted to
  the column's type (null when it does not convert) and changes no earlier row.
\<close>

theorem push_value_appends_cell:
  assumes "cb_ok c" "cb_fits X c v"
  shows "cb_ok (cb_push_value X v c) \<and> cb_len (cb_push_value X v c) = Suc (cb_len c) \<and>
    get_typed_value (cb_push_value X v c) (cb_len c) = cell_of X c v \<and>
    (\<forall>i < cb_len c. get_typed_value (cb_push_value X v c) i = get_typed_value c i)"
  using cb_push_value_ok [OF assms] cells_after_push [OF assms]
  by (metis length_append_singleton length_cb_rows)

theorem push_value_appends_cell_witness:
  "get_typed_value (cb_push_value sample_externals (Bool True) (cb_with_capacity FT_String)) 0 = Some (TV_Str ''true'')"
proof -
  have "cb_fits sample_externals (cb_with_capacity FT_String) (Bool True)"
    by (simp add: str_fits_def bool_to_string_def utf8_valid_def byte_of_def str_empty_def)
  from push_value_appends_cell [OF cb_with_capacity_ok(1) this] show ?thesis
    by (simp only: cb_with_capacity_ok(3)) (simp add: bool_to_string_def)
qed

text \<open>
  The strict-types check agrees with the storage: a string parses as the declared type of
  a column exactly when pushing it stores a value rather than a null.
\<close>

theorem parses_as_iff_stored:
  assumes "cb_ok c" "cb_fits X c (Str s)"
  shows "parses_as X s (cb_kind c) \<longleftrightarrow> get_typed_value (cb_push_str X (Some s) c) (cb_len c) \<noteq> None"
  using cells_after_push(1) [OF assms] by (cases c) (auto simp: parses_as_def)

theorem parses_as_iff_stored_witness:
  "\<not> parses_as sample_externals ''maybe'' FT_Boolean \<and> get_typed_value (cb_push_str sample_externals (Some ''maybe'') (cb_with_capacity FT_Boolean)) 0 = None"
proof -
  have "cb_fits sample_externals (cb_with_capacity FT_Boolean) (Str ''maybe'')" by simp
  from parses_as_iff_stored [OF cb_with_capacity_ok(1) this] show ?thesis
    by (simp only: cb_with_capacity_ok(3) cb_kind_with_capacity) (simp add: parses_as_def parse_bool_def)
qed

text \<open>
  Splitting a column at any inner row and appending the rest to the split-off part gives
  back the same rows in the same order, for every column type.
\<close>

theorem split_then_extend:
  assumes "cb_ok c" "0 < n" "n \<le> cb_len c" "cb_arena c + cb_arena c < 2 ^ 31" "cb_entries c + cb_entries c + 2 < 2 ^ 31"
  shows "\<exists>a b e. cb_split_off n c = Some (a, b) \<and> cb_len a = n \<and> cb_extend_owned a b = Some (Inr e) \<and>
    cb_rows e = cb_rows c"
proof -
  obtain a b where ab: "cb_split_at n c = (a, b)" by fastforce
  have s: "cb_ok a" "cb_ok b" "cb_rows a = take n (cb_rows c)" "cb_rows b = drop n (cb_rows c)"
    "cb_kind a = cb_kind c" "cb_kind b = cb_kind c"
    using cb_split_at_ok [OF assms(1-3)] cb_kind_split [of n c] ab by simp_all
  have sizes: "cb_arena a \<le> cb_arena c \<and> cb_arena b \<le> cb_arena c \<and>
      cb_entries a \<le> cb_entries c \<and> cb_entries b \<le> cb_entries c"
  proof (cases c)
    case (CB_String v)
    then have v: "str_ok v" "n \<le> str_len v" using assms(1,3) by simp_all
    from CB_String ab show ?thesis using str_split_sizes [OF v(1) assms(2) v(2)] by (auto simp: both_def)
  qed (use ab in \<open>auto simp: both_def\<close>)
  then have "merge_fits a b" using assms(4,5) s(1,2) by (intro merge_fits_sizes) auto
  moreover have "same_variant (cb_kind a) (cb_kind b)" unfolding s(5,6) by (cases c) simp_all
  ultimately obtain e where "cb_extend_owned a b = Some (Inr e)" "cb_rows e = cb_rows a @ cb_rows b"
    using cb_extend_ok [OF s(1,2)] by auto
  moreover have "cb_len a = n" using arg_cong [OF s(3), of length] assms(3) by simp
  ultimately show ?thesis using ab s(3,4) assms(3) by (simp add: cb_split_off_def)
qed

text \<open>Columns filled by pushing values, for the examples.\<close>

definition filled :: "field_type \<Rightarrow> field_value list \<Rightarrow> column_builder" where
  "filled ft vs = foldl (\<lambda>c v. cb_push_value sample_externals v c) (cb_with_capacity ft) vs"

lemma filled_snoc: "filled ft (vs @ [v]) = cb_push_value sample_externals v (filled ft vs)"
  by (simp add: filled_def)

lemma filled_Nil: "filled ft [] = cb_with_capacity ft"
  by (simp add: filled_def)

lemma filled_kind [simp]: "cb_kind (filled ft vs) = ft"
  by (induction vs rule: rev_induct) (simp_all add: filled_snoc filled_Nil)

lemma kind_inline_sizes: "cb_kind c \<noteq> FT_String \<Longrightarrow> cb_kind c \<noteq> FT_Dictionary \<Longrightarrow>
    cb_arena c = 0 \<and> cb_entries c = 0 \<and> cb_fits X c v"
  by (cases c) simp_all

lemma filled_ok:
  assumes "ft \<noteq> FT_String" "ft \<noteq> FT_Dictionary"
  shows "cb_ok (filled ft vs) \<and> cb_rows (filled ft vs) = map (cell_of sample_externals (cb_with_capacity ft)) vs"
proof (induction vs rule: rev_induct)
  case (snoc v vs)
  have "cb_fits sample_externals (filled ft vs) v" using assms kind_inline_sizes [of "filled ft vs"] by simp
  with snoc cb_push_value_ok cell_of_kind [of "filled ft vs" "cb_with_capacity ft"] show ?case
    by (simp add: filled_snoc)
qed (simp add: filled_Nil)

lemma filled_int: "cb_ok (filled FT_Int64 vs)" "cb_rows (filled FT_Int64 vs) = map (\<lambda>v. map_option TV_Int64 (int_of sample_externals v)) vs"
  "cb_len (filled FT_Int64 vs) = length vs" "cb_arena (filled FT_Int64 vs) = 0" "cb_entries (filled FT_Int64 vs) = 0"
proof -
  show "cb_ok (filled FT_Int64 vs)"
    and r: "cb_rows (filled FT_Int64 vs) = map (\<lambda>v. map_option TV_Int64 (int_of sample_externals v)) vs"
    using filled_ok [of FT_Int64 vs] by simp_all
  show "cb_len (filled FT_Int64 vs) = length vs" using arg_cong [OF r, of length] by simp
  show "cb_arena (filled FT_Int64 vs) = 0" "cb_entries (filled FT_Int64 vs) = 0"
    using kind_inline_sizes [of "filled FT_Int64 vs"] by simp_all
qed

theorem split_then_extend_witness:
  "\<exists>a b e. cb_split_off 1 (filled FT_Int64 [Int64 5, Int64 7]) = Some (a, b) \<and> cb_len a = 1 \<and>
     cb_extend_owned a b = Some (Inr e) \<and> cb_rows e = [Some (TV_Int64 5), Some (TV_Int64 7)]"
  using split_then_extend [of "filled FT_Int64 [Int64 5, Int64 7]" 1] by (simp add: filled_int)

text \<open>
  When two chunks store a column under keys that unify, promoting both to the unified key
  succeeds, merging never reports a mismatch, and the merged column holds the first chunk's
  rows followed by the second's, each cell unchanged except integers widened to floats.
\<close>

theorem unify_merge_rows:
  assumes "cb_ok c" "cb_ok d" "unify_variants (variant_key c) (variant_key d) = Some k"
    and "cb_arena c + cb_arena d < 2 ^ 31" "cb_entries c + cb_entries d + 2 < 2 ^ 31"
  shows "\<exists>c' d' e. cb_promote k c = Inr c' \<and> cb_promote k d = Inr d' \<and>
    cb_extend_owned c' d' = Some (Inr e) \<and> cb_ok e \<and> cb_rows e = map (widen k) (cb_rows c @ cb_rows d)"
  using unify_merge [OF assms] .

theorem unify_merge_rows_witness:
  "\<exists>c' d' e. cb_promote ''float64'' (filled FT_Int64 [Int64 5]) = Inr c' \<and>
     cb_promote ''float64'' (filled FT_Float64 [Float64 NaN]) = Inr d' \<and>
     cb_extend_owned c' d' = Some (Inr e) \<and> cb_rows e = [Some (TV_Float64 (f64_of_int 5)), Some (TV_Float64 NaN)]"
proof -
  let ?c = "filled FT_Int64 [Int64 5]" and ?d = "filled FT_Float64 [Float64 NaN]"
  have d: "cb_ok ?d" "cb_rows ?d = [Some (TV_Float64 NaN)]" using filled_ok [of FT_Float64 "[Float64 NaN]"] by simp_all
  have s: "cb_arena ?d = 0" "cb_entries ?d = 0" using kind_inline_sizes [of ?d] by simp_all
  have k: "variant_key ?c = ''int64''" "variant_key ?d = ''float64''"
    by (simp_all add: variant_key_int variant_key_float)
  have u: "unify_variants (variant_key ?c) (variant_key ?d) = Some ''float64''"
    unfolding k by (simp add: unify_variants_def)
  from unify_merge_rows [OF filled_int(1) d(1) u] s filled_int(2,4,5) d(2) show ?thesis by auto
qed

text \<open>
  Decimal columns never unify: no decimal key is among the accepted keys, so two chunks with
  the same decimal column are declared irreconcilable although merging their columns would work.
\<close>

theorem decimal_never_unifies:
  "unify_variants (variant_key (CB_Decimal128 scale a)) (variant_key (CB_Decimal128 scale b)) = None \<and>
   (\<exists>e. cb_extend_owned (CB_Decimal128 scale a) (CB_Decimal128 scale b) = Some (Inr e))"
proof -
  have "unify_variants (variant_key (CB_Decimal128 scale a)) (variant_key (CB_Decimal128 scale b)) \<noteq> Some k" for k
    unfolding unify_variants_Some by (auto simp: VARIANT_KEYS_def doubleton_eq_iff)
  then have "unify_variants (variant_key (CB_Decimal128 scale a)) (variant_key (CB_Decimal128 scale b)) = None"
    by (metis not_None_eq)
  then show ?thesis by (simp del: variant_key.simps)
qed

text \<open>
  Automatic dictionary encoding never changes a row, and a column that was encoded has a
  dictionary of exactly its distinct values, at most \<open>max_size\<close> of them.
\<close>

theorem upgrade_keeps_rows:
  assumes "cb_ok c" "cb_entries c + 2 < 2 ^ 31"
  shows "cb_ok (cb_try_upgrade min_rows max_ratio max_size c) \<and>
    cb_rows (cb_try_upgrade min_rows max_ratio max_size c) = cb_rows c \<and>
    (cb_try_upgrade min_rows max_ratio max_size c = c \<or>
     cb_kind (cb_try_upgrade min_rows max_ratio max_size c) = FT_Dictionary \<and>
     cb_dict_size (cb_try_upgrade min_rows max_ratio max_size c) \<le> max_size)"
proof (cases "cb_try_upgrade min_rows max_ratio max_size c = c")
  case False
  then obtain v where v: "c = CB_String v" by (auto simp: cb_try_upgrade_def split: column_builder.splits)
  with False have up: "cb_try_upgrade min_rows max_ratio max_size c = encoded (str_rows v)"
    and small: "distinct_values (str_rows v) \<le> max_size"
    by (simp_all add: cb_try_upgrade_def encoded_def Let_def split: if_splits prod.splits)
  have "dict_room dict_new (str_rows v)" using assms v str_dict_room by simp
  then have "cb_dict_size (cb_try_upgrade min_rows max_ratio max_size c) \<le> max_size"
    and "cb_kind (cb_try_upgrade min_rows max_ratio max_size c) = FT_Dictionary"
    using small by (simp_all add: up encoded_dict_size)
  with cb_try_upgrade_ok [OF assms] show ?thesis by blast
qed (use assms in simp)

theorem upgrade_keeps_rows_witness:
  "cb_rows (cb_try_upgrade 0 NaN 16 (cb_with_capacity FT_String)) = []"
proof -
  have "cb_entries (cb_with_capacity FT_String) + 2 < 2 ^ 31"
    by (simp add: str_len_def str_empty_def vb_empty_def)
  from upgrade_keeps_rows [OF cb_with_capacity_ok(1) this] show ?thesis by (metis cb_with_capacity_ok(2))
qed

text \<open>The text a filter sees for a typed cell.\<close>

fun render :: "externals \<Rightarrow> typed_value \<Rightarrow> string" where
  "render X (TV_Str s) = s"
| "render X (TV_Int64 i) = int_to_string i"
| "render X (TV_Float64 f) = f64_to_string f"
| "render X (TV_Bool b) = bool_to_string b"
| "render X (TV_Date32 d) = format_date32 X d"
| "render X (TV_Timestamp v u) = format_timestamp X v u"
| "render X (TV_Decimal128 n scale) = format_decimal128 n scale"

lemma dict_col_lookup:
  assumes "dict_col_ok codes t" "null_get codes i = Some k"
  shows "dict_entry t k = dict_str t k" "\<exists>s. dict_str t k = Some s \<and> utf8_valid s"
proof -
  have "Some k \<in> set (null_iter codes)"
    using assms(2) by (auto simp: null_iter_def null_get_def null_len_def vb_is_valid_def split: if_splits)
  then have "coded t (Some k)" using assms(1) by (auto simp: dict_col_ok_def list_all_iff)
  then have k: "k = int (nat k)" "nat k < length (dict_values t)" by (simp_all add: coded_def)
  have ok: "dict_ok t" using assms(1) by (simp add: dict_col_ok_def)
  show "dict_entry t k = dict_str t k" "\<exists>s. dict_str t k = Some s \<and> utf8_valid s"
    using dict_ok_str [OF ok k(2)] k(1) by simp_all
qed

lemma filter_reads:
  assumes "cb_ok c"
  shows "get_filter_value X c i = map_option (render X) (get_typed_value c i) \<and>
    get_filter_view c i = (if cb_kind c = FT_String \<or> cb_kind c = FT_Dictionary
                           then map_option (render X) (get_typed_value c i) else None)"
proof (cases c)
  case (CB_Dictionary codes t)
  show ?thesis
  proof (cases "null_get codes i")
    case (Some k)
    with CB_Dictionary assms dict_col_lookup [of codes t i k] show ?thesis
      by (auto simp: utf8_lossy_valid)
  qed (use CB_Dictionary in simp)
qed (auto simp: option.map_comp comp_def option.map_ident)

text \<open>
  The three ways a filter reads a cell agree: the formatted value is the rendering of the
  typed value, and the borrowed view is the text of string and dictionary cells and absent for
  every other type.
\<close>

theorem filter_reads_agree:
  assumes "cb_ok c"
  shows "get_filter_value X c i = map_option (render X) (get_typed_value c i) \<and>
    get_filter_view c i = (if cb_kind c = FT_String \<or> cb_kind c = FT_Dictionary
                           then map_option (render X) (get_typed_value c i) else None)"
  using filter_reads [OF assms] .

theorem filter_reads_agree_witness:
  "get_filter_value sample_externals (filled FT_Int64 [Int64 5, Null]) 1 = None"
proof -
  have "get_typed_value (filled FT_Int64 [Int64 5, Null]) 1 = None"
    by (simp add: get_typed_value_rows filled_int)
  with filter_reads_agree [OF filled_int(1), of sample_externals "[Int64 5, Null]" 1] show ?thesis by simp
qed

text \<open>
  A dictionary's code decodes to the value it was made for, and adding a value changes the
  meaning of no code handed out before.
\<close>

theorem dict_code_lookup:
  assumes "dict_ok t" "dict_fits t v"
  shows "dict_str (snd (dict_code t v)) (fst (dict_code t v)) = Some v \<and> dict_ok (snd (dict_code t v)) \<and>
    (\<forall>i < length (dict_values t). dict_str (snd (dict_code t v)) (int i) = dict_str t (int i))"
proof -
  have "dict_str (snd (dict_code t v)) (int i) = dict_str t (int i)" if "i < length (dict_values t)" for i
    using coded_grow(2) [OF assms, of "Some (int i)"] that by (simp add: coded_def)
  with dict_str_code [OF assms] dict_code_ok [OF assms] show ?thesis by simp
qed

theorem dict_code_lookup_witness:
  "dict_str (snd (dict_code dict_new ''a'')) (fst (dict_code dict_new ''a'')) = Some ''a''"
proof -
  have "dict_fits dict_new ''a''" by (simp add: dict_fits_def dict_new_def utf8_valid_def byte_of_def)
  from dict_code_lookup [OF dict_new_ok(1) this] show ?thesis by simp
qed

end
