(* ===== verification/Filter_Meaning.thy ===== *)
theory Filter_Meaning
  imports Column_Laws Complex_Main
begin

text \<open>
  The meaning of a row filter (the doc comments of plan/predicate.rs), stated without its evaluator: a
  comparison is the order relation of the values themselves, a decimal is the fraction it stands for,
  a float the rational number or infinity it stands for, text is ordered by its bytes, and \<open>And\<close>, \<open>Or\<close>
  and \<open>Not\<close> are the connectives. \<open>Filter_Check\<close> proves that the code computes it.
\<close>

section \<open>Comparisons as relations\<close>

definition order_holds :: "('a \<Rightarrow> 'a \<Rightarrow> bool) \<Rightarrow> compare_op \<Rightarrow> 'a \<Rightarrow> 'a \<Rightarrow> bool" where
  "order_holds lt op x y =
     (case op of Gt \<Rightarrow> lt y x | Lt \<Rightarrow> lt x y | Ge \<Rightarrow> lt y x \<or> x = y | Le \<Rightarrow> lt x y \<or> x = y
      | Eq \<Rightarrow> x = y | Ne \<Rightarrow> x \<noteq> y)"

abbreviation number_holds :: "compare_op \<Rightarrow> 'a::linorder \<Rightarrow> 'a \<Rightarrow> bool" where
  "number_holds \<equiv> order_holds (<)"

text \<open>Text is ordered by its bytes, the first difference deciding, a proper prefix being smaller.\<close>

definition text_less :: "string \<Rightarrow> string \<Rightarrow> bool" where
  "text_less s t \<longleftrightarrow> (map byte_of s, map byte_of t) \<in> lexord {(a, b). a < b}"

abbreviation text_holds :: "compare_op \<Rightarrow> string \<Rightarrow> string \<Rightarrow> bool" where
  "text_holds \<equiv> order_holds text_less"

text \<open>
  The point a float stands for: minus infinity, a rational number, plus infinity, in this order. NaN
  stands for none, and satisfies no comparison, \<open>Ne\<close> included.
\<close>

type_synonym point = "int \<times> rat"

fun f64_point :: "f64 \<Rightarrow> point option" where
  "f64_point NaN = None"
| "f64_point (Infinity neg) = Some (if neg then -1 else 1, 0)"
| "f64_point (Finite neg m e) = Some (0, (if neg then -1 else 1) * of_nat m * 2 powi e)"

definition point_less :: "point \<Rightarrow> point \<Rightarrow> bool" where
  "point_less p q \<longleftrightarrow> fst p < fst q \<or> fst p = fst q \<and> snd p < snd q"

definition float_holds :: "compare_op \<Rightarrow> f64 \<Rightarrow> f64 \<Rightarrow> bool" where
  "float_holds op x y \<longleftrightarrow> (\<exists>p q. f64_point x = Some p \<and> f64_point y = Some q \<and> order_holds point_less op p q)"

text \<open>
  Two cells compare when they are of one kind, a timestamp only with one of its own unit; an integer
  compares with a float as the float nearest to it.
\<close>

inductive cell_holds :: "compare_op \<Rightarrow> typed_value \<Rightarrow> typed_value \<Rightarrow> bool" for op where
  ints: "number_holds op x y \<Longrightarrow> cell_holds op (TV_Int64 x) (TV_Int64 y)"
| floats: "float_holds op x y \<Longrightarrow> cell_holds op (TV_Float64 x) (TV_Float64 y)"
| int_float: "float_holds op (f64_of_int x) y \<Longrightarrow> cell_holds op (TV_Int64 x) (TV_Float64 y)"
| float_int: "float_holds op x (f64_of_int y) \<Longrightarrow> cell_holds op (TV_Float64 x) (TV_Int64 y)"
| decimals: "number_holds op (of_int x / 10 ^ xs :: rat) (of_int y / 10 ^ ys) \<Longrightarrow>
    cell_holds op (TV_Decimal128 x xs) (TV_Decimal128 y ys)"
| texts: "text_holds op s t \<Longrightarrow> cell_holds op (TV_Str s) (TV_Str t)"
| bools: "number_holds op b c \<Longrightarrow> cell_holds op (TV_Bool b) (TV_Bool c)"
| dates: "number_holds op x y \<Longrightarrow> cell_holds op (TV_Date32 x) (TV_Date32 y)"
| times: "number_holds op x y \<Longrightarrow> cell_holds op (TV_Timestamp x unit) (TV_Timestamp y unit)"

inductive_simps cell_holds_simps [simp]:
  "cell_holds op (TV_Int64 x) b" "cell_holds op (TV_Float64 x) b" "cell_holds op (TV_Decimal128 x xs) b"
  "cell_holds op (TV_Str s) b" "cell_holds op (TV_Bool x) b" "cell_holds op (TV_Date32 x) b"
  "cell_holds op (TV_Timestamp x u) b"

text \<open>A literal next to a cell: its text read as a value of the cell's kind.\<close>

inductive literal_for :: "string \<Rightarrow> typed_value \<Rightarrow> typed_value \<Rightarrow> bool" for lit where
  "literal_for lit (TV_Str s) (TV_Str lit)"
| "parse_i64 lit = Some n \<Longrightarrow> literal_for lit (TV_Int64 m) (TV_Int64 n)"
| "parse_f64 lit = Some x \<Longrightarrow> literal_for lit (TV_Float64 y) (TV_Float64 x)"
| "lit \<in> {''true'', ''True'', ''TRUE''} \<Longrightarrow> literal_for lit (TV_Bool b) (TV_Bool True)"
| "lit \<in> {''false'', ''False'', ''FALSE''} \<Longrightarrow> literal_for lit (TV_Bool b) (TV_Bool False)"
| "parse_i32 lit = Some n \<Longrightarrow> literal_for lit (TV_Date32 m) (TV_Date32 n)"
| "parse_i64 lit = Some n \<Longrightarrow> literal_for lit (TV_Timestamp m unit) (TV_Timestamp n unit)"
| "parse_decimal128 lit scale = Some n \<Longrightarrow> literal_for lit (TV_Decimal128 m scale) (TV_Decimal128 n scale)"

inductive_simps literal_for_simps [simp]:
  "literal_for lit (TV_Str s) b" "literal_for lit (TV_Int64 m) b" "literal_for lit (TV_Float64 y) b"
  "literal_for lit (TV_Bool c) b" "literal_for lit (TV_Date32 m) b" "literal_for lit (TV_Timestamp m u) b"
  "literal_for lit (TV_Decimal128 m s) b"

text \<open>
  The arithmetic of a filter is in floats: the number of a cell (a decimal divided by \<open>10_f64.powi\<close> of
  its scale, text when it reads as a number), and the result of an operator, division by zero having
  none. \<open>powi\<close> is the square-and-multiply loop of the intrinsic, rounding at each step.
\<close>

fun f64_powi :: "f64 \<Rightarrow> f64 \<Rightarrow> nat \<Rightarrow> f64" where
  "f64_powi a r n =
     (if n = 0 then r
      else f64_powi (if n = 1 then a else f64_mul a a) (if odd n then f64_mul r a else r) (n div 2))"

declare f64_powi.simps [simp del]

inductive number_of_cell :: "typed_value \<Rightarrow> f64 \<Rightarrow> bool" where
  "number_of_cell (TV_Int64 n) (f64_of_int n)"
| "number_of_cell (TV_Float64 x) x"
| "number_of_cell (TV_Decimal128 n scale) (f64_div (f64_of_int n) (f64_powi (f64_of_int 10) (f64_of_int 1) scale))"
| "parse_f64 s = Some x \<Longrightarrow> number_of_cell (TV_Str s) x"

inductive_simps number_of_cell_simps [simp]:
  "number_of_cell (TV_Int64 n) x" "number_of_cell (TV_Float64 y) x" "number_of_cell (TV_Decimal128 n s) x"
  "number_of_cell (TV_Str s) x" "number_of_cell (TV_Bool b) x" "number_of_cell (TV_Date32 n) x"
  "number_of_cell (TV_Timestamp n u) x"

inductive arith_gives :: "arith_op \<Rightarrow> f64 \<Rightarrow> f64 \<Rightarrow> f64 \<Rightarrow> bool" where
  "arith_gives Add x y (f64_add x y)"
| "arith_gives Sub x y (f64_sub x y)"
| "arith_gives Mul x y (f64_mul x y)"
| "f64_point y \<noteq> Some (0, 0) \<Longrightarrow> arith_gives Div x y (f64_div x y)"

inductive_simps arith_gives_simps [simp]:
  "arith_gives Add x y r" "arith_gives Sub x y r" "arith_gives Mul x y r" "arith_gives Div x y r"

section \<open>The rows a filter reads\<close>

text \<open>
  A row as the filter sees it: for each raw field name, the kind of its column and its cell, or
  nothing when there is no such column.
\<close>

type_synonym row_view = "string \<Rightarrow> (field_type \<times> typed_value option) option"

definition cell_at :: "row_view \<Rightarrow> string \<Rightarrow> typed_value option" where
  "cell_at rv f = Option.bind (rv f) snd"

definition text_at :: "externals \<Rightarrow> row_view \<Rightarrow> string \<Rightarrow> string option" where
  "text_at X rv f = map_option (render X) (cell_at rv f)"

text \<open>Whether a cell of a column of kind \<open>kind\<close> counts as a value of type \<open>ft\<close>.\<close>

fun cell_has_type :: "externals \<Rightarrow> field_type \<Rightarrow> typed_value \<Rightarrow> field_type \<Rightarrow> bool" where
  "cell_has_type X kind (TV_Str s) ft =
     (if kind = FT_Dictionary then ft = FT_Dictionary \<or> ft = FT_String else is_type_at_str X (Some s) ft)"
| "cell_has_type X kind (TV_Int64 n) ft =
     (ft = FT_Int64 \<or> ft = FT_Float64 \<or> ft = FT_String \<or> ft = FT_Boolean \<and> (n = 0 \<or> n = 1))"
| "cell_has_type X kind (TV_Float64 f) ft =
     (ft = FT_Float64 \<or> ft = FT_String \<or> ft = FT_Int64 \<and> float_is_i64 f \<or>
      ft = FT_Boolean \<and> (f64_is_zero f \<or> f64_eq f (f64_of_int 1)))"
| "cell_has_type X kind (TV_Bool b) ft = (ft = FT_Boolean \<or> ft = FT_String \<or> ft = FT_Int64 \<or> ft = FT_Float64)"
| "cell_has_type X kind (TV_Date32 d) ft = (ft = FT_Date32 \<or> ft = FT_String \<or> ft = FT_Int64)"
| "cell_has_type X kind (TV_Timestamp v u) ft =
     (ft = FT_String \<or> ft = FT_Int64 \<or> (case ft of FT_Timestamp u2 _ \<Rightarrow> u = u2 | _ \<Rightarrow> False))"
| "cell_has_type X kind (TV_Decimal128 n scale) ft =
     (ft = FT_String \<or> ft = FT_Int64 \<or> ft = FT_Float64 \<or> (case ft of FT_Decimal128 _ \<Rightarrow> True | _ \<Rightarrow> False))"

definition has_type :: "externals \<Rightarrow> row_view \<Rightarrow> string \<Rightarrow> field_type \<Rightarrow> bool" where
  "has_type X rv f ft = (case rv f of Some (kind, Some v) \<Rightarrow> cell_has_type X kind v ft | _ \<Rightarrow> False)"

section \<open>The meaning of a filter\<close>

text \<open>What a test of a column's text says; a missing value satisfies only the negative tests.\<close>

definition text_that :: "externals \<Rightarrow> row_view \<Rightarrow> string \<Rightarrow> (string \<Rightarrow> bool) \<Rightarrow> bool" where
  "text_that X rv f P = (case text_at X rv f of Some s \<Rightarrow> P s | None \<Rightarrow> False)"

fun pred_sem :: "externals \<Rightarrow> row_view \<Rightarrow> filter_predicate \<Rightarrow> bool" where
  "pred_sem X rv (Compare a op b) =
     (\<exists>x y. cell_at rv a = Some x \<and> cell_at rv b = Some y \<and> cell_holds op x y)"
| "pred_sem X rv (CompareLiteral f op v) = (\<exists>x y. cell_at rv f = Some x \<and> literal_for v x y \<and> cell_holds op x y)"
| "pred_sem X rv (ArithmeticCompare f aop av cop cv) =
     (\<exists>c x r y. cell_at rv f = Some c \<and> number_of_cell c x \<and> arith_gives aop x av r \<and>
        parse_f64 cv = Some y \<and> float_holds cop r y)"
| "pred_sem X rv (IsType f ft) = has_type X rv f ft"
| "pred_sem X rv (Always keep) = keep"
| "pred_sem X rv (And a b) = (pred_sem X rv a \<and> pred_sem X rv b)"
| "pred_sem X rv (Or a b) = (pred_sem X rv a \<or> pred_sem X rv b)"
| "pred_sem X rv (Not a) = (\<not> pred_sem X rv a)"
| "pred_sem X rv (Equal f v) = text_that X rv f (\<lambda>s. s = v)"
| "pred_sem X rv (NotEqual f v) = (\<not> text_that X rv f (\<lambda>s. s = v))"
| "pred_sem X rv (StartsWith f v) = text_that X rv f (\<lambda>s. \<exists>r. s = v @ r)"
| "pred_sem X rv (EndsWith f v) = text_that X rv f (\<lambda>s. \<exists>r. s = r @ v)"
| "pred_sem X rv (Contains f v) = text_that X rv f (\<lambda>s. \<exists>q r. s = q @ v @ r)"
| "pred_sem X rv (In f vs) = text_that X rv f (\<lambda>s. s \<in> set vs)"
| "pred_sem X rv (NotIn f vs) = (\<not> text_that X rv f (\<lambda>s. s \<in> set vs))"
| "pred_sem X rv (NotField f) = (\<not> text_that X rv f (\<lambda>s. s \<noteq> []))"
| "pred_sem X rv (IsNull f) = (\<not> text_that X rv f (\<lambda>s. True))"
| "pred_sem X rv (Strip f op v m) = text_that X rv f (\<lambda>s.
     text_holds op (case m of Both \<Rightarrow> trim_end (trim_start s) | Start \<Rightarrow> trim_start s | End \<Rightarrow> trim_end s) v)"
| "pred_sem X rv (Lower f op v) = text_that X rv f (\<lambda>s. text_holds op (to_lowercase X s) v)"
| "pred_sem X rv (Upper f op v) = text_that X rv f (\<lambda>s. text_holds op (to_uppercase X s) v)"
| "pred_sem X rv (Replace f old new op v) = text_that X rv f (\<lambda>s. text_holds op (str_replace old new s) v)"
| "pred_sem X rv (Length f op v) = text_that X rv f (\<lambda>s.
     \<exists>n. parse_f64 v = Some n \<and> float_holds op (f64_of_int (int (chars_count s))) n)"
| "pred_sem X rv (Regex f re) = text_that X rv f (regex_is_match X re)"

end
