(* ===== verification/Filter_Check.thy ===== *)
theory Filter_Check
  imports Filter_Meaning
begin

text \<open>
  The evaluation of a row filter against the columns (plan/predicate.rs): \<open>check\<close> with its
  helpers, and the proof that it computes the meaning of the filter on the cells of one row,
  whatever the order in which it visits the operands of \<open>And\<close> and \<open>Or\<close>.
\<close>

section \<open>Comparisons\<close>

definition apply_op :: "compare_op \<Rightarrow> ordering option \<Rightarrow> bool" where
  "apply_op op ord =
     (case ord of None \<Rightarrow> False
      | Some ord \<Rightarrow>
         (case op of Gt \<Rightarrow> ord = OGreater | Lt \<Rightarrow> ord = OLess | Ge \<Rightarrow> ord \<noteq> OLess
          | Le \<Rightarrow> ord \<noteq> OGreater | Eq \<Rightarrow> ord = OEqual | Ne \<Rightarrow> ord \<noteq> OEqual))"

fun compare_typed :: "typed_value \<Rightarrow> compare_op \<Rightarrow> typed_value \<Rightarrow> bool" where
  "compare_typed (TV_Int64 x) op b =
     (case b of TV_Int64 y \<Rightarrow> apply_op op (Some (cmp_ord x y))
      | TV_Float64 y \<Rightarrow> apply_op op (f64_partial_cmp (f64_of_int x) y) | _ \<Rightarrow> False)"
| "compare_typed (TV_Float64 x) op b =
     (case b of TV_Float64 y \<Rightarrow> apply_op op (f64_partial_cmp x y)
      | TV_Int64 y \<Rightarrow> apply_op op (f64_partial_cmp x (f64_of_int y)) | _ \<Rightarrow> False)"
| "compare_typed (TV_Decimal128 x xs) op b =
     (case b of TV_Decimal128 y ys \<Rightarrow> apply_op op (Some (compare_decimal128 x xs y ys)) | _ \<Rightarrow> False)"
| "compare_typed (TV_Str x) op b =
     (case b of TV_Str y \<Rightarrow> apply_op op (Some (str_cmp x y)) | _ \<Rightarrow> False)"
| "compare_typed (TV_Bool x) op b =
     (case b of TV_Bool y \<Rightarrow> apply_op op (Some (cmp_ord x y)) | _ \<Rightarrow> False)"
| "compare_typed (TV_Date32 x) op b =
     (case b of TV_Date32 y \<Rightarrow> apply_op op (Some (cmp_ord x y)) | _ \<Rightarrow> False)"
| "compare_typed (TV_Timestamp x xu) op b =
     (case b of TV_Timestamp y yu \<Rightarrow> xu = yu \<and> apply_op op (Some (cmp_ord x y)) | _ \<Rightarrow> False)"

fun typed_from_literal :: "typed_value \<Rightarrow> string \<Rightarrow> typed_value option" where
  "typed_from_literal (TV_Str _) lit = Some (TV_Str lit)"
| "typed_from_literal (TV_Int64 _) lit = map_option TV_Int64 (parse_i64 lit)"
| "typed_from_literal (TV_Float64 _) lit = map_option TV_Float64 (parse_f64 lit)"
| "typed_from_literal (TV_Bool _) lit =
     (if lit = ''true'' \<or> lit = ''True'' \<or> lit = ''TRUE'' then Some (TV_Bool True)
      else if lit = ''false'' \<or> lit = ''False'' \<or> lit = ''FALSE'' then Some (TV_Bool False)
      else None)"
| "typed_from_literal (TV_Date32 _) lit = map_option TV_Date32 (parse_i32 lit)"
| "typed_from_literal (TV_Timestamp _ unit) lit = map_option (\<lambda>v. TV_Timestamp v unit) (parse_i64 lit)"
| "typed_from_literal (TV_Decimal128 _ scale) lit =
     map_option (\<lambda>v. TV_Decimal128 v scale) (parse_decimal128 lit scale)"

definition arith_operand :: "typed_value \<Rightarrow> f64 option" where
  "arith_operand a =
     (case a of TV_Int64 v \<Rightarrow> Some (f64_of_int v) | TV_Float64 v \<Rightarrow> Some v
      | TV_Decimal128 v scale \<Rightarrow>
          Some (f64_div (f64_of_int v) (f64_powi (f64_of_int 10) (f64_of_int 1) scale))
      | TV_Str s \<Rightarrow> parse_f64 s
      | _ \<Rightarrow> None)"

definition apply_arith :: "arith_op \<Rightarrow> f64 \<Rightarrow> f64 \<Rightarrow> f64 option" where
  "apply_arith op x y =
     (case op of Add \<Rightarrow> Some (f64_add x y) | Sub \<Rightarrow> Some (f64_sub x y) | Mul \<Rightarrow> Some (f64_mul x y)
      | Div \<Rightarrow> if f64_is_zero y then None else Some (f64_div x y))"

section \<open>Evaluation against the columns\<close>

text \<open>An index outside \<open>columns\<close> is a panic of the code; the builder's index map has none.\<close>

definition get_column :: "column_builder list \<Rightarrow> (string, nat) hmap \<Rightarrow> string \<Rightarrow> column_builder option" where
  "get_column columns index name = Option.bind (map_of index name) (idx columns)"

definition get_value :: "externals \<Rightarrow> column_builder list \<Rightarrow> (string, nat) hmap \<Rightarrow> string \<Rightarrow>
    execution_plan \<Rightarrow> nat \<Rightarrow> string option" where
  "get_value X columns index field plan row =
     Option.bind (get_column columns index (renamed plan field)) (\<lambda>col.
       case get_filter_view col row of Some s \<Rightarrow> Some s | None \<Rightarrow> get_filter_value X col row)"

definition get_typed :: "column_builder list \<Rightarrow> (string, nat) hmap \<Rightarrow> string \<Rightarrow> execution_plan \<Rightarrow> nat \<Rightarrow>
    typed_value option" where
  "get_typed columns index field plan row =
     Option.bind (get_column columns index (renamed plan field)) (\<lambda>b. get_typed_value b row)"

definition ordinal :: "(string, nat) hmap \<Rightarrow> execution_plan \<Rightarrow> string \<Rightarrow> nat" where
  "ordinal index plan field = (case map_of index (renamed plan field) of Some i \<Rightarrow> i | None \<Rightarrow> usize_max)"

fun pred_ordinal :: "filter_predicate \<Rightarrow> (string, nat) hmap \<Rightarrow> execution_plan \<Rightarrow> nat" where
  "pred_ordinal (Equal f _) index plan = ordinal index plan f"
| "pred_ordinal (NotEqual f _) index plan = ordinal index plan f"
| "pred_ordinal (CompareLiteral f _ _) index plan = ordinal index plan f"
| "pred_ordinal (StartsWith f _) index plan = ordinal index plan f"
| "pred_ordinal (EndsWith f _) index plan = ordinal index plan f"
| "pred_ordinal (In f _) index plan = ordinal index plan f"
| "pred_ordinal (NotIn f _) index plan = ordinal index plan f"
| "pred_ordinal (NotField f) index plan = ordinal index plan f"
| "pred_ordinal (ArithmeticCompare f _ _ _ _) index plan = ordinal index plan f"
| "pred_ordinal (Strip f _ _ _) index plan = ordinal index plan f"
| "pred_ordinal (Lower f _ _) index plan = ordinal index plan f"
| "pred_ordinal (Upper f _ _) index plan = ordinal index plan f"
| "pred_ordinal (Replace f _ _ _ _) index plan = ordinal index plan f"
| "pred_ordinal (Length f _ _) index plan = ordinal index plan f"
| "pred_ordinal (Contains f _) index plan = ordinal index plan f"
| "pred_ordinal (IsNull f) index plan = ordinal index plan f"
| "pred_ordinal (IsType f _) index plan = ordinal index plan f"
| "pred_ordinal (Regex f _) index plan = ordinal index plan f"
| "pred_ordinal (Always _) index plan = usize_max"
| "pred_ordinal (Compare a _ b) index plan = min (ordinal index plan a) (ordinal index plan b)"
| "pred_ordinal (And a b) index plan = min (pred_ordinal a index plan) (pred_ordinal b index plan)"
| "pred_ordinal (Or a b) index plan = min (pred_ordinal a index plan) (pred_ordinal b index plan)"
| "pred_ordinal (Not inner) index plan = pred_ordinal inner index plan"

text \<open>
  The leaves of \<open>check\<close>. Those on the formatted value, grouped as the code groups what it does
  with \<open>Some\<close> and with \<open>None\<close>; those on the typed value; and the type test.
\<close>

definition strip_mode :: "trim_mode \<Rightarrow> string \<Rightarrow> string" where
  "strip_mode mode s = (case mode of Both \<Rightarrow> trim s | Start \<Rightarrow> trim_start s | End \<Rightarrow> trim_end s)"

fun check_text :: "externals \<Rightarrow> filter_predicate \<Rightarrow> string option \<Rightarrow> bool" where
  "check_text X (NotEqual _ v) actual = (actual \<noteq> Some v)"
| "check_text X (Equal _ v) actual = (actual = Some v)"
| "check_text X (StartsWith _ v) actual = (case actual of Some s \<Rightarrow> starts_with s v | None \<Rightarrow> False)"
| "check_text X (EndsWith _ v) actual = (case actual of Some s \<Rightarrow> ends_with s v | None \<Rightarrow> False)"
| "check_text X (In _ vs) actual = (case actual of Some s \<Rightarrow> s \<in> set vs | None \<Rightarrow> False)"
| "check_text X (NotIn _ vs) actual = (case actual of Some s \<Rightarrow> s \<notin> set vs | None \<Rightarrow> True)"
| "check_text X (NotField _) actual = (case actual of Some s \<Rightarrow> s = [] | None \<Rightarrow> True)"
| "check_text X (Strip _ op v mode) actual =
     (case actual of Some s \<Rightarrow> apply_op op (Some (str_cmp (strip_mode mode s) v)) | None \<Rightarrow> False)"
| "check_text X (Lower _ op v) actual =
     (case actual of Some s \<Rightarrow> apply_op op (Some (str_cmp (to_lowercase X s) v)) | None \<Rightarrow> False)"
| "check_text X (Upper _ op v) actual =
     (case actual of Some s \<Rightarrow> apply_op op (Some (str_cmp (to_uppercase X s) v)) | None \<Rightarrow> False)"
| "check_text X (Replace _ old new op v) actual =
     (case actual of Some s \<Rightarrow> apply_op op (Some (str_cmp (str_replace old new s) v)) | None \<Rightarrow> False)"
| "check_text X (Length _ op v) actual =
     (case actual of
        Some s \<Rightarrow>
          (case parse_f64 v of
             Some cmp_val \<Rightarrow> apply_op op (f64_partial_cmp (f64_of_int (int (chars_count s))) cmp_val)
           | None \<Rightarrow> False)
      | None \<Rightarrow> False)"
| "check_text X (Contains _ v) actual = (case actual of Some s \<Rightarrow> str_contains s v | None \<Rightarrow> False)"
| "check_text X (IsNull _) actual = (actual = None)"
| "check_text X (Regex _ re) actual = (case actual of Some s \<Rightarrow> regex_is_match X re s | None \<Rightarrow> False)"
| "check_text X _ actual = False"

definition check_compare :: "compare_op \<Rightarrow> typed_value option \<Rightarrow> typed_value option \<Rightarrow> bool" where
  "check_compare op va vb = (case (va, vb) of (Some a, Some b) \<Rightarrow> compare_typed a op b | _ \<Rightarrow> False)"

definition check_literal :: "compare_op \<Rightarrow> string \<Rightarrow> typed_value option \<Rightarrow> bool" where
  "check_literal op v va =
     (case va of None \<Rightarrow> False
      | Some a \<Rightarrow> (case typed_from_literal a v of Some b \<Rightarrow> compare_typed a op b | None \<Rightarrow> False))"

definition check_arith :: "arith_op \<Rightarrow> f64 \<Rightarrow> compare_op \<Rightarrow> string \<Rightarrow> typed_value option \<Rightarrow> bool" where
  "check_arith aop av cop cv actual =
     (case Option.bind actual arith_operand of None \<Rightarrow> False
      | Some field \<Rightarrow>
         (case apply_arith aop field av of None \<Rightarrow> False
          | Some r \<Rightarrow> (case parse_f64 cv of None \<Rightarrow> False
              | Some c \<Rightarrow> apply_op cop (f64_partial_cmp r c))))"

fun check :: "externals \<Rightarrow> column_builder list \<Rightarrow> (string, nat) hmap \<Rightarrow> nat \<Rightarrow> execution_plan \<Rightarrow>
    filter_predicate \<Rightarrow> bool" where
  "check X cols index row plan (Compare a op b) =
     check_compare op (get_typed cols index a plan row) (get_typed cols index b plan row)"
| "check X cols index row plan (CompareLiteral f op v) = check_literal op v (get_typed cols index f plan row)"
| "check X cols index row plan (ArithmeticCompare f aop av cop cv) =
     check_arith aop av cop cv (get_typed cols index f plan row)"
| "check X cols index row plan (IsType f ft) =
     (case get_column cols index (renamed plan f) of None \<Rightarrow> False | Some c \<Rightarrow> is_type_at X c row ft)"
| "check X cols index row plan (Always keep) = keep"
| "check X cols index row plan (And a b) =
     (if pred_ordinal a index plan \<le> pred_ordinal b index plan
      then check X cols index row plan a \<and> check X cols index row plan b
      else check X cols index row plan b \<and> check X cols index row plan a)"
| "check X cols index row plan (Or a b) =
     (if pred_ordinal a index plan \<le> pred_ordinal b index plan
      then check X cols index row plan a \<or> check X cols index row plan b
      else check X cols index row plan b \<or> check X cols index row plan a)"
| "check X cols index row plan (Not inner) = (\<not> check X cols index row plan inner)"
| "check X cols index row plan (Equal f v) = check_text X (Equal f v) (get_value X cols index f plan row)"
| "check X cols index row plan (NotEqual f v) = check_text X (NotEqual f v) (get_value X cols index f plan row)"
| "check X cols index row plan (StartsWith f v) = check_text X (StartsWith f v) (get_value X cols index f plan row)"
| "check X cols index row plan (EndsWith f v) = check_text X (EndsWith f v) (get_value X cols index f plan row)"
| "check X cols index row plan (In f vs) = check_text X (In f vs) (get_value X cols index f plan row)"
| "check X cols index row plan (NotIn f vs) = check_text X (NotIn f vs) (get_value X cols index f plan row)"
| "check X cols index row plan (NotField f) = check_text X (NotField f) (get_value X cols index f plan row)"
| "check X cols index row plan (Strip f op v m) = check_text X (Strip f op v m) (get_value X cols index f plan row)"
| "check X cols index row plan (Lower f op v) = check_text X (Lower f op v) (get_value X cols index f plan row)"
| "check X cols index row plan (Upper f op v) = check_text X (Upper f op v) (get_value X cols index f plan row)"
| "check X cols index row plan (Replace f a b op v) = check_text X (Replace f a b op v) (get_value X cols index f plan row)"
| "check X cols index row plan (Length f op v) = check_text X (Length f op v) (get_value X cols index f plan row)"
| "check X cols index row plan (Contains f v) = check_text X (Contains f v) (get_value X cols index f plan row)"
| "check X cols index row plan (IsNull f) = check_text X (IsNull f) (get_value X cols index f plan row)"
| "check X cols index row plan (Regex f re) = check_text X (Regex f re) (get_value X cols index f plan row)"


section \<open>The comparisons decide the relations\<close>

lemma apply_op_cmp: "apply_op op (Some (cmp_ord x y)) = number_holds op x y"
  by (cases op) (auto simp: apply_op_def order_holds_def cmp_ord_def)

lemma lex_cmp_less: "lex_cmp xs ys = OLess \<longleftrightarrow> (xs, ys) \<in> lexord {(a, b). a < b}"
  by (induction xs ys rule: lex_cmp.induct) (auto simp: then_with_def cmp_ord_def)

lemma text_less_cmp: "text_less s t \<longleftrightarrow> str_cmp s t = OLess"
  by (simp add: text_less_def str_cmp_def lex_cmp_less)

lemma str_cmp_equal: "str_cmp s t = OEqual \<longleftrightarrow> s = t"
proof -
  have "inj byte_of" by (auto simp: inj_def byte_of_def)
  then show ?thesis by (simp add: str_cmp_def lex_cmp_Eq_iff inj_map_eq_map)
qed

lemma str_cmp_greater: "str_cmp s t = OGreater \<longleftrightarrow> text_less t s"
proof -
  have "str_cmp t s = reverse_ordering (str_cmp s t)" by (simp add: str_cmp_def lex_cmp_reverse)
  then show ?thesis by (cases "str_cmp s t") (simp_all add: text_less_cmp)
qed

lemma apply_op_text: "apply_op op (Some (str_cmp s t)) = text_holds op s t"
  using text_less_cmp [of s t] str_cmp_equal [of s t] str_cmp_greater [of s t]
  by (cases op; cases "str_cmp s t") (auto simp: apply_op_def order_holds_def)

lemma scaled_value:
  assumes "0 \<le> e + k"
  shows "rat_of_int (scaled k s m e) = ((if s then -1 else 1) * of_nat m * 2 powi e) * 2 powi k"
proof -
  have "(2::rat) powi e * 2 powi k = 2 ^ nat (e + k)"
    using assms by (simp flip: power_int_add) (simp add: power_int_def)
  then show ?thesis by (simp add: scaled_def mult.assoc)
qed

lemma f64_cmp_points:
  assumes "f64_point x = Some p" "f64_point y = Some q"
  shows "f64_partial_cmp x y = Some (if point_less p q then OLess else if p = q then OEqual else OGreater)"
proof (cases "\<exists>s m e t n f. x = Finite s m e \<and> y = Finite t n f")
  case True
  then obtain s m e t n f where xy: "x = Finite s m e" "y = Finite t n f" by blast
  define k where "k = max (- e) (- f)"
  let ?a = "(if s then -1 else 1) * of_nat m * 2 powi e :: rat" and ?b = "(if t then -1 else 1) * of_nat n * 2 powi f :: rat"
  have v: "rat_of_int (scaled k s m e) = ?a * 2 powi k" "rat_of_int (scaled k t n f) = ?b * 2 powi k"
    by (rule scaled_value, simp add: k_def)+
  have pos: "(0::rat) < 2 powi k" by simp
  have "scaled k s m e < scaled k t n f \<longleftrightarrow> ?a * 2 powi k < ?b * 2 powi k"
    "scaled k s m e = scaled k t n f \<longleftrightarrow> ?a * 2 powi k = ?b * 2 powi k"
    unfolding v [symmetric] by simp_all
  then have "scaled k s m e < scaled k t n f \<longleftrightarrow> ?a < ?b" "scaled k s m e = scaled k t n f \<longleftrightarrow> ?a = ?b"
    using pos by (simp_all only: mult_less_cancel_right_pos mult_cancel_right) auto
  then show ?thesis using assms by (auto simp: xy k_def [symmetric] Let_def cmp_ord_def point_less_def)
next
  case False
  then show ?thesis using assms by (cases x; cases y) (auto simp: point_less_def cmp_ord_def split: if_splits)
qed

lemma apply_op_float: "apply_op op (f64_partial_cmp x y) = float_holds op x y"
proof (cases "f64_point x = None \<or> f64_point y = None")
  case True
  then have "f64_partial_cmp x y = None" by (cases x; cases y) auto
  with True show ?thesis by (auto simp: apply_op_def float_holds_def)
next
  case False
  then obtain p q where pq: "f64_point x = Some p" "f64_point y = Some q" by auto
  have "point_less p q \<or> p = q \<or> point_less q p" "\<not> (point_less p q \<and> point_less q p)" "\<not> point_less p p"
    by (auto simp: point_less_def prod_eq_iff)
  then show ?thesis using pq
    by (cases op) (auto simp: f64_cmp_points float_holds_def apply_op_def order_holds_def)
qed

lemma apply_op_decimal:
  "apply_op op (Some (compare_decimal128 x xs y ys)) = number_holds op (of_int x / 10 ^ xs :: rat) (of_int y / 10 ^ ys)"
proof -
  let ?k = "max xs ys"
  have v: "rat_of_int (z * 10 ^ (?k - s)) = of_int z / 10 ^ s * 10 ^ ?k" if "s \<le> ?k" for z s
    using that power_add [of "10::rat" "?k - s" s] by simp
  let ?a = "of_int x / 10 ^ xs :: rat" and ?b = "of_int y / 10 ^ ys :: rat"
  have "x * 10 ^ (?k - xs) < y * 10 ^ (?k - ys) \<longleftrightarrow> ?a * 10 ^ ?k < ?b * 10 ^ ?k"
    "x * 10 ^ (?k - xs) = y * 10 ^ (?k - ys) \<longleftrightarrow> ?a * 10 ^ ?k = ?b * 10 ^ ?k"
    unfolding v [OF max.cobounded1, symmetric] v [OF max.cobounded2, symmetric] of_int_less_iff of_int_eq_iff by (rule refl)+
  moreover have "?a * 10 ^ ?k < ?b * 10 ^ ?k \<longleftrightarrow> ?a < ?b" "?a * 10 ^ ?k = ?b * 10 ^ ?k \<longleftrightarrow> ?a = ?b"
    by (rule mult_less_cancel_right_pos, simp) (simp only: mult_cancel_right, simp)
  ultimately have "cmp_ord (x * 10 ^ (?k - xs)) (y * 10 ^ (?k - ys)) = cmp_ord ?a ?b"
    by (simp only: cmp_ord_def)
  then show ?thesis by (simp add: compare_decimal128_correct apply_op_cmp)
qed

lemma compare_typed_holds: "compare_typed a op b = cell_holds op a b"
  by (cases a; cases b) (auto simp: apply_op_cmp apply_op_text apply_op_float apply_op_decimal)

lemma literal_read: "typed_from_literal a lit = Some b \<longleftrightarrow> literal_for lit a b"
  by (cases a; cases b) auto

lemma arith_operand_number: "arith_operand a = Some x \<longleftrightarrow> number_of_cell a x"
  by (cases a) (auto simp: arith_operand_def)

lemma zero_point: "f64_is_zero y \<longleftrightarrow> f64_point y = Some (0, 0)"
  by (cases y) (simp_all add: f64_is_zero_def)

lemma apply_arith_gives: "apply_arith op x y = Some r \<longleftrightarrow> arith_gives op x y r"
  by (cases op) (auto simp: apply_arith_def zero_point)

lemma check_compare_holds:
  "check_compare op va vb \<longleftrightarrow> (\<exists>x y. va = Some x \<and> vb = Some y \<and> cell_holds op x y)"
  by (cases va; cases vb) (simp_all add: check_compare_def compare_typed_holds)

lemma check_literal_holds:
  "check_literal op v va \<longleftrightarrow> (\<exists>x y. va = Some x \<and> literal_for v x y \<and> cell_holds op x y)"
  by (auto simp: check_literal_def compare_typed_holds literal_read [symmetric] split: option.splits)

lemma check_arith_holds:
  "check_arith aop av cop cv va \<longleftrightarrow>
    (\<exists>c x r y. va = Some c \<and> number_of_cell c x \<and> arith_gives aop x av r \<and> parse_f64 cv = Some y \<and> float_holds cop r y)"
  by (auto simp: check_arith_def apply_op_float arith_operand_number [symmetric] apply_arith_gives [symmetric]
      split: option.splits bind_splits)

lemma starts_with_append: "starts_with s v \<longleftrightarrow> (\<exists>r. s = v @ r)"
  by (metis append_eq_conv_conj starts_with_def)

lemma ends_with_append: "ends_with s v \<longleftrightarrow> (\<exists>r. s = r @ v)"
proof
  assume "ends_with s v"
  then show "\<exists>r. s = r @ v" unfolding ends_with_def by (metis append_take_drop_id)
qed (auto simp: ends_with_def)

lemma str_contains_append: "str_contains s v \<longleftrightarrow> (\<exists>q r. s = q @ v @ r)"
proof (induction s)
  case (Cons c s)
  have "(\<exists>q r. c # s = q @ v @ r) \<longleftrightarrow> (\<exists>r. c # s = v @ r) \<or> (\<exists>q r. s = q @ v @ r)"
    by (metis append_Cons append_Nil list.inject list.exhaust)
  with Cons show ?case by (simp add: starts_with_append)
qed simp

text \<open>The meaning of a test of the text is the test the code makes.\<close>

lemmas text_meaning = text_that_def apply_op_text apply_op_float starts_with_append ends_with_append
  str_contains_append strip_mode_def trim_def

section \<open>The evaluation computes the meaning\<close>

definition view_of :: "column_builder list \<Rightarrow> (string, nat) hmap \<Rightarrow> execution_plan \<Rightarrow> nat \<Rightarrow> row_view" where
  "view_of cols index plan row f =
     map_option (\<lambda>c. (cb_kind c, get_typed_value c row)) (get_column cols index (renamed plan f))"

lemma get_column_in: "get_column cols index n = Some c \<Longrightarrow> c \<in> set cols"
  by (auto simp: get_column_def split: bind_splits)

lemma get_value_text:
  assumes "\<forall>c \<in> set cols. cb_ok c"
  shows "get_value X cols index f plan row = text_at X (view_of cols index plan row) f"
proof (cases "get_column cols index (renamed plan f)")
  case (Some c)
  then have "cb_ok c" using assms get_column_in by auto
  then have "get_filter_value X c row = map_option (render X) (get_typed_value c row)"
    "get_filter_view c row = (if cb_kind c = FT_String \<or> cb_kind c = FT_Dictionary
                           then map_option (render X) (get_typed_value c row) else None)"
    using filter_reads by blast+
  with Some show ?thesis
    by (auto simp: get_value_def text_at_def cell_at_def view_of_def split: option.splits)
qed (simp add: get_value_def text_at_def cell_at_def view_of_def)

lemma get_typed_cell: "get_typed cols index f plan row = cell_at (view_of cols index plan row) f"
  by (cases "get_column cols index (renamed plan f)") (simp_all add: get_typed_def cell_at_def view_of_def)

lemma is_type_at_cell:
  assumes "cb_ok c"
  shows "is_type_at X c row ft = (case get_typed_value c row of None \<Rightarrow> False
           | Some v \<Rightarrow> cell_has_type X (cb_kind c) v ft)"
proof (cases c)
  case (CB_String v)
  then show ?thesis by (cases "str_get v row"; cases ft) (simp_all add: is_some_and_def)
next
  case (CB_Dictionary codes t)
  then show ?thesis
    using dict_col_lookup(2) [of codes t row] assms
    by (cases "null_get codes row"; cases ft) auto
next
  case (CB_Timestamp u fmt v)
  then show ?thesis by (cases "prim_get v row"; cases ft) auto
next
  case (CB_Decimal128 scale v)
  then show ?thesis by (cases "prim_get v row"; cases ft) auto
next
  case (CB_Int64 v)
  then show ?thesis by (cases "prim_get v row"; cases ft) (auto simp: is_some_and_def)
next
  case (CB_Float64 v)
  then show ?thesis by (cases "prim_get v row"; cases ft) (auto simp: is_some_and_def)
next
  case (CB_Boolean v)
  then show ?thesis by (cases "prim_get v row"; cases ft) auto
next
  case (CB_Date32 v)
  then show ?thesis by (cases "prim_get v row"; cases ft) auto
qed

lemma has_type_check:
  assumes "\<forall>c \<in> set cols. cb_ok c"
  shows "(case get_column cols index (renamed plan f) of None \<Rightarrow> False | Some c \<Rightarrow> is_type_at X c row ft) =
    has_type X (view_of cols index plan row) f ft"
proof (cases "get_column cols index (renamed plan f)")
  case (Some c)
  then have "cb_ok c" using assms get_column_in by auto
  with Some show ?thesis by (simp add: has_type_def view_of_def is_type_at_cell split: option.splits)
qed (simp add: has_type_def view_of_def)

lemma check_sem:
  assumes "\<forall>c \<in> set cols. cb_ok c"
  shows "check X cols index row plan p = pred_sem X (view_of cols index plan row) p"
proof -
  note leaf = get_value_text [OF assms] get_typed_cell has_type_check [OF assms]
  show ?thesis
    by (induction p) (auto simp: leaf check_compare_holds check_literal_holds check_arith_holds text_meaning
        split: option.splits trim_mode.splits)
qed



end
