(* ===== verification/Schema.thy ===== *)
theory Schema
  imports Plan
begin

text \<open>
  \<open>FrozenSchema\<close> and schema discovery options (schema.rs): the fixed output layout that all
  workers of a parallel parse share, the windows a layout signature is hashed over, and the
  bounded discovery cache.
\<close>

section \<open>FrozenSchema\<close>

record frozen_schema =
  fs_names :: "string list"
  fs_index :: "(string, nat option) hmap"
  fs_types :: "field_type list"
  fs_exact :: bool

definition schema_of_names :: "string list \<Rightarrow> execution_plan \<Rightarrow> bool \<Rightarrow> frozen_schema" where
  "schema_of_names names plan exact =
     \<lparr>fs_names = names,
      fs_index = fold (\<lambda>(slot, name) m. AList.update name (Some slot) m) (enumerate 0 names) [],
      fs_types = map (column_type plan) names, fs_exact = exact\<rparr>"

definition from_plan :: "string list \<Rightarrow> execution_plan \<Rightarrow> frozen_schema" where
  "from_plan names plan = schema_of_names names plan True"

definition from_partial_plan :: "string list \<Rightarrow> execution_plan \<Rightarrow> frozen_schema" where
  "from_partial_plan names plan = schema_of_names names plan False"

definition discover_step :: "execution_plan \<Rightarrow> string \<Rightarrow> frozen_schema \<Rightarrow> frozen_schema" where
  "discover_step plan name s =
     (case resolve_field plan name of
        Some resolved \<Rightarrow>
          if resolved \<in> set (drop_fields plan) then s\<lparr>fs_index := AList.update name None (fs_index s)\<rparr>
          else s\<lparr>fs_index := AList.update name (Some (length (fs_names s))) (fs_index s),
                 fs_names := fs_names s @ [resolved], fs_types := fs_types s @ [column_type plan resolved]\<rparr>
      | None \<Rightarrow> s\<lparr>fs_index := AList.update name None (fs_index s)\<rparr>)"

definition from_discovered :: "string list \<Rightarrow> execution_plan \<Rightarrow> frozen_schema" where
  "from_discovered names plan =
     fold (discover_step plan) names \<lparr>fs_names = [], fs_index = [], fs_types = [], fs_exact = False\<rparr>"

definition fs_num_columns :: "frozen_schema \<Rightarrow> nat" where
  "fs_num_columns s = length (fs_names s)"

definition fs_resolve :: "frozen_schema \<Rightarrow> string \<Rightarrow> nat option" where
  "fs_resolve s raw = (case map_of (fs_index s) raw of Some slot \<Rightarrow> slot | None \<Rightarrow> None)"

text \<open>Every slot the index hands out is a column, of the type the plan declares for its name.\<close>

definition fs_ok :: "execution_plan \<Rightarrow> frozen_schema \<Rightarrow> bool" where
  "fs_ok plan s \<longleftrightarrow> fs_types s = map (column_type plan) (fs_names s) \<and>
     (\<forall>raw slot. fs_resolve s raw = Some slot \<longrightarrow> slot < length (fs_names s))"

lemma fs_resolve_update: "fs_resolve (s\<lparr>fs_index := AList.update n v (fs_index s)\<rparr>) raw =
    (if raw = n then v else fs_resolve s raw)"
  by (simp add: fs_resolve_def)

text \<open>The raw name a discovered column came from resolves to it: the last such column wins.\<close>

definition discovered_ok :: "execution_plan \<Rightarrow> string list \<Rightarrow> frozen_schema \<Rightarrow> bool" where
  "discovered_ok plan names s \<longleftrightarrow>
     fs_types s = map (column_type plan) (fs_names s) \<and>
     fs_names s = List.map_filter (resolve_field plan) names \<and>
     (\<forall>raw. case fs_resolve s raw of
        Some slot \<Rightarrow> raw \<in> set names \<and> slot < length (fs_names s) \<and> resolve_field plan raw = Some (fs_names s ! slot)
      | None \<Rightarrow> raw \<notin> set names \<or> resolve_field plan raw = None)"

lemma resolve_not_dropped: "resolve_field plan name = Some r \<Longrightarrow> r \<notin> set (drop_fields plan)"
  by (auto simp: resolve_field_Some)

lemma discover_step_ok:
  assumes "discovered_ok plan names s"
  shows "discovered_ok plan (names @ [name]) (discover_step plan name s)"
proof (cases "resolve_field plan name")
  case None
  then show ?thesis using assms
    by (auto simp: discovered_ok_def discover_step_def fs_resolve_def map_filter_def split: option.splits)
next
  case (Some r)
  have step: "discover_step plan name s =
      s\<lparr>fs_index := AList.update name (Some (length (fs_names s))) (fs_index s),
        fs_names := fs_names s @ [r], fs_types := fs_types s @ [column_type plan r]\<rparr>"
    using Some resolve_not_dropped [OF Some] by (simp add: discover_step_def)
  have old: "case fs_resolve s raw of
        Some slot \<Rightarrow> raw \<in> set names \<and> slot < length (fs_names s) \<and> resolve_field plan raw = Some (fs_names s ! slot)
      | None \<Rightarrow> raw \<notin> set names \<or> resolve_field plan raw = None" for raw
    using assms by (simp add: discovered_ok_def)
  have res: "fs_resolve (discover_step plan name s) raw =
      (if raw = name then Some (length (fs_names s)) else fs_resolve s raw)" for raw
    by (simp add: step fs_resolve_def)
  have slots: "case fs_resolve (discover_step plan name s) raw of
        Some slot \<Rightarrow> raw \<in> set (names @ [name]) \<and> slot < length (fs_names s @ [r]) \<and>
          resolve_field plan raw = Some ((fs_names s @ [r]) ! slot)
      | None \<Rightarrow> raw \<notin> set (names @ [name]) \<or> resolve_field plan raw = None" for raw
    using old [of raw] Some unfolding res by (auto simp: nth_append split: option.splits)
  have names: "fs_names (discover_step plan name s) = fs_names s @ [r]"
    "fs_types (discover_step plan name s) = fs_types s @ [column_type plan r]"
    by (simp_all add: step)
  have out: "List.map_filter (resolve_field plan) (names @ [name]) = fs_names s @ [r]"
    using assms Some by (simp add: discovered_ok_def map_filter_def)
  from assms slots show ?thesis unfolding discovered_ok_def names out by simp
qed

lemma from_discovered_ok: "discovered_ok plan names (from_discovered names plan)"
proof -
  have "discovered_ok plan names (fold (discover_step plan) names \<lparr>fs_names = [], fs_index = [], fs_types = [], fs_exact = False\<rparr>)"
  proof (induction names rule: rev_induct)
    case (snoc name names)
    then show ?case by (simp add: discover_step_ok)
  qed (simp add: discovered_ok_def fs_resolve_def map_filter_def)
  then show ?thesis by (simp add: from_discovered_def)
qed

text \<open>
  A discovered schema lists the kept fields under their output names in discovery order, with
  the plan's types, and resolves a raw name to a column of exactly its output name; a name it
  has not seen or that the plan drops resolves to nothing.
\<close>

theorem discovered_schema_resolves:
  "fs_names (from_discovered names plan) = List.map_filter (resolve_field plan) names \<and>
   fs_types (from_discovered names plan) = map (column_type plan) (fs_names (from_discovered names plan)) \<and>
   (case fs_resolve (from_discovered names plan) raw of
      Some slot \<Rightarrow> slot < fs_num_columns (from_discovered names plan) \<and>
        resolve_field plan raw = Some (fs_names (from_discovered names plan) ! slot)
    | None \<Rightarrow> raw \<notin> set names \<or> resolve_field plan raw = None)"
  using from_discovered_ok [of plan names]
  by (auto simp: discovered_ok_def fs_num_columns_def split: option.splits)

theorem discovered_schema_resolves_witness:
  "\<exists>slot. fs_resolve (from_discovered [''a''] plan_new) ''a'' = Some slot"
proof -
  have "resolve_field plan_new ''a'' = Some ''a''" by (simp add: resolve_field_trivial plan_new_def)
  then show ?thesis using discovered_schema_resolves [of "[''a'']" plan_new "''a''"] by (auto split: option.splits)
qed

text \<open>Two raw fields renamed to one output name give the schema that name twice.\<close>

lemma discovered_duplicate:
  "fs_names (from_discovered [''a'', ''b''] (plan_rename plan_new ''a'' ''b'')) = [''b'', ''b'']"
  by (simp add: from_discovered_def discover_step_def resolve_field_def renamed_def plan_rename_def plan_new_def)

section \<open>Discovery windows\<close>

record discovery_opts =
  full_scan_threshold :: nat
  windows :: nat
  window_bytes :: nat
  always_scan_tail :: bool

definition default_opts :: discovery_opts where
  "default_opts = \<lparr>full_scan_threshold = 128 * 1024 * 1024, windows = 16,
     window_bytes = 2 * 1024 * 1024, always_scan_tail = True\<rparr>"

definition dynamic_window_count :: "nat \<Rightarrow> nat" where
  "dynamic_window_count n =
     (if n < 128 * 1024 * 1024 then 0
      else if n < 1024 * 1024 * 1024 then 16
      else if n < 10 * 1024 * 1024 * 1024 then 32 else 64)"

definition dynamic_window_size :: "nat \<Rightarrow> nat" where
  "dynamic_window_size n = (if n < 1024 * 1024 * 1024 then 2 * 1024 * 1024 else 4 * 1024 * 1024)"

text \<open>
  \<open>(start..end).step_by(65536)\<close>, each piece clipped to the window. The first number bounds the steps;
  one more than the width of the window is enough, as every step moves on (\<open>pieces_cover\<close>).
\<close>

fun pieces :: "nat \<Rightarrow> nat \<Rightarrow> nat \<Rightarrow> (nat \<times> nat) list" where
  "pieces 0 start end = []"
| "pieces (Suc k) start end =
     (if start < end then (start, min end (sat_add start 65536)) # pieces k (start + 65536) end else [])"

definition window_pieces :: "nat \<Rightarrow> nat \<Rightarrow> (nat \<times> nat) list" where
  "window_pieces start end = pieces (Suc (end - start)) start end"

definition signature_chunks :: "nat \<Rightarrow> discovery_opts \<Rightarrow> (nat \<times> nat) list" where
  "signature_chunks len opts =
     (let full = len < full_scan_threshold opts;
          cnt = (if full then 1 else 4);
          width = (if full then len else min (window_bytes opts) len)
      in concat (map (\<lambda>i. let start = (len - width) * i div cnt in window_pieces start (start + width)) [0..<cnt]))"

text \<open>
  The hash (\<open>FxHasher\<close> of the rustc-hash crate, 64 bits) is a parameter: it consumes the bytes of the
  chunks in order. Nothing is assumed of it; different inputs may collide.
\<close>

type_synonym layout_hash = "string list \<Rightarrow> 64 word"

definition layout_signature :: "layout_hash \<Rightarrow> string \<Rightarrow> discovery_opts \<Rightarrow> (nat \<times> 64 word) option" where
  "layout_signature hash bytes opts =
     (let parts = map (\<lambda>(a, b). slice bytes a b) (signature_chunks (length bytes) opts)
      in if None \<in> set parts then None else Some (length bytes, hash (map the parts)))"

lemma pieces_in: "(a, b) \<in> set (pieces k start end) \<Longrightarrow> end \<le> usize_max \<Longrightarrow> start \<le> a \<and> a < b \<and> b \<le> end"
  by (induction k start "end" rule: pieces.induct) (auto simp: sat_add_def split: if_splits)

definition covered :: "(nat \<times> nat) list \<Rightarrow> nat list" where
  "covered rs = concat (map (\<lambda>(a, b). [a..<b]) rs)"

lemma pieces_cover:
  "end \<le> usize_max \<Longrightarrow> end - start < k \<Longrightarrow> covered (pieces k start end) = [start..<end]"
proof (induction k start "end" rule: pieces.induct)
  case (2 k start "end")
  show ?case
  proof (cases "start < end")
    case True
    show ?thesis
    proof (cases "start + 65536 < end")
      case far: True
      have "covered (pieces k (start + 65536) end) = [start + 65536..<end]"
        using 2 True far by simp
      moreover have "[start..<end] = [start..<start + 65536] @ [start + 65536..<end]"
        using far upt_add_eq_append [of start "start + 65536" "end - (start + 65536)"] by simp
      ultimately show ?thesis using True far 2(2) by (simp add: covered_def sat_add_def)
    next
      case False
      then have "pieces k (start + 65536) end = []" by (cases k) simp_all
      moreover have "min end (sat_add start 65536) = end"
        using False 2(2) by (simp add: sat_add_def)
      ultimately show ?thesis using True by (simp add: covered_def)
    qed
  qed (simp add: covered_def)
qed simp

lemma window_pieces_cover: "end \<le> usize_max \<Longrightarrow> covered (window_pieces start end) = [start..<end]"
  unfolding window_pieces_def by (rule pieces_cover) simp_all

lemma window_in:
  assumes "i < cnt" "width \<le> (len :: nat)"
  shows "(len - width) * i div cnt + width \<le> len"
proof -
  have "(len - width) * i \<le> (len - width) * cnt" using assms(1) by simp
  then have "(len - width) * i div cnt \<le> len - width"
    using assms(1) by (metis div_le_mono gr_implies_not0 nonzero_mult_div_cancel_right)
  then show ?thesis using assms(2) by simp
qed

text \<open>
  The chunks a layout signature hashes never leave the input, so slicing them cannot
  panic, and a file below the full-scan threshold is hashed byte by byte in order, each byte
  once.
\<close>

theorem signature_chunks_in_bounds:
  assumes "len \<le> usize_max"
  shows "(\<forall>(a, b) \<in> set (signature_chunks len opts). a < b \<and> b \<le> len) \<and>
    (len < full_scan_threshold opts \<longrightarrow> covered (signature_chunks len opts) = [0..<len])"
proof
  have piece: "a < b \<and> b \<le> len"
    if p: "(a, b) \<in> set (window_pieces ((len - width) * i div cnt) ((len - width) * i div cnt + width))"
      and i: "i < cnt" "width \<le> len" for a b i cnt width
  proof -
    have w: "(len - width) * i div cnt + width \<le> len" using window_in [OF i] .
    have "a < b \<and> b \<le> (len - width) * i div cnt + width"
      using pieces_in [OF p [unfolded window_pieces_def] order_trans [OF w assms]] by blast
    with w show ?thesis by linarith
  qed
  show "\<forall>(a, b) \<in> set (signature_chunks len opts). a < b \<and> b \<le> len"
  proof (clarify)
    fix a b
    assume ab: "(a, b) \<in> set (signature_chunks len opts)"
    show "a < b \<and> b \<le> len"
    proof (cases "len < full_scan_threshold opts")
      case True
      with ab have "(a, b) \<in> set (window_pieces ((len - len) * 0 div 1) ((len - len) * 0 div 1 + len))"
        by (simp add: signature_chunks_def)
      then show ?thesis by (rule piece) simp_all
    next
      case False
      let ?w = "min (window_bytes opts) len"
      from ab False obtain i where "i < 4"
        "(a, b) \<in> set (window_pieces ((len - ?w) * i div 4) ((len - ?w) * i div 4 + ?w))"
        by (auto simp: signature_chunks_def Let_def simp del: upt_Suc)
      then show ?thesis by (rule piece [OF _ _ min.cobounded2, rotated])
    qed
  qed
  show "len < full_scan_threshold opts \<longrightarrow> covered (signature_chunks len opts) = [0..<len]"
    using window_pieces_cover [OF assms, of 0] by (simp add: signature_chunks_def Let_def)
qed

theorem signature_chunks_in_bounds_witness:
  "signature_chunks 3 default_opts = [(0, 3)] \<and> covered (signature_chunks 3 default_opts) = [0..<3]"
  using signature_chunks_in_bounds [of 3 default_opts]
  by (simp add: signature_chunks_def default_opts_def window_pieces_def sat_add_def usize_max_def numeral_3_eq_3)

section \<open>The discovery cache\<close>

definition SCHEMA_CACHE_CAP :: nat where
  "SCHEMA_CACHE_CAP = 128"

type_synonym schema_cache = "((nat \<times> 64 word), string list) hmap"

text \<open>The first key the map iterates over is evicted: the head of the association list.\<close>

definition insert_schema_cache :: "(nat \<times> 64 word) \<Rightarrow> string list \<Rightarrow> schema_cache \<Rightarrow> schema_cache" where
  "insert_schema_cache sig order cache =
     (let cache' = (if SCHEMA_CACHE_CAP \<le> length cache
                    then (case cache of [] \<Rightarrow> cache | (oldest, _) # _ \<Rightarrow> AList.delete oldest cache)
                    else cache)
      in AList.update sig order cache')"

lemma length_update_le: "length (AList.update k v m) \<le> Suc (length m)"
  by (induction m) (auto split: prod.splits)

lemma length_delete_head: "length (AList.delete k ((k, v) # m)) \<le> length m"
proof -
  have "length (AList.delete k m) \<le> length m" by (induction m) auto
  then show ?thesis by simp
qed

text \<open>
  The discovery cache never holds more than its capacity, whatever is inserted, and an
  inserted layout is found again.
\<close>

theorem schema_cache_bounded:
  assumes "length cache \<le> SCHEMA_CACHE_CAP"
  shows "length (insert_schema_cache sig order cache) \<le> SCHEMA_CACHE_CAP \<and>
    map_of (insert_schema_cache sig order cache) sig = Some order"
proof (cases "SCHEMA_CACHE_CAP \<le> length cache")
  case True
  then obtain k v m where c: "cache = (k, v) # m"
    by (cases cache) (auto simp: SCHEMA_CACHE_CAP_def)
  have "length (insert_schema_cache sig order cache) \<le> Suc (length (AList.delete k ((k, v) # m)))"
    using True c length_update_le by (simp add: insert_schema_cache_def)
  also have "\<dots> \<le> SCHEMA_CACHE_CAP" using length_delete_head [of k v m] assms c by simp
  finally show ?thesis using True c by (simp add: insert_schema_cache_def)
next
  case False
  then show ?thesis using length_update_le [of sig order cache] by (simp add: insert_schema_cache_def)
qed

theorem schema_cache_bounded_witness:
  "map_of (insert_schema_cache (1, 2) [''a''] []) (1, 2) = Some [''a'']"
  using schema_cache_bounded [of "[]" "(1, 2)" "[''a'']"] by simp

end
