(* ===== verification/Table_State.thy ===== *)
theory Table_State
  imports Filter_Check Schema "HOL-Library.Monad_Syntax"
begin

text \<open>
  The state of \<open>TableBuilder\<close> (engine/table_builder.rs) and of its row buffer
  (engine/predicate.rs), the bit masks over columns, construction and column creation, and
  the memory accounting (engine/table_builder/memory.rs). An operation that indexes a vector
  returns an option: \<open>None\<close> is a panic. Column slots, \<open>u32\<close> in the code, are naturals. Error
  messages are shortened to their fixed part and the name they mention.
\<close>

section \<open>Column masks\<close>

text \<open>\<open>Vec<u64>\<close> bit masks: bit \<open>i mod 64\<close> of word \<open>i div 64\<close>.\<close>

type_synonym mask = "64 word list"

definition mask_set :: "nat \<Rightarrow> mask \<Rightarrow> mask option" where
  "mask_set i m =
     (if i div 64 < length m then Some (m[i div 64 := m ! (i div 64) OR push_bit (i mod 64) 1]) else None)"

definition mask_test :: "nat \<Rightarrow> mask \<Rightarrow> bool" where
  "mask_test i m \<longleftrightarrow> i div 64 < length m \<and> (drop_bit (i mod 64) (m ! (i div 64)) AND 1) = 1"

definition mask_resize :: "nat \<Rightarrow> mask \<Rightarrow> mask" where
  "mask_resize n m = take n (m @ replicate n 0)"

definition mask_clear :: "mask \<Rightarrow> mask" where
  "mask_clear m = replicate (length m) 0"

definition mask_words :: "nat \<Rightarrow> nat" where
  "mask_words ncols = div_ceil ncols 64"

text \<open>The dense fast path: every word of the first \<open>ncols\<close> bits is all ones.\<close>

definition mask_full :: "nat \<Rightarrow> mask \<Rightarrow> bool" where
  "mask_full ncols m \<longleftrightarrow>
     list_all (\<lambda>w. m ! w = - 1) [0..<ncols div 64] \<and>
     (ncols mod 64 = 0 \<or>
      (if ncols div 64 < length m then m ! (ncols div 64) else 0) = push_bit (ncols mod 64) 1 - 1)"

section \<open>State\<close>

datatype predicate_state = Undecided | Pass | Fail

record row_buffer =
  rb_fields :: "(nat \<times> field_value) list"
  rb_state :: predicate_state
  rb_mask :: mask
  rb_direct :: bool
  rb_ordinal :: "nat option"
  rb_worthwhile :: bool
  rb_names :: "string list"

definition rb_new :: row_buffer where
  "rb_new = \<lparr>rb_fields = [], rb_state = Undecided, rb_mask = [], rb_direct = False, rb_ordinal = None,
     rb_worthwhile = True, rb_names = []\<rparr>"

text \<open>The calls an observer receives, in order.\<close>

datatype event =
    On_begin_row nat
  | On_put_field nat string nat field_value
  | On_row_accepted nat
  | On_row_rejected nat
  | On_chunk_finished nat nat nat

record table_builder =
  memory_limit :: "nat option"
  columns :: "column_builder list"
  field_index :: "(string, nat) hmap"
  column_order :: "string list"
  row_count :: nat
  estimated_rows :: nat
  plan :: execution_plan
  row_dirty :: mask
  frozen :: "frozen_schema option"
  unknown_error :: "string option"
  row_buf :: "row_buffer option"
  cached_wanted_mask :: "64 word"
  ordinal_expect :: "(nat \<times> string) option list"
  current_ordinal :: nat
  strict_error :: "error option"
  rows_accepted :: nat
  rows_rejected :: nat
  events :: "event list"

text \<open>The parameters of the builder: the external crates and the allocator's view of its size.\<close>

record env =
  ext :: externals
  capacity_bytes :: "table_builder \<Rightarrow> nat"

definition notify :: "event \<Rightarrow> table_builder \<Rightarrow> table_builder" where
  "notify e t = (if observer (plan t) then t\<lparr>events := events t @ [e]\<rparr> else t)"

section \<open>Construction\<close>

definition tb_with_capacity :: "nat \<Rightarrow> table_builder" where
  "tb_with_capacity cap =
     \<lparr>memory_limit = None, columns = [], field_index = [], column_order = [], row_count = 0,
      estimated_rows = cap, plan = plan_new, row_dirty = [], frozen = None, unknown_error = None,
      row_buf = None, cached_wanted_mask = 0, ordinal_expect = [], current_ordinal = 0,
      strict_error = None, rows_accepted = 0, rows_rejected = 0, events = []\<rparr>"

definition tb_new :: table_builder where
  "tb_new = tb_with_capacity 0"

text \<open>Append a column and enter it under its name.\<close>

definition add_column :: "string \<Rightarrow> column_builder \<Rightarrow> table_builder \<Rightarrow> table_builder" where
  "add_column name col t =
     t\<lparr>columns := columns t @ [col], field_index := AList.update name (length (columns t)) (field_index t)\<rparr>"

definition declare_column :: "string \<Rightarrow> field_type \<Rightarrow> table_builder \<Rightarrow> table_builder" where
  "declare_column name ty t =
     (let t' = add_column name (cb_with_capacity ty) t in t'\<lparr>column_order := column_order t' @ [name]\<rparr>)"

definition cover_columns :: "table_builder \<Rightarrow> table_builder" where
  "cover_columns t = t\<lparr>row_dirty := mask_resize (mask_words (length (columns t))) (row_dirty t)\<rparr>"

definition predeclare_names :: "execution_plan \<Rightarrow> string list" where
  "predeclare_names p =
     filter (\<lambda>n. n \<notin> set (drop_fields p)) (schema_order p) @
     (case plan_filter p of None \<Rightarrow> [] | Some f \<Rightarrow> collect_predicate_field_names p f [])"

definition predeclare_schema_columns :: "table_builder \<Rightarrow> table_builder" where
  "predeclare_schema_columns t =
     (if schema_order (plan t) = [] then t
      else cover_columns
        (fold (\<lambda>name t. if contains_key (field_index t) name \<or> name \<in> set (drop_fields (plan t)) then t
                        else declare_column name (column_type (plan t) name) t)
          (predeclare_names (plan t)) t))"

definition compute_wanted_mask :: "table_builder \<Rightarrow> 64 word" where
  "compute_wanted_mask t =
     (if schema_order (plan t) = [] then 0
      else if \<exists>i \<in> set (map snd (field_index t)). 64 \<le> i then 0
      else fold (\<lambda>i m. m OR push_bit i 1) (map snd (field_index t)) 0)"

definition tb_with_plan :: "nat \<Rightarrow> execution_plan \<Rightarrow> table_builder" where
  "tb_with_plan cap p =
     (let b = predeclare_schema_columns
            ((tb_with_capacity cap)\<lparr>plan := p, row_buf := if plan_filter p \<noteq> None then Some rb_new else None\<rparr>)
      in b\<lparr>cached_wanted_mask := compute_wanted_mask b\<rparr>)"

definition ensure_schema :: "frozen_schema \<Rightarrow> table_builder \<Rightarrow> table_builder" where
  "ensure_schema s t =
     (cover_columns
       (fold (\<lambda>(name, ty) t. if contains_key (field_index t) name then t else declare_column name ty t)
         (zip (fs_names s) (fs_types s)) t))\<lparr>frozen := Some s\<rparr>"

section \<open>Memory budget\<close>

definition check_memory_budget :: "env \<Rightarrow> table_builder \<Rightarrow> unit result" where
  "check_memory_budget E t =
     (case strict_error t of
        Some (Memory_error used limit) \<Rightarrow> Inl (Memory_error used limit)
      | _ \<Rightarrow>
         (case memory_limit t of None \<Rightarrow> Inr ()
          | Some limit \<Rightarrow> if limit < capacity_bytes E t then Inl (Memory_error (capacity_bytes E t) limit) else Inr ()))"

definition reserve_memory :: "env \<Rightarrow> nat \<Rightarrow> table_builder \<Rightarrow> bool \<times> table_builder" where
  "reserve_memory E additional t =
     (case memory_limit t of None \<Rightarrow> (True, t)
      | Some limit \<Rightarrow>
         if (case strict_error t of Some e \<Rightarrow> is_memory_error e | None \<Rightarrow> False) then (False, t)
         else let used = sat_add (capacity_bytes E t) additional
              in if used \<le> limit then (True, t)
                 else (False, if strict_error t = None then t\<lparr>strict_error := Some (Memory_error used limit)\<rparr> else t))"

definition reserve_field_memory :: "env \<Rightarrow> nat \<Rightarrow> field_value \<Rightarrow> table_builder \<Rightarrow> bool \<times> table_builder" where
  "reserve_field_memory E name_len v t =
     (if memory_limit t = None then (True, t)
      else let value_bytes = (case as_str v of Some s \<Rightarrow> length s | None \<Rightarrow> 32)
           in reserve_memory E (sat_mul (sat_add value_bytes name_len) 2) t)"

text \<open>\<open>MemoryBudget\<close> is its number of bytes and whether it is strict.\<close>

definition set_memory_budget :: "env \<Rightarrow> nat \<Rightarrow> bool \<Rightarrow> table_builder \<Rightarrow> unit result \<times> table_builder" where
  "set_memory_budget E bytes strict t =
     (let t' = t\<lparr>memory_limit := if strict then Some bytes else None\<rparr> in (check_memory_budget E t', t'))"

section \<open>Columns and rows\<close>

definition tb_get_column :: "string \<Rightarrow> table_builder \<Rightarrow> column_builder option" where
  "tb_get_column name t = Option.bind (map_of (field_index t) name) (idx (columns t))"

definition tb_bytes_used :: "table_builder \<Rightarrow> nat" where
  "tb_bytes_used t =
     sum_list (map cb_bytes_used (columns t)) + sum_list (map length (column_order t)) + length (row_dirty t) * 8"

definition schema_insert_index :: "string \<Rightarrow> table_builder \<Rightarrow> nat" where
  "schema_insert_index name t =
     (let order = schema_order (plan t); len = length (column_order t)
      in if order = [] then len
         else case position (\<lambda>n. n = name) order of None \<Rightarrow> len
           | Some p \<Rightarrow>
              (case position (\<lambda>existing. case position (\<lambda>n. n = existing) order of
                               Some ep \<Rightarrow> p < ep | None \<Rightarrow> False) (column_order t) of
                 Some i \<Rightarrow> i | None \<Rightarrow> len))"

definition unknown_field_error :: "string \<Rightarrow> string" where
  "unknown_field_error name = ''unknown field '' @ name @ '' not in frozen schema''"

definition is_exact_frozen :: "table_builder \<Rightarrow> bool" where
  "is_exact_frozen t = (case frozen t of Some f \<Rightarrow> fs_exact f | None \<Rightarrow> False)"

definition set_unknown :: "string \<Rightarrow> table_builder \<Rightarrow> table_builder" where
  "set_unknown name t = (if unknown_error t = None then t\<lparr>unknown_error := Some (unknown_field_error name)\<rparr> else t)"

definition is_direct :: "table_builder \<Rightarrow> bool" where
  "is_direct t = (case row_buf t of Some b \<Rightarrow> rb_direct b | None \<Rightarrow> False)"

text \<open>
  The column of a name, created (and backfilled with nulls for the rows before the current
  one) when it is new. Under an exact frozen schema an unknown name gives slot 0.
\<close>

definition ensure_column_idx :: "env \<Rightarrow> string \<Rightarrow> table_builder \<Rightarrow> nat \<times> table_builder" where
  "ensure_column_idx E name t =
     (case map_of (field_index t) name of
        Some i \<Rightarrow> (i, t)
      | None \<Rightarrow>
         if is_exact_frozen t then (0, set_unknown name t)
         else let b = cb_with_capacity (column_type (plan t) name);
                  backfill = (if is_direct t then row_count t - 1 else row_count t);
                  b' = (cb_push (ext E) None ^^ backfill) b;
                  i = length (columns t);
                  t1 = add_column name b' t;
                  needed = mask_words (length (columns t1));
                  t2 = (if length (row_dirty t1) < needed
                        then t1\<lparr>row_dirty := mask_resize needed (row_dirty t1)\<rparr> else t1)
              in (i, t2\<lparr>column_order := insert_at (schema_insert_index name t2) name (column_order t2)\<rparr>))"

text \<open>A name is looked up by the column's index in \<open>column_order\<close>, as the code does.\<close>

definition record_strict_violation_at :: "env \<Rightarrow> nat \<Rightarrow> field_value \<Rightarrow> table_builder \<Rightarrow> table_builder" where
  "record_strict_violation_at E i v t =
     (if \<not> strict_types (plan t) \<or> strict_error t \<noteq> None then t
      else case v of
        Str s \<Rightarrow>
          (case idx (column_order t) i of None \<Rightarrow> t
           | Some name \<Rightarrow>
              (case map_of (field_types (plan t)) name of None \<Rightarrow> t
               | Some ft \<Rightarrow>
                   if parses_as (ext E) s ft then t
                   else t\<lparr>strict_error := Some (Plan_error (''strict_types: column '' @ name))\<rparr>))
      | _ \<Rightarrow> t)"

definition notify_put_field :: "nat \<Rightarrow> field_value \<Rightarrow> table_builder \<Rightarrow> table_builder" where
  "notify_put_field i v t =
     (case idx (column_order t) i of
        Some name \<Rightarrow> notify (On_put_field (row_count t) name i v) t | None \<Rightarrow> t)"

text \<open>The end of every put: mark the slot, replace a cell written before in this row, push.\<close>

definition store_at :: "env \<Rightarrow> nat \<Rightarrow> field_value \<Rightarrow> table_builder \<Rightarrow> table_builder option" where
  "store_at E i v t = do {
     m \<leftarrow> mask_set i (row_dirty t);
     b \<leftarrow> idx (columns t) i;
     let b' = (if row_count t < cb_len b then cb_pop b else b);
     Some (t\<lparr>row_dirty := m, columns := (columns t)[i := cb_push_value (ext E) v b']\<rparr>)
   }"

definition set_ordinal :: "nat \<Rightarrow> nat \<times> string \<Rightarrow> (nat \<times> string) option list \<Rightarrow> (nat \<times> string) option list" where
  "set_ordinal ord entry xs =
     (let ys = (if length xs \<le> ord then xs @ replicate (ord + 1 - length xs) None else xs) in ys[ord := Some entry])"

definition track_ordinal :: "nat \<Rightarrow> string \<Rightarrow> table_builder \<Rightarrow> table_builder" where
  "track_ordinal i name t =
     (let t' = (if row_count t = 0
                then t\<lparr>ordinal_expect := set_ordinal (current_ordinal t) (i, name) (ordinal_expect t)\<rparr> else t)
      in t'\<lparr>current_ordinal := (current_ordinal t' + 1) mod 2 ^ 32\<rparr>)"

definition push_field_resolved :: "env \<Rightarrow> string \<Rightarrow> field_value \<Rightarrow> table_builder \<Rightarrow> table_builder option" where
  "push_field_resolved E name v t =
     (if is_exact_frozen t \<and> \<not> contains_key (field_index t) name then Some (set_unknown name t)
      else let (i, t1) = ensure_column_idx E name t;
               t2 = notify_put_field i v (record_strict_violation_at E i v t1)
           in store_at E i v (track_ordinal i name t2))"

definition plain_names :: "execution_plan \<Rightarrow> bool" where
  "plain_names p \<longleftrightarrow> field_map p = [] \<and> drop_fields p = [] \<and> schema_order p = []"

definition resolve_and_slot :: "execution_plan \<Rightarrow> (string, nat) hmap \<Rightarrow> string \<Rightarrow> nat option" where
  "resolve_and_slot p index name = Option.bind (resolve_field p name) (map_of index)"

definition push_field :: "env \<Rightarrow> string \<Rightarrow> field_value \<Rightarrow> table_builder \<Rightarrow> table_builder option" where
  "push_field E name v t =
     (if plain_names (plan t) then push_field_resolved E name v t
      else case resolve_and_slot (plan t) (field_index t) name of
        Some i \<Rightarrow>
          (let t1 = notify_put_field i v (record_strict_violation_at E i v t)
           in store_at E i v (track_ordinal i (resolve_or_raw (plan t) name) t1))
      | None \<Rightarrow>
          (case resolve_field (plan t) name of
             Some resolved \<Rightarrow> push_field_resolved E resolved v t
           | None \<Rightarrow> Some t))"

definition advance_row :: "table_builder \<Rightarrow> table_builder" where
  "advance_row t = t\<lparr>row_count := row_count t + 1\<rparr>"

text \<open>
  Null-filling, which appears in \<open>finish_row\<close>, \<open>null_fill_missing\<close> and \<open>drain_buffered\<close>:
  columns whose bit is not set get a null, the mask is cleared. Reading a word beyond the
  mask panics.
\<close>

definition null_fill :: "env \<Rightarrow> table_builder \<Rightarrow> table_builder option" where
  "null_fill E t =
     (if length (row_dirty t) < mask_words (length (columns t)) then None
      else Some (t\<lparr>columns :=
                     (if mask_full (length (columns t)) (row_dirty t) then columns t
                      else map (\<lambda>(i, b). if mask_test i (row_dirty t) then b else cb_push (ext E) None b)
                             (enumerate 0 (columns t))),
                   row_dirty := mask_clear (row_dirty t)\<rparr>))"

definition commit_row :: "table_builder \<Rightarrow> table_builder" where
  "commit_row t =
     notify (On_row_accepted (row_count t)) (t\<lparr>row_count := row_count t + 1, rows_accepted := rows_accepted t + 1\<rparr>)"

definition finish_row :: "env \<Rightarrow> table_builder \<Rightarrow> table_builder option" where
  "finish_row E t = do {
     t1 \<leftarrow> null_fill E t;
     (case plan_filter (plan t1) of
        None \<Rightarrow> Some (commit_row t1)
      | Some f \<Rightarrow>
          if check (ext E) (columns t1) (field_index t1) (row_count t1) (plan t1) f then Some (commit_row t1)
          else Some (notify (On_row_rejected (row_count t1))
                 (t1\<lparr>columns := map cb_pop (columns t1), rows_rejected := rows_rejected t1 + 1\<rparr>)))
   }"

definition null_fill_missing :: "env \<Rightarrow> table_builder \<Rightarrow> table_builder option" where
  "null_fill_missing E t = null_fill E t"

end
