(* ===== verification/Row_Filter.thy ===== *)
theory Row_Filter
  imports Table_State
begin

text \<open>
  The predicate-first row buffer (engine/table_builder/predicates.rs): the slots a filter reads,
  the three-valued evaluation of the filter on the fields buffered so far, its completion at
  the end of the row, and the drain that moves an accepted row into the columns.
\<close>

section \<open>Predicate slots\<close>

definition mask_mark :: "nat \<Rightarrow> mask \<Rightarrow> mask" where
  "mask_mark i m = (case mask_set i m of Some m' \<Rightarrow> m' | None \<Rightarrow> m)"

definition update_buf :: "(row_buffer \<Rightarrow> row_buffer) \<Rightarrow> table_builder \<Rightarrow> table_builder" where
  "update_buf f t = t\<lparr>row_buf := map_option f (row_buf t)\<rparr>"

definition filter_names :: "execution_plan \<Rightarrow> string list" where
  "filter_names p = (case plan_filter p of Some f \<Rightarrow> collect_predicate_field_names p f [] | None \<Rightarrow> [])"

definition build_predicate_mask :: "table_builder \<Rightarrow> table_builder" where
  "build_predicate_mask t =
     update_buf (\<lambda>b.
       if rb_names b \<noteq> [] then b
       else let names = filter_names (plan t);
                m = mask_resize (mask_words (length (columns t))) (rb_mask b)
            in b\<lparr>rb_names := names,
                 rb_mask := fold (\<lambda>name m. case map_of (field_index t) name of
                                    Some slot \<Rightarrow> mask_mark slot m | None \<Rightarrow> m) names m\<rparr>) t"

definition is_predicate_slot :: "nat \<Rightarrow> table_builder \<Rightarrow> bool" where
  "is_predicate_slot slot t = (case row_buf t of Some b \<Rightarrow> mask_test slot (rb_mask b) | None \<Rightarrow> False)"

definition mark_predicate_slot :: "nat \<Rightarrow> table_builder \<Rightarrow> table_builder" where
  "mark_predicate_slot slot t =
     (if plan_filter (plan t) = None then t
      else let needs_build = (case row_buf t of Some b \<Rightarrow> \<not> mask_test slot (rb_mask b) \<and> rb_names b = [] | None \<Rightarrow> False);
               t1 = (if needs_build then build_predicate_mask t else t)
           in if is_predicate_slot slot t1 then t1
              else case idx (column_order t1) slot of None \<Rightarrow> t1
                | Some name \<Rightarrow>
                    update_buf (\<lambda>b.
                      if name \<in> set (rb_names b)
                      then let m = (if length (rb_mask b) \<le> slot div 64
                                    then mask_resize (slot div 64 + 1) (rb_mask b) else rb_mask b)
                           in b\<lparr>rb_mask := mask_mark slot m\<rparr>
                      else b) t1)"

section \<open>Buffered fields\<close>

definition get_buffered_value :: "table_builder \<Rightarrow> string \<Rightarrow> field_value option" where
  "get_buffered_value t f = do {
     buf \<leftarrow> row_buf t;
     resolved \<leftarrow> resolve_field (plan t) f;
     slot \<leftarrow> map_of (field_index t) resolved;
     map_of (rev (rb_fields buf)) slot
   }"

text \<open>The text \<open>{v:?}\<close> gives for the values without a text of their own.\<close>

definition debug_value :: "field_value \<Rightarrow> string" where
  "debug_value v = (case v of Date32 d \<Rightarrow> ''Date32('' @ int_to_string d @ '')''
     | Timestamp ts \<Rightarrow> ''Timestamp('' @ int_to_string ts @ '')'' | _ \<Rightarrow> ''Null'')"

definition buffered_text :: "externals \<Rightarrow> field_type \<Rightarrow> field_value \<Rightarrow> string option" where
  "buffered_text X ty v =
     (case ty of
        FT_Int64 \<Rightarrow>
          (case v of Str s \<Rightarrow> map_option int_to_string (parse_i64 s) | Int64 i \<Rightarrow> Some (int_to_string i) | _ \<Rightarrow> None)
      | FT_Float64 \<Rightarrow>
          (case v of Str s \<Rightarrow> map_option f64_to_string (parse_f64 s) | Int64 i \<Rightarrow> Some (int_to_string i)
           | Float64 f \<Rightarrow> Some (f64_to_string f) | _ \<Rightarrow> None)
      | FT_Boolean \<Rightarrow>
          (case v of Str s \<Rightarrow> map_option bool_to_string (parse_bool s) | Bool b \<Rightarrow> Some (bool_to_string b) | _ \<Rightarrow> None)
      | FT_Decimal128 scale \<Rightarrow>
          map_option (\<lambda>n. format_decimal128 n scale) (case v of Str s \<Rightarrow> parse_decimal128 s scale | _ \<Rightarrow> None)
      | FT_Date32 \<Rightarrow>
          map_option (format_date32 X) (case v of Str s \<Rightarrow> parse_date32 X s | Date32 d \<Rightarrow> Some d | _ \<Rightarrow> None)
      | FT_Timestamp unit format \<Rightarrow>
          map_option (\<lambda>ts. format_timestamp X ts unit)
            (case v of Str s \<Rightarrow> parse_timestamp X s unit format | Timestamp ts \<Rightarrow> Some ts | _ \<Rightarrow> None)
      | _ \<Rightarrow>
          (case v of Str s \<Rightarrow> Some s | Int64 i \<Rightarrow> Some (int_to_string i) | Float64 f \<Rightarrow> Some (f64_to_string f)
           | Bool b \<Rightarrow> Some (bool_to_string b) | _ \<Rightarrow> Some (debug_value v)))"

definition get_buffered_str :: "externals \<Rightarrow> table_builder \<Rightarrow> string \<Rightarrow> string option" where
  "get_buffered_str X t f = do {
     v \<leftarrow> get_buffered_value t f;
     resolved \<leftarrow> resolve_field (plan t) f;
     buffered_text X (column_type (plan t) resolved) v
   }"

section \<open>Three-valued evaluation\<close>

definition verdict :: "bool \<Rightarrow> predicate_state" where
  "verdict b = (if b then Pass else Fail)"

text \<open>The leaves on the buffered text; a field not buffered leaves most of them undecided.\<close>

definition decide :: "string option \<Rightarrow> (string \<Rightarrow> bool) \<Rightarrow> predicate_state" where
  "decide actual test = (case actual of Some s \<Rightarrow> verdict (test s) | None \<Rightarrow> Undecided)"

fun eval_text :: "externals \<Rightarrow> filter_predicate \<Rightarrow> string option \<Rightarrow> predicate_state" where
  "eval_text X (Equal _ v) actual = decide actual (\<lambda>s. s = v)"
| "eval_text X (NotEqual _ v) actual = decide actual (\<lambda>s. s \<noteq> v)"
| "eval_text X (StartsWith _ v) actual = decide actual (\<lambda>s. starts_with s v)"
| "eval_text X (EndsWith _ v) actual = decide actual (\<lambda>s. ends_with s v)"
| "eval_text X (In _ vs) actual = (case actual of Some s \<Rightarrow> verdict (s \<in> set vs) | None \<Rightarrow> Fail)"
| "eval_text X (NotIn _ vs) actual = (case actual of Some s \<Rightarrow> verdict (s \<notin> set vs) | None \<Rightarrow> Pass)"
| "eval_text X (NotField _) actual = (case actual of Some s \<Rightarrow> verdict (s = []) | None \<Rightarrow> Pass)"
| "eval_text X (ArithmeticCompare _ aop av cop cv) actual =
     decide actual (\<lambda>s. case parse_f64 s of None \<Rightarrow> False
       | Some x \<Rightarrow> (case apply_arith aop x av of None \<Rightarrow> False
           | Some r \<Rightarrow> (case parse_f64 cv of None \<Rightarrow> False | Some c \<Rightarrow> apply_op cop (f64_partial_cmp r c))))"
| "eval_text X (Strip _ op v mode) actual = decide actual (\<lambda>s. apply_op op (Some (str_cmp (strip_mode mode s) v)))"
| "eval_text X (Lower _ op v) actual = decide actual (\<lambda>s. apply_op op (Some (str_cmp (to_lowercase X s) v)))"
| "eval_text X (Upper _ op v) actual = decide actual (\<lambda>s. apply_op op (Some (str_cmp (to_uppercase X s) v)))"
| "eval_text X (Replace _ old new op v) actual =
     decide actual (\<lambda>s. apply_op op (Some (str_cmp (str_replace old new s) v)))"
| "eval_text X (Length _ op v) actual =
     decide actual (\<lambda>s. case parse_f64 v of None \<Rightarrow> False
       | Some n \<Rightarrow> apply_op op (f64_partial_cmp (f64_of_int (int (chars_count s))) n))"
| "eval_text X (Contains _ v) actual = decide actual (\<lambda>s. str_contains s v)"
| "eval_text X (Regex _ re) actual = decide actual (\<lambda>s. regex_is_match X re s)"
| "eval_text X (IsNull _) actual = (case actual of Some _ \<Rightarrow> Fail | None \<Rightarrow> Pass)"
| "eval_text X _ actual = Undecided"

definition compatible_types :: "field_type \<Rightarrow> field_type \<Rightarrow> bool" where
  "compatible_types a b =
     (case (a, b) of
        (FT_Timestamp ua _, FT_Timestamp ub _) \<Rightarrow> ua = ub
      | (FT_Decimal128 _, FT_Decimal128 _) \<Rightarrow> True
      | _ \<Rightarrow> (a = FT_Int64 \<or> a = FT_Float64) \<and> (b = FT_Int64 \<or> b = FT_Float64) \<or> a = b)"

definition normalize_value :: "externals \<Rightarrow> field_type \<Rightarrow> field_value \<Rightarrow> field_value option" where
  "normalize_value X ty v =
     (case ty of
        FT_Int64 \<Rightarrow> (case as_str v of Some s \<Rightarrow> map_option Int64 (lex_i64 X s) | None \<Rightarrow> Some v)
      | FT_Float64 \<Rightarrow> (case as_str v of Some s \<Rightarrow> map_option Float64 (lex_f64 X s) | None \<Rightarrow> Some v)
      | FT_Boolean \<Rightarrow> (case as_str v of Some s \<Rightarrow> map_option Bool (parse_bool s) | None \<Rightarrow> Some v)
      | FT_Date32 \<Rightarrow> (case as_str v of Some s \<Rightarrow> map_option Date32 (parse_date32 X s) | None \<Rightarrow> Some v)
      | FT_Timestamp unit fmt \<Rightarrow>
          (case as_str v of Some s \<Rightarrow> map_option Timestamp (parse_timestamp X s unit fmt) | None \<Rightarrow> Some v)
      | FT_Decimal128 _ \<Rightarrow> None
      | _ \<Rightarrow> Some v)"

text \<open>
  Two strings that survived normalisation, by the declared types of their fields. Both the
  early \<open>return Fail\<close> of the code and its \<open>None\<close> ordering fail the comparison: both are
  \<open>None\<close> here.
\<close>

definition compare_strings :: "externals \<Rightarrow> field_type option \<Rightarrow> field_type option \<Rightarrow> string \<Rightarrow> string \<Rightarrow> ordering option" where
  "compare_strings X type_a type_b a b =
     (case (type_a, type_b) of
        (Some FT_Int64, Some FT_Int64) \<Rightarrow> do { ai \<leftarrow> lex_i64 X a; bi \<leftarrow> lex_i64 X b; Some (cmp_ord ai bi) }
      | (Some FT_Float64, Some FT_Float64) \<Rightarrow> do { af \<leftarrow> lex_f64 X a; bf \<leftarrow> lex_f64 X b; f64_partial_cmp af bf }
      | (Some FT_Int64, Some FT_Float64) \<Rightarrow>
          do { ai \<leftarrow> lex_i64 X a; bf \<leftarrow> lex_f64 X b; f64_partial_cmp (f64_of_int ai) bf }
      | (Some FT_Float64, Some FT_Int64) \<Rightarrow>
          do { af \<leftarrow> lex_f64 X a; bi \<leftarrow> lex_i64 X b; f64_partial_cmp af (f64_of_int bi) }
      | (None, None) \<Rightarrow> Some (str_cmp a b)
      | (Some (FT_Timestamp ua fa), Some (FT_Timestamp ub fb)) \<Rightarrow>
          do { x \<leftarrow> parse_timestamp X a ua fa; y \<leftarrow> parse_timestamp X b ub fb; Some (cmp_ord x y) }
      | (Some FT_Date32, Some FT_Date32) \<Rightarrow>
          do { x \<leftarrow> parse_date32 X a; y \<leftarrow> parse_date32 X b; Some (cmp_ord x y) }
      | _ \<Rightarrow> None)"

definition compare_values :: "externals \<Rightarrow> field_type option \<Rightarrow> field_type option \<Rightarrow> field_value \<Rightarrow> field_value \<Rightarrow> ordering option" where
  "compare_values X type_a type_b a b =
     (case a of
        Int64 x \<Rightarrow> (case b of Int64 y \<Rightarrow> Some (cmp_ord x y)
                    | Float64 y \<Rightarrow> f64_partial_cmp (f64_of_int x) y | _ \<Rightarrow> None)
      | Float64 x \<Rightarrow> (case b of Float64 y \<Rightarrow> f64_partial_cmp x y
                    | Int64 y \<Rightarrow> f64_partial_cmp x (f64_of_int y) | _ \<Rightarrow> None)
      | Str x \<Rightarrow> (case b of Str y \<Rightarrow> compare_strings X type_a type_b x y | _ \<Rightarrow> None)
      | Bool x \<Rightarrow> (case b of Bool y \<Rightarrow> Some (cmp_ord x y) | _ \<Rightarrow> None)
      | Date32 x \<Rightarrow> (case b of Date32 y \<Rightarrow> Some (cmp_ord x y) | _ \<Rightarrow> None)
      | Timestamp x \<Rightarrow> (case b of Timestamp y \<Rightarrow> Some (cmp_ord x y) | _ \<Rightarrow> None)
      | Null \<Rightarrow> None)"

definition eval_decimal_compare :: "externals \<Rightarrow> table_builder \<Rightarrow> string \<Rightarrow> nat \<Rightarrow> compare_op \<Rightarrow> string \<Rightarrow> nat \<Rightarrow> predicate_state" where
  "eval_decimal_compare X t fa sa op fb sb =
     (case (get_buffered_str X t fa, get_buffered_str X t fb) of
        (Some a, Some b) \<Rightarrow>
          verdict (case (parse_decimal128 a sa, parse_decimal128 b sb) of
            (Some x, Some y) \<Rightarrow> apply_op op (Some (compare_decimal128 x sa y sb)) | _ \<Rightarrow> False)
      | _ \<Rightarrow> Undecided)"

definition eval_compare :: "externals \<Rightarrow> table_builder \<Rightarrow> string \<Rightarrow> compare_op \<Rightarrow> string \<Rightarrow> predicate_state" where
  "eval_compare X t fa op fb =
     (let p = plan t; ra = resolve_or_raw p fa; rb = resolve_or_raw p fb;
          type_a = column_type p ra; type_b = column_type p rb
      in if \<not> compatible_types type_a type_b then Fail
         else case (type_a, type_b) of
           (FT_Decimal128 sa, FT_Decimal128 sb) \<Rightarrow> eval_decimal_compare X t fa sa op fb sb
         | _ \<Rightarrow>
            (case (Option.bind (get_buffered_value t fa) (normalize_value X type_a),
                   Option.bind (get_buffered_value t fb) (normalize_value X type_b)) of
               (Some a, Some b) \<Rightarrow>
                 verdict (apply_op op (compare_values X (map_of (field_types p) ra) (map_of (field_types p) rb) a b))
             | _ \<Rightarrow> Undecided))"

definition literal_operand :: "externals \<Rightarrow> field_type \<Rightarrow> field_value \<Rightarrow> field_value option" where
  "literal_operand X ty v =
     (case ty of
        FT_Int64 \<Rightarrow> (case as_str v of Some s \<Rightarrow> map_option Int64 (lex_i64 X s) | None \<Rightarrow> Some v)
      | FT_Float64 \<Rightarrow> (case as_str v of Some s \<Rightarrow> map_option Float64 (lex_f64 X s) | None \<Rightarrow> Some v)
      | FT_Boolean \<Rightarrow> (case as_str v of Some s \<Rightarrow> map_option Bool (parse_bool s) | None \<Rightarrow> Some v)
      | _ \<Rightarrow> Some v)"

definition literal_value :: "externals \<Rightarrow> field_type \<Rightarrow> string \<Rightarrow> field_value option" where
  "literal_value X ty lit =
     (case ty of
        FT_Int64 \<Rightarrow> map_option Int64 (lex_i64 X lit)
      | FT_Float64 \<Rightarrow> map_option Float64 (lex_f64 X lit)
      | FT_Boolean \<Rightarrow> map_option Bool (parse_bool lit)
      | _ \<Rightarrow> Some (Str lit))"

definition compare_literal_values :: "field_value \<Rightarrow> field_value \<Rightarrow> ordering option" where
  "compare_literal_values a b =
     (case a of
        Int64 x \<Rightarrow> (case b of Int64 y \<Rightarrow> Some (cmp_ord x y)
                    | Float64 y \<Rightarrow> f64_partial_cmp (f64_of_int x) y | _ \<Rightarrow> None)
      | Float64 x \<Rightarrow> (case b of Float64 y \<Rightarrow> f64_partial_cmp x y
                    | Int64 y \<Rightarrow> f64_partial_cmp x (f64_of_int y) | _ \<Rightarrow> None)
      | Str x \<Rightarrow> (case b of Str y \<Rightarrow> Some (str_cmp x y) | _ \<Rightarrow> None)
      | Bool x \<Rightarrow> (case b of Bool y \<Rightarrow> Some (cmp_ord x y) | _ \<Rightarrow> None)
      | _ \<Rightarrow> None)"

definition eval_literal :: "externals \<Rightarrow> table_builder \<Rightarrow> string \<Rightarrow> compare_op \<Rightarrow> string \<Rightarrow> predicate_state" where
  "eval_literal X t f op lit =
     (let ty = column_type (plan t) (resolve_or_raw (plan t) f)
      in case (Option.bind (get_buffered_value t f) (literal_operand X ty), literal_value X ty lit) of
           (Some a, Some b) \<Rightarrow> verdict (apply_op op (compare_literal_values a b))
         | _ \<Rightarrow> Undecided)"

definition eval_is_type :: "externals \<Rightarrow> table_builder \<Rightarrow> string \<Rightarrow> field_type \<Rightarrow> predicate_state" where
  "eval_is_type X t f ft =
     (let declared = column_type (plan t) (resolve_or_raw (plan t) f)
      in case get_buffered_value t f of None \<Rightarrow> Fail
         | Some v \<Rightarrow>
            if declared = ft then Pass
            else verdict (case ft of
                FT_Int64 \<Rightarrow> (case as_str v of Some s \<Rightarrow> parse_i64 s \<noteq> None | None \<Rightarrow> False)
              | FT_Float64 \<Rightarrow> (case as_str v of Some s \<Rightarrow> parse_f64 s \<noteq> None | None \<Rightarrow> False)
              | FT_Boolean \<Rightarrow> (case as_str v of Some s \<Rightarrow> to_lowercase X s \<in> set bool_words | None \<Rightarrow> False)
              | FT_String \<Rightarrow> True
              | FT_Dictionary \<Rightarrow> True
              | _ \<Rightarrow> False))"

definition and_state :: "predicate_state \<Rightarrow> predicate_state \<Rightarrow> predicate_state" where
  "and_state a b = (if a = Fail \<or> b = Fail then Fail else if a = Pass \<and> b = Pass then Pass else Undecided)"

definition or_state :: "predicate_state \<Rightarrow> predicate_state \<Rightarrow> predicate_state" where
  "or_state a b = (if a = Pass \<or> b = Pass then Pass else if a = Fail \<and> b = Fail then Fail else Undecided)"

fun not_state :: "predicate_state \<Rightarrow> predicate_state" where
  "not_state Pass = Fail"
| "not_state Fail = Pass"
| "not_state Undecided = Undecided"

fun leaf_field :: "filter_predicate \<Rightarrow> string" where
  "leaf_field (Equal f _) = f"
| "leaf_field (NotEqual f _) = f"
| "leaf_field (StartsWith f _) = f"
| "leaf_field (EndsWith f _) = f"
| "leaf_field (In f _) = f"
| "leaf_field (NotIn f _) = f"
| "leaf_field (NotField f) = f"
| "leaf_field (ArithmeticCompare f _ _ _ _) = f"
| "leaf_field (Strip f _ _ _) = f"
| "leaf_field (Lower f _ _) = f"
| "leaf_field (Upper f _ _) = f"
| "leaf_field (Replace f _ _ _ _) = f"
| "leaf_field (Length f _ _) = f"
| "leaf_field (Contains f _) = f"
| "leaf_field (IsNull f) = f"
| "leaf_field (Regex f _) = f"
| "leaf_field (CompareLiteral f _ _) = f"
| "leaf_field (IsType f _) = f"
| "leaf_field (Compare f _ _) = f"
| "leaf_field _ = []"

fun eval_predicate :: "externals \<Rightarrow> table_builder \<Rightarrow> filter_predicate \<Rightarrow> predicate_state" where
  "eval_predicate X t (Compare fa op fb) = eval_compare X t fa op fb"
| "eval_predicate X t (CompareLiteral f op v) = eval_literal X t f op v"
| "eval_predicate X t (IsType f ft) = eval_is_type X t f ft"
| "eval_predicate X t (Always keep) = verdict keep"
| "eval_predicate X t (And a b) = and_state (eval_predicate X t a) (eval_predicate X t b)"
| "eval_predicate X t (Or a b) = or_state (eval_predicate X t a) (eval_predicate X t b)"
| "eval_predicate X t (Not a) = not_state (eval_predicate X t a)"
| "eval_predicate X t leaf = eval_text X leaf (get_buffered_str X t (leaf_field leaf))"

definition evaluate_predicate_state :: "externals \<Rightarrow> table_builder \<Rightarrow> predicate_state" where
  "evaluate_predicate_state X t =
     (case plan_filter (plan t) of None \<Rightarrow> Pass | Some f \<Rightarrow> eval_predicate X t f)"

section \<open>At the end of the row\<close>

definition undecided_fails :: "predicate_state \<Rightarrow> predicate_state" where
  "undecided_fails s = (if s = Undecided then Fail else s)"

fun eval_predicate_with_null :: "externals \<Rightarrow> table_builder \<Rightarrow> filter_predicate \<Rightarrow> predicate_state" where
  "eval_predicate_with_null X t (Equal f v) =
     (case get_buffered_str X t f of Some s \<Rightarrow> verdict (s = v) | None \<Rightarrow> Fail)"
| "eval_predicate_with_null X t (NotEqual f v) =
     (case get_buffered_str X t f of Some s \<Rightarrow> verdict (s \<noteq> v) | None \<Rightarrow> Pass)"
| "eval_predicate_with_null X t (Always keep) = verdict keep"
| "eval_predicate_with_null X t (And a b) =
     and_state (eval_predicate_with_null X t a) (eval_predicate_with_null X t b)"
| "eval_predicate_with_null X t (Or a b) =
     undecided_fails (or_state (eval_predicate_with_null X t a) (eval_predicate_with_null X t b))"
| "eval_predicate_with_null X t (Not a) =
     undecided_fails (not_state (eval_predicate_with_null X t a))"
| "eval_predicate_with_null X t leaf = undecided_fails (eval_predicate X t leaf)"

definition evaluate_against_null :: "externals \<Rightarrow> table_builder \<Rightarrow> predicate_state" where
  "evaluate_against_null X t =
     (case plan_filter (plan t) of None \<Rightarrow> Pass | Some f \<Rightarrow> eval_predicate_with_null X t f)"

section \<open>Draining the buffer\<close>

text \<open>
  The buffered fields are pushed in reverse; a slot seen before in this scan is skipped. The
  \<open>seen\<close> words are \<open>seen\<close> followed by \<open>seen_extra\<close>.
\<close>

fun drain_fields :: "env \<Rightarrow> (nat \<times> field_value) list \<Rightarrow> mask \<Rightarrow> table_builder \<Rightarrow> table_builder option" where
  "drain_fields E [] seen t = Some t"
| "drain_fields E ((slot, v) # fs) seen t =
     (if mask_test slot seen then drain_fields E fs seen t
      else do {
        t1 \<leftarrow> store_at E slot v t;
        drain_fields E fs (mask_mark slot seen) (notify_put_field slot v t1)
      })"

definition clear_buffer :: "table_builder \<Rightarrow> table_builder" where
  "clear_buffer t = update_buf (\<lambda>b. b\<lparr>rb_fields := [], rb_state := Undecided\<rparr>) t"

definition drain_buffered :: "env \<Rightarrow> bool \<Rightarrow> table_builder \<Rightarrow> table_builder option" where
  "drain_buffered E pass t =
     (case row_buf t of None \<Rightarrow> Some t
      | Some buf \<Rightarrow>
         if pass then do {
           let words = mask_words (length (columns t));
           let t1 = (if length (row_dirty t) < words then t\<lparr>row_dirty := mask_resize words (row_dirty t)\<rparr> else t);
           t2 \<leftarrow> drain_fields E (rev (rb_fields buf)) (replicate (max 1 words) 0) t1;
           t3 \<leftarrow> (if rb_direct buf then Some t2 else null_fill E t2);
           Some (clear_buffer (commit_row t3))
         }
         else Some (clear_buffer (notify (On_row_rejected (row_count t))
                (t\<lparr>row_dirty := mask_clear (row_dirty t), rows_rejected := rows_rejected t + 1\<rparr>))))"

end
