(* ===== verification/Table_Builder.thy ===== *)
theory Table_Builder
  imports Row_Filter
begin

text \<open>
  The sink operations of \<open>TableBuilder\<close> (engine/table_builder.rs): rows begun and ended, fields
  put by name or by slot, the batch finished, split off or reset. \<open>None\<close> is a panic.
\<close>

section \<open>Putting fields\<close>

definition frozen_columns :: "table_builder \<Rightarrow> nat" where
  "frozen_columns t =
     (case frozen t of Some f \<Rightarrow> fs_num_columns f
      | None \<Rightarrow> if schema_order (plan t) \<noteq> [] then length (schema_order (plan t)) else length (columns t))"

definition begin_row :: "env \<Rightarrow> table_builder \<Rightarrow> table_builder" where
  "begin_row E t =
     (case reserve_memory E 0 t of
        (False, t') \<Rightarrow> t'
      | (True, t') \<Rightarrow>
         (let t1 = (notify (On_begin_row (row_count t')) t')\<lparr>current_ordinal := 0\<rparr>
          in update_buf (\<lambda>b.
               let late = (case rb_ordinal b of None \<Rightarrow> False
                     | Some ord \<Rightarrow> rb_worthwhile b \<and> 0 < row_count t1 \<and> frozen_columns t1 * 4 div 5 \<le> ord)
               in b\<lparr>rb_worthwhile := rb_worthwhile b \<and> \<not> late, rb_fields := [], rb_state := Undecided,
                    rb_direct := False\<rparr>) t1))"

definition buffer_field :: "nat \<Rightarrow> field_value \<Rightarrow> (nat \<times> field_value) list \<Rightarrow> (nat \<times> field_value) list" where
  "buffer_field slot v fs =
     (case position (\<lambda>(s, _). s = slot) fs of Some pos \<Rightarrow> fs[pos := (slot, v)] | None \<Rightarrow> fs @ [(slot, v)])"

definition is_worthwhile :: "table_builder \<Rightarrow> bool" where
  "is_worthwhile t = (case row_buf t of Some b \<Rightarrow> rb_worthwhile b | None \<Rightarrow> True)"

text \<open>
  The buffered path shared by the three puts: the value is buffered, and when its slot is one
  the filter reads, the filter is evaluated on the buffer.
\<close>

definition buffer_value :: "env \<Rightarrow> nat \<Rightarrow> field_value \<Rightarrow> table_builder \<Rightarrow> table_builder" where
  "buffer_value E slot v t =
     update_buf (\<lambda>b. b\<lparr>rb_fields := buffer_field slot v (rb_fields b)\<rparr>)
       (mark_predicate_slot slot (record_strict_violation_at E slot v t))"

definition note_ordinal :: "nat \<Rightarrow> table_builder \<Rightarrow> table_builder" where
  "note_ordinal slot t = update_buf (\<lambda>b. if rb_ordinal b = None then b\<lparr>rb_ordinal := Some slot\<rparr> else b) t"

definition reevaluate :: "env \<Rightarrow> table_builder \<Rightarrow> table_builder" where
  "reevaluate E t = (let s = evaluate_predicate_state (ext E) t in update_buf (\<lambda>b. b\<lparr>rb_state := s\<rparr>) t)"

definition buffer_and_evaluate :: "env \<Rightarrow> nat \<Rightarrow> field_value \<Rightarrow> table_builder \<Rightarrow> table_builder" where
  "buffer_and_evaluate E slot v t =
     (let t1 = buffer_value E slot v t
      in if is_predicate_slot slot t1 then reevaluate E (note_ordinal slot t1) else t1)"

definition unknown_frozen :: "string \<Rightarrow> table_builder \<Rightarrow> bool" where
  "unknown_frozen name t =
     (case frozen t of None \<Rightarrow> False
      | Some f \<Rightarrow> \<not> contains_key (field_index t) name \<and> fs_exact f \<and> name \<notin> set (fs_names f))"

definition put_field :: "env \<Rightarrow> string \<Rightarrow> field_value \<Rightarrow> table_builder \<Rightarrow> table_builder option" where
  "put_field E name v t =
     (case reserve_field_memory E (length name) v t of
        (False, t') \<Rightarrow> Some t'
      | (True, t') \<Rightarrow>
         if plan_filter (plan t') = None \<or> \<not> is_worthwhile t' then push_field E name v t'
         else case resolve_field (plan t') name of None \<Rightarrow> Some t'
           | Some resolved \<Rightarrow>
              if unknown_frozen resolved t' \<and> unknown_error t' = None then Some (set_unknown resolved t')
              else (let (slot, t1) = ensure_column_idx E resolved t' in Some (buffer_and_evaluate E slot v t1)))"

definition put_field_resolved :: "env \<Rightarrow> string \<Rightarrow> field_value \<Rightarrow> table_builder \<Rightarrow> table_builder option" where
  "put_field_resolved E resolved v t =
     (case reserve_field_memory E (length resolved) v t of
        (False, t') \<Rightarrow> Some t'
      | (True, t') \<Rightarrow>
         if plan_filter (plan t') = None \<or> \<not> is_worthwhile t' then push_field_resolved E resolved v t'
         else if unknown_frozen resolved t' then Some (set_unknown resolved t')
         else (let (slot, t1) = ensure_column_idx E resolved t' in Some (buffer_and_evaluate E slot v t1)))"

definition store_known :: "env \<Rightarrow> nat \<Rightarrow> field_value \<Rightarrow> table_builder \<Rightarrow> table_builder option" where
  "store_known E i v t =
     (if length (columns t) \<le> i then Some t
      else store_at E i v (notify_put_field i v (record_strict_violation_at E i v t)))"

definition put_field_at :: "env \<Rightarrow> nat \<Rightarrow> field_value \<Rightarrow> table_builder \<Rightarrow> table_builder option" where
  "put_field_at E slot v t =
     (case reserve_field_memory E 0 v t of (False, t') \<Rightarrow> Some t' | (True, t') \<Rightarrow> store_known E slot v t')"

text \<open>Without a budget or a row buffer the string is pushed by \<open>push_str\<close>.\<close>

definition put_str_at :: "env \<Rightarrow> nat \<Rightarrow> string \<Rightarrow> table_builder \<Rightarrow> table_builder option" where
  "put_str_at E slot s t =
     (if memory_limit t \<noteq> None \<or> row_buf t \<noteq> None then put_field_at E slot (Str s) t
      else if length (columns t) \<le> slot then Some t
      else do {
        let t1 = (if strict_types (plan t) then record_strict_violation_at E slot (Str s) t else t);
        let t2 = (if observer (plan t1) then notify_put_field slot (Str s) t1 else t1);
        m \<leftarrow> mask_set slot (row_dirty t2);
        b \<leftarrow> idx (columns t2) slot;
        let b' = (if row_count t2 < cb_len b then cb_pop b else b);
        Some (t2\<lparr>row_dirty := m, columns := (columns t2)[slot := cb_push_str (ext E) (Some s) b']\<rparr>)
      })"

definition push_resolving :: "env \<Rightarrow> string \<Rightarrow> field_value \<Rightarrow> table_builder \<Rightarrow> table_builder option" where
  "push_resolving E name v t =
     (if plain_names (plan t) then push_field_resolved E name v t
      else case resolve_field (plan t) name of Some r \<Rightarrow> push_field_resolved E r v t | None \<Rightarrow> Some t)"

text \<open>
  With no rename, drop or projection a filter that passes mid-row drains the buffer at once
  and the rest of the row goes straight to the columns.
\<close>

definition buffer_or_drain :: "env \<Rightarrow> nat \<Rightarrow> field_value \<Rightarrow> table_builder \<Rightarrow> table_builder option" where
  "buffer_or_drain E slot v t =
     (let t1 = buffer_value E slot v t
      in if \<not> is_predicate_slot slot t1 then Some t1
         else let t2 = reevaluate E (note_ordinal slot t1)
              in if evaluate_predicate_state (ext E) (note_ordinal slot t1) = Pass
                 then drain_buffered E True (update_buf (\<lambda>b. b\<lparr>rb_direct := True\<rparr>) t2)
                 else Some t2)"

definition resolve_and_put :: "env \<Rightarrow> string \<Rightarrow> field_value \<Rightarrow> table_builder \<Rightarrow> table_builder option" where
  "resolve_and_put E name v t =
     (case reserve_field_memory E (length name) v t of
        (False, t') \<Rightarrow> Some t'
      | (True, t') \<Rightarrow>
         if plan_filter (plan t') = None \<or> \<not> is_worthwhile t' then push_resolving E name v t'
         else if is_direct t' then
           (case resolve_field (plan t') name of None \<Rightarrow> Some t'
            | Some r \<Rightarrow> if unknown_frozen r t' then Some (set_unknown r t') else push_field_resolved E r v t')
         else if plain_names (plan t') then
           (if unknown_frozen name t' then Some (set_unknown name t')
            else let (slot, t1) = ensure_column_idx E name t' in buffer_or_drain E slot v t1)
         else (case resolve_field (plan t') name of None \<Rightarrow> Some t'
            | Some r \<Rightarrow>
                if unknown_frozen r t' then Some (set_unknown r t')
                else let (slot, t1) = ensure_column_idx E r t' in Some (buffer_and_evaluate E slot v t1)))"

definition wants :: "table_builder \<Rightarrow> string \<Rightarrow> bool" where
  "wants t name = (resolve_field (plan t) name \<noteq> None)"

definition row_rejected :: "table_builder \<Rightarrow> bool" where
  "row_rejected t \<longleftrightarrow> plan_filter (plan t) \<noteq> None \<and>
     (case row_buf t of Some b \<Rightarrow> rb_state b = Fail | None \<Rightarrow> False)"

definition row_satisfied :: "table_builder \<Rightarrow> bool" where
  "row_satisfied t \<longleftrightarrow>
     (let mask = cached_wanted_mask t
      in mask \<noteq> 0 \<and> (let dirty = fold (OR) (row_dirty t) 0 in dirty AND mask = mask))"

section \<open>Ending a row\<close>

definition end_row :: "env \<Rightarrow> table_builder \<Rightarrow> table_builder option" where
  "end_row E t =
     (case reserve_memory E 0 t of
        (False, t') \<Rightarrow> Some t'
      | (True, t') \<Rightarrow>
         if plan_filter (plan t') = None \<or> \<not> is_worthwhile t' then finish_row E t'
         else if is_direct t' then null_fill_missing E t'
         else let state = (case row_buf t' of Some b \<Rightarrow> rb_state b | None \<Rightarrow> Pass);
                  final = (if state = Undecided then evaluate_against_null (ext E) t' else state)
              in drain_buffered E (final = Pass) t')"

section \<open>Layout expectations\<close>

definition expect_slot :: "nat \<Rightarrow> table_builder \<Rightarrow> (nat \<times> string) option" where
  "expect_slot ord t = Option.bind (idx (ordinal_expect t) ord) id"

text \<open>The growth the code reserves for is an allocator figure and passed as \<open>growth\<close>.\<close>

definition record_slot :: "env \<Rightarrow> nat \<Rightarrow> nat \<Rightarrow> nat \<Rightarrow> string \<Rightarrow> table_builder \<Rightarrow> table_builder" where
  "record_slot E growth ord slot raw t =
     (case reserve_memory E (sat_add growth (length raw)) t of
        (False, t') \<Rightarrow> t'
      | (True, t') \<Rightarrow> t'\<lparr>ordinal_expect := set_ordinal ord (slot, raw) (ordinal_expect t')\<rparr>)"

definition layout_broken :: "nat \<Rightarrow> table_builder \<Rightarrow> table_builder" where
  "layout_broken ord t =
     (if ord < length (ordinal_expect t)
      then t\<lparr>ordinal_expect := (ordinal_expect t)[ord := None]\<rparr> else t)"

definition reset_child_ordinal :: "table_builder \<Rightarrow> table_builder" where
  "reset_child_ordinal t = t\<lparr>current_ordinal := 0\<rparr>"

section \<open>Batches\<close>

text \<open>\<open>normalize\<close> pops every column back to \<open>row_count\<close>; each pop shortens a longer column.\<close>

definition truncate_column :: "nat \<Rightarrow> column_builder \<Rightarrow> column_builder" where
  "truncate_column n b = (cb_pop ^^ (cb_len b - n)) b"

definition normalize :: "table_builder \<Rightarrow> table_builder" where
  "normalize t =
     t\<lparr>columns := map (truncate_column (row_count t)) (columns t), row_dirty := mask_clear (row_dirty t)\<rparr>"

definition default_ratio :: f64 where
  "default_ratio = f64_of_decimal False 5 (- 2)"

definition auto_dict_upgrade :: "table_builder \<Rightarrow> table_builder" where
  "auto_dict_upgrade t =
     (if auto_dict (plan t)
      then let max_ratio = (case dict_threshold (plan t) of Some r \<Rightarrow> r | None \<Rightarrow> default_ratio);
               max_size = (case dict_max_size (plan t) of Some n \<Rightarrow> n | None \<Rightarrow> 256)
           in t\<lparr>columns := map (cb_try_upgrade 512 max_ratio max_size) (columns t)\<rparr>
      else t)"

definition schema_rank :: "string list \<Rightarrow> string \<Rightarrow> nat" where
  "schema_rank order name = (case position (\<lambda>n. n = name) order of Some i \<Rightarrow> i | None \<Rightarrow> usize_max)"

definition sort_columns :: "table_builder \<Rightarrow> table_builder" where
  "sort_columns t =
     (if schema_order (plan t) = [] then t
      else t\<lparr>column_order := sort_key (schema_rank (schema_order (plan t))) (column_order t)\<rparr>)"

definition prepare_finish :: "env \<Rightarrow> table_builder \<Rightarrow> unit result \<times> table_builder" where
  "prepare_finish E t =
     (case unknown_error t of
        Some err \<Rightarrow> (Inl (Merge_error err), t\<lparr>unknown_error := None\<rparr>)
      | None \<Rightarrow>
         (case strict_error t of
            Some err \<Rightarrow> (Inl err, t\<lparr>strict_error := None\<rparr>)
          | None \<Rightarrow>
             (case check_memory_budget E t of
                Inl err \<Rightarrow> (Inl err, t)
              | Inr _ \<Rightarrow>
                  (Inr (), normalize (notify (On_chunk_finished (rows_accepted t + rows_rejected t)
                     (rows_accepted t) (rows_rejected t)) t)))))"

text \<open>
  A record batch is its named arrays. Arrow rejects arrays of different lengths, and a batch
  without columns whose number of rows is not given.
\<close>

type_synonym record_batch = "(string \<times> arrow_array) list"

definition make_batch :: "record_batch \<Rightarrow> record_batch result" where
  "make_batch b =
     (case b of
        [] \<Rightarrow> Inl (Arrow_error ''must either specify a row count or at least one column'')
      | (_, first) # _ \<Rightarrow>
          if list_all (\<lambda>(_, a). length (acells a) = length (acells first)) b then Inr b
          else Inl (Arrow_error ''all columns in a record batch must have the same length''))"

text \<open>\<open>RecordBatch::try_new\<close>: the arrays match the schema in number, length and type.\<close>

definition batch_of :: "(string \<times> data_type) list \<Rightarrow> arrow_array list \<Rightarrow> record_batch result" where
  "batch_of schema arrays =
     (if length arrays \<noteq> length schema then Inl (Arrow_error ''number of columns must match number of fields in schema'')
      else case make_batch (zip (map fst schema) arrays) of
             Inl err \<Rightarrow> Inl err
           | Inr b \<Rightarrow> if map atype arrays \<noteq> map snd schema
                      then Inl (Arrow_error ''column types must match schema types'') else Inr b)"

text \<open>
  Exporting one column takes its buffers; the result is the array or the error of the arrow crate. A
  list of columns stops at the first error. Each exported column comes with its field, the name and
  the type \<open>arrow_datatype\<close> reports before the export. \<open>None\<close> is an index out of range.
\<close>

type_synonym exported = "((string \<times> data_type) \<times> arrow_array) list"

definition export_at :: "nat \<Rightarrow> table_builder \<Rightarrow> (arrow_array result \<times> table_builder) option" where
  "export_at i t = do {
     b \<leftarrow> idx (columns t) i;
     let (a, b') = to_arrow_array b;
     Some (a, t\<lparr>columns := (columns t)[i := b']\<rparr>)
   }"

definition field_at :: "nat \<Rightarrow> string \<Rightarrow> table_builder \<Rightarrow> string \<times> data_type" where
  "field_at i name t = (name, arrow_datatype (columns t ! i))"

text \<open>One declared column of a projection: created all null when it was never seen.\<close>

definition declared_slot :: "env \<Rightarrow> string \<Rightarrow> table_builder \<Rightarrow> nat \<times> table_builder" where
  "declared_slot E name t =
     (case map_of (field_index t) name of
        Some i \<Rightarrow> (i, t)
      | None \<Rightarrow>
          (length (columns t),
           add_column name ((cb_push (ext E) None ^^ row_count t) (cb_with_capacity (column_type (plan t) name))) t))"

fun export_declared :: "env \<Rightarrow> string list \<Rightarrow> table_builder \<Rightarrow> (exported result \<times> table_builder) option" where
  "export_declared E [] t = Some (Inr [], t)"
| "export_declared E (name # names) t =
     (if name \<in> set (drop_fields (plan t)) then export_declared E names t
      else (let (i, t1) = declared_slot E name t
            in case export_at i t1 of None \<Rightarrow> None
             | Some (Inl err, t2) \<Rightarrow> Some (Inl err, t2)
             | Some (Inr a, t2) \<Rightarrow>
                 map_option (\<lambda>(rest, t3). (bind_result rest (\<lambda>r. Inr ((field_at i name t1, a) # r)), t3))
                   (export_declared E names t2)))"

fun export_ordered :: "string list \<Rightarrow> table_builder \<Rightarrow> (exported result \<times> table_builder) option" where
  "export_ordered [] t = Some (Inr [], t)"
| "export_ordered (name # names) t =
     (case map_of (field_index t) name of
        None \<Rightarrow> export_ordered names t
      | Some i \<Rightarrow>
          (case export_at i t of None \<Rightarrow> None
           | Some (Inl err, t1) \<Rightarrow> Some (Inl err, t1)
           | Some (Inr a, t1) \<Rightarrow>
               map_option (\<lambda>(rest, t2). (bind_result rest (\<lambda>r. Inr ((field_at i name t, a) # r)), t2))
                 (export_ordered names t1)))"

definition exported_batch :: "exported result \<Rightarrow> record_batch result" where
  "exported_batch r = bind_result r (\<lambda>cols. batch_of (map fst cols) (map snd cols))"

definition finish :: "env \<Rightarrow> table_builder \<Rightarrow> (record_batch result \<times> table_builder) option" where
  "finish E t =
     (case prepare_finish E t of
        (Inl err, t1) \<Rightarrow> Some (Inl err, t1)
      | (Inr _, t1) \<Rightarrow>
         if column_order t1 = [] then Some (Inr [], t1)
         else (let t2 = auto_dict_upgrade t1
               in if schema_order (plan t2) \<noteq> []
                  then map_option (\<lambda>(r, t3). (exported_batch r, t3)) (export_declared E (schema_order (plan t2)) t2)
                  else let t3 = sort_columns t2
                       in map_option (\<lambda>(r, t4). (exported_batch r, t4)) (export_ordered (column_order t3) t3)))"

definition tb_reset :: "table_builder \<Rightarrow> table_builder" where
  "tb_reset t =
     clear_buffer (t\<lparr>columns := [], field_index := [], column_order := [], row_dirty := mask_clear (row_dirty t),
       row_count := 0, unknown_error := None, strict_error := None, rows_accepted := 0, rows_rejected := 0\<rparr>)"

text \<open>
  \<open>split_off\<close> moves the first \<open>n\<close> rows into a new builder (first component) and keeps the
  rest; \<open>None\<close> is the panic of one of its assertions.
\<close>

definition tb_split_off :: "nat \<Rightarrow> table_builder \<Rightarrow> (table_builder \<times> table_builder) option" where
  "tb_split_off n t =
     (if row_count t < n \<or> n = 0 then None
      else do {
        parts \<leftarrow> those (map (cb_split_off n) (columns t));
        let zero = replicate (mask_words (length (columns t))) 0;
        let buf = (if plan_filter (plan t) = None then None
                   else Some (rb_new\<lparr>rb_mask := (case row_buf t of Some b \<Rightarrow> rb_mask b | None \<Rightarrow> []),
                                     rb_names := (case row_buf t of Some b \<Rightarrow> rb_names b | None \<Rightarrow> [])\<rparr>));
        let other = t\<lparr>columns := map fst parts, row_count := n, estimated_rows := n, row_dirty := zero,
                      unknown_error := None, row_buf := buf, ordinal_expect := [], current_ordinal := 0,
                      strict_error := None, events := []\<rparr>;
        Some (other, t\<lparr>columns := map snd parts, row_count := row_count t - n, row_dirty := zero,
                       rows_accepted := 0, rows_rejected := 0\<rparr>)
      })"

text \<open>\<open>swap_remove\<close>: the last column moves into the gap and its name is repointed; \<open>clearjunk\<close> lists
  the entries of a map once.\<close>

definition take_column :: "string \<Rightarrow> table_builder \<Rightarrow> (column_builder option \<times> table_builder) option" where
  "take_column name t =
     (case map_of (field_index t) name of
        None \<Rightarrow> Some (None, t)
      | Some i \<Rightarrow> do {
          col \<leftarrow> idx (columns t) i;
          let index = AList.delete name (field_index t);
          let last = length (columns t) - 1;
          let t1 = t\<lparr>row_dirty := mask_clear (mask_resize (mask_words (length (columns t))) (row_dirty t))\<rparr>;
          if i = last then Some (Some col, t1\<lparr>columns := butlast (columns t), field_index := index\<rparr>)
          else (let cols = butlast ((columns t)[i := columns t ! last]);
                    index' = (case List.find (\<lambda>(k, v). v = last) (AList.clearjunk index) of
                                Some (k, _) \<Rightarrow> AList.update k i index | None \<Rightarrow> index)
                in Some (Some col, t1\<lparr>columns := cols, field_index := index'\<rparr>))
        })"

end
