(* ===== verification/Table_Laws.thy ===== *)
theory Table_Laws
  imports Table_Builder
begin

text \<open>
  The storage invariant of the table builder and the refinement of its direct path (no filter,
  or a filter decided late) to a table of rows: a put sets one cell of the current row, the
  last write winning; ending a row appends it, or forgets it when the filter rejects it.
\<close>

section \<open>Masks\<close>

lemma bit_test_word: "drop_bit k w AND 1 = 1 \<longleftrightarrow> bit w k" for w :: "64 word"
  by (simp add: and_one_eq bit_iff_odd_drop_bit odd_iff_mod_2_eq_one)

lemma mask_test_bit: "mask_test i m \<longleftrightarrow> i div 64 < length m \<and> bit (m ! (i div 64)) (i mod 64)"
  by (simp add: mask_test_def bit_test_word)

lemma mask_set_Some: "i div 64 < length m \<Longrightarrow>
    mask_set i m = Some (m[i div 64 := m ! (i div 64) OR push_bit (i mod 64) 1])"
  by (simp add: mask_set_def)

lemma mask_test_set:
  assumes "mask_set i m = Some m'"
  shows "mask_test j m' \<longleftrightarrow> j = i \<or> mask_test j m" "length m' = length m"
proof -
  have i: "i div 64 < length m" and m': "m' = m[i div 64 := m ! (i div 64) OR push_bit (i mod 64) 1]"
    using assms by (auto simp: mask_set_def split: if_splits)
  show "length m' = length m" by (simp add: m')
  show "mask_test j m' \<longleftrightarrow> j = i \<or> mask_test j m"
  proof (cases "j div 64 = i div 64")
    case True
    have "j = i \<longleftrightarrow> j mod 64 = i mod 64" using True by (metis div_mult_mod_eq)
    moreover have "bit (push_bit (i mod 64) 1 :: 64 word) (j mod 64) \<longleftrightarrow> j mod 64 = i mod 64"
      by (auto simp: push_bit_of_1 bit_exp_iff)
    ultimately show ?thesis using True i by (auto simp: mask_test_bit m' bit_or_iff)
  next
    case False
    then have "j \<noteq> i" by auto
    with False show ?thesis by (simp add: mask_test_bit m')
  qed
qed

lemma mask_test_clear [simp]: "\<not> mask_test i (mask_clear m)"
  by (simp add: mask_test_bit mask_clear_def)

lemma length_mask_clear [simp]: "length (mask_clear m) = length m"
  by (simp add: mask_clear_def)

lemma length_mask_resize [simp]: "length (mask_resize n m) = n"
  by (simp add: mask_resize_def)

lemma mask_test_resize:
  assumes "length m \<le> n"
  shows "mask_test i (mask_resize n m) = mask_test i m"
  using assms by (auto simp: mask_test_bit mask_resize_def nth_append)

lemma mask_words_div: "i < n \<Longrightarrow> i div 64 < mask_words n"
proof -
  assume "i < n"
  then have "i < 64 * mask_words n" using div_ceil_le [of 64 n] by (simp add: mask_words_def)
  then show ?thesis by (simp add: less_mult_imp_div_less mult.commute)
qed

lemma mask_full_test:
  assumes "mask_full n m" "mask_words n \<le> length m" "i < n"
  shows "mask_test i m"
proof -
  have len: "i div 64 < length m" using mask_words_div [OF assms(3)] assms(2) by simp
  show ?thesis
  proof (cases "i div 64 < n div 64")
    case True
    then have "m ! (i div 64) = - 1" using assms(1) by (simp add: mask_full_def list_all_iff)
    with len show ?thesis by (simp add: mask_test_bit)
  next
    case False
    have e: "n = 64 * (n div 64) + n mod 64" "i = 64 * (i div 64) + i mod 64" "i mod 64 < 64" "n mod 64 < 64"
      by simp_all
    then have w: "i div 64 = n div 64" "i mod 64 < n mod 64" using False assms(3) by linarith+
    then have "m ! (n div 64) = push_bit (n mod 64) 1 - 1"
      using assms(1) len by (simp add: mask_full_def)
    then have "m ! (i div 64) = mask (n mod 64)" by (simp add: w(1) push_bit_of_1 mask_eq_exp_minus_1)
    with w(2) len show ?thesis by (simp add: mask_test_bit bit_mask_iff)
  qed
qed


section \<open>The invariant\<close>

definition index_ok :: "table_builder \<Rightarrow> bool" where
  "index_ok t \<longleftrightarrow>
     distinct (column_order t) \<and> length (column_order t) = length (columns t) \<and>
     (\<forall>n. map_of (field_index t) n \<noteq> None \<longleftrightarrow> n \<in> set (column_order t)) \<and>
     (\<forall>n i. map_of (field_index t) n = Some i \<longrightarrow> i < length (columns t)) \<and>
     (\<forall>m n i. map_of (field_index t) m = Some i \<longrightarrow> map_of (field_index t) n = Some i \<longrightarrow> m = n)"

text \<open>Every column has the committed rows, and one cell more exactly when its dirty bit is set.\<close>

definition aligned :: "table_builder \<Rightarrow> bool" where
  "aligned t \<longleftrightarrow>
     mask_words (length (columns t)) \<le> length (row_dirty t) \<and>
     (\<forall>i. mask_test i (row_dirty t) \<longrightarrow> i < length (columns t)) \<and>
     (\<forall>i < length (columns t). cb_len (columns t ! i) = row_count t + (if mask_test i (row_dirty t) then 1 else 0))"

definition kinds_ok :: "table_builder \<Rightarrow> bool" where
  "kinds_ok t \<longleftrightarrow> (\<forall>n i. map_of (field_index t) n = Some i \<longrightarrow> cb_kind (columns t ! i) = column_type (plan t) n)"

definition tb_wf :: "table_builder \<Rightarrow> bool" where
  "tb_wf t \<longleftrightarrow> (\<forall>c \<in> set (columns t). cb_ok c) \<and> index_ok t \<and> aligned t \<and> kinds_ok t"

text \<open>The table: a row gives each output name its cell, nothing for null and absent ones.\<close>

type_synonym row = "string \<Rightarrow> typed_value option"

definition row_at :: "table_builder \<Rightarrow> nat \<Rightarrow> row" where
  "row_at t r n = (case map_of (field_index t) n of Some i \<Rightarrow> get_typed_value (columns t ! i) r | None \<Rightarrow> None)"

definition tb_rows :: "table_builder \<Rightarrow> row list" where
  "tb_rows t = map (row_at t) [0..<row_count t]"

definition cur_row :: "table_builder \<Rightarrow> row" where
  "cur_row t = row_at t (row_count t)"

definition convert :: "externals \<Rightarrow> field_type \<Rightarrow> field_value \<Rightarrow> typed_value option" where
  "convert X ty v = cell_of X (cb_with_capacity ty) v"

lemma cell_of_convert: "cell_of X c v = convert X (cb_kind c) v"
  unfolding convert_def by (rule cell_of_kind) simp

text \<open>The fields the invariant and the rows depend on.\<close>

definition same_core :: "table_builder \<Rightarrow> table_builder \<Rightarrow> bool" where
  "same_core t u \<longleftrightarrow> columns u = columns t \<and> field_index u = field_index t \<and> column_order u = column_order t \<and>
     row_count u = row_count t \<and> row_dirty u = row_dirty t \<and> plan u = plan t \<and> frozen u = frozen t \<and>
     row_buf u = row_buf t \<and> memory_limit u = memory_limit t"

lemma same_core_wf:
  assumes "same_core t u"
  shows "tb_wf u = tb_wf t" "tb_rows u = tb_rows t" "cur_row u = cur_row t" "row_at u = row_at t"
proof -
  show "tb_wf u = tb_wf t"
    using assms by (simp add: same_core_def tb_wf_def index_ok_def aligned_def kinds_ok_def)
  show r: "row_at u = row_at t" using assms by (intro ext) (auto simp: row_at_def same_core_def split: option.splits)
  then show "tb_rows u = tb_rows t" "cur_row u = cur_row t"
    using assms by (simp_all add: tb_rows_def cur_row_def same_core_def)
qed

lemma same_core_refl [simp]: "same_core t t"
  by (simp add: same_core_def)

lemma same_core_trans: "same_core t u \<Longrightarrow> same_core u v \<Longrightarrow> same_core t v"
  by (simp add: same_core_def)

lemma core_notify [simp]: "same_core t (notify e t)"
  by (simp add: same_core_def notify_def)

lemma core_notify_put [simp]: "same_core t (notify_put_field i v t)"
  by (simp add: notify_put_field_def split: option.splits)

lemma core_strict [simp]: "same_core t (record_strict_violation_at E i v t)"
  by (simp add: record_strict_violation_at_def same_core_def split: option.splits field_value.splits)

lemma core_track [simp]: "same_core t (track_ordinal i n t)"
  by (simp add: track_ordinal_def same_core_def Let_def)

lemma core_unknown [simp]: "same_core t (set_unknown n t)"
  by (simp add: set_unknown_def same_core_def)

text \<open>A cell of a column prepared for the current row: one already written is popped.\<close>

definition prepared :: "table_builder \<Rightarrow> nat \<Rightarrow> column_builder" where
  "prepared t i = (let b = columns t ! i in if row_count t < cb_len b then cb_pop b else b)"

text \<open>What a put leaves alone besides the rows.\<close>

definition framed :: "table_builder \<Rightarrow> table_builder \<Rightarrow> bool" where
  "framed t u \<longleftrightarrow> field_index u = field_index t \<and> column_order u = column_order t \<and>
     row_count u = row_count t \<and> plan u = plan t \<and> frozen u = frozen t \<and> row_buf u = row_buf t \<and>
     memory_limit u = memory_limit t \<and> rows_accepted u = rows_accepted t \<and> rows_rejected u = rows_rejected t \<and>
     strict_error u = strict_error t \<and> unknown_error u = unknown_error t \<and> length (columns u) = length (columns t)"

lemma store_at_ok:
  assumes wf: "tb_wf t" and n: "map_of (field_index t) n = Some i" and fits: "cb_fits (ext E) (prepared t i) v"
  shows "\<exists>u. store_at E i v t = Some u \<and> tb_wf u \<and> tb_rows u = tb_rows t \<and>
    cur_row u = (cur_row t)(n := convert (ext E) (column_type (plan t) n) v) \<and>
    framed t u \<and> (\<forall>j. mask_test j (row_dirty u) \<longleftrightarrow> j = i \<or> mask_test j (row_dirty t))"
proof -
  let ?c = "columns t ! i" and ?X = "ext E"
  have i: "i < length (columns t)" using wf n by (simp add: tb_wf_def index_ok_def)
  have ok: "cb_ok ?c" using wf i by (simp add: tb_wf_def)
  have len: "cb_len ?c = row_count t \<or> cb_len ?c = Suc (row_count t)"
    using wf i by (simp add: tb_wf_def aligned_def)
  have words: "i div 64 < length (row_dirty t)"
    using mask_words_div [OF i] wf by (simp add: tb_wf_def aligned_def)
  define m where "m = (row_dirty t)[i div 64 := row_dirty t ! (i div 64) OR push_bit (i mod 64) 1]"
  have ms: "mask_set i (row_dirty t) = Some m" using words by (simp add: mask_set_Some m_def)
  define d where "d = cb_push_value ?X v (if row_count t < cb_len ?c then cb_pop ?c else ?c)"
  have d: "cb_ok d" "cb_rows d = take (row_count t) (cb_rows ?c) @ [cell_of ?X ?c v]"
    using col.overwrite [OF ok len] fits by (simp_all add: d_def prepared_def Let_def)
  have kd: "cb_kind d = cb_kind ?c" by (simp add: d_def)
  have ld: "cb_len d = Suc (row_count t)"
    using arg_cong [OF d(2), of length] len by auto
  have dr: "get_typed_value d r = (if r = row_count t then cell_of ?X ?c v else get_typed_value ?c r)"
    if "r \<le> row_count t" for r
    using that len d(2) ld by (auto simp: get_typed_value_rows nth_append)
  define u where "u = t\<lparr>row_dirty := m, columns := (columns t)[i := d]\<rparr>"
  have store: "store_at E i v t = Some u"
    using i ms by (simp add: store_at_def u_def d_def Let_def idx_def)
  have mt: "mask_test j m \<longleftrightarrow> j = i \<or> mask_test j (row_dirty t)" for j
    using mask_test_set(1) [OF ms] .
  have only: "map_of (field_index t) k = Some i \<longleftrightarrow> k = n" for k
    using wf n by (auto simp: tb_wf_def index_ok_def)
  have "\<forall>c \<in> set (columns u). cb_ok c"
    using wf d(1) set_update_subset_insert [of "columns t" i d] by (auto simp: u_def tb_wf_def)
  moreover have "index_ok u" using wf by (simp add: u_def tb_wf_def index_ok_def)
  moreover have "aligned u"
    using wf i ld mt mask_test_set(2) [OF ms] by (auto simp: u_def tb_wf_def aligned_def nth_list_update)
  moreover have "kinds_ok u"
    using wf kd i by (auto simp: u_def tb_wf_def kinds_ok_def) (metis nth_list_update_eq nth_list_update_neq)
  ultimately have "tb_wf u" by (simp add: tb_wf_def)
  moreover have row: "row_at u r k = (if k = n \<and> r = row_count t then cell_of ?X ?c v else row_at t r k)"
    if "r \<le> row_count t" for r k
  proof (cases "map_of (field_index t) k")
    case (Some j)
    then have "j < length (columns t)" using wf by (simp add: tb_wf_def index_ok_def)
    then show ?thesis using Some only [of k] n dr [OF that]
      by (cases "j = i") (auto simp: row_at_def u_def)
  qed (use n in \<open>auto simp: row_at_def u_def\<close>)
  moreover have "tb_rows u = tb_rows t"
    using row by (auto simp: tb_rows_def u_def intro!: ext map_cong)
  moreover have "cell_of ?X ?c v = convert ?X (column_type (plan t) n) v"
    using wf n by (simp add: cell_of_convert tb_wf_def kinds_ok_def)
  then have "cur_row u = (cur_row t)(n := convert ?X (column_type (plan t) n) v)"
    using row [of "row_count t"] by (auto simp: cur_row_def u_def)
  moreover have "framed t u" by (simp add: framed_def u_def)
  moreover have "\<forall>j. mask_test j (row_dirty u) \<longleftrightarrow> j = i \<or> mask_test j (row_dirty t)" using mt by (simp add: u_def)
  ultimately show ?thesis using store by blast
qed


section \<open>New columns\<close>

lemma cb_push_Null: "cb_push_value X Null = cb_push X None"
  by (rule ext) simp

definition backfilled :: "env \<Rightarrow> nat \<Rightarrow> field_type \<Rightarrow> column_builder" where
  "backfilled E n ty = (cb_push (ext E) None ^^ n) (cb_with_capacity ty)"

lemma cb_kind_pushes [simp]: "cb_kind ((cb_push X None ^^ n) c) = cb_kind c"
  by (induction n) (simp_all add: cb_push_def)

lemma backfilled_ok:
  "cb_ok (backfilled E n ty) \<and> cb_rows (backfilled E n ty) = replicate n None \<and>
   cb_len (backfilled E n ty) = n \<and> cb_kind (backfilled E n ty) = ty"
proof -
  have "cb_ok (backfilled E n ty) \<and> cb_rows (backfilled E n ty) = replicate n None"
    using col.pad_nulls [where X = "ext E" and s = "cb_with_capacity ty" and n = n] by (simp add: backfilled_def cb_push_Null)
  then show ?thesis using length_cb_rows [of "backfilled E n ty"] by (simp add: backfilled_def)
qed

lemma backfilled_get: "get_typed_value (backfilled E n ty) r = None"
  using backfilled_ok [of E n ty] by (simp add: get_typed_value_rows)

text \<open>Adding a column of nulls under a new name changes no row.\<close>

definition with_column :: "string \<Rightarrow> nat \<Rightarrow> column_builder \<Rightarrow> mask \<Rightarrow> table_builder \<Rightarrow> table_builder" where
  "with_column name pos b m t =
     (add_column name b t)\<lparr>row_dirty := m, column_order := insert_at pos name (column_order t)\<rparr>"

lemma with_column_ok:
  assumes wf: "tb_wf t" and new: "map_of (field_index t) name = None"
    and b: "b = backfilled E (row_count t) (column_type (plan t) name)"
    and m: "mask_words (Suc (length (columns t))) \<le> length m" "\<And>i. mask_test i m = mask_test i (row_dirty t)"
  shows "tb_wf (with_column name pos b m t) \<and> tb_rows (with_column name pos b m t) = tb_rows t \<and>
    cur_row (with_column name pos b m t) = cur_row t"
proof -
  let ?u = "with_column name pos b m t"
  have sel: "columns ?u = columns t @ [b]" "field_index ?u = AList.update name (length (columns t)) (field_index t)"
    "column_order ?u = insert_at pos name (column_order t)" "row_count ?u = row_count t" "row_dirty ?u = m"
    "plan ?u = plan t"
    by (simp_all add: with_column_def add_column_def)
  have inr: "i < length (columns t)" if "map_of (field_index t) n = Some i" for n i
    using wf that by (simp add: tb_wf_def index_ok_def)
  note bk = backfilled_ok [of E "row_count t" "column_type (plan t) name", folded b]
  have "map_of (field_index t) name \<noteq> None \<longleftrightarrow> name \<in> set (column_order t)"
    using wf by (simp add: tb_wf_def index_ok_def)
  then have fresh: "name \<notin> set (column_order t)" using new by simp
  have "index_ok ?u"
    using wf fresh inr unfolding index_ok_def sel by (auto simp: tb_wf_def index_ok_def less_Suc_eq split: if_splits)
  moreover have "aligned ?u"
    using wf m bk unfolding aligned_def sel
    by (auto simp: tb_wf_def aligned_def nth_append less_Suc_eq)
  moreover have "kinds_ok ?u"
    using wf bk inr new unfolding kinds_ok_def sel by (auto simp: tb_wf_def kinds_ok_def nth_append)
  moreover have "\<forall>c \<in> set (columns ?u). cb_ok c" using wf bk unfolding sel by (auto simp: tb_wf_def)
  ultimately have "tb_wf ?u" by (simp add: tb_wf_def)
  moreover have "row_at ?u = row_at t"
    using inr new backfilled_get [of E "row_count t" "column_type (plan t) name", folded b]
    by (intro ext) (auto simp: row_at_def sel nth_append split: option.splits)
  then have "tb_rows ?u = tb_rows t" "cur_row ?u = cur_row t" by (simp_all add: tb_rows_def cur_row_def sel)
  ultimately show ?thesis by blast
qed

lemma ensure_known: "map_of (field_index t) name = Some i \<Longrightarrow> ensure_column_idx E name t = (i, t)"
  by (simp add: ensure_column_idx_def)

lemma ensure_new:
  assumes "map_of (field_index t) name = None" "\<not> is_exact_frozen t" "\<not> is_direct t"
  shows "\<exists>pos m. ensure_column_idx E name t =
      (length (columns t), with_column name pos (backfilled E (row_count t) (column_type (plan t) name)) m t) \<and>
    mask_words (Suc (length (columns t))) \<le> length m \<and>
    (\<forall>i. mask_test i m = mask_test i (row_dirty t))"
proof -
  let ?b = "backfilled E (row_count t) (column_type (plan t) name)"
  let ?m = "if length (row_dirty t) < mask_words (Suc (length (columns t)))
            then mask_resize (mask_words (Suc (length (columns t)))) (row_dirty t) else row_dirty t"
  let ?t1 = "add_column name ?b t"
  let ?t2 = "if length (row_dirty ?t1) < mask_words (length (columns ?t1))
             then ?t1\<lparr>row_dirty := mask_resize (mask_words (length (columns ?t1))) (row_dirty ?t1)\<rparr> else ?t1"
  have t1: "length (columns ?t1) = Suc (length (columns t))" "row_dirty ?t1 = row_dirty t" "column_order ?t1 = column_order t"
    by (simp_all add: add_column_def)
  have t2: "?t2 = ?t1\<lparr>row_dirty := ?m\<rparr>" by (simp add: t1)
  have "ensure_column_idx E name t =
      (length (columns t), ?t2\<lparr>column_order := insert_at (schema_insert_index name ?t2) name (column_order ?t2)\<rparr>)"
    using assms by (simp add: ensure_column_idx_def backfilled_def Let_def)
  then have "ensure_column_idx E name t =
      (length (columns t), with_column name (schema_insert_index name ?t2) ?b ?m t)"
    unfolding t2 with_column_def by (simp add: t1)
  moreover have "mask_test i ?m = mask_test i (row_dirty t)" for i
    using mask_test_resize [of "row_dirty t" "mask_words (Suc (length (columns t)))" i] by simp
  moreover have "mask_words (Suc (length (columns t))) \<le> length ?m" by simp
  ultimately show ?thesis by blast
qed

lemma ensure_column_ok:
  assumes wf: "tb_wf t" and fr: "map_of (field_index t) name \<noteq> None \<or> \<not> is_exact_frozen t" and d: "\<not> is_direct t"
    and e: "ensure_column_idx E name t = (i, u)"
  shows "tb_wf u \<and> tb_rows u = tb_rows t \<and> cur_row u = cur_row t \<and> map_of (field_index u) name = Some i \<and>
    plan u = plan t \<and> row_count u = row_count t \<and> frozen u = frozen t \<and> row_buf u = row_buf t \<and>
    memory_limit u = memory_limit t \<and> rows_accepted u = rows_accepted t \<and> rows_rejected u = rows_rejected t \<and>
    strict_error u = strict_error t \<and> unknown_error u = unknown_error t"
proof (cases "map_of (field_index t) name")
  case (Some j)
  with e wf show ?thesis by (simp add: ensure_known)
next
  case None
  with fr have "\<not> is_exact_frozen t" by simp
  from ensure_new [OF None this d, of E] obtain pos m where
    "i = length (columns t)" "u = with_column name pos (backfilled E (row_count t) (column_type (plan t) name)) m t"
    "mask_words (Suc (length (columns t))) \<le> length m" "\<And>k. mask_test k m = mask_test k (row_dirty t)"
    using e by auto
  then show ?thesis
    using with_column_ok [OF wf None refl, where m = m and E = E and pos = pos]
    by (simp add: with_column_def add_column_def)
qed

section \<open>Putting a field\<close>

text \<open>Room for a value under an output name, in its column or in the one to be created.\<close>

definition put_fits :: "env \<Rightarrow> string \<Rightarrow> field_value \<Rightarrow> table_builder \<Rightarrow> bool" where
  "put_fits E name v t = (let (i, u) = ensure_column_idx E name t in cb_fits (ext E) (prepared u i) v)"

lemma prepared_core: "same_core t u \<Longrightarrow> prepared u i = prepared t i"
  by (simp add: same_core_def prepared_def)

text \<open>The put accepted by an exact frozen schema, or any put without one.\<close>

definition name_known :: "string \<Rightarrow> table_builder \<Rightarrow> bool" where
  "name_known name t \<longleftrightarrow> map_of (field_index t) name \<noteq> None \<or> \<not> is_exact_frozen t"

definition stays :: "table_builder \<Rightarrow> table_builder \<Rightarrow> bool" where
  "stays t u \<longleftrightarrow> plan u = plan t \<and> row_count u = row_count t \<and> frozen u = frozen t \<and> row_buf u = row_buf t \<and>
     memory_limit u = memory_limit t \<and> rows_accepted u = rows_accepted t \<and> rows_rejected u = rows_rejected t"

lemma stays_refl [simp]: "stays t t"
  by (simp add: stays_def)

lemma stays_trans: "stays t u \<Longrightarrow> stays u v \<Longrightarrow> stays t v"
  by (simp add: stays_def)

lemma core_stays: "same_core t u \<Longrightarrow> rows_accepted u = rows_accepted t \<Longrightarrow> rows_rejected u = rows_rejected t \<Longrightarrow> stays t u"
  by (simp add: stays_def same_core_def)

lemma counts_simps [simp]:
  "rows_accepted (notify_put_field i v t) = rows_accepted t" "rows_rejected (notify_put_field i v t) = rows_rejected t"
  "rows_accepted (record_strict_violation_at E i v t) = rows_accepted t"
  "rows_rejected (record_strict_violation_at E i v t) = rows_rejected t"
  "rows_accepted (track_ordinal i n t) = rows_accepted t" "rows_rejected (track_ordinal i n t) = rows_rejected t"
  "rows_accepted (set_unknown n t) = rows_accepted t" "rows_rejected (set_unknown n t) = rows_rejected t"
  by (simp_all add: notify_put_field_def notify_def record_strict_violation_at_def track_ordinal_def
      set_unknown_def Let_def split: option.splits field_value.splits)

lemma core_put_prefix: "same_core t (track_ordinal i n (notify_put_field i v (record_strict_violation_at E i v t)))"
  by (meson core_strict core_notify_put core_track same_core_trans)

lemma stored_ok:
  assumes wf: "tb_wf t" and n: "map_of (field_index t) name = Some i" and fits: "cb_fits (ext E) (prepared t i) v"
    and s: "same_core t s" "rows_accepted s = rows_accepted t" "rows_rejected s = rows_rejected t"
  shows "\<exists>u. store_at E i v s = Some u \<and> tb_wf u \<and> tb_rows u = tb_rows t \<and>
    cur_row u = (cur_row t)(name := convert (ext E) (column_type (plan t) name) v) \<and> stays t u"
proof -
  have "tb_wf s" "map_of (field_index s) name = Some i" "cb_fits (ext E) (prepared s i) v"
    using wf n fits same_core_wf [OF s(1)] prepared_core [OF s(1)] s(1) by (simp_all add: same_core_def)
  from store_at_ok [OF this] obtain u where u: "store_at E i v s = Some u" "tb_wf u" "tb_rows u = tb_rows s"
    "cur_row u = (cur_row s)(name := convert (ext E) (column_type (plan s) name) v)" "framed s u" by blast
  have "stays t u" using u(5) s by (simp add: stays_def framed_def same_core_def)
  with u same_core_wf [OF s(1)] s(1) show ?thesis by (auto simp: same_core_def)
qed

lemma push_resolved_ok:
  assumes wf: "tb_wf t" and k: "name_known name t" and d: "\<not> is_direct t" and fits: "put_fits E name v t"
  shows "\<exists>u. push_field_resolved E name v t = Some u \<and> tb_wf u \<and> tb_rows u = tb_rows t \<and>
    cur_row u = (cur_row t)(name := convert (ext E) (column_type (plan t) name) v) \<and> stays t u"
proof -
  obtain i t1 where e: "ensure_column_idx E name t = (i, t1)" by fastforce
  have k': "map_of (field_index t) name \<noteq> None \<or> \<not> is_exact_frozen t" using k by (simp add: name_known_def)
  note t1 = ensure_column_ok [OF wf k' d e]
  have p: "push_field_resolved E name v t =
      store_at E i v (track_ordinal i name (notify_put_field i v (record_strict_violation_at E i v t1)))"
    using k' e by (auto simp: push_field_resolved_def contains_key_def)
  have "cb_fits (ext E) (prepared t1 i) v" using fits e by (simp add: put_fits_def)
  from stored_ok [OF _ _ this core_put_prefix, of name] t1
  obtain u where "push_field_resolved E name v t = Some u" "tb_wf u" "tb_rows u = tb_rows t1"
    "cur_row u = (cur_row t1)(name := convert (ext E) (column_type (plan t1) name) v)" "stays t1 u"
    unfolding p by fastforce
  moreover have "stays t t1" using t1 by (simp add: stays_def)
  ultimately show ?thesis using t1 stays_trans by fastforce
qed

lemma push_resolved_unknown:
  assumes "tb_wf t" "\<not> name_known name t"
  shows "push_field_resolved E name v t = Some (set_unknown name t)"
  using assms by (simp add: push_field_resolved_def name_known_def contains_key_def)

text \<open>The fast path of \<open>push_field\<close> and its slow path do the same.\<close>

lemma push_field_resolves:
  "push_field E name v t = (case resolve_field (plan t) name of None \<Rightarrow> Some t
    | Some r \<Rightarrow> push_field_resolved E r v t)"
proof (cases "plain_names (plan t)")
  case True
  then show ?thesis by (simp add: push_field_def plain_names_def resolve_field_trivial)
next
  case False
  show ?thesis
  proof (cases "resolve_field (plan t) name")
    case None
    with False show ?thesis by (simp add: push_field_def resolve_and_slot_def)
  next
    case (Some r)
    show ?thesis
    proof (cases "map_of (field_index t) r")
      case None
      with False Some show ?thesis by (simp add: push_field_def resolve_and_slot_def)
    next
      case (Some i)
      with False \<open>resolve_field (plan t) name = Some r\<close> show ?thesis
        by (simp add: push_field_def resolve_and_slot_def push_field_resolved_def contains_key_def
            ensure_known resolve_or_raw_def)
    qed
  qed
qed


section \<open>Ending a row\<close>

lemma null_fill_ok:
  assumes wf: "tb_wf t"
  shows "\<exists>u. null_fill E t = Some u \<and> (\<forall>c \<in> set (columns u). cb_ok c \<and> cb_len c = Suc (row_count t)) \<and>
    length (columns u) = length (columns t) \<and>
    (\<forall>i < length (columns t). cb_kind (columns u ! i) = cb_kind (columns t ! i)) \<and>
    (\<forall>r \<le> row_count t. \<forall>n. row_at u r n = row_at t r n) \<and>
    (\<exists>cols. u = t\<lparr>columns := cols, row_dirty := mask_clear (row_dirty t)\<rparr>)"
proof -
  define step where "step = (\<lambda>i b. if mask_test i (row_dirty t) then b else cb_push (ext E) None b)"
  define cols where "cols = map (\<lambda>(i, b). step i b) (enumerate 0 (columns t))"
  define u where "u = t\<lparr>columns := cols, row_dirty := mask_clear (row_dirty t)\<rparr>"
  have len: "length cols = length (columns t)" by (simp add: cols_def)
  have nth: "cols ! i = step i (columns t ! i)" if "i < length (columns t)" for i
    using that by (simp add: cols_def nth_enumerate_eq)
  have cl: "cb_len (columns t ! i) = row_count t + (if mask_test i (row_dirty t) then 1 else 0)"
    and ok: "cb_ok (columns t ! i)" if "i < length (columns t)" for i
    using wf that by (simp_all add: tb_wf_def aligned_def)
  have pushed: "cb_ok (cb_push (ext E) None b) \<and> cb_rows (cb_push (ext E) None b) = cb_rows b @ [None]" if "cb_ok b" for b
    using cb_push_None [OF that] .
  have step: "cb_ok (cols ! i) \<and> cb_len (cols ! i) = Suc (row_count t) \<and> cb_kind (cols ! i) = cb_kind (columns t ! i) \<and>
      (\<forall>r \<le> row_count t. get_typed_value (cols ! i) r = get_typed_value (columns t ! i) r)"
    if i: "i < length (columns t)" for i
  proof (cases "mask_test i (row_dirty t)")
    case True
    with i cl ok show ?thesis by (simp add: nth step_def)
  next
    case False
    have p: "cb_ok (cols ! i)" "cb_rows (cols ! i) = cb_rows (columns t ! i) @ [None]"
      using pushed [OF ok [OF i]] i False by (simp_all add: nth step_def)
    have l: "cb_len (cols ! i) = Suc (row_count t)"
      using arg_cong [OF p(2), of length] cl [OF i] False by simp
    have "cb_kind (cols ! i) = cb_kind (columns t ! i)" using i False by (simp add: nth step_def cb_push_def)
    with p l cl [OF i] False show ?thesis by (auto simp: get_typed_value_rows nth_append)
  qed
  have cols_in: "\<exists>i < length (columns t). c = cols ! i" if "c \<in> set cols" for c
    using that len by (metis in_set_conv_nth)
  have full: "cols = columns t" if "mask_full (length (columns t)) (row_dirty t)"
    using that len wf mask_full_test [OF that] by (intro nth_equalityI) (auto simp: nth step_def tb_wf_def aligned_def)
  have fill: "null_fill E t = Some u"
    using wf full by (auto simp: null_fill_def u_def cols_def step_def tb_wf_def aligned_def)
  have index: "i < length (columns t)" if "map_of (field_index t) n = Some i" for n i
    using wf that by (simp add: tb_wf_def index_ok_def)
  have "row_at u r n = row_at t r n" if "r \<le> row_count t" for r n
    using step index that by (auto simp: row_at_def u_def split: option.splits)
  moreover have "\<forall>c \<in> set (columns u). cb_ok c \<and> cb_len c = Suc (row_count t)"
    using cols_in step by (force simp: u_def)
  ultimately show ?thesis using fill step len by (intro exI [of _ u]) (auto simp: u_def)
qed

text \<open>A filter sees a row through the declared types of its output names.\<close>

definition row_view_of :: "execution_plan \<Rightarrow> row \<Rightarrow> row_view" where
  "row_view_of p r f = Some (column_type p (renamed p f), r (renamed p f))"

definition accepts :: "externals \<Rightarrow> execution_plan \<Rightarrow> row \<Rightarrow> bool" where
  "accepts X p r = (case plan_filter p of None \<Rightarrow> True | Some f \<Rightarrow> pred_sem X (row_view_of p r) f)"

lemma pred_sem_view:
  assumes "\<And>f. cell_at rv f = cell_at rw f" "\<And>f ft. has_type X rv f ft = has_type X rw f ft"
  shows "pred_sem X rv p = pred_sem X rw p"
proof -
  have "text_that X rv f P = text_that X rw f P" for f P by (simp add: text_that_def text_at_def assms(1))
  then show ?thesis by (induction p) (simp_all add: assms)
qed

lemma check_accepts:
  assumes ok: "\<forall>c \<in> set (columns u). cb_ok c" and ix: "\<And>n i. map_of (field_index u) n = Some i \<Longrightarrow> i < length (columns u)"
    and k: "\<And>n i. map_of (field_index u) n = Some i \<Longrightarrow> cb_kind (columns u ! i) = column_type (plan u) n"
  shows "check X (columns u) (field_index u) r (plan u) f = pred_sem X (row_view_of (plan u) (row_at u r)) f"
proof -
  let ?rv = "view_of (columns u) (field_index u) (plan u) r"
  have gc: "get_column (columns u) (field_index u) n =
      (case map_of (field_index u) n of Some i \<Rightarrow> Some (columns u ! i) | None \<Rightarrow> None)" for n
    using ix by (auto simp: get_column_def idx_def split: option.splits)
  have cell: "cell_at ?rv f = cell_at (row_view_of (plan u) (row_at u r)) f" for f
    by (auto simp: cell_at_def view_of_def row_view_of_def row_at_def gc split: option.splits)
  have "has_type X ?rv f ft = has_type X (row_view_of (plan u) (row_at u r)) f ft" for f ft
    using k by (auto simp: has_type_def view_of_def row_view_of_def row_at_def gc split: option.splits)
  with cell show ?thesis unfolding check_sem [OF ok] by (rule pred_sem_view)
qed

text \<open>A filled row, committed: it is appended and the next row is empty.\<close>

lemma commit_filled_ok:
  assumes wf: "tb_wf t" and fill: "null_fill E t = Some u"
  shows "tb_wf (commit_row u) \<and> cur_row (commit_row u) = (\<lambda>_. None) \<and> tb_rows (commit_row u) = tb_rows t @ [cur_row t] \<and>
    rows_accepted (commit_row u) = Suc (rows_accepted t) \<and> rows_rejected (commit_row u) = rows_rejected t \<and>
    plan (commit_row u) = plan t \<and> frozen (commit_row u) = frozen t \<and> row_buf (commit_row u) = row_buf t \<and>
    memory_limit (commit_row u) = memory_limit t \<and> field_index (commit_row u) = field_index t"
proof -
  let ?n = "row_count t" and ?w = "u\<lparr>row_count := Suc (row_count t), rows_accepted := Suc (rows_accepted t)\<rparr>"
  obtain cols where c: "\<forall>c \<in> set (columns u). cb_ok c \<and> cb_len c = Suc ?n" "length (columns u) = length (columns t)"
      "\<forall>i < length (columns t). cb_kind (columns u ! i) = cb_kind (columns t ! i)"
    and rows: "\<forall>r \<le> ?n. \<forall>n. row_at u r n = row_at t r n"
    and u: "u = t\<lparr>columns := cols, row_dirty := mask_clear (row_dirty t)\<rparr>"
    using null_fill_ok [OF wf, of E] fill by auto
  have sel: "field_index u = field_index t" "column_order u = column_order t" "plan u = plan t" "row_count u = ?n"
    "row_dirty u = mask_clear (row_dirty t)" "frozen u = frozen t" "row_buf u = row_buf t" "memory_limit u = memory_limit t"
    "rows_accepted u = rows_accepted t" "rows_rejected u = rows_rejected t"
    by (simp_all add: u)
  have ix: "i < length (columns u)" and kd: "cb_kind (columns u ! i) = column_type (plan u) n"
    if "map_of (field_index u) n = Some i" for n i
    using wf that c(2,3) by (simp_all add: sel tb_wf_def index_ok_def kinds_ok_def)
  have ixu: "index_ok u" using wf c(2) by (simp add: tb_wf_def index_ok_def sel)
  have words: "mask_words (length (columns t)) \<le> length (row_dirty t)" using wf by (simp add: tb_wf_def aligned_def)
  have cm: "same_core ?w (commit_row u)"
    "rows_accepted (commit_row u) = Suc (rows_accepted t)" "rows_rejected (commit_row u) = rows_rejected t"
    by (simp_all add: commit_row_def sel same_core_def notify_def)
  have nth: "cb_len (columns u ! i) = Suc ?n" if "i < length (columns t)" for i using c that by auto
  have "aligned ?w" using c nth words by (simp add: aligned_def sel)
  then have "tb_wf ?w" using ixu kd c(1) by (simp add: tb_wf_def index_ok_def kinds_ok_def)
  moreover have beyond: "row_at u (Suc ?n) n = None" for n
    using ix nth c(2) by (auto simp: row_at_def get_typed_value_rows split: option.splits)
  have "row_at ?w = row_at u" by (intro ext) (auto simp: row_at_def split: option.splits)
  then have "tb_rows ?w = tb_rows t @ [cur_row t]" "cur_row ?w = (\<lambda>_. None)"
    using rows beyond by (auto simp: tb_rows_def cur_row_def intro!: ext map_cong)
  ultimately show ?thesis using cm same_core_wf [OF cm(1)] sel by (auto simp: same_core_def)
qed

lemma finish_row_ok:
  assumes wf: "tb_wf t"
  shows "\<exists>u. finish_row E t = Some u \<and> tb_wf u \<and> cur_row u = (\<lambda>_. None) \<and>
    tb_rows u = (if accepts (ext E) (plan t) (cur_row t) then tb_rows t @ [cur_row t] else tb_rows t) \<and>
    rows_accepted u = rows_accepted t + (if accepts (ext E) (plan t) (cur_row t) then 1 else 0) \<and>
    rows_rejected u = rows_rejected t + (if accepts (ext E) (plan t) (cur_row t) then 0 else 1) \<and>
    plan u = plan t \<and> frozen u = frozen t \<and> row_buf u = row_buf t \<and> memory_limit u = memory_limit t \<and>
    field_index u = field_index t"
proof -
  let ?X = "ext E" and ?n = "row_count t"
  obtain u cols where fill: "null_fill E t = Some u" and
    c: "\<forall>c \<in> set (columns u). cb_ok c \<and> cb_len c = Suc ?n" "length (columns u) = length (columns t)"
      "\<forall>i < length (columns t). cb_kind (columns u ! i) = cb_kind (columns t ! i)"
    and rows: "\<forall>r \<le> ?n. \<forall>n. row_at u r n = row_at t r n"
    and u: "u = t\<lparr>columns := cols, row_dirty := mask_clear (row_dirty t)\<rparr>"
    using null_fill_ok [OF wf, of E] by blast
  have sel: "field_index u = field_index t" "column_order u = column_order t" "plan u = plan t" "row_count u = ?n"
    "row_dirty u = mask_clear (row_dirty t)" "frozen u = frozen t" "row_buf u = row_buf t" "memory_limit u = memory_limit t"
    "rows_accepted u = rows_accepted t" "rows_rejected u = rows_rejected t"
    by (simp_all add: u)
  have ix: "i < length (columns u)" and kd: "cb_kind (columns u ! i) = column_type (plan u) n"
    if "map_of (field_index u) n = Some i" for n i
    using wf that c(2,3) by (simp_all add: sel tb_wf_def index_ok_def kinds_ok_def)
  have acc: "(case plan_filter (plan u) of None \<Rightarrow> True | Some f \<Rightarrow> check ?X (columns u) (field_index u) (row_count u) (plan u) f)
      = accepts ?X (plan t) (cur_row t)"
  proof -
    have "row_at u ?n = cur_row t" using rows by (auto simp: cur_row_def)
    moreover have "check ?X (columns u) (field_index u) ?n (plan u) f
        = pred_sem ?X (row_view_of (plan u) (row_at u ?n)) f" for f
      using c(1) ix kd by (intro check_accepts) auto
    ultimately show ?thesis by (simp add: accepts_def sel split: option.splits)
  qed
  have ixu: "index_ok u" using wf c(2) by (simp add: tb_wf_def index_ok_def sel)
  have words: "mask_words (length (columns t)) \<le> length (row_dirty t)" using wf by (simp add: tb_wf_def aligned_def)
  show ?thesis
  proof (cases "accepts ?X (plan t) (cur_row t)")
    case True
    have "finish_row E t = Some (commit_row u)"
      using True acc by (auto simp: finish_row_def fill split: option.splits)
    then show ?thesis using True commit_filled_ok [OF wf fill] by simp
  next
    case False
    define p where "p = u\<lparr>columns := map cb_pop (columns u), rows_rejected := rows_rejected u + 1\<rparr>"
    have fr: "finish_row E t = Some (notify (On_row_rejected ?n) p)"
      using False acc by (auto simp: finish_row_def fill p_def sel split: option.splits)
    have popped: "cb_ok (cb_pop b) \<and> cb_len (cb_pop b) = ?n \<and> cb_kind (cb_pop b) = cb_kind b \<and>
        (\<forall>r < ?n. get_typed_value (cb_pop b) r = get_typed_value b r)" if "b \<in> set (columns u)" for b
    proof -
      have b: "cb_ok b" "cb_len b = Suc ?n" using c that by auto
      then have "cb_rows (cb_pop b) = butlast (cb_rows b)" "cb_ok (cb_pop b)" using cb_pop_ok by auto
      moreover from this have "cb_len (cb_pop b) = ?n" using b(2) by (metis length_cb_rows length_butlast diff_Suc_1)
      ultimately show ?thesis using b by (simp add: get_typed_value_rows nth_butlast)
    qed
    have "aligned p" using c(2) popped words by (auto simp: aligned_def p_def sel)
    moreover have "kinds_ok p" using kd ix popped by (auto simp: kinds_ok_def p_def)
    moreover have "index_ok p" using ixu by (simp add: index_ok_def p_def)
    ultimately have wfp: "tb_wf p" using popped by (auto simp: tb_wf_def p_def)
    have old: "row_at p r n = (if r < ?n then row_at t r n else None)" if "r \<le> ?n" for r n
    proof (cases "map_of (field_index u) n")
      case (Some i)
      then have "columns u ! i \<in> set (columns u)" using ix by auto
      note b = popped [OF this]
      have "get_typed_value (cb_pop (columns u ! i)) r = (if r < ?n then get_typed_value (columns u ! i) r else None)"
        using b get_typed_value_rows [of "cb_pop (columns u ! i)" r] by (cases "r < ?n") auto
      then have "row_at p r n = (if r < ?n then row_at u r n else None)"
        using Some ix [OF Some] by (simp add: row_at_def p_def)
      with rows that show ?thesis by simp
    next
      case None
      then show ?thesis by (simp add: row_at_def p_def sel)
    qed
    then have "tb_rows p = tb_rows t" "cur_row p = (\<lambda>_. None)"
      by (auto simp: tb_rows_def cur_row_def p_def sel intro!: ext)
    then show ?thesis
      using False fr wfp same_core_wf [OF core_notify [of p "On_row_rejected ?n"]]
      by (auto simp: p_def sel notify_def)
  qed
qed


section \<open>Whole rows on the direct path\<close>

definition direct_path :: "table_builder \<Rightarrow> bool" where
  "direct_path t \<longleftrightarrow> plan_filter (plan t) = None \<or> \<not> is_worthwhile t"

definition unbudgeted :: "table_builder \<Rightarrow> bool" where
  "unbudgeted t \<longleftrightarrow> memory_limit t = None"

lemma reserve_unbudgeted [simp]:
  "unbudgeted t \<Longrightarrow> reserve_memory E n t = (True, t)"
  "unbudgeted t \<Longrightarrow> reserve_field_memory E n v t = (True, t)"
  by (simp_all add: unbudgeted_def reserve_memory_def reserve_field_memory_def)

fun put_all :: "env \<Rightarrow> (string \<times> field_value) list \<Rightarrow> table_builder \<Rightarrow> table_builder option" where
  "put_all E [] t = Some t"
| "put_all E ((name, v) # kvs) t = Option.bind (put_field E name v t) (put_all E kvs)"

definition parse_row :: "env \<Rightarrow> (string \<times> field_value) list \<Rightarrow> table_builder \<Rightarrow> table_builder option" where
  "parse_row E kvs t = Option.bind (put_all E kvs (begin_row E t)) (end_row E)"

text \<open>The row a list of raw fields stands for: dropped fields vanish, the last write wins.\<close>

fun written :: "externals \<Rightarrow> execution_plan \<Rightarrow> (string \<times> field_value) list \<Rightarrow> row \<Rightarrow> row" where
  "written X p [] r = r"
| "written X p ((name, v) # kvs) r =
     written X p kvs (case resolve_field p name of None \<Rightarrow> r | Some n \<Rightarrow> r(n := convert X (column_type p n) v))"

abbreviation no_cells :: row where
  "no_cells \<equiv> \<lambda>_. None"

fun puts_fit :: "env \<Rightarrow> (string \<times> field_value) list \<Rightarrow> table_builder \<Rightarrow> bool" where
  "puts_fit E [] t = True"
| "puts_fit E ((name, v) # kvs) t =
     ((case resolve_field (plan t) name of None \<Rightarrow> True | Some n \<Rightarrow> put_fits E n v t) \<and>
      (case put_field E name v t of Some u \<Rightarrow> puts_fit E kvs u | None \<Rightarrow> True))"

lemma stays_path: "stays t u \<Longrightarrow> direct_path u = direct_path t" "stays t u \<Longrightarrow> unbudgeted u = unbudgeted t"
  "stays t u \<Longrightarrow> is_direct u = is_direct t" "stays t u \<Longrightarrow> is_exact_frozen u = is_exact_frozen t"
  by (auto simp: stays_def direct_path_def is_worthwhile_def unbudgeted_def is_direct_def is_exact_frozen_def)

lemma put_field_direct: "unbudgeted t \<Longrightarrow> direct_path t \<Longrightarrow> put_field E name v t = push_field E name v t"
  by (simp add: put_field_def direct_path_def)

lemma put_field_ok:
  assumes wf: "tb_wf t" and m: "unbudgeted t" "direct_path t" "\<not> is_direct t" "\<not> is_exact_frozen t"
    and fits: "\<And>n. resolve_field (plan t) name = Some n \<Longrightarrow> put_fits E n v t"
  shows "\<exists>u. put_field E name v t = Some u \<and> tb_wf u \<and> tb_rows u = tb_rows t \<and>
    cur_row u = written (ext E) (plan t) [(name, v)] (cur_row t) \<and> stays t u"
proof (cases "resolve_field (plan t) name")
  case None
  with wf m show ?thesis by (simp add: put_field_direct push_field_resolves)
next
  case (Some n)
  have "name_known n t" using m(4) by (simp add: name_known_def)
  from push_resolved_ok [OF wf this m(3) fits [OF Some]] Some m show ?thesis
    by (simp add: put_field_direct push_field_resolves)
qed

lemma put_all_ok:
  assumes "tb_wf t" "unbudgeted t" "direct_path t" "\<not> is_direct t" "\<not> is_exact_frozen t" "puts_fit E kvs t"
  shows "\<exists>u. put_all E kvs t = Some u \<and> tb_wf u \<and> tb_rows u = tb_rows t \<and>
    cur_row u = written (ext E) (plan t) kvs (cur_row t) \<and> stays t u"
  using assms
proof (induction kvs arbitrary: t)
  case (Cons kv kvs)
  obtain name v where kv: "kv = (name, v)" by fastforce
  have "put_fits E n v t" if "resolve_field (plan t) name = Some n" for n
    using Cons.prems(6) that by (simp add: kv)
  from put_field_ok [OF Cons.prems(1-5) this] obtain u where u: "put_field E name v t = Some u" "tb_wf u"
    "tb_rows u = tb_rows t" "cur_row u = written (ext E) (plan t) [(name, v)] (cur_row t)" "stays t u" by blast
  have "puts_fit E kvs u" using Cons.prems(6) u(1) by (simp add: kv)
  from Cons.IH [OF u(2) _ _ _ _ this] Cons.prems stays_path [OF u(5)] obtain w where
    w: "put_all E kvs u = Some w" "tb_wf w" "tb_rows w = tb_rows u"
      "cur_row w = written (ext E) (plan u) kvs (cur_row u)" "stays u w" by blast
  have "plan u = plan t" using u(5) by (simp add: stays_def)
  with u w show ?case using stays_trans [OF u(5) w(5)] by (auto simp: kv)
qed simp

lemma begin_row_core:
  assumes "unbudgeted t"
  shows "tb_wf (begin_row E t) = tb_wf t" "tb_rows (begin_row E t) = tb_rows t" "cur_row (begin_row E t) = cur_row t"
    "\<not> is_direct (begin_row E t)" "unbudgeted (begin_row E t)" "plan (begin_row E t) = plan t"
    "is_exact_frozen (begin_row E t) = is_exact_frozen t" "field_index (begin_row E t) = field_index t"
    "rows_accepted (begin_row E t) = rows_accepted t" "rows_rejected (begin_row E t) = rows_rejected t"
    "direct_path t \<Longrightarrow> direct_path (begin_row E t)"
proof -
  have b: "\<exists>f. begin_row E t = update_buf f ((notify (On_begin_row (row_count t)) t)\<lparr>current_ordinal := 0\<rparr>)
      \<and> (\<forall>b. \<not> rb_direct (f b) \<and> (rb_worthwhile (f b) \<longrightarrow> rb_worthwhile b))"
    using assms unfolding begin_row_def Let_def
    by (simp only: reserve_unbudgeted prod.case bool.case) (rule exI, rule conjI, rule refl, simp)
  then obtain f where f: "begin_row E t = update_buf f ((notify (On_begin_row (row_count t)) t)\<lparr>current_ordinal := 0\<rparr>)"
    "\<And>b. \<not> rb_direct (f b)" "\<And>b. rb_worthwhile (f b) \<Longrightarrow> rb_worthwhile b" by blast
  have sel: "columns (begin_row E t) = columns t" "field_index (begin_row E t) = field_index t"
    "column_order (begin_row E t) = column_order t" "row_count (begin_row E t) = row_count t"
    "row_dirty (begin_row E t) = row_dirty t" "plan (begin_row E t) = plan t" "frozen (begin_row E t) = frozen t"
    "memory_limit (begin_row E t) = memory_limit t" "rows_accepted (begin_row E t) = rows_accepted t"
    "rows_rejected (begin_row E t) = rows_rejected t" "row_buf (begin_row E t) = map_option f (row_buf t)"
    by (simp_all add: f(1) update_buf_def notify_def)
  show "tb_wf (begin_row E t) = tb_wf t" by (simp add: tb_wf_def index_ok_def aligned_def kinds_ok_def sel)
  have r: "row_at (begin_row E t) = row_at t" by (intro ext) (auto simp: row_at_def sel split: option.splits)
  show "tb_rows (begin_row E t) = tb_rows t" "cur_row (begin_row E t) = cur_row t"
    by (simp_all add: tb_rows_def cur_row_def r sel)
  show "\<not> is_direct (begin_row E t)" "unbudgeted (begin_row E t)" "plan (begin_row E t) = plan t"
    "is_exact_frozen (begin_row E t) = is_exact_frozen t" "field_index (begin_row E t) = field_index t"
    "rows_accepted (begin_row E t) = rows_accepted t" "rows_rejected (begin_row E t) = rows_rejected t"
    using assms f(2) by (auto simp: is_direct_def unbudgeted_def is_exact_frozen_def sel split: option.splits)
  show "direct_path t \<Longrightarrow> direct_path (begin_row E t)"
    using f(3) by (auto simp: direct_path_def is_worthwhile_def sel split: option.splits)
qed

lemma parse_row_direct:
  assumes wf: "tb_wf t" and m: "unbudgeted t" "direct_path (begin_row E t)" "\<not> is_exact_frozen t"
    and clean: "cur_row t = no_cells" and fits: "puts_fit E kvs (begin_row E t)"
  shows "\<exists>u. parse_row E kvs t = Some u \<and> tb_wf u \<and> cur_row u = no_cells \<and>
    tb_rows u = (if accepts (ext E) (plan t) (written (ext E) (plan t) kvs no_cells)
                 then tb_rows t @ [written (ext E) (plan t) kvs no_cells] else tb_rows t) \<and>
    plan u = plan t \<and> unbudgeted u \<and> is_exact_frozen u = is_exact_frozen t \<and> direct_path u"
proof -
  note b = begin_row_core [OF m(1)]
  obtain w where w: "put_all E kvs (begin_row E t) = Some w" "tb_wf w" "tb_rows w = tb_rows t"
      "cur_row w = written (ext E) (plan t) kvs no_cells" "stays (begin_row E t) w"
    using put_all_ok [of "begin_row E t" E kvs] wf m fits b clean by auto
  have sw: "unbudgeted w" "direct_path w" "plan w = plan t" "is_exact_frozen w = is_exact_frozen t"
    using stays_path [OF w(5)] b m w(5) by (simp_all add: stays_def)
  obtain u where u: "finish_row E w = Some u" "tb_wf u" "cur_row u = no_cells"
      "tb_rows u = (if accepts (ext E) (plan w) (cur_row w) then tb_rows w @ [cur_row w] else tb_rows w)"
      "plan u = plan w" "frozen u = frozen w" "row_buf u = row_buf w" "memory_limit u = memory_limit w"
    using finish_row_ok [OF w(2), of E] by blast
  have "end_row E w = finish_row E w" using sw by (simp add: end_row_def direct_path_def)
  then have "parse_row E kvs t = Some u" using w(1) u(1) by (simp add: parse_row_def)
  moreover have "direct_path u" "unbudgeted u" "is_exact_frozen u = is_exact_frozen w"
    using sw u(5-8) by (auto simp: direct_path_def is_worthwhile_def unbudgeted_def is_exact_frozen_def)
  ultimately show ?thesis using u w sw by simp
qed

fun parse_rows :: "env \<Rightarrow> (string \<times> field_value) list list \<Rightarrow> table_builder \<Rightarrow> table_builder option" where
  "parse_rows E [] t = Some t"
| "parse_rows E (kvs # rest) t = Option.bind (parse_row E kvs t) (parse_rows E rest)"

fun rows_fit :: "env \<Rightarrow> (string \<times> field_value) list list \<Rightarrow> table_builder \<Rightarrow> bool" where
  "rows_fit E [] t = True"
| "rows_fit E (kvs # rest) t =
     (puts_fit E kvs (begin_row E t) \<and> (case parse_row E kvs t of Some u \<Rightarrow> rows_fit E rest u | None \<Rightarrow> True))"

lemma parse_rows_direct:
  assumes "tb_wf t" "unbudgeted t" "direct_path t" "\<not> is_exact_frozen t" "cur_row t = no_cells" "rows_fit E recs t"
  shows "\<exists>u. parse_rows E recs t = Some u \<and> tb_wf u \<and> cur_row u = no_cells \<and> plan u = plan t \<and>
    tb_rows u = tb_rows t @ filter (accepts (ext E) (plan t)) (map (\<lambda>kvs. written (ext E) (plan t) kvs no_cells) recs)"
  using assms
proof (induction recs arbitrary: t)
  case (Cons kvs recs)
  from Cons.prems(6) have fits: "puts_fit E kvs (begin_row E t)" by simp
  from parse_row_direct [OF Cons.prems(1,2) begin_row_core(11) [OF Cons.prems(2,3)] Cons.prems(4,5) fits]
  obtain u where u: "parse_row E kvs t = Some u" "tb_wf u" "cur_row u = no_cells"
    "tb_rows u = (if accepts (ext E) (plan t) (written (ext E) (plan t) kvs no_cells)
                 then tb_rows t @ [written (ext E) (plan t) kvs no_cells] else tb_rows t)"
    "plan u = plan t" "unbudgeted u" "is_exact_frozen u = is_exact_frozen t" "direct_path u" by blast
  have "rows_fit E recs u" using Cons.prems(6) u(1) by simp
  from Cons.IH [OF u(2,6,8) _ u(3) this] u(7) Cons.prems(4) obtain w where
    "parse_rows E recs u = Some w" "tb_wf w" "cur_row w = no_cells" "plan w = plan u"
    "tb_rows w = tb_rows u @ filter (accepts (ext E) (plan u)) (map (\<lambda>kvs. written (ext E) (plan u) kvs no_cells) recs)"
    by auto
  with u show ?case by auto
qed simp


section \<open>Finishing a batch\<close>

lemma truncate_column_ok:
  assumes "cb_ok c"
  shows "cb_ok (truncate_column n c) \<and> cb_rows (truncate_column n c) = take n (cb_rows c)"
  using col.truncate_to [OF assms, of n] by (simp add: truncate_column_def)

lemma cb_kind_pops [simp]: "cb_kind ((cb_pop ^^ n) c) = cb_kind c"
  by (induction n) simp_all

lemma row_at_beyond:
  assumes "\<And>n i. map_of (field_index t) n = Some i \<Longrightarrow> cb_len (columns t ! i) \<le> r"
  shows "row_at t r = no_cells"
proof (rule ext)
  fix n
  show "row_at t r n = None"
    using assms [of n] by (cases "map_of (field_index t) n") (auto simp: row_at_def get_typed_value_rows)
qed

lemma normalize_ok:
  assumes wf: "tb_wf t"
  shows "tb_wf (normalize t) \<and> tb_rows (normalize t) = tb_rows t \<and> cur_row (normalize t) = no_cells \<and>
    (\<forall>c \<in> set (columns (normalize t)). cb_len c = row_count t)"
proof -
  have tr: "cb_ok (truncate_column (row_count t) c)" "cb_rows (truncate_column (row_count t) c) = take (row_count t) (cb_rows c)"
    if "c \<in> set (columns t)" for c using truncate_column_ok wf that by (auto simp: tb_wf_def)
  have ge: "row_count t \<le> cb_len c" if "c \<in> set (columns t)" for c
    using wf that by (auto simp: tb_wf_def aligned_def in_set_conv_nth)
  have len: "cb_len (truncate_column (row_count t) c) = row_count t" if "c \<in> set (columns t)" for c
    using arg_cong [OF tr(2) [OF that], of length] ge [OF that] by simp
  have kind: "cb_kind (truncate_column n c) = cb_kind c" for n c by (simp add: truncate_column_def)
  have inr: "i < length (columns t)" if "map_of (field_index t) n = Some i" for n i
    using wf that by (simp add: tb_wf_def index_ok_def)
  have all: "\<forall>c \<in> set (columns (normalize t)). cb_len c = row_count t \<and> cb_ok c"
    using len tr by (auto simp: normalize_def)
  have "tb_wf (normalize t)"
    using wf all len inr by (auto simp: tb_wf_def normalize_def index_ok_def aligned_def kinds_ok_def kind)
  moreover have "row_at (normalize t) r n = row_at t r n" if "r < row_count t" for r n
  proof (cases "map_of (field_index t) n")
    case (Some i)
    then have i: "columns t ! i \<in> set (columns t)" "i < length (columns t)" using inr by auto
    have "get_typed_value (truncate_column (row_count t) (columns t ! i)) r = get_typed_value (columns t ! i) r"
      using that len [OF i(1)] tr(2) [OF i(1)] ge [OF i(1)] by (simp add: get_typed_value_rows)
    with Some i(2) show ?thesis by (simp add: row_at_def normalize_def)
  qed (simp add: row_at_def normalize_def)
  then have "tb_rows (normalize t) = tb_rows t" by (auto simp: tb_rows_def normalize_def intro!: ext)
  moreover have "cur_row (normalize t) = no_cells"
    unfolding cur_row_def using len inr by (intro row_at_beyond) (auto simp: normalize_def)
  ultimately show ?thesis using all by blast
qed

text \<open>A scale that arrow takes, and a column whose export cannot fail: it has rows, or such a scale.\<close>

fun scale_fits :: "field_type \<Rightarrow> bool" where
  "scale_fits (FT_Decimal128 scale) = (scale \<le> 38)"
| "scale_fits _ = True"

definition scales_fit :: "execution_plan \<Rightarrow> bool" where
  "scales_fit p \<longleftrightarrow> (\<forall>(n, ty) \<in> set (field_types p). scale_fits ty)"

definition exportable :: "column_builder \<Rightarrow> bool" where
  "exportable c \<longleftrightarrow> 0 < cb_len c \<or> scale_fits (cb_kind c)"

lemma scales_fit_type: "scales_fit p \<Longrightarrow> scale_fits (column_type p n)"
  by (auto simp: scales_fit_def column_type_def dest: map_of_SomeD split: option.splits)

lemma small_scale: "scale \<le> 38 \<Longrightarrow> sint (of_nat scale :: 8 word) = int scale"
  by (simp add: sint_uint unat_of_nat uint_nat take_bit_nat_eq_self signed_take_bit_int_eq_self)

lemma exported_array: "exportable c \<Longrightarrow> fst (to_arrow_array c) = Inr \<lparr>atype = arrow_datatype c, acells = cb_rows c\<rparr>"
  by (cases c) (auto simp: to_arrow_array_def exportable_def with_scale_def small_scale cb_rows_def)

lemma exported_kind: "cb_kind (snd (to_arrow_array c)) = cb_kind c"
  by (cases c) (simp_all add: to_arrow_array_def)

text \<open>The slots of some names: known, in range, different for different names, and fit for the export.\<close>

definition slots_ok :: "string list \<Rightarrow> table_builder \<Rightarrow> bool" where
  "slots_ok names t \<longleftrightarrow>
     (\<forall>n i. map_of (field_index t) n = Some i \<longrightarrow> i < length (columns t)) \<and>
     (\<forall>m n i. map_of (field_index t) m = Some i \<longrightarrow> map_of (field_index t) n = Some i \<longrightarrow> m = n) \<and> distinct names \<and>
     (\<forall>n \<in> set names. \<forall>i. map_of (field_index t) n = Some i \<longrightarrow> exportable (columns t ! i))"

definition column_cells :: "table_builder \<Rightarrow> nat \<Rightarrow> string \<Rightarrow> typed_value option list" where
  "column_cells t rc n =
     (case map_of (field_index t) n of Some i \<Rightarrow> cb_rows (columns t ! i) | None \<Rightarrow> replicate rc None)"

lemma export_at_ok:
  "i < length (columns t) \<Longrightarrow> export_at i t = Some (fst (to_arrow_array (columns t ! i)),
     t\<lparr>columns := (columns t)[i := snd (to_arrow_array (columns t ! i))]\<rparr>)"
  by (simp add: export_at_def idx_def split: prod.splits)

lemma slots_ok_export:
  assumes "slots_ok (n # names) t" "map_of (field_index t) n = Some i"
  shows "slots_ok names (t\<lparr>columns := (columns t)[i := c]\<rparr>)"
proof -
  have inj: "m = n" if "map_of (field_index t) m = Some i" for m using assms that unfolding slots_ok_def by blast
  have other: "j \<noteq> i" if "m \<in> set names" "map_of (field_index t) m = Some j" for m j
    using assms(1) inj that by (auto simp: slots_ok_def)
  have "exportable ((columns t)[i := c] ! j)" if "m \<in> set names" "map_of (field_index t) m = Some j" for m j
  proof -
    have "j \<noteq> i" "exportable (columns t ! j)" using other [OF that] assms(1) that by (simp_all add: slots_ok_def)
    then show ?thesis by simp
  qed
  then show ?thesis using assms(1) by (simp add: slots_ok_def)
qed

lemma column_cells_export:
  assumes "slots_ok (n # names) t" "map_of (field_index t) n = Some i" "m \<noteq> n"
  shows "column_cells (t\<lparr>columns := (columns t)[i := c]\<rparr>) rc m = column_cells t rc m"
proof (cases "map_of (field_index t) m")
  case (Some j)
  then have "j \<noteq> i" using assms by (auto simp: slots_ok_def)
  with Some show ?thesis by (simp add: column_cells_def)
qed (simp add: column_cells_def)

text \<open>What an export of \<open>names\<close> gives: each name once, its array of the announced type, its cells.\<close>

definition exports :: "string list \<Rightarrow> (string \<Rightarrow> typed_value option list) \<Rightarrow> exported \<Rightarrow> bool" where
  "exports names cells cols \<longleftrightarrow> map (\<lambda>((n, ty), a). n) cols = names \<and>
     (\<forall>((n, ty), a) \<in> set cols. atype a = ty \<and> acells a = cells n)"

lemma exports_simps [simp]:
  "exports [] cells cols \<longleftrightarrow> cols = []"
  "exports (n # names) cells (((m, ty), a) # cols) \<longleftrightarrow> m = n \<and> atype a = ty \<and> acells a = cells n \<and> exports names cells cols"
  by (auto simp: exports_def)

lemma exports_cong: "exports names f cols \<Longrightarrow> (\<And>n. n \<in> set names \<Longrightarrow> f n = g n) \<Longrightarrow> exports names g cols"
  by (fastforce simp: exports_def)

lemma export_ordered_ok:
  assumes "slots_ok names t" "\<forall>n \<in> set names. map_of (field_index t) n \<noteq> None"
  shows "\<exists>cols u. export_ordered names t = Some (Inr cols, u) \<and> exports names (column_cells t rc) cols"
  using assms
proof (induction names arbitrary: t)
  case (Cons n names)
  from Cons.prems(2) obtain i where n: "map_of (field_index t) n = Some i" by auto
  have i: "i < length (columns t)" "exportable (columns t ! i)" using Cons.prems(1) n by (simp_all add: slots_ok_def)
  define u where "u = t\<lparr>columns := (columns t)[i := snd (to_arrow_array (columns t ! i))]\<rparr>"
  have "slots_ok names u" unfolding u_def by (rule slots_ok_export [OF Cons.prems(1) n])
  moreover have "\<forall>n \<in> set names. map_of (field_index u) n \<noteq> None" using Cons.prems by (simp add: u_def)
  ultimately obtain cols w where b: "export_ordered names u = Some (Inr cols, w)" "exports names (column_cells u rc) cols"
    using Cons.IH by blast
  have "column_cells u rc m = column_cells t rc m" if "m \<in> set names" for m
  proof -
    have "m \<noteq> n" using that Cons.prems(1) by (auto simp: slots_ok_def)
    then show ?thesis unfolding u_def by (rule column_cells_export [OF Cons.prems(1) n])
  qed
  with b(2) have "exports names (column_cells t rc) cols" by (rule exports_cong)
  moreover have "cb_rows (columns t ! i) = column_cells t rc n" using n by (simp add: column_cells_def)
  ultimately show ?case using b(1) n
    by (simp add: export_at_ok [OF i(1)] exported_array [OF i(2)] u_def [symmetric] field_at_def)
qed simp

lemma declared_slot_ok:
  assumes "slots_ok (n # names) t" "declared_slot E n t = (i, u)" "0 < row_count t \<or> scales_fit (plan t)"
  shows "slots_ok (n # names) u" "map_of (field_index u) n = Some i" "column_cells u (row_count t) = column_cells t (row_count t)"
    "row_count u = row_count t" "plan u = plan t"
proof -
  have inr: "\<And>n i. map_of (field_index t) n = Some i \<Longrightarrow> i < length (columns t)" using assms(1) by (simp add: slots_ok_def)
  let ?b = "backfilled E (row_count t) (column_type (plan t) n)"
  have fresh: "i = length (columns t)" "u = add_column n ?b t" if "map_of (field_index t) n = None"
    using assms(2) that by (simp_all add: declared_slot_def backfilled_def)
  have ex: "exportable ?b"
    using backfilled_ok [of E "row_count t" "column_type (plan t) n"] assms(3) scales_fit_type
    by (auto simp: exportable_def)
  show "map_of (field_index u) n = Some i" "row_count u = row_count t" "plan u = plan t"
    using assms by (auto simp: declared_slot_def add_column_def split: option.splits)
  show "slots_ok (n # names) u"
  proof (cases "map_of (field_index t) n")
    case None
    then show ?thesis using assms(1) ex inr
      by (auto simp: fresh slots_ok_def add_column_def nth_append less_Suc_eq dest: inr split: if_splits)
  qed (use assms in \<open>simp add: declared_slot_def\<close>)
  show "column_cells u (row_count t) = column_cells t (row_count t)"
  proof (cases "map_of (field_index t) n")
    case None
    show ?thesis
      using inr None backfilled_ok [of E "row_count t" "column_type (plan t) n"]
      by (intro ext) (auto simp: column_cells_def fresh(2) add_column_def nth_append split: option.splits)
  qed (use assms(2) in \<open>simp add: declared_slot_def\<close>)
qed

lemma export_declared_ok:
  assumes "slots_ok names t" "0 < row_count t \<or> scales_fit (plan t)"
  shows "\<exists>cols u. export_declared E names t = Some (Inr cols, u) \<and>
    exports (filter (\<lambda>n. n \<notin> set (drop_fields (plan t))) names) (column_cells t (row_count t)) cols"
  using assms
proof (induction names arbitrary: t)
  case (Cons n names)
  have tail: "slots_ok names t" using Cons.prems by (simp add: slots_ok_def)
  show ?case
  proof (cases "n \<in> set (drop_fields (plan t))")
    case True
    with Cons.IH [OF tail Cons.prems(2)] show ?thesis by simp
  next
    case False
    obtain i s where d: "declared_slot E n t = (i, s)" by fastforce
    note s = declared_slot_ok [OF Cons.prems(1) d Cons.prems(2)]
    have i: "i < length (columns s)" "exportable (columns s ! i)" using s(1,2) by (simp_all add: slots_ok_def)
    define u where "u = s\<lparr>columns := (columns s)[i := snd (to_arrow_array (columns s ! i))]\<rparr>"
    have u: "slots_ok names u" unfolding u_def by (rule slots_ok_export [OF s(1,2)])
    have fr: "plan u = plan t" "row_count u = row_count t" using s by (simp_all add: u_def)
    from Cons.IH [OF u] Cons.prems(2) fr obtain cols w where b: "export_declared E names u = Some (Inr cols, w)"
      "exports (filter (\<lambda>n. n \<notin> set (drop_fields (plan t))) names) (column_cells u (row_count t)) cols" by auto
    have "column_cells u (row_count t) m = column_cells t (row_count t) m" if "m \<in> set names" for m
    proof -
      have "m \<noteq> n" using that Cons.prems by (auto simp: slots_ok_def)
      then have "column_cells u (row_count t) m = column_cells s (row_count t) m"
        unfolding u_def by (rule column_cells_export [OF s(1,2)])
      with s(3) show ?thesis by simp
    qed
    then have "exports (filter (\<lambda>n. n \<notin> set (drop_fields (plan t))) names) (column_cells t (row_count t)) cols"
      by (intro exports_cong [OF b(2)]) auto
    moreover have "cb_rows (columns s ! i) = column_cells t (row_count t) n"
      using s(2) by (simp add: column_cells_def flip: s(3))
    ultimately show ?thesis using b(1) False d
      by (simp add: export_at_ok [OF i(1)] exported_array [OF i(2)] u_def [symmetric] field_at_def)
  qed
qed simp

lemma make_batch_ok:
  assumes "b \<noteq> []" "\<forall>(n, a) \<in> set b. length (acells a) = k"
  shows "make_batch b = Inr b"
proof -
  obtain n a r where b: "b = (n, a) # r" using assms(1) by (cases b) auto
  have "length (acells a) = k" using assms(2) b by simp
  then show ?thesis using assms(2) by (auto simp: make_batch_def b list_all_iff)
qed

lemma exported_batch_ok:
  assumes "exports names cells cols" "names \<noteq> []" "\<And>n. length (cells n) = k"
  shows "\<exists>b. exported_batch (Inr cols) = Inr b \<and> map fst b = names \<and> (\<forall>(n, a) \<in> set b. acells a = cells n)"
proof -
  define b where "b = map (\<lambda>((n, ty), a). (n, a)) cols"
  have b: "map fst b = names" "\<forall>(n, a) \<in> set b. acells a = cells n"
    using assms(1) by (auto simp: b_def exports_def)
  have "make_batch b = Inr b"
    by (rule make_batch_ok [where k = k]) (use b assms(2,3) in auto)
  moreover have "zip (map fst (map fst cols)) (map snd cols) = b"
    by (simp add: b_def zip_map_map zip_same_conv_map split_def)
  moreover have "map atype (map snd cols) = map snd (map fst cols)" using assms(1) by (auto simp: exports_def)
  ultimately have "exported_batch (Inr cols) = Inr b" by (simp add: exported_batch_def batch_of_def)
  with b show ?thesis by blast
qed

definition batch_names :: "table_builder \<Rightarrow> string list" where
  "batch_names t =
     (if schema_order (plan t) = [] then column_order t
      else filter (\<lambda>n. n \<notin> set (drop_fields (plan t))) (schema_order (plan t)))"

lemma column_cells_rows:
  assumes "\<And>n i. map_of (field_index t) n = Some i \<Longrightarrow> cb_len (columns t ! i) = row_count t"
  shows "column_cells t (row_count t) n = map (\<lambda>r. r n) (tb_rows t)"
proof (cases "map_of (field_index t) n")
  case (Some i)
  then have "cb_rows (columns t ! i) = map (get_typed_value (columns t ! i)) [0..<row_count t]"
    using assms [OF Some] by (simp add: cb_rows_def)
  with Some show ?thesis by (simp add: column_cells_def tb_rows_def row_at_def comp_def)
qed (simp add: column_cells_def tb_rows_def row_at_def comp_def map_replicate_const)

lemma str_len_entries: "cb_kind c \<noteq> FT_Dictionary \<Longrightarrow> cb_entries c \<le> cb_len c"
  by (cases c) simp_all

lemma upgrade_column:
  assumes "cb_ok c" "cb_len c + 2 < 2 ^ 31"
  shows "cb_rows (cb_try_upgrade m r s c) = cb_rows c" "cb_len (cb_try_upgrade m r s c) = cb_len c"
proof -
  have "cb_rows (cb_try_upgrade m r s c) = cb_rows c"
  proof (cases "cb_kind c = FT_Dictionary")
    case True
    then show ?thesis by (cases c) (simp_all add: cb_try_upgrade_def)
  next
    case False
    then show ?thesis using cb_try_upgrade_ok [OF assms(1)] str_len_entries [OF False] assms(2) by simp
  qed
  then show "cb_rows (cb_try_upgrade m r s c) = cb_rows c" "cb_len (cb_try_upgrade m r s c) = cb_len c"
    by (metis length_cb_rows)+
qed

lemma upgraded_ok:
  assumes wf: "tb_wf t" and len: "\<forall>c \<in> set (columns t). cb_len c = row_count t" and small: "row_count t + 2 < 2 ^ 31"
  shows "tb_rows (auto_dict_upgrade t) = tb_rows t \<and> field_index (auto_dict_upgrade t) = field_index t \<and>
    column_order (auto_dict_upgrade t) = column_order t \<and> plan (auto_dict_upgrade t) = plan t \<and>
    row_count (auto_dict_upgrade t) = row_count t \<and> length (columns (auto_dict_upgrade t)) = length (columns t) \<and>
    (\<forall>n i. map_of (field_index t) n = Some i \<longrightarrow> cb_len (columns (auto_dict_upgrade t) ! i) = row_count t)"
proof (cases "auto_dict (plan t)")
  case False
  then show ?thesis using wf len by (auto simp: auto_dict_upgrade_def tb_wf_def index_ok_def)
next
  case True
  then obtain r s where u: "auto_dict_upgrade t = t\<lparr>columns := map (cb_try_upgrade 512 r s) (columns t)\<rparr>"
    by (simp add: auto_dict_upgrade_def Let_def)
  have up: "cb_rows (cb_try_upgrade 512 r s c) = cb_rows c" "cb_len (cb_try_upgrade 512 r s c) = row_count t"
    if "c \<in> set (columns t)" for c using upgrade_column [of c] wf len small that by (auto simp: tb_wf_def)
  have inr: "i < length (columns t)" if "map_of (field_index t) n = Some i" for n i
    using wf that by (simp add: tb_wf_def index_ok_def)
  have "row_at (auto_dict_upgrade t) = row_at t"
    using up inr len by (intro ext) (auto simp: row_at_def u get_typed_value_rows split: option.splits)
  then show ?thesis using up inr by (auto simp: u tb_rows_def)
qed

lemma upgraded_exportable:
  assumes wf: "tb_wf t" and len: "\<forall>c \<in> set (columns t). cb_len c = row_count t" and small: "row_count t + 2 < 2 ^ 31"
    and ex: "0 < row_count t \<or> scales_fit (plan t)" and i: "map_of (field_index t) n = Some i"
  shows "exportable (columns (auto_dict_upgrade t) ! i)"
proof -
  have b: "i < length (columns t)" "scales_fit (plan t) \<longrightarrow> scale_fits (cb_kind (columns t ! i))" "cb_ok (columns t ! i)"
    using wf i scales_fit_type by (auto simp: tb_wf_def index_ok_def kinds_ok_def)
  then have c: "cb_len (columns t ! i) = row_count t" using len by simp
  have "scale_fits (cb_kind c) \<Longrightarrow> scale_fits (cb_kind (cb_try_upgrade m r s c))" for m r s c
    by (cases c) (simp_all add: cb_try_upgrade_def Let_def split: prod.splits)
  moreover have "cb_len (cb_try_upgrade m r s (columns t ! i)) = row_count t" for m r s
    using upgrade_column(2) [OF b(3)] c small by simp
  ultimately have "exportable (cb_try_upgrade m r s (columns t ! i))" "exportable (columns t ! i)" for m r s
    using ex b c by (auto simp: exportable_def)
  then show ?thesis using b(1) by (auto simp: auto_dict_upgrade_def Let_def)
qed

lemma finish_ok:
  assumes wf: "tb_wf t" and m: "unbudgeted t" and errs: "unknown_error t = None" "strict_error t = None"
    and small: "row_count t + 2 < 2 ^ 31" and ne: "column_order t \<noteq> []" "batch_names t \<noteq> []"
    and d: "distinct (schema_order (plan t))" and ex: "0 < row_count t \<or> scales_fit (plan t)"
  shows "\<exists>b u. finish E t = Some (Inr b, u) \<and> map fst b = batch_names t \<and>
    (\<forall>(n, a) \<in> set b. acells a = map (\<lambda>r. r n) (tb_rows t))"
proof -
  define s where "s = notify (On_chunk_finished (rows_accepted t + rows_rejected t) (rows_accepted t) (rows_rejected t)) t"
  have s: "same_core t s" by (simp add: s_def)
  have prep: "prepare_finish E t = (Inr (), normalize s)"
    using m errs by (simp add: prepare_finish_def check_memory_budget_def unbudgeted_def s_def)
  define u where "u = auto_dict_upgrade (normalize s)"
  have wfs: "tb_wf s" using same_core_wf(1) [OF s] wf by simp
  note n = normalize_ok [OF wfs]
  have ncore: "field_index (normalize s) = field_index t" "column_order (normalize s) = column_order t"
    "plan (normalize s) = plan t" "row_count (normalize s) = row_count t" "length (columns (normalize s)) = length (columns t)"
    using s by (simp_all add: normalize_def same_core_def)
  have rcs: "row_count s = row_count t" using s by (simp add: same_core_def)
  have up: "tb_rows u = tb_rows t" "field_index u = field_index t" "column_order u = column_order t" "plan u = plan t"
    "row_count u = row_count t" "length (columns u) = length (columns t)"
    "\<And>n i. map_of (field_index u) n = Some i \<Longrightarrow> cb_len (columns u ! i) = row_count u"
    using upgraded_ok [of "normalize s"] n ncore small same_core_wf(2) [OF s] rcs by (simp_all add: u_def)
  have cells: "column_cells u (row_count t) k = map (\<lambda>r. r k) (tb_rows t)" for k
    using column_cells_rows [of u k, OF up(7)] up(1,5) by simp
  have ix: "index_ok t" using wf by (simp add: tb_wf_def)
  have "exportable (columns u ! i)" if "map_of (field_index t) n = Some i" for n i
    unfolding u_def by (rule upgraded_exportable [of "normalize s" n]) (use n ncore small rcs ex that in simp_all)
  then have slots: "slots_ok names u" if "distinct names" for names
    using ix that by (simp add: slots_ok_def index_ok_def up)
  have fin: "\<exists>b w. finish E t = Some (Inr b, w) \<and> map fst b = batch_names t \<and>
      (\<forall>(n, a) \<in> set b. acells a = map (\<lambda>r. r n) (tb_rows t))"
    if f: "finish E t = Some (exported_batch (Inr cols), w)" "exports (batch_names t) (column_cells u (row_count t)) cols" for cols w
  proof -
    have "length (column_cells u (row_count t) k) = row_count t" for k by (simp add: cells) (simp add: tb_rows_def)
    from exported_batch_ok [OF f(2) ne(2) this] f(1) cells show ?thesis by auto
  qed
  show ?thesis
  proof (cases "schema_order (plan t) = []")
    case True
    have "\<forall>n \<in> set (column_order t). map_of (field_index u) n \<noteq> None"
      using ix unfolding index_ok_def up by blast
    moreover have "distinct (column_order t)" using ix by (simp add: index_ok_def)
    ultimately obtain cols w where b: "export_ordered (column_order t) u = Some (Inr cols, w)"
      "exports (column_order t) (column_cells u (row_count t)) cols"
      using export_ordered_ok slots by blast
    have "finish E t = Some (exported_batch (Inr cols), w)"
      using True b(1) ne(1) prep by (simp add: finish_def ncore u_def [symmetric] up sort_columns_def Let_def)
    then show ?thesis using b(2) True by (intro fin) (simp_all add: batch_names_def)
  next
    case False
    obtain cols w where b: "export_declared E (schema_order (plan t)) u = Some (Inr cols, w)"
        "exports (filter (\<lambda>n. n \<notin> set (drop_fields (plan t))) (schema_order (plan t))) (column_cells u (row_count t)) cols"
      using export_declared_ok [OF slots [OF d], of E] ex by (auto simp: up)
    have "finish E t = Some (exported_batch (Inr cols), w)"
      using False b(1) ne(1) prep by (simp add: finish_def ncore u_def [symmetric] up Let_def)
    then show ?thesis using b(2) False by (intro fin) (simp_all add: batch_names_def)
  qed
qed

end
