(* ===== verification/Table_Parse.thy ===== *)
theory Table_Parse
  imports Table_Laws
begin

text \<open>
  The table builder from construction to its batch: a builder made for a plan is well formed and
  empty, fields are put, rows ended, batches split off and finished. The correctness properties
  of the engine are stated here, over the laws of the previous theory.
\<close>

section \<open>A new builder\<close>

definition bare :: "table_builder \<Rightarrow> bool" where
  "bare t \<longleftrightarrow> (\<forall>c \<in> set (columns t). cb_ok c \<and> cb_len c = 0) \<and> index_ok t \<and> kinds_ok t \<and> row_count t = 0 \<and>
     (\<forall>i. \<not> mask_test i (row_dirty t))"

lemma fresh_column: "cb_ok (cb_with_capacity ty) \<and> cb_len (cb_with_capacity ty) = 0"
  using backfilled_ok [of _ 0 ty] by (simp add: backfilled_def)

lemma declare_ok:
  assumes b: "bare t" and new: "map_of (field_index t) name = None" and ty: "ty = column_type (plan t) name"
  shows "bare (declare_column name ty t) \<and> plan (declare_column name ty t) = plan t"
proof -
  let ?u = "declare_column name ty t"
  have sel: "columns ?u = columns t @ [cb_with_capacity ty]"
    "field_index ?u = AList.update name (length (columns t)) (field_index t)"
    "column_order ?u = column_order t @ [name]" "row_count ?u = row_count t" "row_dirty ?u = row_dirty t" "plan ?u = plan t"
    by (simp_all add: declare_column_def add_column_def Let_def)
  have inr: "i < length (columns t)" if "map_of (field_index t) n = Some i" for n i
    using b that by (simp add: bare_def index_ok_def)
  have "map_of (field_index t) name \<noteq> None \<longleftrightarrow> name \<in> set (column_order t)" using b by (simp add: bare_def index_ok_def)
  then have fresh: "name \<notin> set (column_order t)" using new by simp
  have "index_ok ?u"
    using b fresh inr unfolding index_ok_def sel by (auto simp: bare_def index_ok_def less_Suc_eq split: if_splits)
  moreover have "kinds_ok ?u"
    using b inr new unfolding kinds_ok_def sel by (auto simp: bare_def kinds_ok_def nth_append ty)
  ultimately show ?thesis using b fresh_column by (auto simp: bare_def sel)
qed

lemma mask_resize_clear: "\<forall>i. \<not> mask_test i m \<Longrightarrow> \<not> mask_test i (mask_resize n m)"
proof
  assume m: "\<forall>i. \<not> mask_test i m" and t: "mask_test i (mask_resize n m)"
  have "mask_resize n m ! (i div 64) = (if i div 64 < length m then m ! (i div 64) else 0)"
    if "i div 64 < n" using that by (simp add: mask_resize_def nth_append)
  with t have "i div 64 < length m \<and> bit (m ! (i div 64)) (i mod 64)"
    by (auto simp: mask_test_bit split: if_splits)
  then have "mask_test i m" by (simp add: mask_test_bit)
  with m show False by blast
qed

lemma bare_cover:
  assumes "bare t"
  shows "tb_wf (cover_columns t) \<and> tb_rows (cover_columns t) = [] \<and> cur_row (cover_columns t) = no_cells \<and>
    (\<forall>i. \<not> mask_test i (row_dirty (cover_columns t)))"
proof -
  have sel: "columns (cover_columns t) = columns t" "field_index (cover_columns t) = field_index t"
    "row_count (cover_columns t) = 0" "plan (cover_columns t) = plan t"
    "column_order (cover_columns t) = column_order t"
    using assms by (simp_all add: cover_columns_def bare_def)
  have dirty: "\<not> mask_test i (row_dirty (cover_columns t))" for i
    using assms mask_resize_clear by (simp add: cover_columns_def bare_def)
  have len: "cb_len (columns t ! i) = 0" if "i < length (columns t)" for i using assms that by (simp add: bare_def)
  have inr: "i < length (columns t)" if "map_of (field_index t) n = Some i" for n i
    using assms that by (simp add: bare_def index_ok_def)
  have "aligned (cover_columns t)"
    using dirty len unfolding aligned_def sel by (simp add: cover_columns_def)
  then have "tb_wf (cover_columns t)"
    using assms unfolding tb_wf_def index_ok_def kinds_ok_def sel by (simp add: bare_def index_ok_def kinds_ok_def)
  moreover have "cur_row (cover_columns t) = no_cells"
    unfolding cur_row_def by (rule row_at_beyond) (simp add: sel inr len)
  ultimately show ?thesis using dirty by (simp add: tb_rows_def sel)
qed

definition declare_missing :: "string \<Rightarrow> table_builder \<Rightarrow> table_builder" where
  "declare_missing name t =
     (if contains_key (field_index t) name \<or> name \<in> set (drop_fields (plan t)) then t
      else declare_column name (column_type (plan t) name) t)"

lemma declare_all:
  "bare t \<Longrightarrow> bare (fold declare_missing ns t) \<and> plan (fold declare_missing ns t) = plan t"
proof (induction ns arbitrary: t)
  case (Cons n ns)
  have "bare (declare_missing n t) \<and> plan (declare_missing n t) = plan t"
    using declare_ok [OF Cons.prems] Cons.prems by (simp add: declare_missing_def contains_key_def)
  then show ?case using Cons.IH [of "declare_missing n t"] by simp
qed simp

text \<open>Everything else a predeclaration leaves alone.\<close>

definition setup_of :: "table_builder \<Rightarrow> nat option \<times> frozen_schema option \<times> row_buffer option \<times> nat \<times> nat \<times>
    string option \<times> error option" where
  "setup_of t = (memory_limit t, frozen t, row_buf t, rows_accepted t, rows_rejected t, unknown_error t, strict_error t)"

lemma setup_declare: "setup_of (fold declare_missing ns t) = setup_of t"
proof (induction ns arbitrary: t)
  case (Cons n ns)
  have "setup_of (declare_missing n t) = setup_of t"
    by (simp add: declare_missing_def declare_column_def add_column_def setup_of_def Let_def)
  then show ?case using Cons.IH [of "declare_missing n t"] by simp
qed simp

lemma predeclare_fold: "predeclare_schema_columns t =
    (if schema_order (plan t) = [] then t else cover_columns (fold declare_missing (predeclare_names (plan t)) t))"
  by (simp add: predeclare_schema_columns_def declare_missing_def [abs_def])

lemma tb_with_plan_ok:
  "tb_wf (tb_with_plan cap p) \<and> tb_rows (tb_with_plan cap p) = [] \<and> cur_row (tb_with_plan cap p) = no_cells \<and>
   plan (tb_with_plan cap p) = p \<and> setup_of (tb_with_plan cap p) =
     (None, None, if plan_filter p \<noteq> None then Some rb_new else None, 0, 0, None, None) \<and>
   (\<forall>i. \<not> mask_test i (row_dirty (tb_with_plan cap p)))"
proof -
  define t where "t = (tb_with_capacity cap)\<lparr>plan := p, row_buf := if plan_filter p \<noteq> None then Some rb_new else None\<rparr>"
  have b: "bare t" and p: "plan t = p"
    by (simp_all add: t_def tb_with_capacity_def bare_def index_ok_def kinds_ok_def mask_test_def)
  have st: "setup_of t = (None, None, if plan_filter p \<noteq> None then Some rb_new else None, 0, 0, None, None)"
    by (simp add: t_def tb_with_capacity_def setup_of_def)
  define u where "u = predeclare_schema_columns t"
  have u: "tb_wf u \<and> tb_rows u = [] \<and> cur_row u = no_cells \<and> plan u = p \<and> setup_of u = setup_of t \<and>
      (\<forall>i. \<not> mask_test i (row_dirty u))"
  proof (cases "schema_order (plan t) = []")
    case True
    have "cover_columns t = t" by (simp add: t_def tb_with_capacity_def cover_columns_def mask_words_def div_ceil_def mask_resize_def)
    with bare_cover [OF b] True p show ?thesis by (simp add: u_def predeclare_fold)
  next
    case False
    have "setup_of (cover_columns v) = setup_of v" "plan (cover_columns v) = plan v" for v
      by (simp_all add: cover_columns_def setup_of_def)
    with False declare_all [OF b, of "predeclare_names (plan t)"] bare_cover p setup_declare [of "predeclare_names (plan t)" t]
    show ?thesis by (simp add: u_def predeclare_fold)
  qed
  have w: "tb_with_plan cap p = u\<lparr>cached_wanted_mask := compute_wanted_mask u\<rparr>"
    by (simp add: tb_with_plan_def t_def u_def Let_def)
  have core: "same_core u (tb_with_plan cap p)" by (simp add: w same_core_def)
  have "setup_of (tb_with_plan cap p) = setup_of u" by (simp add: w setup_of_def)
  with u st same_core_wf [OF core] show ?thesis by (simp add: w)
qed


section \<open>Records of inline columns always fit\<close>

definition inline_type :: "field_type \<Rightarrow> bool" where
  "inline_type ty \<longleftrightarrow> ty \<noteq> FT_String \<and> ty \<noteq> FT_Dictionary"

definition inline_record :: "execution_plan \<Rightarrow> (string \<times> field_value) list \<Rightarrow> bool" where
  "inline_record p kvs \<longleftrightarrow>
     list_all (\<lambda>(k, _). case resolve_field p k of None \<Rightarrow> True | Some n \<Rightarrow> inline_type (column_type p n)) kvs"

lemma prepared_kind [simp]: "cb_kind (prepared t i) = cb_kind (columns t ! i)"
  using cb_kind_pops [of 1 "columns t ! i"] by (simp add: prepared_def Let_def)

lemma inline_fits: "inline_type (cb_kind c) \<Longrightarrow> cb_fits X c v"
  using kind_inline_sizes [of c X v] by (simp add: inline_type_def)

lemma put_fits_inline:
  assumes wf: "tb_wf t" and k: "name_known n t" "\<not> is_direct t" and ty: "inline_type (column_type (plan t) n)"
  shows "put_fits E n v t"
proof -
  obtain i u where e: "ensure_column_idx E n t = (i, u)" by fastforce
  have u: "tb_wf u" "map_of (field_index u) n = Some i" "plan u = plan t"
    using ensure_column_ok [OF wf _ k(2) e] k(1) by (auto simp: name_known_def)
  then have "cb_kind (columns u ! i) = column_type (plan t) n" by (simp add: tb_wf_def kinds_ok_def)
  then show ?thesis using ty e by (simp add: put_fits_def inline_fits)
qed

lemma puts_fit_inline:
  assumes "tb_wf t" "unbudgeted t" "direct_path t" "\<not> is_direct t" "\<not> is_exact_frozen t" "inline_record (plan t) kvs"
  shows "puts_fit E kvs t"
  using assms
proof (induction kvs arbitrary: t)
  case (Cons kv kvs)
  obtain name v where kv: "kv = (name, v)" by fastforce
  have fits: "put_fits E n v t" if "resolve_field (plan t) name = Some n" for n
    using Cons.prems that by (intro put_fits_inline) (simp_all add: kv inline_record_def name_known_def)
  from put_field_ok [OF Cons.prems(1-5) fits] obtain u where
    u: "put_field E name v t = Some u" "tb_wf u" "stays t u" by blast
  have "plan u = plan t" using u(3) by (simp add: stays_def)
  then have "inline_record (plan u) kvs" using Cons.prems(6) by (simp add: inline_record_def)
  then have "puts_fit E kvs u"
    using Cons.prems stays_path [OF u(3)] by (intro Cons.IH [OF u(2)]) simp_all
  with fits u(1) show ?case by (simp add: kv split: option.splits)
qed simp

lemma rows_fit_inline:
  assumes "tb_wf t" "unbudgeted t" "direct_path t" "\<not> is_exact_frozen t" "cur_row t = no_cells"
    "list_all (inline_record (plan t)) recs"
  shows "rows_fit E recs t"
  using assms
proof (induction recs arbitrary: t)
  case (Cons kvs recs)
  note b = begin_row_core [OF Cons.prems(2)]
  have fits: "puts_fit E kvs (begin_row E t)"
    using Cons.prems b by (intro puts_fit_inline) simp_all
  from parse_row_direct [OF Cons.prems(1,2) b(11) [OF Cons.prems(3)] Cons.prems(4,5) fits]
  obtain u where u: "parse_row E kvs t = Some u" "tb_wf u" "cur_row u = no_cells"
    "plan u = plan t" "unbudgeted u" "is_exact_frozen u = is_exact_frozen t" "direct_path u" by blast
  have "rows_fit E recs u" using u Cons.prems by (intro Cons.IH) simp_all
  with fits u(1) show ?case by simp
qed simp


section \<open>Reported errors\<close>

definition errors :: "table_builder \<Rightarrow> error option \<times> string option" where
  "errors t = (strict_error t, unknown_error t)"

lemma errors_notify [simp]: "errors (notify e t) = errors t" "errors (notify_put_field i v t) = errors t"
  "errors (track_ordinal i n t) = errors t" "errors (update_buf f t) = errors t" "errors (commit_row t) = errors t"
  by (simp_all add: errors_def notify_def notify_put_field_def track_ordinal_def update_buf_def commit_row_def Let_def
      split: option.splits)

lemma errors_lenient: "\<not> strict_types (plan t) \<Longrightarrow> record_strict_violation_at E i v t = t"
  by (simp add: record_strict_violation_at_def)

lemma errors_store: "store_at E i v t = Some u \<Longrightarrow> errors u = errors t"
  by (auto simp: store_at_def errors_def Let_def split: bind_splits)

lemma errors_put:
  assumes wf: "tb_wf t" and m: "unbudgeted t" "direct_path t" "\<not> is_direct t" "\<not> is_exact_frozen t" "\<not> strict_types (plan t)"
    and u: "put_field E name v t = Some u"
  shows "errors u = errors t"
proof (cases "resolve_field (plan t) name")
  case None
  with u m show ?thesis by (simp add: put_field_direct push_field_resolves)
next
  case (Some n)
  obtain i t1 where e: "ensure_column_idx E n t = (i, t1)" by fastforce
  have t1: "errors t1 = errors t" "plan t1 = plan t"
    using ensure_column_ok [OF wf _ m(3) e] m(4) by (simp_all add: errors_def)
  from u Some m e have "store_at E i v (track_ordinal i n (notify_put_field i v (record_strict_violation_at E i v t1))) = Some u"
    by (simp add: put_field_direct push_field_resolves push_field_resolved_def)
  from errors_store [OF this] t1 m(5) show ?thesis by (simp add: errors_lenient)
qed

lemma errors_put_all:
  assumes "tb_wf t" "unbudgeted t" "direct_path t" "\<not> is_direct t" "\<not> is_exact_frozen t" "\<not> strict_types (plan t)"
    "puts_fit E kvs t" "put_all E kvs t = Some u"
  shows "errors u = errors t"
  using assms
proof (induction kvs arbitrary: t)
  case (Cons kv kvs)
  obtain name v where kv: "kv = (name, v)" by fastforce
  have fits: "put_fits E n v t" if "resolve_field (plan t) name = Some n" for n
    using Cons.prems(7) that by (simp add: kv)
  from put_field_ok [OF Cons.prems(1-5) fits] obtain w where w: "put_field E name v t = Some w" "tb_wf w" "stays t w" by blast
  have "errors u = errors w"
    using Cons.prems w stays_path [OF w(3)] by (intro Cons.IH [OF w(2)]) (simp_all add: kv stays_def)
  moreover have "errors w = errors t" using errors_put [OF Cons.prems(1-6) w(1)] .
  ultimately show ?case by simp
qed simp

lemma errors_finish_row:
  assumes "finish_row E t = Some u"
  shows "errors u = errors t"
  using assms by (auto simp: finish_row_def null_fill_def errors_def commit_row_def notify_def
      split: bind_splits option.splits if_splits)

lemma errors_begin: "unbudgeted t \<Longrightarrow> errors (begin_row E t) = errors t"
  by (simp add: begin_row_def errors_def update_buf_def notify_def Let_def)

lemma errors_parse_rows:
  assumes "tb_wf t" "unbudgeted t" "direct_path t" "\<not> is_exact_frozen t" "cur_row t = no_cells"
    "\<not> strict_types (plan t)" "rows_fit E recs t" "parse_rows E recs t = Some u"
  shows "errors u = errors t \<and> unbudgeted u"
  using assms
proof (induction recs arbitrary: t)
  case (Cons kvs recs)
  note b = begin_row_core [OF Cons.prems(2)]
  have fits: "puts_fit E kvs (begin_row E t)" using Cons.prems(7) by simp
  from parse_row_direct [OF Cons.prems(1,2) b(11) [OF Cons.prems(3)] Cons.prems(4,5) fits]
  obtain w where w: "parse_row E kvs t = Some w" "tb_wf w" "cur_row w = no_cells"
    "plan w = plan t" "unbudgeted w" "is_exact_frozen w = is_exact_frozen t" "direct_path w" by blast
  obtain x where x: "put_all E kvs (begin_row E t) = Some x" "end_row E x = Some w"
    using w(1) by (auto simp: parse_row_def split: bind_splits)
  have "errors x = errors (begin_row E t)"
    using Cons.prems b fits x(1) by (intro errors_put_all) simp_all
  moreover have "errors w = errors x"
  proof -
    obtain x' where "put_all E kvs (begin_row E t) = Some x'" "stays (begin_row E t) x'"
      using put_all_ok [of "begin_row E t" E kvs] Cons.prems b fits by auto
    with x(1) have "unbudgeted x" "direct_path x" using stays_path b(5,11) Cons.prems(3) by auto
    then have "finish_row E x = Some w" using x(2) by (simp add: end_row_def direct_path_def)
    then show ?thesis by (rule errors_finish_row)
  qed
  moreover have "errors u = errors w \<and> unbudgeted u"
    using Cons.prems w by (intro Cons.IH) simp_all
  ultimately show ?case using errors_begin [OF Cons.prems(2)] by simp
qed simp

end
