(* ===== verification/Buffered_Rows.thy ===== *)
theory Buffered_Rows
  imports Table_Parse
begin

text \<open>
  Rows on the buffered path: while a filter may still reject the row, its fields wait in the row
  buffer, the filter is evaluated on what is there, and at the end the row is drained into the
  columns or dropped. For filters over the text of fields, the buffered path and the columnar
  check of the direct path accept the same rows.
\<close>

section \<open>Early decisions\<close>

text \<open>
  The leaves that stay undecided until their fields are buffered. The other leaves read a field
  that has not come yet as null.
\<close>

fun patient_leaf :: "filter_predicate \<Rightarrow> bool" where
  "patient_leaf (In _ _) = False"
| "patient_leaf (NotIn _ _) = False"
| "patient_leaf (NotField _) = False"
| "patient_leaf (IsNull _) = False"
| "patient_leaf (IsType _ _) = False"
| "patient_leaf _ = True"

fun patient :: "filter_predicate \<Rightarrow> bool" where
  "patient (And a b) = (patient a \<and> patient b)"
| "patient (Or a b) = (patient a \<and> patient b)"
| "patient (Not a) = patient a"
| "patient leaf = patient_leaf leaf"

definition buffer_grows :: "table_builder \<Rightarrow> table_builder \<Rightarrow> bool" where
  "buffer_grows t u \<longleftrightarrow> plan u = plan t \<and>
     (\<forall>f v. get_buffered_value t f = Some v \<longrightarrow> get_buffered_value u f = Some v)"

lemma grown_text:
  assumes "buffer_grows t u" "get_buffered_str X t f = Some s"
  shows "get_buffered_str X u f = Some s"
  using assms by (auto simp: buffer_grows_def get_buffered_str_def split: bind_splits)

lemma grown_bind:
  assumes "buffer_grows t u" "Option.bind (get_buffered_value t f) g = Some s"
  shows "Option.bind (get_buffered_value u f) g = Some s"
  using assms by (auto simp: buffer_grows_def split: bind_splits)

lemma decide_grown:
  assumes "buffer_grows t u" "decide (get_buffered_str X t f) P \<noteq> Undecided"
  shows "decide (get_buffered_str X u f) P = decide (get_buffered_str X t f) P"
  using assms grown_text by (fastforce simp: decide_def split: option.splits)

lemma eval_literal_grown:
  assumes g: "buffer_grows t u" and d: "eval_literal X t f op v \<noteq> Undecided"
  shows "eval_literal X u f op v = eval_literal X t f op v"
proof -
  let ?ty = "column_type (plan t) (resolve_or_raw (plan t) f)"
  obtain a where a: "Option.bind (get_buffered_value t f) (literal_operand X ?ty) = Some a"
    using d by (auto simp: eval_literal_def Let_def split: option.splits)
  have "plan u = plan t" using g by (simp add: buffer_grows_def)
  with a grown_bind [OF g a] show ?thesis by (simp add: eval_literal_def Let_def)
qed

lemma eval_decimal_grown:
  assumes g: "buffer_grows t u" and d: "eval_decimal_compare X t fa sa op fb sb \<noteq> Undecided"
  shows "eval_decimal_compare X u fa sa op fb sb = eval_decimal_compare X t fa sa op fb sb"
proof -
  obtain a b where "get_buffered_str X t fa = Some a" "get_buffered_str X t fb = Some b"
    using d by (auto simp: eval_decimal_compare_def split: option.splits)
  with grown_text [OF g] show ?thesis by (simp add: eval_decimal_compare_def)
qed

lemma eval_compare_grown:
  assumes g: "buffer_grows t u" and d: "eval_compare X t fa op fb \<noteq> Undecided"
  shows "eval_compare X u fa op fb = eval_compare X t fa op fb"
proof -
  let ?ta = "column_type (plan t) (resolve_or_raw (plan t) fa)" and ?tb = "column_type (plan t) (resolve_or_raw (plan t) fb)"
  let ?va = "\<lambda>s. Option.bind (get_buffered_value s fa) (normalize_value X ?ta)"
  let ?vb = "\<lambda>s. Option.bind (get_buffered_value s fb) (normalize_value X ?tb)"
  have p: "plan u = plan t" using g by (simp add: buffer_grows_def)
  show ?thesis
  proof (cases "compatible_types ?ta ?tb")
    case False
    then show ?thesis by (simp add: eval_compare_def Let_def p)
  next
    case True
    show ?thesis
    proof (cases "\<exists>sa sb. ?ta = FT_Decimal128 sa \<and> ?tb = FT_Decimal128 sb")
      case True
      then show ?thesis using d eval_decimal_grown [OF g] by (auto simp: eval_compare_def Let_def p)
    next
      case other: False
      have e: "eval_compare X s fa op fb = (case (?va s, ?vb s) of (Some a, Some b) \<Rightarrow>
          verdict (apply_op op (compare_values X (map_of (field_types (plan t)) (resolve_or_raw (plan t) fa))
            (map_of (field_types (plan t)) (resolve_or_raw (plan t) fb)) a b)) | _ \<Rightarrow> Undecided)" if "plan s = plan t" for s
        using True other that by (cases ?ta; cases ?tb) (auto simp: eval_compare_def Let_def compatible_types_def)
      obtain a b where ab: "?va t = Some a" "?vb t = Some b"
        using d unfolding e [OF refl] by (auto split: option.splits)
      from grown_bind [OF g ab(1)] grown_bind [OF g ab(2)] ab show ?thesis unfolding e [OF refl] e [OF p] by simp
    qed
  qed
qed

lemma eval_grown:
  assumes g: "buffer_grows t u"
  shows "patient p \<Longrightarrow> eval_predicate X t p \<noteq> Undecided \<Longrightarrow> eval_predicate X u p = eval_predicate X t p"
proof (induction p)
  case (And a b)
  then show ?case by (auto simp: and_state_def split: if_splits)
next
  case (Or a b)
  then show ?case by (auto simp: or_state_def split: if_splits)
next
  case (Not a)
  then show ?case by (cases "eval_predicate X t a") auto
qed (use decide_grown [OF g] eval_literal_grown [OF g] eval_compare_grown [OF g] in simp_all)

text \<open>What the buffer decides, the end of the row confirms.\<close>

lemma eval_confirmed:
  "patient p \<Longrightarrow> eval_predicate X t p \<noteq> Undecided \<Longrightarrow> eval_predicate_with_null X t p = eval_predicate X t p"
proof (induction p)
  case (And a b)
  then show ?case by (auto simp: and_state_def split: if_splits)
next
  case (Or a b)
  then show ?case by (auto simp: or_state_def undecided_fails_def split: if_splits)
next
  case (Not a)
  then show ?case by (cases "eval_predicate X t a") (auto simp: undecided_fails_def)
qed (auto simp: undecided_fails_def decide_def verdict_def split: option.splits)


section \<open>The verdict at the end of the row\<close>

text \<open>
  Filters over the text of fields the plan keeps, and a buffer that reads as text like the cells
  the values become.
\<close>

fun text_leaf :: "filter_predicate \<Rightarrow> bool" where
  "text_leaf (Compare _ _ _) = False"
| "text_leaf (CompareLiteral _ _ _) = False"
| "text_leaf (IsType _ _) = False"
| "text_leaf (ArithmeticCompare _ _ _ _ _) = False"
| "text_leaf _ = True"

fun text_filter :: "execution_plan \<Rightarrow> filter_predicate \<Rightarrow> bool" where
  "text_filter p (And a b) = (text_filter p a \<and> text_filter p b)"
| "text_filter p (Or a b) = (text_filter p a \<and> text_filter p b)"
| "text_filter p (Not a) = text_filter p a"
| "text_filter p (Always keep) = True"
| "text_filter p leaf = (text_leaf leaf \<and> resolve_field p (leaf_field leaf) \<noteq> None)"

definition reads_as :: "externals \<Rightarrow> table_builder \<Rightarrow> row \<Rightarrow> bool" where
  "reads_as X t r \<longleftrightarrow> (\<forall>f. resolve_field (plan t) f \<noteq> None \<longrightarrow>
     get_buffered_str X t f = map_option (render X) (r (renamed (plan t) f)))"

lemma text_leaf_verdict:
  assumes "text_leaf leaf" "reads_as X t r" "resolve_field (plan t) (leaf_field leaf) \<noteq> None"
    and "\<And>a b. leaf \<noteq> And a b" "\<And>a b. leaf \<noteq> Or a b" "\<And>a. leaf \<noteq> Not a" "\<And>keep. leaf \<noteq> Always keep"
  shows "eval_predicate_with_null X t leaf = verdict (pred_sem X (row_view_of (plan t) r) leaf)"
proof -
  have same: "get_buffered_str X t (leaf_field leaf) = text_at X (row_view_of (plan t) r) (leaf_field leaf)"
    using assms(2,3) by (simp add: reads_as_def text_at_def cell_at_def row_view_of_def)
  show ?thesis
    using assms(1,4-7) same
    by (cases leaf) (auto simp: verdict_def decide_def undecided_fails_def text_meaning split: option.splits trim_mode.splits)
qed

lemma text_filter_verdict:
  assumes r: "reads_as X t r"
  shows "text_filter (plan t) p \<Longrightarrow> eval_predicate_with_null X t p = verdict (pred_sem X (row_view_of (plan t) r) p)"
proof (induction p)
  case (And a b)
  then show ?case by (auto simp: and_state_def verdict_def)
next
  case (Or a b)
  then show ?case by (auto simp: or_state_def verdict_def undecided_fails_def)
next
  case (Not a)
  then show ?case by (auto simp: verdict_def undecided_fails_def)
next
  case (Always keep)
  then show ?case by simp
qed (use text_leaf_verdict [OF _ r] in \<open>auto simp del: eval_predicate_with_null.simps pred_sem.simps\<close>)


section \<open>The buffer of a row\<close>

definition buf_fields :: "table_builder \<Rightarrow> (nat \<times> field_value) list" where
  "buf_fields t = (case row_buf t of Some b \<Rightarrow> rb_fields b | None \<Rightarrow> [])"

lemma buffered_value_fields:
  "get_buffered_value t f = (if row_buf t = None then None
     else Option.bind (resolve_field (plan t) f) (\<lambda>r. Option.bind (map_of (field_index t) r) (map_of (rev (buf_fields t)))))"
  by (auto simp: get_buffered_value_def buf_fields_def bind_eq_None_conv)

lemma eval_cong:
  assumes p: "plan u = plan t" and v: "get_buffered_value u = get_buffered_value t"
  shows "eval_predicate X u q = eval_predicate X t q"
proof -
  have s: "get_buffered_str X u = get_buffered_str X t" by (simp add: get_buffered_str_def [abs_def] p v)
  show ?thesis
    by (induction q) (simp_all only: eval_predicate.simps s eval_compare_def eval_literal_def eval_is_type_def eval_decimal_compare_def p v)
qed

lemma eval_state_cong:
  assumes "plan u = plan t" "get_buffered_value u = get_buffered_value t"
  shows "evaluate_predicate_state X u = evaluate_predicate_state X t"
  by (simp add: evaluate_predicate_state_def assms(1) eval_cong [OF assms] split: option.splits)

text \<open>The row that is pending in the buffer.\<close>

definition pending_value :: "table_builder \<Rightarrow> string \<Rightarrow> field_value option" where
  "pending_value t n = Option.bind (map_of (field_index t) n) (map_of (buf_fields t))"

definition pending_row :: "externals \<Rightarrow> table_builder \<Rightarrow> row" where
  "pending_row X t n = Option.bind (pending_value t n) (convert X (column_type (plan t) n))"

definition clean :: "table_builder \<Rightarrow> bool" where
  "clean t \<longleftrightarrow> (\<forall>i. \<not> mask_test i (row_dirty t))"

definition buffered_ok :: "env \<Rightarrow> table_builder \<Rightarrow> bool" where
  "buffered_ok E t \<longleftrightarrow> distinct (map fst (buf_fields t)) \<and>
     (\<forall>(s, v) \<in> set (buf_fields t). (\<exists>n. map_of (field_index t) n = Some s) \<and> cb_fits (ext E) (columns t ! s) v)"

definition verdict_current :: "env \<Rightarrow> table_builder \<Rightarrow> bool" where
  "verdict_current E t \<longleftrightarrow> (case row_buf t of None \<Rightarrow> False | Some b \<Rightarrow> \<not> rb_direct b \<and> rb_worthwhile b \<and>
     (rb_state b \<noteq> Undecided \<longrightarrow> rb_state b = evaluate_predicate_state (ext E) t))"

definition buffering :: "env \<Rightarrow> table_builder \<Rightarrow> bool" where
  "buffering E t \<longleftrightarrow> tb_wf t \<and> clean t \<and> buffered_ok E t \<and> verdict_current E t"

text \<open>A verdict made early is the verdict from then on.\<close>

definition buffer_verdict :: "table_builder \<Rightarrow> predicate_state" where
  "buffer_verdict t = (case row_buf t of Some b \<Rightarrow> rb_state b | None \<Rightarrow> Undecided)"

definition verdict_stays :: "table_builder \<Rightarrow> table_builder \<Rightarrow> bool" where
  "verdict_stays t u \<longleftrightarrow> (buffer_verdict t \<noteq> Undecided \<longrightarrow> buffer_verdict u = buffer_verdict t)"

text \<open>What a buffered put leaves alone.\<close>

definition kept :: "table_builder \<Rightarrow> table_builder \<Rightarrow> bool" where
  "kept t u \<longleftrightarrow> plan u = plan t \<and> row_count u = row_count t \<and> frozen u = frozen t \<and> memory_limit u = memory_limit t \<and>
     rows_accepted u = rows_accepted t \<and> rows_rejected u = rows_rejected t"

lemma kept_refl [simp]: "kept t t"
  by (simp add: kept_def)

lemma kept_trans: "kept t u \<Longrightarrow> kept u v \<Longrightarrow> kept t v"
  by (simp add: kept_def)

lemma clean_cells:
  assumes "tb_wf t" "clean t"
  shows "cur_row t = no_cells" "i < length (columns t) \<Longrightarrow> cb_len (columns t ! i) = row_count t"
    "i < length (columns t) \<Longrightarrow> prepared t i = columns t ! i"
proof -
  have len: "cb_len (columns t ! i) = row_count t" if "i < length (columns t)" for i
    using assms that by (simp add: tb_wf_def aligned_def clean_def)
  then show "i < length (columns t) \<Longrightarrow> cb_len (columns t ! i) = row_count t"
    "i < length (columns t) \<Longrightarrow> prepared t i = columns t ! i" by (simp_all add: prepared_def)
  show "cur_row t = no_cells"
    unfolding cur_row_def using assms(1) len by (intro row_at_beyond) (simp add: tb_wf_def index_ok_def)
qed

text \<open>Creating a column keeps every slot, its name and its cells.\<close>

lemma ensure_keeps_slots:
  assumes wf: "tb_wf t" and k: "\<not> is_exact_frozen t" "\<not> is_direct t" and e: "ensure_column_idx E n t = (i, u)" and c: "clean t"
  shows "clean u" "\<And>m j. map_of (field_index t) m = Some j \<Longrightarrow> map_of (field_index u) m = Some j \<and> columns u ! j = columns t ! j"
    "map_of (field_index t) n = None \<Longrightarrow> i = length (columns t)"
    "\<And>m. m \<noteq> n \<Longrightarrow> map_of (field_index u) m = map_of (field_index t) m" "i < length (columns u)"
proof -
  have inr: "j < length (columns t)" if "map_of (field_index t) m = Some j" for m j
    using wf that by (simp add: tb_wf_def index_ok_def)
  have "clean u \<and> (\<forall>m j. map_of (field_index t) m = Some j \<longrightarrow> map_of (field_index u) m = Some j \<and> columns u ! j = columns t ! j) \<and>
    (map_of (field_index t) n = None \<longrightarrow> i = length (columns t)) \<and>
    (\<forall>m. m \<noteq> n \<longrightarrow> map_of (field_index u) m = map_of (field_index t) m) \<and> i < length (columns u)"
  proof (cases "map_of (field_index t) n")
    case (Some j)
    then show ?thesis using e c inr by (simp add: ensure_known)
  next
    case None
    from ensure_new [OF None k, of E] obtain pos m where
      u: "i = length (columns t)" "u = with_column n pos (backfilled E (row_count t) (column_type (plan t) n)) m t"
      "\<And>k. mask_test k m = mask_test k (row_dirty t)" using e by auto
    then show ?thesis using None c inr
      by (auto simp: with_column_def add_column_def clean_def nth_append)
  qed
  then show "clean u" "\<And>m j. map_of (field_index t) m = Some j \<Longrightarrow> map_of (field_index u) m = Some j \<and> columns u ! j = columns t ! j"
    "map_of (field_index t) n = None \<Longrightarrow> i = length (columns t)"
    "\<And>m. m \<noteq> n \<Longrightarrow> map_of (field_index u) m = map_of (field_index t) m" "i < length (columns u)" by blast+
qed

text \<open>Marking a predicate slot touches only the bookkeeping of the buffer.\<close>

definition bookkeeping :: "(row_buffer \<Rightarrow> row_buffer) \<Rightarrow> bool" where
  "bookkeeping g \<longleftrightarrow> (\<forall>b. rb_fields (g b) = rb_fields b \<and> rb_state (g b) = rb_state b \<and>
     rb_direct (g b) = rb_direct b \<and> rb_worthwhile (g b) = rb_worthwhile b)"

lemma update_buf_comp: "update_buf g (update_buf h t) = update_buf (g \<circ> h) t"
  by (simp add: update_buf_def option.map_comp)

lemma update_buf_id: "update_buf id t = t"
  by (simp add: update_buf_def option.map_id0)

lemma build_mask_bookkeeping: "\<exists>g. build_predicate_mask t = update_buf g t \<and> bookkeeping g"
  unfolding build_predicate_mask_def by (rule exI, rule conjI, rule refl) (simp add: bookkeeping_def Let_def)

lemma bookkeeping_comp: "bookkeeping g \<Longrightarrow> bookkeeping h \<Longrightarrow> bookkeeping (h \<circ> g)"
  by (simp add: bookkeeping_def)

lemma mark_slot_bookkeeping: "\<exists>g. mark_predicate_slot i t = update_buf g t \<and> bookkeeping g"
proof -
  let ?need = "case row_buf t of Some b \<Rightarrow> \<not> mask_test i (rb_mask b) \<and> rb_names b = [] | None \<Rightarrow> False"
  define t1 where "t1 = (if ?need then build_predicate_mask t else t)"
  define h where "h = (\<lambda>name (b :: row_buffer). if name \<in> set (rb_names b)
      then let m = (if length (rb_mask b) \<le> i div 64 then mask_resize (i div 64 + 1) (rb_mask b) else rb_mask b)
           in b\<lparr>rb_mask := mask_mark i m\<rparr> else b)"
  have id: "t = update_buf id t" "bookkeeping id" by (simp_all add: update_buf_id bookkeeping_def)
  obtain g1 where g1: "t1 = update_buf g1 t" "bookkeeping g1"
    using build_mask_bookkeeping [of t] id by (cases ?need) (auto simp: t1_def)
  have h: "bookkeeping (h name)" for name by (simp add: bookkeeping_def h_def Let_def)
  have e: "mark_predicate_slot i t = (if plan_filter (plan t) = None then t else if is_predicate_slot i t1 then t1
      else case idx (column_order t1) i of None \<Rightarrow> t1 | Some name \<Rightarrow> update_buf (h name) t1)"
    by (simp only: mark_predicate_slot_def t1_def h_def Let_def)
  have t: ?thesis if "mark_predicate_slot i t = t" using that id by metis
  have t1: ?thesis if "mark_predicate_slot i t = t1" using that g1 by metis
  have marked: ?thesis if "mark_predicate_slot i t = update_buf (h name) t1" for name
  proof -
    have "mark_predicate_slot i t = update_buf (h name \<circ> g1) t" using that unfolding g1(1) update_buf_comp .
    with bookkeeping_comp [OF g1(2) h] show ?thesis by blast
  qed
  show ?thesis
  proof (cases "plan_filter (plan t) = None")
    case True
    then show ?thesis using t e by simp
  next
    case filter: False
    show ?thesis
    proof (cases "is_predicate_slot i t1")
      case True
      then show ?thesis using t1 e filter by simp
    next
      case False
      then show ?thesis using t1 marked e filter by (cases "idx (column_order t1) i") simp_all
    qed
  qed
qed

section \<open>Buffering a value\<close>

text \<open>The buffer after a put: the field appended, and the verdict kept or made anew.\<close>

lemma buffer_field_new: "i \<notin> fst ` set fs \<Longrightarrow> buffer_field i v fs = fs @ [(i, v)]"
  by (induction fs) (auto simp: buffer_field_def image_iff split: option.splits)

lemma buffer_and_evaluate_shape:
  assumes b: "row_buf t = Some b" "rb_worthwhile b" "\<not> rb_direct b" and new: "i \<notin> fst ` set (buf_fields t)"
    and u_def: "u = buffer_and_evaluate E i v t"
  shows "\<exists>b'. row_buf u = Some b' \<and> rb_fields b' = buf_fields t @ [(i, v)] \<and> rb_worthwhile b' \<and> \<not> rb_direct b' \<and>
      (rb_state b' = rb_state b \<or> rb_state b' = evaluate_predicate_state (ext E) u)"
    "kept t u" "columns u = columns t" "field_index u = field_index t" "row_dirty u = row_dirty t" "column_order u = column_order t"
proof -
  define t2 where "t2 = record_strict_violation_at E i v t"
  have core: "same_core t t2" "rows_accepted t2 = rows_accepted t" "rows_rejected t2 = rows_rejected t" by (simp_all add: t2_def)
  obtain g where g: "mark_predicate_slot i t2 = update_buf g t2" "bookkeeping g" using mark_slot_bookkeeping by blast
  define t3 where "t3 = update_buf ((\<lambda>b. b\<lparr>rb_fields := buffer_field i v (rb_fields b)\<rparr>) \<circ> g) t2"
  have bv: "buffer_value E i v t = t3" unfolding buffer_value_def t2_def [symmetric] g(1) update_buf_comp t3_def ..
  obtain b3 where b3: "row_buf t3 = Some b3" "rb_fields b3 = buf_fields t @ [(i, v)]" "rb_worthwhile b3" "\<not> rb_direct b3"
    "rb_state b3 = rb_state b"
    using core(1) b g(2) buffer_field_new [OF new]
    by (simp add: t3_def update_buf_def same_core_def bookkeeping_def buf_fields_def)
  have k3: "kept t t3" "columns t3 = columns t" "field_index t3 = field_index t" "row_dirty t3 = row_dirty t" "column_order t3 = column_order t"
    using core by (simp_all add: t3_def update_buf_def kept_def same_core_def)
  have u: "u = (if is_predicate_slot i t3 then reevaluate E (note_ordinal i t3) else t3)"
    by (simp add: u_def buffer_and_evaluate_def bv Let_def)
  let ?t4 = "note_ordinal i t3"
  obtain b4 where b4: "row_buf ?t4 = Some b4" "rb_fields b4 = rb_fields b3" "rb_worthwhile b4" "\<not> rb_direct b4"
    using b3 by (simp add: note_ordinal_def update_buf_def)
  have "get_buffered_value (reevaluate E ?t4) = get_buffered_value ?t4"
    using b4(1) by (intro ext) (simp add: buffered_value_fields buf_fields_def reevaluate_def update_buf_def Let_def)
  then have ev: "evaluate_predicate_state (ext E) (reevaluate E ?t4) = evaluate_predicate_state (ext E) ?t4"
    by (intro eval_state_cong) (simp_all add: reevaluate_def update_buf_def Let_def)
  show "\<exists>b'. row_buf u = Some b' \<and> rb_fields b' = buf_fields t @ [(i, v)] \<and> rb_worthwhile b' \<and> \<not> rb_direct b' \<and>
      (rb_state b' = rb_state b \<or> rb_state b' = evaluate_predicate_state (ext E) u)"
  proof (cases "is_predicate_slot i t3")
    case True
    have "row_buf (reevaluate E ?t4) = Some (b4\<lparr>rb_state := evaluate_predicate_state (ext E) ?t4\<rparr>)"
      using b4(1) by (simp add: reevaluate_def update_buf_def Let_def)
    then show ?thesis using True b3(2) b4 ev by (simp add: u)
  qed (use b3 u in simp)
  show "kept t u" "columns u = columns t" "field_index u = field_index t" "row_dirty u = row_dirty t" "column_order u = column_order t"
    using k3 by (simp_all add: u reevaluate_def note_ordinal_def update_buf_def kept_def Let_def)
qed


lemma eval_state_grown:
  assumes "plan_filter (plan t) = Some f" "patient f" "buffer_grows t u" "evaluate_predicate_state X t \<noteq> Undecided"
  shows "evaluate_predicate_state X u = evaluate_predicate_state X t"
  using assms eval_grown [OF assms(3)] by (simp add: evaluate_predicate_state_def buffer_grows_def)

lemma map_of_rev_distinct: "distinct (map fst xs) \<Longrightarrow> map_of (rev xs) = map_of xs"
  by (rule map_of_inject_set [THEN iffD2]) (auto simp: rev_map [symmetric])

lemma put_field_buffered:
  assumes bf: "buffering E t" and f: "plan_filter (plan t) = Some f" "patient f"
    and m: "unbudgeted t" "\<not> is_exact_frozen t" and r: "resolve_field (plan t) name = Some n"
    and fits: "put_fits E n v t" and free: "pending_value t n = None"
  shows "\<exists>u. put_field E name v t = Some u \<and> buffering E u \<and> tb_rows u = tb_rows t \<and> kept t u \<and>
    pending_value u = (pending_value t)(n \<mapsto> v) \<and> verdict_stays t u"
proof -
  obtain b where b: "row_buf t = Some b" "\<not> rb_direct b" "rb_worthwhile b"
    "rb_state b \<noteq> Undecided \<longrightarrow> rb_state b = evaluate_predicate_state (ext E) t"
    using bf by (auto simp: buffering_def verdict_current_def split: option.splits)
  have wf: "tb_wf t" and cl: "clean t" and bo: "buffered_ok E t" using bf by (simp_all add: buffering_def)
  have nd: "\<not> is_direct t" using b by (simp add: is_direct_def)
  obtain i t1 where e: "ensure_column_idx E n t = (i, t1)" by fastforce
  have wf1: "tb_wf t1" "tb_rows t1 = tb_rows t" "map_of (field_index t1) n = Some i" "row_buf t1 = row_buf t" "kept t t1"
    using ensure_column_ok [OF wf _ nd e] m(2) by (simp_all add: kept_def)
  note sl = ensure_keeps_slots [OF wf m(2) nd e cl]
  have bt1: "buf_fields t1 = buf_fields t" "plan t1 = plan t" using wf1 by (simp_all add: buf_fields_def kept_def)
  have inr: "j < length (columns t)" if "map_of (field_index t) k = Some j" for k j
    using wf that by (simp add: tb_wf_def index_ok_def)
  have old: "s \<noteq> i" if "s \<in> fst ` set (buf_fields t)" for s
  proof (cases "map_of (field_index t) n")
    case None
    with that bo sl(3) inr show ?thesis by (fastforce simp: buffered_ok_def)
  next
    case (Some j)
    with sl(2) wf1(3) have "j = i" by auto
    with that free Some show ?thesis by (auto simp: pending_value_def map_of_eq_None_iff)
  qed
  then have new: "i \<notin> fst ` set (buf_fields t1)" unfolding bt1 by blast
  define u where "u = buffer_and_evaluate E i v t1"
  note sh = buffer_and_evaluate_shape [OF _ b(3,2) new u_def, unfolded wf1(4), OF b(1)]
  have put: "put_field E name v t = Some u"
    using f m r b e by (simp add: put_field_def is_worthwhile_def unknown_frozen_def is_exact_frozen_def u_def split: option.splits)
  obtain b' where b': "row_buf u = Some b'" "rb_fields b' = buf_fields t @ [(i, v)]" "rb_worthwhile b'" "\<not> rb_direct b'"
    "rb_state b' = rb_state b \<or> rb_state b' = evaluate_predicate_state (ext E) u"
    using sh(1) bt1(1) by auto
  have fu: "buf_fields u = buf_fields t @ [(i, v)]" using b' by (simp add: buf_fields_def)
  have ku: "kept t u" using kept_trans [OF wf1(5) sh(2)] .
  have dist: "distinct (map fst (buf_fields t))" using bo by (simp add: buffered_ok_def)
  have inj: "j \<noteq> i" if "map_of (field_index u) k = Some j" "k \<noteq> n" for k j
    using wf1(1,3) that sh(4) by (auto simp: tb_wf_def index_ok_def)
  have grows: "buffer_grows t u"
  proof -
    have "get_buffered_value u g = Some w" if g: "get_buffered_value t g = Some w" for g w
    proof -
      obtain q s where s: "resolve_field (plan t) g = Some q" "map_of (field_index t) q = Some s" "map_of (rev (buf_fields t)) s = Some w"
        using g by (auto simp: buffered_value_fields split: if_splits bind_splits)
      then have "s \<noteq> i" using old by (metis map_of_SomeD fst_conv image_eqI set_rev)
      then show ?thesis using s sl(2) [OF s(2)] ku b'(1) by (simp add: buffered_value_fields fu sh(4) kept_def)
    qed
    then show ?thesis using ku by (simp add: buffer_grows_def kept_def)
  qed
  have cols: "columns u ! j = columns t ! j" if "map_of (field_index t) k = Some j" for k j
    using sl(2) [OF that] sh(3) by simp
  have "tb_wf u" using wf1(1) sh(2-6) unfolding tb_wf_def index_ok_def aligned_def kinds_ok_def kept_def by simp
  moreover have "clean u" using sl(1) sh(5) by (simp add: clean_def)
  moreover have "buffered_ok E u"
  proof -
    have "prepared t1 i = columns t1 ! i" using clean_cells(3) [OF wf1(1) sl(1)] sl(5) by simp
    then have "cb_fits (ext E) (columns u ! i) v" using fits e sh(3) by (simp add: put_fits_def)
    moreover have "(\<exists>k. map_of (field_index u) k = Some s) \<and> cb_fits (ext E) (columns u ! s) w"
      if sw: "(s, w) \<in> set (buf_fields t)" for s w
    proof -
      obtain k where k: "map_of (field_index t) k = Some s" "cb_fits (ext E) (columns t ! s) w"
        using bo sw by (auto simp: buffered_ok_def)
      then show ?thesis using cols [OF k(1)] sl(2) [OF k(1)] sh(4) by auto
    qed
    ultimately show ?thesis using dist old wf1(3) sh(4) by (auto simp: buffered_ok_def fu)
  qed
  moreover have "verdict_current E u"
  proof -
    have "rb_state b' = evaluate_predicate_state (ext E) u" if "rb_state b' \<noteq> Undecided"
    proof (cases "rb_state b' = rb_state b")
      case True
      then have "rb_state b' = evaluate_predicate_state (ext E) t" using b(4) that by simp
      with eval_state_grown [OF f grows, of "ext E"] that show ?thesis by simp
    qed (use b'(5) in simp)
    then show ?thesis using b' by (simp add: verdict_current_def)
  qed
  moreover have "verdict_stays t u"
    using b' b(1,4) eval_state_grown [OF f grows, of "ext E"] by (auto simp: verdict_stays_def buffer_verdict_def)
  moreover have "tb_rows u = tb_rows t"
  proof -
    have "row_at u = row_at t1" by (intro ext) (simp add: row_at_def sh(3,4) split: option.splits)
    then show ?thesis using wf1(2) sh(2) by (simp add: tb_rows_def kept_def)
  qed
  moreover have "pending_value u = (pending_value t)(n \<mapsto> v)"
  proof (rule ext)
    fix k
    have "map_of (buf_fields t) i = None" using old unfolding map_of_eq_None_iff by blast
    then have "map_of (buf_fields u) i = Some v" by (simp add: fu map_add_def)
    moreover have "map_of (buf_fields u) j = map_of (buf_fields t) j" if "j \<noteq> i" for j
      using that by (simp add: fu map_add_def split: option.splits)
    ultimately show "pending_value u k = ((pending_value t)(n \<mapsto> v)) k"
      using wf1(3) sh(4) sl(4) [of k] inj [of k]
      by (cases "k = n"; cases "map_of (field_index t) k") (auto simp: pending_value_def)
  qed
  ultimately show ?thesis using put ku by (auto simp: buffering_def)
qed


text \<open>A field the filter names has its slot in the mask, so a put of it evaluates the filter.\<close>

lemma marked_slot:
  assumes f: "plan_filter (plan t) \<noteq> None" and b: "row_buf t = Some b" and co: "idx (column_order t) i = Some n"
    and n: "n \<in> set (if rb_names b = [] then filter_names (plan t) else rb_names b)"
  shows "is_predicate_slot i (mark_predicate_slot i t)"
proof -
  define need where "need \<longleftrightarrow> \<not> mask_test i (rb_mask b) \<and> rb_names b = []"
  define t1 where "t1 = (if need then build_predicate_mask t else t)"
  let ?mark = "\<lambda>name. update_buf (\<lambda>b. if name \<in> set (rb_names b)
          then let m = (if length (rb_mask b) \<le> i div 64 then mask_resize (i div 64 + 1) (rb_mask b) else rb_mask b)
               in b\<lparr>rb_mask := mask_mark i m\<rparr> else b) t1"
  have co1: "idx (column_order t1) i = Some n" using co by (simp add: t1_def build_predicate_mask_def update_buf_def)
  have m: "mark_predicate_slot i t = (if is_predicate_slot i t1 then t1 else ?mark n)"
    using f co1 by (simp only: mark_predicate_slot_def b option.case need_def [symmetric] t1_def [symmetric] if_False Let_def)
  show ?thesis
  proof (cases "is_predicate_slot i t1")
    case False
    have nb: "row_buf t1 = Some b1 \<Longrightarrow> n \<in> set (rb_names b1)" for b1
      using b n False by (cases need) (auto simp: t1_def need_def build_predicate_mask_def update_buf_def is_predicate_slot_def Let_def split: if_splits)
    obtain b1 where b1: "row_buf t1 = Some b1" using b by (cases need) (simp_all add: t1_def build_predicate_mask_def update_buf_def)
    define w where "w = (if length (rb_mask b1) \<le> i div 64 then mask_resize (i div 64 + 1) (rb_mask b1) else rb_mask b1)"
    have "i div 64 < length w" by (simp add: w_def mask_resize_def)
    then have "mask_test i (mask_mark i w)"
      using mask_test_set(1) [of i w] by (cases "mask_set i w") (auto simp: mask_mark_def mask_set_def)
    then show ?thesis using False b1 nb [OF b1] by (simp add: m is_predicate_slot_def update_buf_def w_def Let_def)
  qed (simp add: m)
qed

lemma marked_names:
  assumes "row_buf t = Some b" "row_buf (mark_predicate_slot i t) = Some b'"
  shows "rb_names b' = rb_names b \<or> rb_names b' = filter_names (plan t)"
  using assms by (auto simp: mark_predicate_slot_def build_predicate_mask_def update_buf_def Let_def split: if_splits option.splits)

text \<open>The state of the buffer after a put of a field the filter names: the filter, evaluated on the buffer.\<close>

lemma put_predicate_field:
  assumes f: "plan_filter (plan t) \<noteq> None" and b: "row_buf t = Some b" "rb_worthwhile b"
    and m: "unbudgeted t" "frozen t = None" and r: "resolve_field (plan t) name = Some n"
    and e: "ensure_column_idx E n t = (i, t1)" and co: "idx (column_order t1) i = Some n"
    and t1: "plan t1 = plan t" "row_buf t1 = row_buf t"
    and n: "n \<in> set (filter_names (plan t))" "rb_names b = [] \<or> rb_names b = filter_names (plan t)"
  shows "\<exists>u b'. put_field E name v t = Some u \<and> row_buf u = Some b' \<and> rb_state b' = evaluate_predicate_state (ext E) u \<and>
    rb_fields b' = buffer_field i v (rb_fields b) \<and> rb_worthwhile b' \<and> (rb_names b' = [] \<or> rb_names b' = filter_names (plan t)) \<and>
    plan u = plan t \<and> frozen u = frozen t1 \<and> memory_limit u = memory_limit t1 \<and> field_index u = field_index t1 \<and> column_order u = column_order t1"
proof -
  define t2 where "t2 = record_strict_violation_at E i v t1"
  have t2: "plan t2 = plan t" "row_buf t2 = Some b" "column_order t2 = column_order t1" "field_index t2 = field_index t1"
    "frozen t2 = frozen t1" "memory_limit t2 = memory_limit t1"
    using t1 b(1) by (simp_all add: t2_def record_strict_violation_at_def split: option.splits field_value.splits)
  define t3 where "t3 = mark_predicate_slot i t2"
  have slot: "is_predicate_slot i t3" unfolding t3_def
    by (rule marked_slot [where b = b and n = n]) (use f co n in \<open>auto simp: t2\<close>)

  obtain g where g: "t3 = update_buf g t2" "bookkeeping g" unfolding t3_def using mark_slot_bookkeeping by blast
  have names: "rb_names (g b) = [] \<or> rb_names (g b) = filter_names (plan t)"
  proof -
    have "row_buf t3 = Some (g b)" by (simp add: g(1) update_buf_def t2)
    then show ?thesis using n(2) t2(1) marked_names [OF t2(2), of i] unfolding t3_def by auto
  qed
  define t4 where "t4 = buffer_value E i v t1"
  have t4: "t4 = update_buf (\<lambda>b. b\<lparr>rb_fields := buffer_field i v (rb_fields b)\<rparr>) t3"
    by (simp add: t4_def buffer_value_def t3_def t2_def)
  have p4: "is_predicate_slot i t4" using slot by (simp add: t4 is_predicate_slot_def update_buf_def split: option.splits)
  define t5 where "t5 = note_ordinal i t4"
  obtain b5 where b5: "row_buf t5 = Some b5" "rb_fields b5 = buffer_field i v (rb_fields b)" "rb_worthwhile b5"
    "rb_names b5 = [] \<or> rb_names b5 = filter_names (plan t)"
    using g(2) b(2) names by (simp add: t5_def note_ordinal_def t4 g(1) update_buf_def t2 bookkeeping_def)
  have fr: "plan t5 = plan t" "frozen t5 = frozen t1" "memory_limit t5 = memory_limit t1" "field_index t5 = field_index t1"
    "column_order t5 = column_order t1"
    by (simp_all add: t5_def note_ordinal_def t4 g(1) update_buf_def t2)
  define u where "u = reevaluate E t5"
  have "get_buffered_value u = get_buffered_value t5"
    using b5(1) by (intro ext) (simp add: buffered_value_fields buf_fields_def u_def reevaluate_def update_buf_def Let_def)
  then have ev: "evaluate_predicate_state (ext E) u = evaluate_predicate_state (ext E) t5"
    by (intro eval_state_cong) (simp_all add: u_def reevaluate_def update_buf_def Let_def)
  obtain q where q: "plan_filter (plan t) = Some q" using f by auto
  have "put_field E name v t = Some u"
    using q b m r e p4
    by (simp add: put_field_def is_worthwhile_def unknown_frozen_def buffer_and_evaluate_def u_def t5_def t4_def Let_def split: option.splits)
  moreover have "row_buf u = Some (b5\<lparr>rb_state := evaluate_predicate_state (ext E) t5\<rparr>)"
    using b5(1) by (simp add: u_def reevaluate_def update_buf_def Let_def)
  moreover have "plan u = plan t" "frozen u = frozen t1" "memory_limit u = memory_limit t1" "field_index u = field_index t1"
    "column_order u = column_order t1" using fr by (simp_all add: u_def reevaluate_def update_buf_def Let_def)
  ultimately show ?thesis using b5 ev by simp
qed

section \<open>Draining the buffer\<close>

lemma store_at_others:
  "store_at E i v t = Some u \<Longrightarrow> j \<noteq> i \<Longrightarrow> columns u ! j = columns t ! j"
  by (auto simp: store_at_def Let_def split: bind_splits)

lemma mask_test_mark: "j \<noteq> i \<Longrightarrow> mask_test j (mask_mark i m) = mask_test j m"
  using mask_test_set(1) [of i m] by (auto simp: mask_mark_def split: option.splits)

lemma drain_fields_ok:
  assumes "tb_wf t" "distinct (map fst fs)"
    and "\<forall>(s, v) \<in> set fs. (\<exists>n. map_of (field_index t) n = Some s) \<and> cb_fits (ext E) (prepared t s) v \<and> \<not> mask_test s seen"
  shows "\<exists>u. drain_fields E fs seen t = Some u \<and> tb_wf u \<and> tb_rows u = tb_rows t \<and> kept t u \<and> row_buf u = row_buf t \<and>
    field_index u = field_index t \<and>
    cur_row u = (\<lambda>n. case Option.bind (map_of (field_index t) n) (map_of fs) of
                       None \<Rightarrow> cur_row t n | Some v \<Rightarrow> convert (ext E) (column_type (plan t) n) v)"
  using assms
proof (induction fs arbitrary: t seen)
  case (Cons sv fs)
  obtain s v where sv: "sv = (s, v)" by fastforce
  obtain n where n: "map_of (field_index t) n = Some s" "cb_fits (ext E) (prepared t s) v" "\<not> mask_test s seen"
    using Cons.prems(3) sv by auto
  obtain t1 where t1: "store_at E s v t = Some t1" "tb_wf t1" "tb_rows t1 = tb_rows t"
    "cur_row t1 = (cur_row t)(n := convert (ext E) (column_type (plan t) n) v)" "framed t t1"
    using store_at_ok [OF Cons.prems(1) n(1,2)] by blast
  define t2 where "t2 = notify_put_field s v t1"
  have c: "same_core t1 t2" by (simp add: t2_def)
  have k: "kept t t2" "row_buf t2 = row_buf t" "field_index t2 = field_index t" "plan t2 = plan t"
    using t1(5) c by (simp_all add: framed_def same_core_def kept_def) (simp_all add: t2_def)
  have "prepared t2 j = prepared t j" if "j \<noteq> s" for j
    using prepared_core [OF c] store_at_others [OF t1(1) that] t1(5) by (simp add: prepared_def framed_def)
  moreover have "j \<noteq> s" if "(j, w) \<in> set fs" for j w using Cons.prems(2) that by (force simp: sv)
  ultimately have "\<forall>(j, w) \<in> set fs. (\<exists>n. map_of (field_index t2) n = Some j) \<and> cb_fits (ext E) (prepared t2 j) w \<and>
      \<not> mask_test j (mask_mark s seen)"
    using Cons.prems(3) k(3) mask_test_mark by (fastforce simp: sv)
  from Cons.IH [OF _ _ this] t1(2) same_core_wf(1) [OF c] Cons.prems(2) obtain u where
    u: "drain_fields E fs (mask_mark s seen) t2 = Some u" "tb_wf u" "tb_rows u = tb_rows t2" "kept t2 u"
      "row_buf u = row_buf t2" "field_index u = field_index t2"
      "cur_row u = (\<lambda>n. case Option.bind (map_of (field_index t2) n) (map_of fs) of
                       None \<Rightarrow> cur_row t2 n | Some v \<Rightarrow> convert (ext E) (column_type (plan t2) n) v)"
    by (auto simp: sv)
  have only: "map_of (field_index t) k = Some s \<longleftrightarrow> k = n" for k
    using Cons.prems(1) n(1) by (auto simp: tb_wf_def index_ok_def)
  have "map_of fs s = None" using Cons.prems(2) by (simp add: sv map_of_eq_None_iff)
  then have "cur_row u m = (case Option.bind (map_of (field_index t) m) (map_of (sv # fs)) of
                       None \<Rightarrow> cur_row t m | Some v \<Rightarrow> convert (ext E) (column_type (plan t) m) v)" for m
    using only [of m] n(1) unfolding u(7) k(3,4) same_core_wf(3) [OF c] t1(4)
    by (cases "m = n"; cases "map_of (field_index t) m") (simp_all add: sv split: option.splits)
  then have cur: "cur_row u = (\<lambda>n. case Option.bind (map_of (field_index t) n) (map_of (sv # fs)) of
                       None \<Rightarrow> cur_row t n | Some v \<Rightarrow> convert (ext E) (column_type (plan t) n) v)" by blast
  have dr: "drain_fields E (sv # fs) seen t = Some u" using n(3) t1(1) u(1) by (simp add: sv t2_def)
  show ?case
  proof (intro exI [of _ u] conjI)
    show "drain_fields E (sv # fs) seen t = Some u" by (rule dr)
    show "cur_row u = (\<lambda>n. case Option.bind (map_of (field_index t) n) (map_of (sv # fs)) of
                       None \<Rightarrow> cur_row t n | Some v \<Rightarrow> convert (ext E) (column_type (plan t) n) v)" by (rule cur)
  qed (use u(2-6) k t1(3) kept_trans [OF k(1) u(4)] same_core_wf(2) [OF c] in simp_all)
qed simp


lemma pending_fields:
  assumes "row_buf t \<noteq> None" "distinct (map fst (buf_fields t))"
  shows "get_buffered_value t f = Option.bind (resolve_field (plan t) f) (pending_value t)"
  using assms(1) by (cases "row_buf t"; cases "resolve_field (plan t) f")
    (simp_all add: buffered_value_fields pending_value_def map_of_rev_distinct [OF assms(2)])

text \<open>What a value's text is in the buffer and in its column.\<close>

definition alike :: "externals \<Rightarrow> field_type \<Rightarrow> field_value \<Rightarrow> bool" where
  "alike X ty v \<longleftrightarrow> buffered_text X ty v = map_option (render X) (convert X ty v)"

definition alike_pending :: "externals \<Rightarrow> table_builder \<Rightarrow> bool" where
  "alike_pending X t \<longleftrightarrow> (\<forall>n v. pending_value t n = Some v \<longrightarrow> alike X (column_type (plan t) n) v)"

lemma reads_as_pending:
  assumes "buffering E t" "alike_pending X t"
  shows "reads_as X t (pending_row X t)"
proof -
  have b: "row_buf t \<noteq> None" "distinct (map fst (buf_fields t))"
    using assms(1) by (auto simp: buffering_def verdict_current_def buffered_ok_def split: option.splits)
  have "get_buffered_str X t f = map_option (render X) (pending_row X t (renamed (plan t) f))"
    if f: "resolve_field (plan t) f = Some r" for f r
  proof -
    have r: "renamed (plan t) f = r" using f by (simp add: resolve_field_Some)
    show ?thesis using assms(2) f pending_fields [OF b, of f]
      by (cases "pending_value t r") (simp_all add: get_buffered_str_def pending_row_def r alike_pending_def alike_def)
  qed
  then show ?thesis by (auto simp: reads_as_def)
qed

lemma core_update_buf: "tb_wf (update_buf f t) = tb_wf t" "tb_rows (update_buf f t) = tb_rows t"
  "cur_row (update_buf f t) = cur_row t" "row_dirty (update_buf f t) = row_dirty t" "kept t (update_buf f t)"
  "field_index (update_buf f t) = field_index t" "row_buf (update_buf f t) = map_option f (row_buf t)"
proof -
  have sel: "columns (update_buf f t) = columns t" "field_index (update_buf f t) = field_index t"
    "column_order (update_buf f t) = column_order t" "row_count (update_buf f t) = row_count t"
    "row_dirty (update_buf f t) = row_dirty t" "plan (update_buf f t) = plan t"
    by (simp_all add: update_buf_def)
  show "tb_wf (update_buf f t) = tb_wf t" by (simp add: tb_wf_def index_ok_def aligned_def kinds_ok_def sel)
  have r: "row_at (update_buf f t) = row_at t" by (intro ext) (auto simp: row_at_def sel split: option.splits)
  show "tb_rows (update_buf f t) = tb_rows t" "cur_row (update_buf f t) = cur_row t"
    by (simp_all add: tb_rows_def cur_row_def sel r)
qed (simp_all add: update_buf_def kept_def)

lemma drain_pass_ok:
  assumes bf: "buffering E t"
  shows "\<exists>u. drain_buffered E True t = Some u \<and> tb_wf u \<and> cur_row u = no_cells \<and> clean u \<and>
    tb_rows u = tb_rows t @ [pending_row (ext E) t] \<and> plan u = plan t \<and> frozen u = frozen t \<and> memory_limit u = memory_limit t \<and>
    rows_accepted u = Suc (rows_accepted t) \<and> rows_rejected u = rows_rejected t \<and> row_buf u \<noteq> None"
proof -
  obtain b where b: "row_buf t = Some b" "\<not> rb_direct b" and bfs: "buf_fields t = rb_fields b"
    using bf by (auto simp: buffering_def verdict_current_def buf_fields_def split: option.splits)
  have wf: "tb_wf t" and cl: "clean t" and bo: "buffered_ok E t" using bf by (simp_all add: buffering_def)
  have words: "\<not> length (row_dirty t) < mask_words (length (columns t))" using wf by (simp add: tb_wf_def aligned_def)
  have d: "distinct (map fst (rev (rb_fields b)))" using bo by (simp add: buffered_ok_def bfs rev_map [symmetric])
  have "\<forall>(s, v) \<in> set (rev (rb_fields b)). (\<exists>n. map_of (field_index t) n = Some s) \<and> cb_fits (ext E) (prepared t s) v \<and>
      \<not> mask_test s (replicate (max 1 (mask_words (length (columns t)))) 0)"
  proof (clarify)
    fix s v assume "(s, v) \<in> set (rev (rb_fields b))"
    then obtain n where n: "map_of (field_index t) n = Some s" "cb_fits (ext E) (columns t ! s) v"
      using bo by (auto simp: buffered_ok_def bfs)
    then have "s < length (columns t)" using wf by (simp add: tb_wf_def index_ok_def)
    with n clean_cells(3) [OF wf cl] show "(\<exists>n. map_of (field_index t) n = Some s) \<and> cb_fits (ext E) (prepared t s) v \<and>
      \<not> mask_test s (replicate (max 1 (mask_words (length (columns t)))) 0)"
      by (auto simp: mask_test_bit)
  qed
  from drain_fields_ok [OF wf d this] obtain w where
    w: "drain_fields E (rev (rb_fields b)) (replicate (max 1 (mask_words (length (columns t)))) 0) t = Some w"
      "tb_wf w" "tb_rows w = tb_rows t" "kept t w" "field_index w = field_index t" "row_buf w = row_buf t"
      "cur_row w = (\<lambda>n. case Option.bind (map_of (field_index t) n) (map_of (rev (rb_fields b))) of
                       None \<Rightarrow> cur_row t n | Some v \<Rightarrow> convert (ext E) (column_type (plan t) n) v)"
    by blast
  have "map_of (rev (rb_fields b)) = map_of (buf_fields t)" using d by (simp add: bfs map_of_rev_distinct rev_map [symmetric])
  then have cur: "cur_row w = pending_row (ext E) t"
    unfolding w(7) clean_cells(1) [OF wf cl]
    by (intro ext) (simp add: pending_row_def pending_value_def split: option.splits bind_splits)
  obtain x where x: "null_fill E w = Some x" using null_fill_ok [OF w(2), of E] by blast
  note c = commit_filled_ok [OF w(2) x]
  have xd: "row_dirty (commit_row x) = mask_clear (row_dirty w)"
    using x by (auto simp: null_fill_def commit_row_def notify_def split: if_splits)
  have "drain_buffered E True t = Some (clear_buffer (commit_row x))"
    using b words w(1) x by (simp add: drain_buffered_def Let_def)
  then show ?thesis using c cur w(3,4,6) xd b(1)
    by (simp add: clear_buffer_def core_update_buf core_update_buf(5) [unfolded kept_def] clean_def kept_def)
qed


lemma drain_fail_ok:
  assumes bf: "buffering E t"
  shows "\<exists>u. drain_buffered E False t = Some u \<and> tb_wf u \<and> cur_row u = no_cells \<and> clean u \<and>
    tb_rows u = tb_rows t \<and> plan u = plan t \<and> frozen u = frozen t \<and> memory_limit u = memory_limit t \<and>
    rows_accepted u = rows_accepted t \<and> rows_rejected u = Suc (rows_rejected t) \<and> row_buf u \<noteq> None"
proof -
  obtain b where b: "row_buf t = Some b"
    using bf by (auto simp: buffering_def verdict_current_def split: option.splits)
  define w where "w = t\<lparr>row_dirty := mask_clear (row_dirty t), rows_rejected := rows_rejected t + 1\<rparr>"
  have wf: "tb_wf t" and cl: "clean t" using bf by (simp_all add: buffering_def)
  have sel: "columns w = columns t" "field_index w = field_index t" "column_order w = column_order t"
    "row_count w = row_count t" "plan w = plan t" "row_dirty w = mask_clear (row_dirty t)" "frozen w = frozen t"
    "memory_limit w = memory_limit t" "rows_accepted w = rows_accepted t" "rows_rejected w = Suc (rows_rejected t)"
    "row_buf w = Some b"
    by (simp_all add: w_def b)
  have "tb_wf w" using wf cl by (simp add: tb_wf_def index_ok_def aligned_def kinds_ok_def sel clean_def)
  moreover have r: "row_at w = row_at t" by (intro ext) (auto simp: row_at_def sel split: option.splits)
  have "tb_rows w = tb_rows t" "cur_row w = no_cells"
    using clean_cells(1) [OF wf cl] by (simp_all add: tb_rows_def cur_row_def sel r)
  moreover have c: "same_core w (notify (On_row_rejected (row_count t)) w)" by simp
  moreover have "drain_buffered E False t = Some (clear_buffer (notify (On_row_rejected (row_count t)) w))"
    by (simp add: drain_buffered_def b w_def)
  ultimately show ?thesis using same_core_wf [OF c] sel
    by (simp add: clear_buffer_def core_update_buf core_update_buf(5) [unfolded kept_def] clean_def notify_def)
qed

text \<open>The end of a buffered row: appended when the filter holds of it, dropped otherwise.\<close>

lemma end_buffered_ok:
  assumes bf: "buffering E t" and f: "plan_filter (plan t) = Some f" "patient f" "text_filter (plan t) f"
    and m: "unbudgeted t" and al: "alike_pending (ext E) t"
  shows "\<exists>u. end_row E t = Some u \<and> tb_wf u \<and> cur_row u = no_cells \<and> clean u \<and>
    tb_rows u = (if accepts (ext E) (plan t) (pending_row (ext E) t) then tb_rows t @ [pending_row (ext E) t] else tb_rows t) \<and>
    plan u = plan t \<and> frozen u = frozen t \<and> memory_limit u = memory_limit t \<and> row_buf u \<noteq> None"
proof -
  let ?r = "pending_row (ext E) t"
  obtain b where b: "row_buf t = Some b" "\<not> rb_direct b" "rb_worthwhile b"
    "rb_state b \<noteq> Undecided \<longrightarrow> rb_state b = evaluate_predicate_state (ext E) t"
    using bf by (auto simp: buffering_def verdict_current_def split: option.splits)
  define final where "final = (if rb_state b = Undecided then evaluate_against_null (ext E) t else rb_state b)"
  have "final = eval_predicate_with_null (ext E) t f"
    using b(4) f eval_confirmed [OF f(2), of "ext E" t]
    by (auto simp: final_def evaluate_against_null_def evaluate_predicate_state_def)
  also have "\<dots> = verdict (accepts (ext E) (plan t) ?r)"
    using text_filter_verdict [OF reads_as_pending [OF bf al] f(3)] f(1) by (simp add: accepts_def)
  finally have fin: "final = verdict (accepts (ext E) (plan t) ?r)" .
  have e: "end_row E t = drain_buffered E (accepts (ext E) (plan t) ?r) t"
    using m f(1) b fin by (simp add: end_row_def is_worthwhile_def is_direct_def final_def [symmetric] Let_def verdict_def)
  show ?thesis
  proof (cases "accepts (ext E) (plan t) ?r")
    case True
    with drain_pass_ok [OF bf] e show ?thesis by auto
  next
    case False
    with drain_fail_ok [OF bf] e show ?thesis by auto
  qed
qed


section \<open>Whole rows and tables\<close>

text \<open>A record that names no output field twice and whose values read alike in buffer and column.\<close>

definition buffered_record :: "externals \<Rightarrow> execution_plan \<Rightarrow> (string \<times> field_value) list \<Rightarrow> bool" where
  "buffered_record X p kvs \<longleftrightarrow> distinct (List.map_filter (\<lambda>(k, _). resolve_field p k) kvs) \<and>
     (\<forall>(k, v) \<in> set kvs. \<forall>n. resolve_field p k = Some n \<longrightarrow> alike X (column_type p n) v)"

lemma put_all_buffered:
  assumes "buffering E t" "plan_filter (plan t) = Some f" "patient f" "unbudgeted t" "\<not> is_exact_frozen t"
    "puts_fit E kvs t" "buffered_record (ext E) (plan t) kvs" "alike_pending (ext E) t"
    "\<forall>n \<in> set (List.map_filter (\<lambda>(k, _). resolve_field (plan t) k) kvs). pending_value t n = None"
  shows "\<exists>u. put_all E kvs t = Some u \<and> buffering E u \<and> tb_rows u = tb_rows t \<and> kept t u \<and> alike_pending (ext E) u \<and>
    pending_row (ext E) u = written (ext E) (plan t) kvs (pending_row (ext E) t) \<and> verdict_stays t u \<and>
    (\<forall>n. n \<notin> set (List.map_filter (\<lambda>(k, _). resolve_field (plan t) k) kvs) \<longrightarrow> pending_value u n = pending_value t n)"
  using assms
proof (induction kvs arbitrary: t)
  case (Cons kv kvs)
  obtain k v where kv: "kv = (k, v)" by fastforce
  have wt: "row_buf t \<noteq> None" "is_worthwhile t"
    using Cons.prems(1) by (auto simp: buffering_def verdict_current_def is_worthwhile_def split: option.splits)
  show ?case
  proof (cases "resolve_field (plan t) k")
    case None
    have "put_field E k v t = Some t" using None wt Cons.prems(2,4) by (simp add: put_field_def)
    moreover have "buffered_record (ext E) (plan t) kvs" using Cons.prems(7) None
      by (simp add: buffered_record_def kv map_filter_simps)
    ultimately show ?thesis using Cons.IH [of t] Cons.prems None by (simp add: kv map_filter_simps)
  next
    case (Some n)
    have fits: "put_fits E n v t" and al: "alike (ext E) (column_type (plan t) n) v" and free: "pending_value t n = None"
      using Cons.prems(6,7,9) Some by (simp_all add: kv buffered_record_def map_filter_simps)
    from put_field_buffered [OF Cons.prems(1-5) Some fits free] obtain u where
      u: "put_field E k v t = Some u" "buffering E u" "tb_rows u = tb_rows t" "kept t u"
        "pending_value u = (pending_value t)(n \<mapsto> v)" "verdict_stays t u" by blast
    have p: "plan u = plan t" "unbudgeted u" "\<not> is_exact_frozen u"
      using u(4) Cons.prems(4,5) by (simp_all add: kept_def unbudgeted_def is_exact_frozen_def)
    have rec: "buffered_record (ext E) (plan u) kvs" "n \<notin> set (List.map_filter (\<lambda>(k, _). resolve_field (plan t) k) kvs)"
      using Cons.prems(7) Some by (simp_all add: buffered_record_def kv map_filter_simps p)
    have "alike_pending (ext E) u" using Cons.prems(8) al u(5) p(1) by (simp add: alike_pending_def)
    moreover have "puts_fit E kvs u" using Cons.prems(6) u(1) by (simp add: kv)
    moreover have "\<forall>m \<in> set (List.map_filter (\<lambda>(k, _). resolve_field (plan u) k) kvs). pending_value u m = None"
      using Cons.prems(9) rec(2) Some u(5) p(1) by (auto simp: kv map_filter_simps)
    ultimately obtain w where w: "put_all E kvs u = Some w" "buffering E w" "tb_rows w = tb_rows u" "kept u w" "alike_pending (ext E) w"
      "pending_row (ext E) w = written (ext E) (plan u) kvs (pending_row (ext E) u)" "verdict_stays u w"
      "\<forall>m. m \<notin> set (List.map_filter (\<lambda>(k, _). resolve_field (plan u) k) kvs) \<longrightarrow> pending_value w m = pending_value u m"
      using Cons.IH [OF u(2) _ Cons.prems(3) p(2,3) _ rec(1)] Cons.prems(2) p(1) by auto
    have "pending_row (ext E) u = (pending_row (ext E) t)(n := convert (ext E) (column_type (plan t) n) v)"
      using u(5) p(1) by (intro ext) (simp add: pending_row_def)
    moreover have "verdict_stays t w" using u(6) w(7) by (auto simp: verdict_stays_def)
    moreover have "\<forall>m. m \<notin> set (List.map_filter (\<lambda>(k, _). resolve_field (plan t) k) (kv # kvs)) \<longrightarrow> pending_value w m = pending_value t m"
      using w(8) u(5) Some p(1) by (simp add: kv map_filter_simps)
    ultimately show ?thesis using w u(1,3) kept_trans [OF u(4) w(4)] Some p(1) by (simp add: kv)
  qed
qed (simp add: verdict_stays_def)


text \<open>Between rows of a filtered parse.\<close>

definition between :: "execution_plan \<Rightarrow> table_builder \<Rightarrow> bool" where
  "between p t \<longleftrightarrow> tb_wf t \<and> clean t \<and> unbudgeted t \<and> \<not> is_exact_frozen t \<and> plan t = p \<and> row_buf t \<noteq> None"

lemma begin_row_shape:
  assumes "unbudgeted t" "row_buf t = Some b"
  shows "\<exists>b'. row_buf (begin_row E t) = Some b' \<and> rb_fields b' = [] \<and> rb_state b' = Undecided \<and> \<not> rb_direct b'"
    "row_dirty (begin_row E t) = row_dirty t"
  using assms by (simp_all add: begin_row_def update_buf_def notify_def Let_def)

lemma begin_buffering:
  assumes bt: "between p t" and w: "is_worthwhile (begin_row E t)"
  shows "buffering E (begin_row E t) \<and> pending_value (begin_row E t) = Map.empty"
proof -
  obtain b where b: "row_buf t = Some b" and m: "unbudgeted t" using bt by (auto simp: between_def)
  obtain b' where b': "row_buf (begin_row E t) = Some b'" "rb_fields b' = []" "rb_state b' = Undecided" "\<not> rb_direct b'"
    using begin_row_shape [OF m b] by blast
  have f: "buf_fields (begin_row E t) = []" using b' by (simp add: buf_fields_def)
  have "pending_value (begin_row E t) = Map.empty"
    by (rule ext) (simp add: pending_value_def f split: bind_splits)
  moreover have "buffered_ok E (begin_row E t)" "verdict_current E (begin_row E t)"
    using b' w by (simp_all add: buffered_ok_def f verdict_current_def is_worthwhile_def)
  ultimately show ?thesis using bt begin_row_core(1) [OF m] begin_row_shape(2) [OF m b]
    by (simp add: buffering_def between_def clean_def)
qed

lemma parse_row_filtered:
  assumes bt: "between p t" and f: "plan_filter p = Some f" "patient f" "text_filter p f"
    and fits: "puts_fit E kvs (begin_row E t)" and rec: "buffered_record (ext E) p kvs"
  shows "\<exists>u. parse_row E kvs t = Some u \<and> between p u \<and>
    tb_rows u = (if accepts (ext E) p (written (ext E) p kvs no_cells)
                 then tb_rows t @ [written (ext E) p kvs no_cells] else tb_rows t)"
proof -
  have bt': "tb_wf t" "clean t" "unbudgeted t" "\<not> is_exact_frozen t" "plan t = p" "row_buf t \<noteq> None"
    using bt by (simp_all add: between_def)
  note b = begin_row_core [OF bt'(3), of E]
  show ?thesis
  proof (cases "is_worthwhile (begin_row E t)")
    case True
    let ?t = "begin_row E t"
    have bf: "buffering E ?t" and none: "pending_value ?t = Map.empty" using begin_buffering [OF bt True] by simp_all
    have "pending_row (ext E) ?t = no_cells" by (rule ext) (simp add: pending_row_def none)
    with put_all_buffered [OF bf _ f(2) b(5) _ fits, unfolded b(6) bt'(5)] f(1) b(7) bt'(4) rec none
    obtain w where w: "put_all E kvs ?t = Some w" "buffering E w" "tb_rows w = tb_rows ?t" "kept ?t w" "alike_pending (ext E) w"
      "pending_row (ext E) w = written (ext E) p kvs no_cells"
      by (auto simp: alike_pending_def)
    have pw: "plan w = p" "unbudgeted w" "frozen w = frozen ?t"
      using w(4) b(5,6) bt'(5) by (simp_all add: kept_def unbudgeted_def)
    obtain u where u: "end_row E w = Some u" "tb_wf u" "cur_row u = no_cells" "clean u"
      "tb_rows u = (if accepts (ext E) p (written (ext E) p kvs no_cells)
         then tb_rows w @ [written (ext E) p kvs no_cells] else tb_rows w)"
      "plan u = plan w" "frozen u = frozen w" "memory_limit u = memory_limit w" "row_buf u \<noteq> None"
      using end_buffered_ok [OF w(2) _ f(2) _ pw(2) w(5), unfolded pw(1) w(6), OF f(1,3)] pw(1) by auto
    have "\<not> is_exact_frozen u" using u(7) pw(3) b(7) bt'(4) by (simp add: is_exact_frozen_def)
    then have "between p u" using u pw by (simp add: between_def unbudgeted_def)
    with u w(1,3) b(2) show ?thesis by (simp add: parse_row_def)
  next
    case False
    then have d: "direct_path (begin_row E t)" by (simp add: direct_path_def)
    have clean_row: "cur_row t = no_cells" using clean_cells(1) [OF bt'(1,2)] .
    from parse_row_direct [OF bt'(1,3) d bt'(4) clean_row fits] bt'(5) obtain u where
      u: "parse_row E kvs t = Some u" "tb_wf u" "plan u = p" "unbudgeted u" "\<not> is_exact_frozen u" "direct_path u"
        "tb_rows u = (if accepts (ext E) p (written (ext E) p kvs no_cells)
                 then tb_rows t @ [written (ext E) p kvs no_cells] else tb_rows t)"
      using bt'(4) by auto
    have nw: "\<not> is_worthwhile u" using u(3,6) f(1) by (simp add: direct_path_def)
    then have "row_buf u \<noteq> None" by (auto simp: is_worthwhile_def split: option.splits)
    moreover have "clean u"
    proof -
      obtain w where w: "put_all E kvs (begin_row E t) = Some w" "end_row E w = Some u"
        using u(1) by (auto simp: parse_row_def split: bind_splits)
      obtain w' where "put_all E kvs (begin_row E t) = Some w'" "stays (begin_row E t) w'"
        using put_all_ok [OF _ b(5) d b(4) _ fits] b(1,7) bt'(1,4) by auto
      with w(1) have "unbudgeted w" "direct_path w" using stays_path(1,2) b(5) d by auto
      then have "finish_row E w = Some u" using w(2) by (simp add: end_row_def direct_path_def)
      then show ?thesis by (auto simp: finish_row_def null_fill_def commit_row_def notify_def clean_def
          split: bind_splits option.splits if_splits)
    qed
    ultimately show ?thesis using u by (auto simp: between_def)
  qed
qed

lemma parse_rows_filtered:
  assumes "between p t" "plan_filter p = Some f" "patient f" "text_filter p f"
    "rows_fit E recs t" "list_all (buffered_record (ext E) p) recs"
  shows "\<exists>u. parse_rows E recs t = Some u \<and> between p u \<and>
    tb_rows u = tb_rows t @ filter (accepts (ext E) p) (map (\<lambda>kvs. written (ext E) p kvs no_cells) recs)"
  using assms
proof (induction recs arbitrary: t)
  case (Cons kvs recs)
  have r: "puts_fit E kvs (begin_row E t)" "buffered_record (ext E) p kvs" using Cons.prems(5,6) by simp_all
  from parse_row_filtered [OF Cons.prems(1-4) r] obtain u where u: "parse_row E kvs t = Some u" "between p u"
    "tb_rows u = (if accepts (ext E) p (written (ext E) p kvs no_cells)
                 then tb_rows t @ [written (ext E) p kvs no_cells] else tb_rows t)" by blast
  have "rows_fit E recs u" using Cons.prems(5) u(1) by simp
  from Cons.IH [OF u(2) Cons.prems(2-4) this] Cons.prems(6) u show ?case by auto
qed simp

lemma between_start: "plan_filter p = Some f \<Longrightarrow> between p (tb_with_plan cap p)"
  using tb_with_plan_ok [of cap p] by (simp add: between_def clean_def setup_of_def unbudgeted_def is_exact_frozen_def)

end
