(* ===== verification/Table_Properties.thy ===== *)
theory Table_Properties
  imports Table_Parse
begin

text \<open>
  What the engine promises about the table it builds: a put sets one cell, a row ends appended or
  filtered out, a whole parse gives the records' rows, a finished batch exports exactly them,
  and batches split off without losing rows.
\<close>

section \<open>Puts and rows\<close>

text \<open>
  Putting a field on the direct path never panics, leaves the committed rows alone and sets exactly
  one cell of the current row: the one of the output name, to the value as its column's type
  reads it. A second put to the same field replaces the first.
\<close>

theorem put_sets_one_cell:
  assumes "tb_wf t" "unbudgeted t" "direct_path t" "\<not> is_direct t" "\<not> is_exact_frozen t"
    and "resolve_field (plan t) name = Some n" "put_fits E n v t"
  shows "\<exists>u. put_field E name v t = Some u \<and> tb_wf u \<and> tb_rows u = tb_rows t \<and>
    cur_row u = (cur_row t)(n := convert (ext E) (column_type (plan t) n) v)"
  using put_field_ok [OF assms(1-5), of name E v] assms(6,7) by auto

text \<open>The sample plan: an integer column, renamed.\<close>

definition sample_env :: env where
  "sample_env = \<lparr>ext = sample_externals, capacity_bytes = (\<lambda>_. 0)\<rparr>"

definition sample_plan :: execution_plan where
  "sample_plan = plan_new\<lparr>field_types := [(''b'', FT_Int64)], field_map := [(''a'', ''b'')]\<rparr>"

lemma sample_plan_simps [simp]:
  "resolve_field sample_plan ''a'' = Some ''b''" "column_type sample_plan ''b'' = FT_Int64"
  "plan_filter sample_plan = None" "schema_order sample_plan = []" "strict_types sample_plan = False"
  by (simp_all add: sample_plan_def plan_new_def resolve_field_def column_type_def contains_key_def renamed_def)

lemma sample_table:
  "tb_wf (tb_with_plan 0 sample_plan)" "unbudgeted (tb_with_plan 0 sample_plan)" "direct_path (tb_with_plan 0 sample_plan)"
  "\<not> is_direct (tb_with_plan 0 sample_plan)" "\<not> is_exact_frozen (tb_with_plan 0 sample_plan)"
  "plan (tb_with_plan 0 sample_plan) = sample_plan" "cur_row (tb_with_plan 0 sample_plan) = no_cells"
  "tb_rows (tb_with_plan 0 sample_plan) = []" "errors (tb_with_plan 0 sample_plan) = (None, None)"
  using tb_with_plan_ok [of 0 sample_plan]
  by (auto simp: setup_of_def unbudgeted_def direct_path_def is_direct_def is_exact_frozen_def errors_def)

theorem put_sets_one_cell_witness:
  "\<exists>u. put_field sample_env ''a'' (Str ''42'') (tb_with_plan 0 sample_plan) = Some u \<and> tb_wf u \<and> tb_rows u = [] \<and>
     cur_row u = no_cells(''b'' := Some (TV_Int64 42))"
proof -
  have "convert (ext sample_env) FT_Int64 (Str ''42'') = Some (TV_Int64 42)"
    unfolding convert_def sample_env_def sample_externals_def by code_simp
  moreover have "put_fits sample_env ''b'' (Str ''42'') (tb_with_plan 0 sample_plan)"
    using sample_table by (intro put_fits_inline) (simp_all add: name_known_def inline_type_def)
  ultimately show ?thesis
    using put_sets_one_cell [OF sample_table(1-5), of "''a''" "''b''" sample_env "Str ''42''"] sample_table(6-8) by simp
qed

text \<open>
  C14. Ending a row on the direct path never panics. The row is appended, with a null in every column it
  did not set, exactly when the filter holds of it; otherwise the table is what it was. Either
  way the counters count it once and the next row starts empty.
\<close>

theorem row_end_filters:
  assumes "tb_wf t"
  shows "\<exists>u. finish_row E t = Some u \<and> tb_wf u \<and> cur_row u = no_cells \<and>
    tb_rows u = (if accepts (ext E) (plan t) (cur_row t) then tb_rows t @ [cur_row t] else tb_rows t) \<and>
    rows_accepted u + rows_rejected u = Suc (rows_accepted t + rows_rejected t) \<and>
    (rows_accepted u = Suc (rows_accepted t) \<longleftrightarrow> accepts (ext E) (plan t) (cur_row t))"
proof -
  obtain u where u: "finish_row E t = Some u" "tb_wf u" "cur_row u = no_cells"
    "tb_rows u = (if accepts (ext E) (plan t) (cur_row t) then tb_rows t @ [cur_row t] else tb_rows t)"
    "rows_accepted u = rows_accepted t + (if accepts (ext E) (plan t) (cur_row t) then 1 else 0)"
    "rows_rejected u = rows_rejected t + (if accepts (ext E) (plan t) (cur_row t) then 0 else 1)"
    using finish_row_ok [OF assms, of E] by blast
  then show ?thesis by (cases "accepts (ext E) (plan t) (cur_row t)") simp_all
qed

theorem row_end_filters_witness:
  "\<exists>u. finish_row sample_env (tb_with_plan 0 (plan_new\<lparr>plan_filter := Some (NotField ''a'')\<rparr>)) = Some u \<and>
     tb_rows u = [no_cells] \<and> rows_accepted u = 1"
proof -
  let ?p = "plan_new\<lparr>plan_filter := Some (NotField ''a'')\<rparr>"
  let ?t = "tb_with_plan 0 ?p"
  have t: "tb_wf ?t" "tb_rows ?t = []" "cur_row ?t = no_cells" "plan ?t = ?p" "rows_accepted ?t = 0"
    using tb_with_plan_ok [of 0 ?p] by (simp_all add: setup_of_def)
  have "accepts (ext sample_env) ?p no_cells"
    by (simp add: text_that_def accepts_def row_view_of_def text_at_def cell_at_def)
  with row_end_filters [OF t(1), of sample_env] t(2-5) show ?thesis by auto
qed

text \<open>
  C10. Parsing a list of records with a new builder for a plan without a filter never panics, and the
  table is the list of the rows the records stand for, in their order: dropped and unprojected
  fields vanish, renamed ones are under their output name, each cell is read by its column's
  type, absent fields are null and columns that appear late are null before.
\<close>

theorem parse_gives_rows:
  assumes "plan_filter p = None" "rows_fit E recs (tb_with_plan cap p)"
  shows "\<exists>t. parse_rows E recs (tb_with_plan cap p) = Some t \<and> tb_wf t \<and>
    tb_rows t = map (\<lambda>kvs. written (ext E) p kvs no_cells) recs"
proof -
  let ?t = "tb_with_plan cap p"
  have t: "tb_wf ?t" "tb_rows ?t = []" "cur_row ?t = no_cells" "plan ?t = p" "unbudgeted ?t" "direct_path ?t"
    "\<not> is_exact_frozen ?t"
    using tb_with_plan_ok [of cap p] assms(1) by (auto simp: setup_of_def unbudgeted_def direct_path_def is_exact_frozen_def)
  have all: "filter (accepts (ext E) p) xs = xs" for xs using assms(1) by (simp add: accepts_def)
  from parse_rows_direct [OF t(1,5,6,7,3) assms(2)] t(2,4) all show ?thesis by auto
qed

theorem parse_gives_rows_witness:
  "\<exists>t. parse_rows sample_env [[(''a'', Str ''1'')], [], [(''a'', Int64 2)]] (tb_with_plan 0 sample_plan) = Some t \<and>
     tb_rows t = [no_cells(''b'' := Some (TV_Int64 1)), no_cells, no_cells(''b'' := Some (TV_Int64 2))]"
proof -
  let ?recs = "[[(''a'', Str ''1'')], [], [(''a'', Int64 2)]]"
  have "rows_fit sample_env ?recs (tb_with_plan 0 sample_plan)"
    using sample_table by (intro rows_fit_inline) (simp_all add: inline_record_def inline_type_def)
  moreover have "convert (ext sample_env) FT_Int64 (Str ''1'') = Some (TV_Int64 1)"
    "convert (ext sample_env) FT_Int64 (Int64 2) = Some (TV_Int64 2)"
    unfolding convert_def sample_env_def sample_externals_def by code_simp+
  ultimately show ?thesis using parse_gives_rows [of sample_plan sample_env ?recs 0] by auto
qed


section \<open>Batches\<close>

text \<open>
  Finishing a well-formed table without errors gives a batch that has exactly the expected
  columns in order (the declared schema without dropped fields, or all columns in the order they
  are kept), and each exports the cells of the committed rows, one for every row: a partial row
  is left out, declared columns that never appeared are all null, and a dictionary upgrade
  changes no cell. Without rows every declared decimal scale has to be one that arrow takes.
\<close>

theorem finish_exports_rows:
  assumes "tb_wf t" "unbudgeted t" "unknown_error t = None" "strict_error t = None"
    and "row_count t + 2 < 2 ^ 31" "column_order t \<noteq> []" "batch_names t \<noteq> []" "distinct (schema_order (plan t))"
    and "0 < row_count t \<or> scales_fit (plan t)"
  shows "\<exists>b u. finish E t = Some (Inr b, u) \<and> map fst b = batch_names t \<and>
    (\<forall>(n, a) \<in> set b. acells a = map (\<lambda>r. r n) (tb_rows t))"
  using finish_ok [OF assms] .

text \<open>A table for the examples: a schema of one integer column.\<close>

definition declared_plan :: execution_plan where
  "declared_plan = plan_new\<lparr>field_types := [(''b'', FT_Int64)], schema_order := [''b'']\<rparr>"

lemma declared_table:
  "tb_wf (tb_with_plan 0 declared_plan)" "unbudgeted (tb_with_plan 0 declared_plan)"
  "direct_path (tb_with_plan 0 declared_plan)" "\<not> is_exact_frozen (tb_with_plan 0 declared_plan)"
  "plan (tb_with_plan 0 declared_plan) = declared_plan" "cur_row (tb_with_plan 0 declared_plan) = no_cells"
  "tb_rows (tb_with_plan 0 declared_plan) = []" "unknown_error (tb_with_plan 0 declared_plan) = None"
  "strict_error (tb_with_plan 0 declared_plan) = None" "column_order (tb_with_plan 0 declared_plan) = [''b'']"
  "row_count (tb_with_plan 0 declared_plan) = 0"
proof -
  show "tb_wf (tb_with_plan 0 declared_plan)" "unbudgeted (tb_with_plan 0 declared_plan)"
    "direct_path (tb_with_plan 0 declared_plan)" "\<not> is_exact_frozen (tb_with_plan 0 declared_plan)"
    "plan (tb_with_plan 0 declared_plan) = declared_plan" "cur_row (tb_with_plan 0 declared_plan) = no_cells"
    "tb_rows (tb_with_plan 0 declared_plan) = []" "unknown_error (tb_with_plan 0 declared_plan) = None"
    "strict_error (tb_with_plan 0 declared_plan) = None"
    using tb_with_plan_ok [of 0 declared_plan]
    by (auto simp: setup_of_def unbudgeted_def direct_path_def is_direct_def is_exact_frozen_def declared_plan_def plan_new_def)
  show "column_order (tb_with_plan 0 declared_plan) = [''b'']" "row_count (tb_with_plan 0 declared_plan) = 0"
    by (simp_all add: tb_with_plan_def predeclare_schema_columns_def declared_plan_def plan_new_def predeclare_names_def
        tb_with_capacity_def declare_column_def add_column_def cover_columns_def contains_key_def Let_def)
qed

theorem finish_exports_rows_witness:
  "\<exists>b u. finish sample_env (tb_with_plan 0 declared_plan) = Some (Inr b, u) \<and> map fst b = [''b'']"
  using finish_exports_rows [OF declared_table(1,2,8,9), of sample_env] declared_table
  by (auto simp: batch_names_def declared_plan_def plan_new_def scales_fit_def)

text \<open>
  C3. From records to the batch, for a plan without filter and without strict types whose declared names are
  distinct, and records whose values fit the columns: if there are records, or every declared decimal
  scale is at most 38 (an empty decimal column of a larger scale fails the export), then parsing
  never panics, and once there is a column to emit finishing gives a batch in which column \<open>n\<close> lists,
  record by record, the last value the record gives the field of that name.
\<close>

theorem parse_then_finish:
  assumes "plan_filter p = None" "\<not> strict_types p" "distinct (schema_order p)" "rows_fit E recs (tb_with_plan cap p)"
    and "length recs + 2 < 2 ^ 31" "recs \<noteq> [] \<or> scales_fit p"
  shows "\<exists>t. parse_rows E recs (tb_with_plan cap p) = Some t \<and>
    (column_order t \<noteq> [] \<and> batch_names t \<noteq> [] \<longrightarrow>
      (\<exists>b u. finish E t = Some (Inr b, u) \<and> map fst b = batch_names t \<and>
        (\<forall>(n, a) \<in> set b. acells a = map (\<lambda>kvs. written (ext E) p kvs no_cells n) recs)))"
proof -
  let ?t = "tb_with_plan cap p"
  have t: "tb_wf ?t" "tb_rows ?t = []" "cur_row ?t = no_cells" "plan ?t = p" "unbudgeted ?t" "direct_path ?t"
    "\<not> is_exact_frozen ?t" "errors ?t = (None, None)"
    using tb_with_plan_ok [of cap p] assms(1)
    by (auto simp: setup_of_def unbudgeted_def direct_path_def is_exact_frozen_def errors_def)
  have all: "filter (accepts (ext E) p) xs = xs" for xs using assms(1) by (simp add: accepts_def)
  from parse_rows_direct [OF t(1,5,6,7,3) assms(4)] t(2,4) all obtain u where
    u: "parse_rows E recs ?t = Some u" "tb_wf u" "plan u = p"
      "tb_rows u = map (\<lambda>kvs. written (ext E) p kvs no_cells) recs" by auto
  have "errors u = (None, None) \<and> unbudgeted u"
    using errors_parse_rows [OF t(1,5,6,7,3) _ assms(4) u(1)] t(4,8) assms(2) by simp
  then have e: "unknown_error u = None" "strict_error u = None" "unbudgeted u" by (simp_all add: errors_def)
  have rc: "row_count u = length recs" using arg_cong [OF u(4), of length] by (simp add: tb_rows_def)
  then have n: "row_count u + 2 < 2 ^ 31" using assms(5) by simp
  have d: "distinct (schema_order (plan u))" using assms(3) u(3) by simp
  have "\<exists>b w. finish E u = Some (Inr b, w) \<and> map fst b = batch_names u \<and>
      (\<forall>(m, a) \<in> set b. acells a = map (\<lambda>kvs. written (ext E) p kvs no_cells m) recs)"
    if "column_order u \<noteq> []" "batch_names u \<noteq> []"
    using finish_ok [OF u(2) e(3,1,2) n that d, of E] assms(6) rc by (simp add: u(3,4) comp_def)
  with u(1) show ?thesis by auto
qed

theorem parse_then_finish_witness:
  "\<exists>t. parse_rows sample_env [[(''b'', Str ''1'')], []] (tb_with_plan 0 declared_plan) = Some t \<and>
     (column_order t \<noteq> [] \<longrightarrow> (\<exists>b u. finish sample_env t = Some (Inr b, u)))"
proof -
  let ?recs = "[[(''b'', Str ''1'')], []]"
  have p: "plan_filter declared_plan = None" "\<not> strict_types declared_plan" "distinct (schema_order declared_plan)"
    "resolve_field declared_plan ''b'' = Some ''b''" "column_type declared_plan ''b'' = FT_Int64"
    by (simp_all add: declared_plan_def plan_new_def resolve_field_def column_type_def contains_key_def renamed_def)
  have fit: "rows_fit sample_env ?recs (tb_with_plan 0 declared_plan)"
    using declared_table p by (intro rows_fit_inline) (simp_all add: inline_record_def inline_type_def)
  obtain u where u: "parse_rows sample_env ?recs (tb_with_plan 0 declared_plan) = Some u" "plan u = declared_plan"
    using parse_rows_direct [OF declared_table(1-4,6) fit] declared_table(5) by auto
  have "batch_names u \<noteq> []" by (simp add: batch_names_def u(2)) (simp add: declared_plan_def plan_new_def)
  with parse_then_finish [OF p(1-3) fit] u(1) show ?thesis by fastforce
qed

text \<open>
  Normalising drops exactly the partial row: the committed rows stay, every column is as long as
  their number, and the current row is empty.
\<close>

theorem normalize_drops_partial:
  assumes "tb_wf t"
  shows "tb_wf (normalize t) \<and> tb_rows (normalize t) = tb_rows t \<and> cur_row (normalize t) = no_cells \<and>
    (\<forall>c \<in> set (columns (normalize t)). cb_len c = row_count t)"
  using normalize_ok [OF assms] by blast

theorem normalize_drops_partial_witness:
  "tb_rows (normalize (tb_with_plan 0 sample_plan)) = [] \<and> cur_row (normalize (tb_with_plan 0 sample_plan)) = no_cells"
  using normalize_drops_partial [OF sample_table(1)] sample_table(8) by simp


section \<open>Splitting a batch off\<close>

lemma those_split:
  assumes "\<forall>c \<in> set cs. n \<le> cb_len c"
  shows "those (map (cb_split_off n) cs) = Some (map (cb_split_at n) cs)"
  using assms by (induction cs) (simp_all add: cb_split_off_def)

lemma split_column:
  assumes "cb_ok c" "0 < n" "n \<le> cb_len c"
  shows "cb_ok (fst (cb_split_at n c))" "cb_ok (snd (cb_split_at n c))"
    "cb_len (fst (cb_split_at n c)) = n" "cb_len (snd (cb_split_at n c)) = cb_len c - n"
    "r < n \<Longrightarrow> get_typed_value (fst (cb_split_at n c)) r = get_typed_value c r"
    "get_typed_value (snd (cb_split_at n c)) r = get_typed_value c (n + r)"
proof -
  note s = cb_split_at_ok [OF assms]
  show "cb_ok (fst (cb_split_at n c))" "cb_ok (snd (cb_split_at n c))" using s by simp_all
  show l: "cb_len (fst (cb_split_at n c)) = n" "cb_len (snd (cb_split_at n c)) = cb_len c - n"
    using s assms(3) by (metis length_cb_rows length_take min.absorb2, metis length_cb_rows length_drop)
  show "r < n \<Longrightarrow> get_typed_value (fst (cb_split_at n c)) r = get_typed_value c r"
    "get_typed_value (snd (cb_split_at n c)) r = get_typed_value c (n + r)"
    using s assms(3) l by (auto simp: get_typed_value_rows)
qed

lemma zero_mask [simp]: "\<not> mask_test i (replicate n 0)"
  by (simp add: mask_test_bit)

text \<open>One half of a split: the columns \<open>f\<close> of the parts, a count and a clean mask.\<close>

lemma split_half_wf:
  assumes wf: "tb_wf t" and u: "columns u = map f (columns t)" "field_index u = field_index t"
    "column_order u = column_order t" "row_dirty u = replicate (mask_words (length (columns t))) 0" "plan u = plan t"
    and f: "\<And>c. c \<in> set (columns t) \<Longrightarrow> cb_ok (f c) \<and> cb_len (f c) = row_count u \<and> cb_kind (f c) = cb_kind c"
  shows "tb_wf u"
proof -
  have inr: "i < length (columns t)" if "map_of (field_index t) n = Some i" for n i
    using wf that by (simp add: tb_wf_def index_ok_def)
  have "index_ok u" using wf by (simp add: tb_wf_def index_ok_def u)
  moreover have "aligned u" using f by (simp add: aligned_def u)
  moreover have "kinds_ok u" using wf f inr by (simp add: tb_wf_def kinds_ok_def u)
  ultimately show ?thesis using f by (auto simp: tb_wf_def u)
qed

text \<open>What a split leaves alone in both halves.\<close>

definition split_frame :: "nat \<Rightarrow> table_builder \<Rightarrow> table_builder \<Rightarrow> table_builder \<Rightarrow> bool" where
  "split_frame n t a b \<longleftrightarrow> plan a = plan t \<and> plan b = plan t \<and> column_order a = column_order t \<and> column_order b = column_order t \<and>
     row_count a = n \<and> row_count b = row_count t - n \<and> memory_limit a = memory_limit t \<and> memory_limit b = memory_limit t \<and>
     frozen a = frozen t \<and> frozen b = frozen t \<and> unknown_error a = None \<and> strict_error a = None \<and>
     unknown_error b = unknown_error t \<and> strict_error b = strict_error t \<and> row_buf b = row_buf t \<and>
     row_dirty b = replicate (mask_words (length (columns t))) 0"

lemma split_off_frame: "tb_split_off n t = Some (a, b) \<Longrightarrow> split_frame n t a b"
  by (auto simp: tb_split_off_def Let_def split_frame_def split: bind_splits if_splits)

lemma split_ok:
  assumes "tb_wf t" "0 < n" "n \<le> row_count t" "\<forall>i. \<not> mask_test i (row_dirty t)"
  shows "\<exists>a b. tb_split_off n t = Some (a, b) \<and> tb_wf a \<and> tb_wf b \<and>
    tb_rows a = take n (tb_rows t) \<and> tb_rows b = drop n (tb_rows t) \<and> split_frame n t a b"
proof -
  have c: "cb_ok c" "cb_len c = row_count t" if "c \<in> set (columns t)" for c
    using assms(1,4) that by (auto simp: tb_wf_def aligned_def in_set_conv_nth)
  have sp: "those (map (cb_split_off n) (columns t)) = Some (map (cb_split_at n) (columns t))"
    using c assms(3) by (intro those_split) simp
  obtain a b where ab: "tb_split_off n t = Some (a, b)"
    "columns a = map (fst \<circ> cb_split_at n) (columns t)" "columns b = map (snd \<circ> cb_split_at n) (columns t)"
    "row_count a = n" "row_count b = row_count t - n"
    "field_index a = field_index t" "field_index b = field_index t" "column_order a = column_order t"
    "column_order b = column_order t" "plan a = plan t" "plan b = plan t"
    "row_dirty a = replicate (mask_words (length (columns t))) 0" "row_dirty b = replicate (mask_words (length (columns t))) 0"
    using assms(2,3) by (simp add: tb_split_off_def sp Let_def)
  note sc = split_column [OF c(1) assms(2)]
  have wf: "tb_wf a" "tb_wf b"
    using sc c(2) assms(3) by (auto intro!: split_half_wf [OF assms(1) ab(2)] split_half_wf [OF assms(1) ab(3)] simp: ab(4-13))
  have inr: "columns t ! i \<in> set (columns t)" "i < length (columns t)" if "map_of (field_index t) k = Some i" for k i
    using assms(1) that by (simp_all add: tb_wf_def index_ok_def)
  have ra: "row_at a r = row_at t r" if "r < n" for r
    using sc(5) c(2) assms(3) inr that by (intro ext) (auto simp: row_at_def ab split: option.splits)
  have rb: "row_at b r = row_at t (n + r)" for r
    using sc(6) c(2) assms(3) inr by (intro ext) (auto simp: row_at_def ab split: option.splits)
  have "tb_rows a = take n (tb_rows t)" using ra assms(3) by (simp add: tb_rows_def ab(4) take_map take_upt)
  moreover have "tb_rows b = drop n (tb_rows t)"
    using rb by (intro nth_equalityI) (simp_all add: tb_rows_def ab(5))
  ultimately show ?thesis using ab(1) split_off_frame [OF ab(1)] wf by blast
qed

text \<open>
  C15. Splitting a batch off between rows moves the first \<open>n\<close> rows, in order, to the batch and keeps the
  others, loses and repeats none, and leaves two well-formed builders.
\<close>

theorem split_keeps_rows:
  assumes "tb_wf t" "0 < n" "n \<le> row_count t" "\<forall>i. \<not> mask_test i (row_dirty t)"
  shows "\<exists>a b. tb_split_off n t = Some (a, b) \<and> tb_wf a \<and> tb_wf b \<and>
    tb_rows a = take n (tb_rows t) \<and> tb_rows b = drop n (tb_rows t)"
  using split_ok [OF assms] by blast

lemma finish_row_clean:
  assumes "finish_row E t = Some u"
  shows "\<not> mask_test i (row_dirty u)"
  using assms by (auto simp: finish_row_def null_fill_def commit_row_def notify_def split: bind_splits option.splits if_splits)

theorem split_keeps_rows_witness:
  "\<exists>t a b. finish_row sample_env (tb_with_plan 0 sample_plan) = Some t \<and> tb_split_off 1 t = Some (a, b) \<and>
     tb_rows a = [no_cells] \<and> tb_rows b = []"
proof -
  have "accepts (ext sample_env) sample_plan no_cells" by (simp add: accepts_def)
  then obtain t where t: "finish_row sample_env (tb_with_plan 0 sample_plan) = Some t" "tb_wf t" "tb_rows t = [no_cells]"
    using finish_row_ok [OF sample_table(1), of sample_env] sample_table(6-8) by auto
  have "row_count t = 1" using arg_cong [OF t(3), of length] by (simp add: tb_rows_def)
  with split_keeps_rows [OF t(2), of 1] finish_row_clean [OF t(1)] t show ?thesis by auto
qed

section \<open>Errors\<close>

text \<open>A builder a strict memory budget has stopped.\<close>

definition out_of_memory :: "table_builder \<Rightarrow> bool" where
  "out_of_memory t \<longleftrightarrow> memory_limit t \<noteq> None \<and> (\<exists>used limit. strict_error t = Some (Memory_error used limit))"

lemma memory_stuck:
  assumes "out_of_memory t"
  shows "reserve_memory E n t = (False, t)" "reserve_field_memory E k v t = (False, t)"
  using assms by (auto simp: out_of_memory_def reserve_memory_def reserve_field_memory_def is_memory_error_def)

lemma reserve_fails:
  assumes "reserve_field_memory E k v t = (False, u)" "strict_error t = None"
  shows "\<exists>used limit. u = t\<lparr>strict_error := Some (Memory_error used limit)\<rparr> \<and> memory_limit t = Some limit \<and> limit < used"
  using assms by (auto simp: reserve_field_memory_def reserve_memory_def Let_def split: option.splits if_splits)

text \<open>
  C20. A strict memory budget is final. The first reservation that fails for a field changes only the
  recorded error, with the bytes wanted beyond the limit; from then on every put, by name,
  resolved name or slot, and every begin and end of a row leave the builder untouched, and the
  finish reports exactly that error.
\<close>

theorem memory_error_sticks:
  assumes "reserve_field_memory E k v t = (False, u)" "strict_error t = None" "unknown_error t = None"
  shows "\<exists>used limit. memory_limit t = Some limit \<and> limit < used \<and> tb_rows u = tb_rows t \<and>
    put_field E name w u = Some u \<and> put_field_resolved E name w u = Some u \<and> put_field_at E slot w u = Some u \<and>
    put_str_at E slot s u = Some u \<and> resolve_and_put E name w u = Some u \<and> begin_row E u = u \<and> end_row E u = Some u \<and>
    finish E u = Some (Inl (Memory_error used limit), u\<lparr>strict_error := None\<rparr>)"
proof -
  obtain used limit where u: "u = t\<lparr>strict_error := Some (Memory_error used limit)\<rparr>" "memory_limit t = Some limit" "limit < used"
    using reserve_fails [OF assms(1,2)] by blast
  have stuck: "out_of_memory u" using u by (simp add: out_of_memory_def)
  note r = memory_stuck [OF stuck, of E]
  have "same_core t u" by (simp add: u(1) same_core_def)
  then have "tb_rows u = tb_rows t" by (rule same_core_wf)
  moreover have "put_field E name w u = Some u" "put_field_resolved E name w u = Some u" "put_field_at E slot w u = Some u"
    "resolve_and_put E name w u = Some u" "begin_row E u = u" "end_row E u = Some u"
    by (simp_all add: put_field_def put_field_resolved_def put_field_at_def resolve_and_put_def begin_row_def end_row_def r)
  moreover have "put_str_at E slot s u = Some u"
    using stuck by (simp add: put_str_at_def put_field_at_def r out_of_memory_def)
  moreover have "finish E u = Some (Inl (Memory_error used limit), u\<lparr>strict_error := None\<rparr>)"
    using assms(3) by (simp add: finish_def prepare_finish_def u(1))
  ultimately show ?thesis using u(2,3) by blast
qed

text \<open>An allocator for the examples that already holds 100 bytes.\<close>

definition full_env :: env where
  "full_env = \<lparr>ext = sample_externals, capacity_bytes = (\<lambda>_. 100)\<rparr>"

theorem memory_error_sticks_witness:
  "\<exists>used. 50 < used \<and> (\<exists>u. finish full_env ((tb_with_plan 0 sample_plan)
       \<lparr>memory_limit := Some 50, strict_error := Some (Memory_error 166 50)\<rparr>) = Some (Inl (Memory_error used 50), u))"
proof -
  let ?t = "(tb_with_plan 0 sample_plan)\<lparr>memory_limit := Some 50\<rparr>"
  have e: "strict_error ?t = None" "unknown_error ?t = None" using sample_table(9) by (simp_all add: errors_def)
  have "reserve_field_memory full_env 1 Null ?t = (False, ?t\<lparr>strict_error := Some (Memory_error 166 50)\<rparr>)"
    using e by (simp add: reserve_field_memory_def reserve_memory_def full_env_def sat_add_def sat_mul_def usize_max_def)
  from memory_error_sticks [OF this e, where name = "[]" and w = Null and slot = 0 and s = "[]"] obtain used where "50 < used"
    "finish full_env (?t\<lparr>strict_error := Some (Memory_error 166 50)\<rparr>) =
       Some (Inl (Memory_error used 50), ?t\<lparr>strict_error := None\<rparr>)" by auto
  then show ?thesis by auto
qed

text \<open>
  Under an exact frozen schema a field it does not name changes nothing but the recorded error, the
  first such field is the one reported, and the finish fails with it.
\<close>

theorem unknown_field_rejected:
  assumes "is_exact_frozen t" "resolve_field (plan t) name = Some n" "map_of (field_index t) n = None"
    and "unbudgeted t" "direct_path t"
  shows "\<exists>u. put_field E name v t = Some u \<and> tb_rows u = tb_rows t \<and> cur_row u = cur_row t \<and> columns u = columns t \<and>
    unknown_error u = Some (case unknown_error t of Some e \<Rightarrow> e | None \<Rightarrow> unknown_field_error n) \<and>
    (\<exists>w. finish E u = Some (Inl (Merge_error (the (unknown_error u))), w))"
proof -
  have p: "put_field E name v t = Some (set_unknown n t)"
    using assms by (simp add: put_field_direct push_field_resolves push_field_resolved_def contains_key_def)
  have e: "unknown_error (set_unknown n t) = Some (case unknown_error t of Some e \<Rightarrow> e | None \<Rightarrow> unknown_field_error n)"
    by (simp add: set_unknown_def split: option.splits)
  have "finish E (set_unknown n t) = Some (Inl (Merge_error (the (unknown_error (set_unknown n t)))), (set_unknown n t)\<lparr>unknown_error := None\<rparr>)"
    using e by (simp add: finish_def prepare_finish_def)
  moreover have "columns (set_unknown n t) = columns t" by (simp add: set_unknown_def)
  ultimately show ?thesis using p e same_core_wf [OF core_unknown [of t n]] by auto
qed


theorem unknown_field_rejected_witness:
  "\<exists>u w. put_field sample_env ''z'' Null (ensure_schema (from_plan [''b''] plan_new) tb_new) = Some u \<and> tb_rows u = [] \<and>
     finish sample_env u = Some (Inl (Merge_error (unknown_field_error ''z'')), w)"
proof -
  define s where "s = from_plan [''b''] plan_new"
  let ?t = "ensure_schema s tb_new"
  have p: "fs_names s = [''b'']" "fs_types s = [FT_String]" "fs_exact s"
    by (simp_all add: s_def from_plan_def schema_of_names_def column_type_def plan_new_def contains_key_def)
  have none: "plan_filter plan_new = None" by (simp add: plan_new_def)
  have t: "is_exact_frozen ?t" "map_of (field_index ?t) ''z'' = None" "plan ?t = plan_new" "unbudgeted ?t" "direct_path ?t"
    "unknown_error ?t = None" "tb_rows ?t = []"
    by (simp_all add: ensure_schema_def p is_exact_frozen_def tb_new_def tb_with_capacity_def cover_columns_def
        contains_key_def declare_column_def add_column_def unbudgeted_def direct_path_def tb_rows_def Let_def none)
  have "resolve_field (plan ?t) ''z'' = Some ''z''" by (simp add: t(3) resolve_field_def plan_new_def renamed_def)
  from unknown_field_rejected [OF t(1) this t(2,4,5), of sample_env Null] t(6,7) show ?thesis unfolding s_def by auto
qed

text \<open>
  Under strict types the first string that its column's type cannot read is recorded, by the
  column's name, and kept: later violations do not replace it, and the finish fails with it. A
  string that parses, and any value that is no string, records nothing. The name is right when the
  columns are in their order of creation.
\<close>

theorem strict_types_first_violation:
  assumes "strict_types (plan t)" "column_order t ! i = n" "i < length (column_order t)"
    and "map_of (field_types (plan t)) n = Some ty" "unknown_error t = None"
  shows "\<exists>u. u = record_strict_violation_at E i v t \<and> same_core t u \<and> strict_error u =
      (case strict_error t of Some e \<Rightarrow> Some e
       | None \<Rightarrow> (case v of Str s \<Rightarrow> if parses_as (ext E) s ty then None
                                 else Some (Plan_error (''strict_types: column '' @ n)) | _ \<Rightarrow> None)) \<and>
    (\<forall>e. strict_error u = Some e \<longrightarrow> finish E u = Some (Inl e, u\<lparr>strict_error := None\<rparr>))"
proof -
  define u where "u = record_strict_violation_at E i v t"
  have s: "strict_error u = (case strict_error t of Some e \<Rightarrow> Some e
       | None \<Rightarrow> (case v of Str s \<Rightarrow> if parses_as (ext E) s ty then None
                                 else Some (Plan_error (''strict_types: column '' @ n)) | _ \<Rightarrow> None))"
    using assms(1-4) by (auto simp: u_def record_strict_violation_at_def idx_def split: option.splits field_value.splits)
  have "unknown_error u = None"
    using assms(5) by (simp add: u_def record_strict_violation_at_def split: option.splits field_value.splits)
  then have "finish E u = Some (Inl e, u\<lparr>strict_error := None\<rparr>)" if "strict_error u = Some e" for e
    using that by (simp add: finish_def prepare_finish_def)
  moreover have "same_core t u" by (simp add: u_def)
  ultimately show ?thesis using s unfolding u_def by blast
qed

theorem strict_types_first_violation_witness:
  "strict_error (record_strict_violation_at sample_env 0 (Str ''x'')
     (tb_new\<lparr>plan := declared_plan\<lparr>strict_types := True\<rparr>, column_order := [''b'']\<rparr>)) =
   Some (Plan_error ''strict_types: column b'')"
proof -
  let ?t = "tb_new\<lparr>plan := declared_plan\<lparr>strict_types := True\<rparr>, column_order := [''b'']\<rparr>"
  have "\<not> parses_as (ext sample_env) ''x'' FT_Int64"
    unfolding sample_env_def sample_externals_def by code_simp
  moreover have "map_of (field_types (plan ?t)) ''b'' = Some FT_Int64" by (simp add: declared_plan_def)
  ultimately show ?thesis
    using strict_types_first_violation [of ?t 0 "''b''" FT_Int64 sample_env "Str ''x''"]
    by (simp add: tb_new_def tb_with_capacity_def)
qed

section \<open>Early exit from a row\<close>

lemma bit_fold_or: "bit (fold (OR) ws a) i \<longleftrightarrow> bit a i \<or> (\<exists>w \<in> set ws. bit w i)" for a :: "64 word"
  by (induction ws arbitrary: a) (auto simp: bit_or_iff)

lemma bit_wanted:
  fixes a :: "64 word"
  assumes "\<forall>j \<in> set js. j < 64" "i < 64"
  shows "bit (fold (\<lambda>i m. m OR push_bit i 1) js a) i \<longleftrightarrow> bit a i \<or> i \<in> set js"
  using assms by (induction js arbitrary: a) (auto simp: bit_or_iff bit_exp_iff)

lemma subword: "d AND m = m \<longleftrightarrow> (\<forall>i < 64. bit m i \<longrightarrow> bit d i)" for d m :: "64 word"
  by (auto simp: bit_eq_iff bit_and_iff dest: bit_imp_le_length)


text \<open>
  The scanner may skip the rest of a record exactly when every column of a declared schema of at most
  64 columns has been written in this row; without a declared schema it never may.
\<close>

theorem satisfied_iff_all_written:
  assumes "tb_wf t" "cached_wanted_mask t = compute_wanted_mask t" "length (columns t) \<le> 64" "field_index t \<noteq> []"
    and "distinct (map fst (field_index t))"
  shows "row_satisfied t \<longleftrightarrow> schema_order (plan t) \<noteq> [] \<and>
    (\<forall>n i. map_of (field_index t) n = Some i \<longrightarrow> mask_test i (row_dirty t))"
proof (cases "schema_order (plan t) = []")
  case True
  then show ?thesis using assms(2) by (simp add: row_satisfied_def compute_wanted_mask_def)
next
  case False
  let ?js = "map snd (field_index t)" and ?d = "fold (OR) (row_dirty t) (0 :: 64 word)"
  have js: "i \<in> set ?js \<longleftrightarrow> (\<exists>n. map_of (field_index t) n = Some i)" for i
    using map_of_eq_Some_iff [OF assms(5)] by force
  have small: "j < 64" if "j \<in> set ?js" for j
    using that assms(1,3) unfolding js by (fastforce simp: tb_wf_def index_ok_def)
  then have cached: "cached_wanted_mask t = fold (\<lambda>i m. m OR push_bit i 1) ?js 0"
    using False assms(2) by (force simp: compute_wanted_mask_def)
  have wanted: "bit (cached_wanted_mask t) i \<longleftrightarrow> i \<in> set ?js" if "i < 64" for i
    using bit_wanted [of ?js i 0] small that unfolding cached by simp
  have dirty: "bit ?d i \<longleftrightarrow> mask_test i (row_dirty t)" if "i < 64" for i
  proof
    assume "bit ?d i"
    then obtain k where k: "k < length (row_dirty t)" "bit (row_dirty t ! k) i"
      by (auto simp: bit_fold_or in_set_conv_nth)
    have e: "(k * 64 + i) div 64 = k" "(k * 64 + i) mod 64 = i" using that by simp_all
    have "mask_test (k * 64 + i) (row_dirty t)" unfolding mask_test_bit e using k by simp
    then have t: "k * 64 + i < 64" "mask_test (k * 64 + i) (row_dirty t)"
      using assms(1,3) by (auto simp: tb_wf_def aligned_def dest: less_le_trans)
    from t(1) have "k = 0" by presburger
    with t(2) show "mask_test i (row_dirty t)" by simp
  next
    assume "mask_test i (row_dirty t)"
    then show "bit ?d i" using that unfolding mask_test_bit bit_fold_or by (auto dest: nth_mem)
  qed
  obtain j where j: "j \<in> set ?js" using assms(4) by (cases "field_index t") auto
  then have "bit (cached_wanted_mask t) j" using wanted small by blast
  then have "cached_wanted_mask t \<noteq> 0" by auto
  then have "row_satisfied t \<longleftrightarrow> (\<forall>i < 64. i \<in> set ?js \<longrightarrow> mask_test i (row_dirty t))"
    using wanted dirty by (auto simp: row_satisfied_def Let_def subword)
  also have "\<dots> \<longleftrightarrow> (\<forall>n i. map_of (field_index t) n = Some i \<longrightarrow> mask_test i (row_dirty t))"
    using small unfolding js by blast
  finally show ?thesis using False by simp
qed

theorem satisfied_iff_all_written_witness: "\<not> row_satisfied (tb_with_plan 0 declared_plan)"
proof -
  let ?t = "tb_with_plan 0 declared_plan"
  have fi: "field_index ?t = [(''b'', 0)]" "length (columns ?t) = 1" "\<not> mask_test 0 (row_dirty ?t)"
    by (simp_all add: tb_with_plan_def predeclare_schema_columns_def declared_plan_def plan_new_def predeclare_names_def
        tb_with_capacity_def declare_column_def add_column_def cover_columns_def contains_key_def Let_def mask_resize_def)
  have "cached_wanted_mask ?t = compute_wanted_mask ?t"
    by (simp add: tb_with_plan_def Let_def compute_wanted_mask_def)
  from satisfied_iff_all_written [OF declared_table(1) this] fi show ?thesis by simp
qed


section \<open>The order of the columns\<close>

definition declared_ranks :: "string list \<Rightarrow> string list \<Rightarrow> nat list" where
  "declared_ranks order ns = map (schema_rank order) (filter (\<lambda>n. n \<in> set order) ns)"

lemma rank_position: "n \<in> set order \<Longrightarrow> position (\<lambda>m. m = n) order = Some (schema_rank order n)"
  using position_None [of "\<lambda>m. m = n" order] by (auto simp: schema_rank_def split: option.splits)

lemma insert_index_cong: "plan u = plan t \<Longrightarrow> column_order u = column_order t \<Longrightarrow> schema_insert_index name u = schema_insert_index name t"
  unfolding schema_insert_index_def by (simp only:)

lemma insert_index_frame [simp]:
  "schema_insert_index name (t\<lparr>columns := c\<rparr>) = schema_insert_index name t"
  "schema_insert_index name (t\<lparr>field_index := ix\<rparr>) = schema_insert_index name t"
  "schema_insert_index name (t\<lparr>row_dirty := m\<rparr>) = schema_insert_index name t"
  by (rule insert_index_cong; simp)+

lemma insert_index_undeclared: "name \<notin> set (schema_order (plan t)) \<Longrightarrow>
    schema_insert_index name t = length (column_order t)"
  using position_None [of "\<lambda>m. m = name" "schema_order (plan t)"] by (auto simp: schema_insert_index_def Let_def split: option.splits)

text \<open>The columns before the insertion point rank lower, the declared ones after it higher.\<close>

lemma insert_index_splits:
  assumes d: "name \<in> set order" and o: "order = schema_order (plan t)"
    and s: "sorted (declared_ranks order (column_order t))"
  defines "i \<equiv> schema_insert_index name t"
  shows "\<forall>r \<in> set (declared_ranks order (take i (column_order t))). r \<le> schema_rank order name"
    "\<forall>r \<in> set (declared_ranks order (drop i (column_order t))). schema_rank order name \<le> r"
proof -
  let ?p = "schema_rank order name"
  let ?after = "\<lambda>e. case position (\<lambda>n. n = e) order of Some ep \<Rightarrow> ?p < ep | None \<Rightarrow> False"
  have after: "?after e \<longleftrightarrow> e \<in> set order \<and> ?p < schema_rank order e" for e
    using rank_position [of e order] position_None [of "\<lambda>n. n = e" order] by (cases "e \<in> set order") (auto split: option.splits)
  have "order \<noteq> []" using d by auto
  then have i: "i = (case position ?after (column_order t) of Some i \<Rightarrow> i | None \<Rightarrow> length (column_order t))"
    using rank_position [OF d] by (simp add: i_def schema_insert_index_def Let_def o [symmetric])
  have before: "\<not> ?after e" if e: "e \<in> set (take i (column_order t))" for e
  proof (cases "position ?after (column_order t)")
    case None
    then show ?thesis using e position_None [of ?after "column_order t"] in_set_takeD by fastforce
  next
    case (Some k)
    then obtain j where "j < k" "e = column_order t ! j"
      using e i position_Some [OF Some] by (auto simp: in_set_conv_nth)
    then show ?thesis using position_Some [OF Some] by blast
  qed
  show "\<forall>r \<in> set (declared_ranks order (take i (column_order t))). r \<le> ?p"
    using before unfolding after by (force simp: declared_ranks_def)
  show "\<forall>r \<in> set (declared_ranks order (drop i (column_order t))). ?p \<le> r"
  proof (cases "i < length (column_order t)")
    case True
    then obtain k where k: "position ?after (column_order t) = Some i" using i by (auto split: option.splits)
    have hd: "column_order t ! i \<in> set order" "?p < schema_rank order (column_order t ! i)"
      using position_Some [OF k] unfolding after by blast+
    have "drop i (column_order t) = column_order t ! i # drop (Suc i) (column_order t)" using True by (simp add: Cons_nth_drop_Suc)
    moreover have "sorted (declared_ranks order (drop i (column_order t)))"
      using s sorted_append by (metis append_take_drop_id declared_ranks_def filter_append map_append)
    ultimately show ?thesis using hd by (auto simp: declared_ranks_def)
  qed (simp add: declared_ranks_def)
qed

text \<open>
  Columns discovered in any order are kept in the order of the declared schema: entering a new
  column keeps the declared columns sorted by their position in it, and a column that is not
  declared goes to the end.
\<close>

theorem new_column_keeps_order:
  assumes "map_of (field_index t) name = None" "\<not> is_exact_frozen t"
    and "sorted (declared_ranks (schema_order (plan t)) (column_order t))"
  shows "sorted (declared_ranks (schema_order (plan t)) (column_order (snd (ensure_column_idx E name t)))) \<and>
    (name \<notin> set (schema_order (plan t)) \<longrightarrow>
       column_order (snd (ensure_column_idx E name t)) = column_order t @ [name])"
proof -
  let ?o = "schema_order (plan t)" and ?i = "schema_insert_index name t"
  have ord: "column_order (snd (ensure_column_idx E name t)) = insert_at ?i name (column_order t)"
    using assms(1,2) by (simp add: ensure_column_idx_def Let_def add_column_def)
  show ?thesis
  proof (cases "name \<in> set ?o")
    case False
    have "declared_ranks ?o (column_order t @ [name]) = declared_ranks ?o (column_order t)"
      using False by (simp add: declared_ranks_def)
    then show ?thesis using assms(3) unfolding ord insert_index_undeclared [OF False] by (simp add: insert_at_def)
  next
    case True
    note sp = insert_index_splits [OF True refl assms(3)]
    have "sorted (declared_ranks ?o (take ?i (column_order t)) @ declared_ranks ?o (drop ?i (column_order t)))"
      using assms(3) by (metis append_take_drop_id declared_ranks_def filter_append map_append)
    then have "sorted (declared_ranks ?o (take ?i (column_order t)) @ schema_rank ?o name #
        declared_ranks ?o (drop ?i (column_order t)))"
      using sp by (auto simp: sorted_append)
    then show ?thesis using True unfolding ord by (simp add: insert_at_def declared_ranks_def)
  qed
qed

theorem new_column_keeps_order_witness:
  "sorted (declared_ranks [''b''] (column_order (snd (ensure_column_idx sample_env ''c'' (tb_with_plan 0 declared_plan)))))"
proof -
  let ?t = "tb_with_plan 0 declared_plan"
  have "map_of (field_index ?t) ''c'' = None"
    by (simp add: tb_with_plan_def predeclare_schema_columns_def declared_plan_def plan_new_def predeclare_names_def
        tb_with_capacity_def declare_column_def add_column_def cover_columns_def contains_key_def Let_def)
  moreover have "schema_order (plan ?t) = [''b'']" unfolding declared_table(5) by (simp add: declared_plan_def)
  ultimately show ?thesis using new_column_keeps_order [of ?t "''c''" sample_env] declared_table(4,10)
    by (simp add: declared_ranks_def)
qed

end
