(* ===== verification/Filter_Properties.thy ===== *)
theory Filter_Properties
  imports Buffered_Rows Table_Properties
begin

text \<open>
  What the predicate-first path promises: the same table as filtering finished rows, early
  verdicts that the rest of the row cannot change, and where these promises end: leaves that
  read an unseen field as null, and repeated fields after a row was drained early.
\<close>

section \<open>Filtered tables\<close>

text \<open>
  C7. Parsing with a filter over the text of kept fields gives exactly the rows of the records that
  satisfy the filter, in order, whether rows are buffered until the filter decides or, once the
  buffering stopped paying off, written first and popped when rejected. The filter has no leaf
  that reads an unseen field as null, no record names an output field twice, and the buffered
  values read like the cells they become.
\<close>

theorem filtered_parse_gives_rows:
  assumes "plan_filter p = Some f" "patient f" "text_filter p f"
    and "rows_fit E recs (tb_with_plan cap p)" "list_all (buffered_record (ext E) p) recs"
  shows "\<exists>t. parse_rows E recs (tb_with_plan cap p) = Some t \<and> tb_wf t \<and>
    tb_rows t = filter (accepts (ext E) p) (map (\<lambda>kvs. written (ext E) p kvs no_cells) recs)"
proof -
  have "tb_rows (tb_with_plan cap p) = []" using tb_with_plan_ok [of cap p] by blast
  with parse_rows_filtered [OF between_start [OF assms(1)] assms] show ?thesis by (auto simp: between_def)
qed

definition filter_plan :: execution_plan where
  "filter_plan = plan_new\<lparr>field_types := [(''a'', FT_Int64), (''b'', FT_Int64)], plan_filter := Some (Equal ''a'' ''7'')\<rparr>"

lemma filter_plan_simps:
  "plan_filter filter_plan = Some (Equal ''a'' ''7'')" "resolve_field filter_plan ''a'' = Some ''a''"
  "column_type filter_plan ''a'' = FT_Int64" "renamed filter_plan ''a'' = ''a''"
  by (simp_all add: filter_plan_def plan_new_def resolve_field_def column_type_def contains_key_def renamed_def)

lemma filter_values:
  "convert sample_externals FT_Int64 (Int64 n) = Some (TV_Int64 n)" "buffered_text sample_externals FT_Int64 (Int64 n) = Some (int_to_string n)"
  "alike sample_externals FT_Int64 (Int64 n)"
  by (simp_all add: convert_def buffered_text_def alike_def)

lemma filter_row_fits: "rows_fit sample_env [[(''a'', Int64 7)]] (tb_with_plan 0 filter_plan)"
proof -
  let ?t = "tb_with_plan 0 filter_plan"
  have b: "between filter_plan ?t" using between_start filter_plan_simps(1) .
  then have m: "unbudgeted ?t" by (simp add: between_def)
  note c = begin_row_core [OF m, of sample_env]
  have "put_fits sample_env ''a'' (Int64 7) (begin_row sample_env ?t)"
    using b c by (intro put_fits_inline) (simp_all add: between_def name_known_def filter_plan_simps inline_type_def)
  then show ?thesis using b c(6) by (simp add: between_def filter_plan_simps split: option.splits)
qed

theorem filtered_parse_gives_rows_witness:
  "\<exists>t. parse_rows sample_env [[(''a'', Int64 7)]] (tb_with_plan 0 filter_plan) = Some t \<and>
     tb_rows t = [no_cells(''a'' := Some (TV_Int64 7))]"
proof -
  have rec: "list_all (buffered_record (ext sample_env) filter_plan) [[(''a'', Int64 7)]]"
    using filter_values(3) by (simp add: buffered_record_def filter_plan_simps sample_env_def map_filter_simps)
  have seven: "int_to_string 7 = ''7''" by code_simp
  have acc: "accepts (ext sample_env) filter_plan (no_cells(''a'' := Some (TV_Int64 7)))"
    using seven by (simp add: accepts_def filter_plan_simps text_that_def text_at_def cell_at_def row_view_of_def)
  have "written (ext sample_env) filter_plan [(''a'', Int64 7)] no_cells = no_cells(''a'' := Some (TV_Int64 7))"
    using filter_values(1) [of 7] by (simp add: filter_plan_simps sample_env_def)
  with filtered_parse_gives_rows [OF filter_plan_simps(1) _ _ filter_row_fits rec] acc
  obtain t where "parse_rows sample_env [[(''a'', Int64 7)]] (tb_with_plan 0 filter_plan) = Some t"
    "tb_rows t = [no_cells(''a'' := Some (TV_Int64 7))]"
    by (auto simp: filter_plan_simps simp del: parse_rows.simps)
  then show ?thesis by blast
qed

lemma buffered_record_append:
  assumes "buffered_record X p (seen @ rest)"
  shows "buffered_record X p seen" "buffered_record X p rest"
    "set (List.map_filter (\<lambda>(k, _). resolve_field p k) seen) \<inter> set (List.map_filter (\<lambda>(k, _). resolve_field p k) rest) = {}"
  using assms by (auto simp: buffered_record_def map_filter_def)

lemma failed_row_drops:
  assumes "buffering E s" "buffer_verdict s = Fail" "unbudgeted s" "plan_filter (plan s) = Some f"
  shows "\<exists>w. end_row E s = Some w \<and> tb_rows w = tb_rows s \<and> rows_rejected w = Suc (rows_rejected s)"
proof -
  have "end_row E s = drain_buffered E False s"
    using assms by (auto simp: end_row_def buffering_def verdict_current_def buffer_verdict_def is_worthwhile_def is_direct_def Let_def
        split: option.splits)
  with drain_fail_ok [OF assms(1)] show ?thesis by auto
qed


lemma filter_plan_reads:
  "filter_names filter_plan = [''a'']" "schema_order filter_plan = []" "resolve_field filter_plan ''b'' = Some ''b''"
  "column_type filter_plan ''b'' = FT_Int64"
  by (simp_all add: filter_plan_def plan_new_def resolve_field_def filter_names_def renamed_def resolve_or_raw_def column_type_def
      contains_key_def filter_references_def)

lemmas filter_plan_facts = filter_plan_simps(1,2) filter_plan_reads(1,2) filter_plan_simps(3)

lemma filter_verdict:
  assumes "row_buf u = Some d" "rb_fields d = [(0, Int64 n)]" "plan u = filter_plan" "field_index u = [(''a'', 0)]" "n = 9 \<or> n = 7"
  shows "evaluate_predicate_state (ext sample_env) u = verdict (n = 7)"
proof -
  note p = filter_plan_facts
  have "get_buffered_value u ''a'' = Some (Int64 n)" using assms p by (simp add: get_buffered_value_def)
  then have "get_buffered_str (ext sample_env) u ''a'' = Some (int_to_string n)"
    using assms(3) p by (simp add: get_buffered_str_def sample_env_def buffered_text_def)
  moreover have "int_to_string 7 = ''7''" "int_to_string 9 = ''9''" by code_simp+
  ultimately show ?thesis using assms(3,5) p(1) by (auto simp: evaluate_predicate_state_def decide_def verdict_def)
qed

text \<open>A record of the example: \<open>a = 9\<close> fails the filter \<open>a = 7\<close> as soon as it is put.\<close>

lemma nine_rejected:
  "\<exists>s c. put_field sample_env ''a'' (Int64 9) (begin_row sample_env (tb_with_plan 0 filter_plan)) = Some s \<and> row_rejected s \<and>
    row_buf s = Some c \<and> rb_fields c = [(0, Int64 9)] \<and> rb_worthwhile c \<and> (rb_names c = [] \<or> rb_names c = filter_names filter_plan) \<and>
    plan s = filter_plan \<and> frozen s = None \<and> memory_limit s = None \<and> field_index s = [(''a'', 0)] \<and> column_order s = [''a'']"
proof -
  define t0 where "t0 = tb_with_plan 0 filter_plan"
  define t where "t = begin_row sample_env t0"
  have t0: "columns t0 = []" "field_index t0 = []" "column_order t0 = []" "row_buf t0 = Some rb_new" "plan t0 = filter_plan"
    "memory_limit t0 = None" "frozen t0 = None" "row_count t0 = 0"
    by (simp_all add: t0_def tb_with_plan_def filter_plan_def plan_new_def predeclare_schema_columns_def predeclare_names_def
      tb_with_capacity_def Let_def cover_columns_def)
  obtain b where t: "row_buf t = Some b" "rb_fields b = []" "rb_names b = []" "rb_worthwhile b" "field_index t = []" "columns t = []"
     "column_order t = []" "plan t = filter_plan" "memory_limit t = None" "frozen t = None" "row_count t = 0" "\<not> rb_direct b"
    using t0 by (simp add: t_def begin_row_def reserve_memory_def update_buf_def notify_def rb_new_def Let_def)
  note p = filter_plan_facts
  obtain t1 where e: "ensure_column_idx sample_env ''a'' t = (0, t1)" and t1: "plan t1 = plan t" "row_buf t1 = row_buf t"
     "column_order t1 = [''a'']" "field_index t1 = [(''a'', 0)]" "frozen t1 = None" "memory_limit t1 = None"
    using t p(4) by (simp add: ensure_column_idx_def is_exact_frozen_def is_direct_def add_column_def schema_insert_index_def insert_at_def Let_def)
  have "\<exists>u b'. put_field sample_env ''a'' (Int64 9) t = Some u \<and> row_buf u = Some b' \<and> rb_state b' = evaluate_predicate_state (ext sample_env) u \<and>
    rb_fields b' = buffer_field 0 (Int64 9) (rb_fields b) \<and> rb_worthwhile b' \<and> (rb_names b' = [] \<or> rb_names b' = filter_names (plan t)) \<and>
    plan u = plan t \<and> frozen u = frozen t1 \<and> memory_limit u = memory_limit t1 \<and> field_index u = field_index t1 \<and> column_order u = column_order t1"
    by (rule put_predicate_field [OF _ t(1,4) _ t(10) _ e _ t1(1,2)]) (use t t1 p in \<open>simp_all add: unbudgeted_def idx_def\<close>)
  then obtain s c where s: "put_field sample_env ''a'' (Int64 9) t = Some s" "row_buf s = Some c" "rb_state c = evaluate_predicate_state (ext sample_env) s"
    "rb_fields c = [(0, Int64 9)]" "rb_worthwhile c" "rb_names c = [] \<or> rb_names c = filter_names filter_plan" "plan s = filter_plan"
    "frozen s = None" "memory_limit s = None" "field_index s = [(''a'', 0)]" "column_order s = [''a'']"
    using t t1 by (auto simp: buffer_field_def)
  have "row_rejected s" using s filter_verdict [OF s(2,4,7,10)] p(1) by (simp add: row_rejected_def verdict_def)
  with s show ?thesis unfolding t_def t0_def by blast
qed

text \<open>The second value of a repeated field replaces the first and turns the verdict around.\<close>

lemma repeated_field_reopens:
  "\<exists>s u. put_field sample_env ''a'' (Int64 9) (begin_row sample_env (tb_with_plan 0 filter_plan)) = Some s \<and> row_rejected s \<and>
    put_field sample_env ''a'' (Int64 7) s = Some u \<and> \<not> row_rejected u"
proof -
  note p = filter_plan_facts
  obtain s c where s0: "put_field sample_env ''a'' (Int64 9) (begin_row sample_env (tb_with_plan 0 filter_plan)) = Some s" "row_rejected s"
    and s: "True" "row_buf s = Some c" "True" "rb_fields c = [(0, Int64 9)]" "rb_worthwhile c" "rb_names c = [] \<or> rb_names c = filter_names filter_plan"
      "plan s = filter_plan" "frozen s = None" "memory_limit s = None" "field_index s = [(''a'', 0)]" "column_order s = [''a'']"
    using nine_rejected by blast
  have e2: "ensure_column_idx sample_env ''a'' s = (0, s)" using s(10) by (simp add: ensure_column_idx_def)
  have "\<exists>u b'. put_field sample_env ''a'' (Int64 7) s = Some u \<and> row_buf u = Some b' \<and> rb_state b' = evaluate_predicate_state (ext sample_env) u \<and>
    rb_fields b' = buffer_field 0 (Int64 7) (rb_fields c) \<and> rb_worthwhile b' \<and> (rb_names b' = [] \<or> rb_names b' = filter_names (plan s)) \<and>
    plan u = plan s \<and> frozen u = frozen s \<and> memory_limit u = memory_limit s \<and> field_index u = field_index s \<and> column_order u = column_order s"
    by (rule put_predicate_field [OF _ s(2,5) _ s(8) _ e2 _ refl refl]) (use s p in \<open>simp_all add: unbudgeted_def idx_def\<close>)
  then obtain u d where u: "put_field sample_env ''a'' (Int64 7) s = Some u" "row_buf u = Some d"
      "rb_state d = evaluate_predicate_state (ext sample_env) u" "rb_fields d = [(0, Int64 7)]" "plan u = filter_plan" "field_index u = [(''a'', 0)]"
    using s by (auto simp: buffer_field_def)
  have "\<not> row_rejected u" using u filter_verdict [OF u(2,4,5,6)] by (simp add: row_rejected_def verdict_def)
  with s0 u(1) show ?thesis by blast
qed


text \<open>A plan whose filter accepts nothing.\<close>

definition failed_plan :: execution_plan where
  "failed_plan = plan_new\<lparr>field_types := [(''a'', FT_Int64)], plan_filter := Some (Always False)\<rparr>"

lemma failed_plan_simps:
  "plan_filter failed_plan = Some (Always False)" "resolve_field failed_plan ''a'' = Some ''a''"
  "column_type failed_plan ''a'' = FT_Int64"
  by (simp_all add: failed_plan_def plan_new_def resolve_field_def column_type_def contains_key_def renamed_def)

section \<open>Unseen fields\<close>

text \<open>
  The remaining leaves treat a field that has not come yet as null and decide at once: a verdict
  they give before the field arrives is the opposite of the one they give after it did.
\<close>

theorem unseen_field_verdicts_flip:
  assumes "get_buffered_value t f = None" "get_buffered_str X u f = Some s" "s \<noteq> []" "s \<in> set vs"
  shows "eval_predicate X t (IsNull f) = Pass \<and> eval_predicate X u (IsNull f) = Fail \<and>
    eval_predicate X t (NotField f) = Pass \<and> eval_predicate X u (NotField f) = Fail \<and>
    eval_predicate X t (NotIn f vs) = Pass \<and> eval_predicate X u (NotIn f vs) = Fail \<and>
    eval_predicate X t (In f vs) = Fail \<and> eval_predicate X u (In f vs) = Pass \<and>
    eval_predicate X t (IsType f FT_String) = Fail \<and> eval_predicate X u (IsType f FT_String) = Pass"
proof -
  have n: "get_buffered_str X t f = None" using assms(1) by (simp add: get_buffered_str_def)
  obtain v where "get_buffered_value u f = Some v" using assms(2) by (auto simp: get_buffered_str_def split: bind_splits)
  with assms n show ?thesis by (simp add: verdict_def eval_is_type_def)
qed


theorem unseen_field_verdicts_flip_witness:
  "\<exists>u. eval_predicate sample_externals tb_new (IsNull ''s'') = Pass \<and> eval_predicate sample_externals u (IsNull ''s'') = Fail"
proof -
  define u where "u = tb_new\<lparr>plan := failed_plan, field_index := [(''s'', 0)],
    row_buf := Some (rb_new\<lparr>rb_fields := [(0, Str ''x'')]\<rparr>)\<rparr>"
  have p: "resolve_field failed_plan ''s'' = Some ''s''" "column_type failed_plan ''s'' = FT_String"
    by (simp_all add: failed_plan_def plan_new_def resolve_field_def column_type_def contains_key_def renamed_def)
  have t: "get_buffered_value tb_new ''s'' = None" by (simp add: get_buffered_value_def tb_new_def tb_with_capacity_def)
  have "get_buffered_value u ''s'' = Some (Str ''x'')" by (simp add: get_buffered_value_def u_def p rb_new_def)
  then have "get_buffered_str sample_externals u ''s'' = Some ''x''"
    by (simp add: get_buffered_str_def) (simp add: u_def p buffered_text_def)
  from unseen_field_verdicts_flip [OF t this, of "[''x'']"] show ?thesis by auto
qed

section \<open>Repeated fields after an early drain\<close>

lemma null_fill_at:
  assumes "mask_words (length (columns t)) \<le> length (row_dirty t)" "i < length (columns t)"
  shows "\<exists>u cols. null_fill E t = Some u \<and> u = t\<lparr>columns := cols, row_dirty := mask_clear (row_dirty t)\<rparr> \<and>
    length cols = length (columns t) \<and> (cols ! i = columns t ! i \<or> \<not> mask_test i (row_dirty t) \<and> cols ! i = cb_push (ext E) None (columns t ! i))"
proof -
  define cols where "cols = (if mask_full (length (columns t)) (row_dirty t) then columns t
      else map (\<lambda>(i, b). if mask_test i (row_dirty t) then b else cb_push (ext E) None b) (enumerate 0 (columns t)))"
  have "null_fill E t = Some (t\<lparr>columns := cols, row_dirty := mask_clear (row_dirty t)\<rparr>)"
    using assms(1) by (simp only: null_fill_def cols_def not_less [symmetric] if_False)
  moreover have "length cols = length (columns t)" by (simp add: cols_def)
  moreover have "cols ! i = columns t ! i \<or> \<not> mask_test i (row_dirty t) \<and> cols ! i = cb_push (ext E) None (columns t ! i)"
    using assms(2) by (simp add: cols_def nth_enumerate_eq)
  ultimately show ?thesis by blast
qed

text \<open>
  Once a filter that passes early has drained the row, a field that comes again in the same record
  is not replaced: its value is stored as the next row's cell. The end of the row keeps it, and
  a next row that does not set the field is committed with the stale value instead of a null.
\<close>

theorem direct_duplicate_leaks:
  assumes "is_direct t" "unbudgeted t" "\<not> direct_path t" "\<not> strict_types (plan t)" "map_of (field_index t) n = Some i"
    and "i < length (columns t)" "cb_ok (columns t ! i)" "cb_len (columns t ! i) = row_count t"
    and "cb_fits (ext E) (columns t ! i) v" "mask_words (length (columns t)) \<le> length (row_dirty t)"
  shows "\<exists>u w x. push_field_resolved E n v t = Some u \<and> end_row E u = Some w \<and> row_count w = row_count t \<and>
    (\<forall>j. \<not> mask_test j (row_dirty w)) \<and> null_fill E w = Some x \<and>
    row_at (commit_row x) (row_count t) n = cell_of (ext E) (columns t ! i) v"
proof -
  let ?X = "ext E" and ?c = "columns t ! i"
  define s where "s = track_ordinal i n (notify_put_field i v t)"
  have s: "same_core t s" unfolding s_def using core_notify_put core_track same_core_trans by blast
  define d where "d = cb_push_value ?X v ?c"
  have d: "cb_ok d" "cb_rows d = cb_rows ?c @ [cell_of ?X ?c v]"
    using cb_push_value_ok [OF assms(7,9)] by (simp_all add: d_def)
  have ld: "cb_len d = Suc (row_count t)" using arg_cong [OF d(2), of length] assms(8) by simp
  have "i div 64 < length (row_dirty t)" using mask_words_div [OF assms(6)] assms(10) by simp
  then obtain m where m: "mask_set i (row_dirty t) = Some m" by (simp add: mask_set_def)
  define u where "u = s\<lparr>row_dirty := m, columns := (columns s)[i := d]\<rparr>"
  have "store_at E i v s = Some u"
    using m s assms(6,8) by (simp add: store_at_def u_def d_def same_core_def idx_def)
  then have push: "push_field_resolved E n v t = Some u"
    using assms(4,5) by (simp add: push_field_resolved_def contains_key_def ensure_known errors_lenient s_def)
  have u: "length (columns u) = length (columns t)" "columns u ! i = d" "mask_test i (row_dirty u)"
    "length (row_dirty u) = length (row_dirty t)" "row_count u = row_count t" "field_index u = field_index t"
    using s assms(6) mask_test_set [OF m] by (simp_all add: u_def same_core_def)
  have "is_direct u" "unbudgeted u" "\<not> direct_path u"
    using s assms(1-3) by (simp_all add: u_def same_core_def is_direct_def unbudgeted_def direct_path_def is_worthwhile_def)
  then have e: "end_row E u = null_fill E u" by (auto simp: end_row_def direct_path_def null_fill_missing_def)
  obtain w cols where w: "null_fill E u = Some w" "w = u\<lparr>columns := cols, row_dirty := mask_clear (row_dirty u)\<rparr>"
    "length cols = length (columns t)" "cols ! i = d"
    using null_fill_at [of u i E] u assms(6,10) by auto
  have w': "columns w = cols" "row_dirty w = mask_clear (row_dirty u)" "row_count w = row_count t" "field_index w = field_index t"
    using u by (simp_all add: w(2))
  obtain x cols' where x: "null_fill E w = Some x" "x = w\<lparr>columns := cols', row_dirty := mask_clear (row_dirty w)\<rparr>"
    "length cols' = length (columns t)" "cols' ! i = d \<or> cols' ! i = cb_push ?X None d"
    using null_fill_at [of w i E] w(3,4) w' u(4) assms(6,10) by auto
  have "get_typed_value (cols' ! i) (row_count t) = cell_of ?X ?c v"
  proof -
    have "cb_rows (cols' ! i) = cb_rows d \<or> cb_rows (cols' ! i) = cb_rows d @ [None]"
      using x(4) cb_push_None [OF d(1)] by auto
    moreover from this have "length (cb_rows d) \<le> length (cb_rows (cols' ! i))" by (elim disjE) (simp_all only: length_append)
    then have "row_count t < cb_len (cols' ! i)" using ld by simp
    moreover have "length (cb_rows ?c) = row_count t" using assms(8) by simp
    ultimately show ?thesis using d(2) ld by (auto simp: get_typed_value_rows nth_append)
  qed
  then have "row_at (commit_row x) (row_count t) n = cell_of ?X ?c v"
    using assms(5) w' by (simp add: row_at_def commit_row_def notify_def x(2))
  with push e w(1) w' x(1) show ?thesis by auto
qed

text \<open>A builder in direct mode whose only column holds the row committed early.\<close>

definition drained_table :: table_builder where
  "drained_table = tb_new\<lparr>plan := failed_plan, columns := [filled FT_Int64 [Int64 2]], field_index := [(''a'', 0)],
     column_order := [''a''], row_count := 1, row_dirty := [0], row_buf := Some (rb_new\<lparr>rb_direct := True\<rparr>)\<rparr>"

theorem direct_duplicate_leaks_witness:
  "\<exists>u w x. push_field_resolved sample_env ''a'' (Int64 3) drained_table = Some u \<and> end_row sample_env u = Some w \<and>
     null_fill sample_env w = Some x \<and> row_at (commit_row x) 1 ''a'' = Some (TV_Int64 3)"
proof -
  let ?c = "filled FT_Int64 [Int64 2]"
  have t: "is_direct drained_table" "unbudgeted drained_table" "\<not> direct_path drained_table"
    "\<not> strict_types (plan drained_table)" "map_of (field_index drained_table) ''a'' = Some 0"
    "columns drained_table = [?c]" "row_count drained_table = 1" "mask_words 1 \<le> length (row_dirty drained_table)"
    using failed_plan_simps(1)
    by (simp_all add: drained_table_def tb_new_def tb_with_capacity_def is_direct_def unbudgeted_def direct_path_def
        is_worthwhile_def rb_new_def mask_words_def div_ceil_def) (simp add: failed_plan_def plan_new_def)
  have fit: "cb_fits (ext sample_env) ?c (Int64 3)" by (rule inline_fits) (simp add: inline_type_def)
  have "cell_of (ext sample_env) ?c (Int64 3) = Some (TV_Int64 3)"
    using filter_values(1) [of 3] by (simp add: cell_of_convert sample_env_def)
  with direct_duplicate_leaks [OF t(1-5), of sample_env "Int64 3"] t fit filled_int(1,3) show ?thesis by auto
qed

end
