(* ===== verification/Decoder.thy ===== *)
theory Decoder
  imports Prelude
begin

text \<open>
  Where an input may be cut (\<open>decoder.rs\<close>): the number of chunks, the byte ranges in which a
  boundary does not count, the search for the next record boundary, the split points and the
  ranges between them. What a format-specific splitter reports is a parameter; the crate's own
  declarative search is one such splitter.
\<close>

section \<open>Searching bytes\<close>

text \<open>\<open>memchr::memmem::find\<close>, \<open>memchr::memchr\<close> and \<open>memchr::memrchr\<close>.\<close>

definition occurs :: "string \<Rightarrow> string \<Rightarrow> nat \<Rightarrow> bool" where
  "occurs pat s i \<longleftrightarrow> i + length pat \<le> length s \<and> take (length pat) (drop i s) = pat"

definition find_bytes :: "string \<Rightarrow> string \<Rightarrow> nat option" where
  "find_bytes pat s = List.find (occurs pat s) [0..<Suc (length s)]"

definition memchr :: "char \<Rightarrow> string \<Rightarrow> nat option" where
  "memchr c s = position (\<lambda>x. x = c) s"

definition memrchr :: "char \<Rightarrow> string \<Rightarrow> nat option" where
  "memrchr c s = map_option (\<lambda>i. length s - 1 - i) (position (\<lambda>x. x = c) (rev s))"

definition sub_bytes :: "nat \<Rightarrow> nat \<Rightarrow> 'a list \<Rightarrow> 'a list" where
  "sub_bytes a b xs = take (b - a) (drop a xs)"

abbreviation newline :: char where "newline \<equiv> CHR 0x0A"
abbreviation carriage :: char where "carriage \<equiv> CHR 0x0D"
abbreviation backslash :: char where "backslash \<equiv> CHR 0x5C"

section \<open>The number of chunks\<close>

definition MIN_CHUNK_BYTES :: nat where "MIN_CHUNK_BYTES = 2097152"
definition MAX_SPLIT_CHUNKS :: nat where "MAX_SPLIT_CHUNKS = 1024"

datatype split_mode = Parallel | Streaming

definition plan_chunk_count_with :: "nat \<Rightarrow> nat \<Rightarrow> split_mode \<Rightarrow> nat \<Rightarrow> nat" where
  "plan_chunk_count_with bytes threads mode min_chunk_bytes =
     (let by_size = bytes div max min_chunk_bytes 1;
          cap = (case mode of Parallel \<Rightarrow> sat_mul 16 threads | Streaming \<Rightarrow> sat_mul 8 threads)
      in min (max (min by_size cap) threads) MAX_SPLIT_CHUNKS)"

definition plan_chunk_count :: "nat \<Rightarrow> nat \<Rightarrow> split_mode \<Rightarrow> nat" where
  "plan_chunk_count bytes threads mode = plan_chunk_count_with bytes threads mode MIN_CHUNK_BYTES"

section \<open>Skip regions\<close>

record skip_finder =
  openers :: "string list"
  closer_for :: "string \<Rightarrow> string"
  window :: nat

text \<open>
  The loop over the occurrences of one opener in \<open>bytes[start..at]\<close>: \<open>search\<close> counts from
  \<open>start\<close>. An occurrence no closer follows before \<open>at\<close> leaves \<open>at\<close> inside the region.
\<close>

function unclosed_from :: "string \<Rightarrow> nat \<Rightarrow> nat \<Rightarrow> string \<Rightarrow> string \<Rightarrow> nat \<Rightarrow> bool" where
  "unclosed_from bytes start pos opener closer search =
     (case find_bytes opener (drop search (sub_bytes start pos bytes)) of
        None \<Rightarrow> False
      | Some rel \<Rightarrow>
         (let closer_start = start + search + rel + length opener
          in if pos \<le> closer_start then True
             else if find_bytes closer (sub_bytes closer_start pos bytes) = None then True
             else unclosed_from bytes start pos opener closer (search + rel + 1)))"
  by pat_completeness auto
termination by (relation "measure (\<lambda>(_, start, pos, _, _, search). pos - (start + search))") auto

declare unclosed_from.simps [simp del]

definition in_skip_region :: "string \<Rightarrow> nat \<Rightarrow> skip_finder \<Rightarrow> bool" where
  "in_skip_region bytes pos f =
     (if length bytes < pos then False
      else if openers f = [] then False
      else list_ex (\<lambda>opener. unclosed_from bytes (pos - window f) pos opener (closer_for f opener) 0) (openers f))"

section \<open>Record boundaries\<close>

datatype record_boundary = Line | BlankLine

text \<open>The length of the run of backslashes that ends just before \<open>cursor\<close>.\<close>

fun backslash_run :: "string \<Rightarrow> nat \<Rightarrow> nat" where
  "backslash_run bytes 0 = 0"
| "backslash_run bytes (Suc c) = (if bytes ! c = backslash then Suc (backslash_run bytes c) else 0)"

definition is_continued_newline :: "string \<Rightarrow> nat \<Rightarrow> bool" where
  "is_continued_newline bytes pos =
     (if pos = 0 \<or> idx bytes pos \<noteq> Some newline then False
      else let cursor = (if bytes ! (pos - 1) = carriage then pos - 1 else pos)
           in backslash_run bytes cursor mod 2 = 1)"

text \<open>The closure \<open>continued\<close> of \<open>find_next_record_boundary\<close>.\<close>

definition continued :: "string \<Rightarrow> char option \<Rightarrow> nat \<Rightarrow> bool" where
  "continued bytes continuation nl =
     (case continuation of None \<Rightarrow> False
      | Some c \<Rightarrow>
         (let e = (if 0 < nl \<and> bytes ! (nl - 1) = carriage then nl - 1 else nl)
          in if c = backslash then is_continued_newline bytes nl else 0 < e \<and> bytes ! (e - 1) = c))"

definition starts_any :: "string list \<Rightarrow> string \<Rightarrow> bool" where
  "starts_any prefixes line = list_ex (\<lambda>p. take (length p) line = p) prefixes"

definition line_start_of :: "string \<Rightarrow> nat \<Rightarrow> nat" where
  "line_start_of bytes e = (case memrchr newline (take e bytes) of None \<Rightarrow> 0 | Some p \<Rightarrow> p + 1)"

text \<open>What the body of the loop decides for the newline at \<open>nl\<close>: return it or go on.\<close>

definition boundary_here :: "string \<Rightarrow> char option \<Rightarrow> string list \<Rightarrow> bool \<Rightarrow> nat \<Rightarrow> bool" where
  "boundary_here bytes continuation prefixes blank nl =
     (if continued bytes continuation nl then False
      else if \<not> blank \<and> prefixes = [] then True
      else
        (let e = nl - (if 0 < nl \<and> bytes ! (nl - 1) = carriage then 1 else 0)
         in if blank \<and> (e = 0 \<or> bytes ! (e - 1) \<noteq> newline) then False
            else if blank \<and> prefixes = [] \<and> \<not> continued bytes continuation (e - 1) then True
            else
              (let start = line_start_of bytes nl
               in if prefixes \<noteq> [] \<and> starts_any prefixes (sub_bytes start nl bytes) then False
                  else if blank then
                    (let line = sub_bytes start nl bytes
                     in 0 < start \<and> (line = [] \<or> line = [carriage]) \<and> \<not> continued bytes continuation (start - 1) \<and>
                        \<not> starts_any prefixes (sub_bytes (line_start_of bytes (start - 1)) (start - 1) bytes))
                  else True)))"

function boundary_from :: "string \<Rightarrow> nat \<Rightarrow> char option \<Rightarrow> string list \<Rightarrow> bool \<Rightarrow> nat option" where
  "boundary_from bytes pos continuation prefixes blank =
     (if length bytes \<le> pos then None
      else case memchr newline (drop pos bytes) of
             None \<Rightarrow> None
           | Some rel \<Rightarrow>
               if boundary_here bytes continuation prefixes blank (pos + rel) then Some (pos + rel + 1)
               else boundary_from bytes (pos + rel + 1) continuation prefixes blank)"
  by pat_completeness auto
termination by (relation "measure (\<lambda>(bytes, pos, _). length bytes - pos)") auto

declare boundary_from.simps [simp del]

definition find_next_record_boundary :: "string \<Rightarrow> nat \<Rightarrow> char option \<Rightarrow> string list \<Rightarrow> bool \<Rightarrow> nat option" where
  "find_next_record_boundary bytes from_pos continuation prefixes blank =
     (if continuation = None \<and> prefixes = [] \<and> \<not> blank
      then (if from_pos \<le> length bytes
            then map_option (\<lambda>offset. from_pos + offset + 1) (memchr newline (drop from_pos bytes)) else None)
      else boundary_from bytes from_pos continuation prefixes blank)"

section \<open>Split points\<close>

text \<open>A splitter: the trait's methods; \<open>split_override\<close> is an adapter's own \<open>find_split_points\<close>.\<close>

record splitter =
  next_record_start :: "string \<Rightarrow> nat \<Rightarrow> nat option"
  estimate_bytes_per_row :: "string \<Rightarrow> nat"
  skip_regions :: "skip_finder option"
  split_override :: "(string \<Rightarrow> nat \<Rightarrow> nat list) option"

definition candidate :: "splitter \<Rightarrow> string \<Rightarrow> nat \<Rightarrow> nat option" where
  "candidate S bytes approx =
     (case next_record_start S bytes approx of None \<Rightarrow> None
      | Some pos \<Rightarrow>
         if (case skip_regions S of None \<Rightarrow> False | Some f \<Rightarrow> in_skip_region bytes pos f) then None else Some pos)"

definition default_find_split_points :: "splitter \<Rightarrow> string \<Rightarrow> nat \<Rightarrow> nat \<Rightarrow> nat list" where
  "default_find_split_points S bytes max_chunks min_chunk_bytes =
     (if max_chunks \<le> 1 \<or> bytes = [] then [0, length bytes]
      else let n = plan_chunk_count_with (length bytes) max_chunks Parallel min_chunk_bytes;
               points = List.map_filter (\<lambda>i. candidate S bytes (length bytes div n * i)) [1..<n];
               points = remdups_adj (sort points);
               points = 0 # filter (\<lambda>p. 0 < p) points
           in if last points \<noteq> length bytes then points @ [length bytes] else points)"

definition find_split_points :: "splitter \<Rightarrow> string \<Rightarrow> nat \<Rightarrow> nat list" where
  "find_split_points S bytes max_chunks =
     (case split_override S of Some f \<Rightarrow> f bytes max_chunks
      | None \<Rightarrow> default_find_split_points S bytes max_chunks MIN_CHUNK_BYTES)"

definition find_split_points_with :: "splitter \<Rightarrow> string \<Rightarrow> nat \<Rightarrow> nat \<Rightarrow> nat list" where
  "find_split_points_with S bytes max_chunks min_chunk_bytes =
     (if min_chunk_bytes = MIN_CHUNK_BYTES then find_split_points S bytes max_chunks
      else default_find_split_points S bytes max_chunks min_chunk_bytes)"

definition split_points_to_ranges :: "nat list \<Rightarrow> nat \<Rightarrow> (nat \<times> nat) list" where
  "split_points_to_ranges points len =
     (if length points < 2 then [(0, len)]
      else filter (\<lambda>(start, e). start < e) (zip points (tl points)))"

section \<open>What the searches find\<close>

lemma find_upt_Some:
  "List.find P [a..<b] = Some i \<longleftrightarrow> a \<le> i \<and> i < b \<and> P i \<and> (\<forall>j. a \<le> j \<and> j < i \<longrightarrow> \<not> P j)"
proof -
  have "(\<exists>k<b - a. P (a + k) \<and> i = a + k \<and> (\<forall>j<k. \<not> P (a + j))) \<longleftrightarrow>
      a \<le> i \<and> i < b \<and> P i \<and> (\<forall>j. a \<le> j \<and> j < i \<longrightarrow> \<not> P j)" (is "?l \<longleftrightarrow> ?r")
  proof
    assume ?l
    then obtain k where "k < b - a" "P (a + k)" "i = a + k" "\<forall>j<k. \<not> P (a + j)" by blast
    moreover have "\<not> P j" if "a \<le> j" "j < i" for j
      using calculation(3,4) that by (metis add_diff_inverse_nat nat_add_left_cancel_less not_less)
    ultimately show ?r by simp
  next
    assume ?r
    then show ?l by (intro exI [of _ "i - a"]) auto
  qed
  then show ?thesis by (auto simp: find_Some_iff simp del: upt_Suc)
qed

lemma find_bytes_None: "find_bytes pat s = None \<longleftrightarrow> (\<forall>i. \<not> occurs pat s i)"
  by (auto simp: find_bytes_def find_None_iff occurs_def simp del: upt_Suc)

lemma find_bytes_Some: "find_bytes pat s = Some i \<longleftrightarrow> occurs pat s i \<and> (\<forall>j<i. \<not> occurs pat s j)"
  by (auto simp: find_bytes_def find_upt_Some occurs_def simp del: upt_Suc)

lemma drop_sub_bytes: "drop k (sub_bytes a b s) = sub_bytes (a + k) b s"
  by (simp add: sub_bytes_def drop_take add.commute)

lemma length_sub_bytes: "b \<le> length s \<Longrightarrow> length (sub_bytes a b s) = b - a"
  by (simp add: sub_bytes_def)

lemma occurs_sub_bytes:
  assumes "a \<le> b" "b \<le> length s"
  shows "occurs pat (sub_bytes a b s) i \<longleftrightarrow> occurs pat s (a + i) \<and> a + i + length pat \<le> b"
  using assms by (auto simp: occurs_def sub_bytes_def drop_take add.commute min_def)

text \<open>\<open>pos\<close> lies behind an occurrence of the opener, at \<open>lo\<close> or later, that no closer ends before \<open>pos\<close>.\<close>

definition unclosed :: "string \<Rightarrow> nat \<Rightarrow> nat \<Rightarrow> string \<Rightarrow> string \<Rightarrow> bool" where
  "unclosed bytes lo pos opener closer \<longleftrightarrow>
     (\<exists>i\<ge>lo. occurs opener bytes i \<and> i + length opener \<le> pos \<and>
        (i + length opener = pos \<or> \<not> (\<exists>c\<ge>i + length opener. occurs closer bytes c \<and> c + length closer \<le> pos)))"

lemma unclosed_from_iff:
  assumes "start + search \<le> pos" "pos \<le> length bytes"
  shows "unclosed_from bytes start pos opener closer search \<longleftrightarrow> unclosed bytes (start + search) pos opener closer"
  using assms
proof (induction bytes start pos opener closer search rule: unclosed_from.induct)
  case (1 bytes start pos opener closer search)
  let ?here = "\<lambda>i. occurs opener bytes i \<and> i + length opener \<le> pos"
  note at_sub = occurs_sub_bytes [OF 1(2,3), of opener]
  show ?case
  proof (cases "find_bytes opener (drop search (sub_bytes start pos bytes))")
    case None
    then have "\<not> ?here i" if "start + search \<le> i" for i
      using at_sub [of "i - (start + search)"] that by (auto simp: drop_sub_bytes find_bytes_None)
    with None show ?thesis by (subst unclosed_from.simps) (auto simp: unclosed_def)
  next
    case (Some rel)
    define o1 where "o1 = start + search + rel"
    have o1: "?here o1" "\<And>j. start + search \<le> j \<Longrightarrow> j < o1 \<Longrightarrow> \<not> ?here j"
      using Some at_sub unfolding o1_def drop_sub_bytes find_bytes_Some
       apply (auto simp: add.assoc)
      subgoal for j using at_sub [of "j - (start + search)"] by (metis add_diff_inverse_nat nat_add_left_cancel_less not_less add.assoc)
      done
    have closed: "find_bytes closer (sub_bytes (o1 + length opener) pos bytes) = None \<longleftrightarrow>
        \<not> (\<exists>c\<ge>o1 + length opener. occurs closer bytes c \<and> c + length closer \<le> pos)"
      using occurs_sub_bytes [OF conjunct2 [OF o1(1)] 1(3), of closer]
      by (auto simp: find_bytes_None) (metis le_add_diff_inverse)+
    show ?thesis
    proof (cases "pos \<le> o1 + length opener \<or> find_bytes closer (sub_bytes (o1 + length opener) pos bytes) = None")
      case True
      then have "unclosed bytes (start + search) pos opener closer"
        using o1(1) closed unfolding unclosed_def by (intro exI [of _ o1]) (auto simp: o1_def)
      with True Some show ?thesis by (subst unclosed_from.simps) (auto simp: o1_def Let_def)
    next
      case False
      have "unclosed bytes (start + search) pos opener closer \<longleftrightarrow> unclosed bytes (Suc o1) pos opener closer"
      proof -
        define good where "good i \<longleftrightarrow> ?here i \<and> (i + length opener = pos \<or>
            \<not> (\<exists>c\<ge>i + length opener. occurs closer bytes c \<and> c + length closer \<le> pos))" for i
        have "Suc o1 \<le> i" if "start + search \<le> i" "good i" for i
        proof -
          have "o1 \<le> i" using o1(2) [OF that(1)] that(2) unfolding good_def by (meson not_less)
          moreover have "i \<noteq> o1" using False closed that(2) by (auto simp: good_def)
          ultimately show ?thesis by simp
        qed
        moreover have "start + search \<le> i" if "Suc o1 \<le> i" for i using that by (simp add: o1_def)
        ultimately have "(\<exists>i\<ge>start + search. good i) \<longleftrightarrow> (\<exists>i\<ge>Suc o1. good i)" by blast
        then show ?thesis by (simp add: unclosed_def good_def)
      qed
      moreover have "unclosed_from bytes start pos opener closer (search + rel + 1) \<longleftrightarrow> unclosed bytes (Suc o1) pos opener closer"
        using 1(1) [OF Some refl] False 1(3) by (simp add: o1_def add.assoc)
      ultimately show ?thesis using Some False by (subst unclosed_from.simps) (auto simp: o1_def Let_def)
    qed
  qed
qed

lemma in_skip_region_iff:
  "in_skip_region bytes pos f \<longleftrightarrow>
     pos \<le> length bytes \<and> (\<exists>opener \<in> set (openers f). unclosed bytes (pos - window f) pos opener (closer_for f opener))"
  by (auto simp: in_skip_region_def list_ex_iff unclosed_from_iff)

text \<open>Which newlines end a record: the declarative reading of the options.\<close>

definition comment_line :: "string \<Rightarrow> string list \<Rightarrow> nat \<Rightarrow> bool" where
  "comment_line bytes prefixes nl \<longleftrightarrow> starts_any prefixes (sub_bytes (line_start_of bytes nl) nl bytes)"

definition is_boundary :: "string \<Rightarrow> char option \<Rightarrow> string list \<Rightarrow> bool \<Rightarrow> nat \<Rightarrow> bool" where
  "is_boundary bytes continuation prefixes blank nl \<longleftrightarrow>
     nl < length bytes \<and> bytes ! nl = newline \<and> \<not> continued bytes continuation nl \<and> \<not> comment_line bytes prefixes nl \<and>
     (blank \<longrightarrow> (\<exists>p<nl. bytes ! p = newline \<and> sub_bytes (Suc p) nl bytes \<in> {[], [carriage]} \<and>
        \<not> continued bytes continuation p \<and> \<not> comment_line bytes prefixes p))"

lemma starts_any_Nil [simp]: "\<not> starts_any [] line"
  by (simp add: starts_any_def)

lemma memchr_Some:
  "memchr c s = Some i \<Longrightarrow> i < length s \<and> s ! i = c \<and> (\<forall>j<i. s ! j \<noteq> c)"
  using position_Some [of "\<lambda>x. x = c" s i] by (simp add: memchr_def)

lemma memchr_None: "memchr c s = None \<longleftrightarrow> c \<notin> set s"
  by (auto simp: memchr_def position_None)

lemma line_start_blank:
  assumes "p < nl" "nl < length bytes" "bytes ! p = newline" "sub_bytes (Suc p) nl bytes \<in> {[], [carriage]}"
  shows "line_start_of bytes nl = Suc p"
proof -
  have "take nl bytes = take (Suc p) bytes @ sub_bytes (Suc p) nl bytes"
    using assms(1) by (metis Suc_leI append_take_drop_id drop_take min.absorb1 sub_bytes_def take_take)
  also have "take (Suc p) bytes = take p bytes @ [newline]"
    using assms(1-3) by (simp add: take_Suc_conv_app_nth)
  finally have "take nl bytes = take p bytes @ newline # sub_bytes (Suc p) nl bytes" by simp
  then show ?thesis using assms(1,2,4) by (auto simp: line_start_of_def memrchr_def)
qed

lemma blank_line_iff:
  assumes "nl < length bytes"
  defines "e \<equiv> nl - (if 0 < nl \<and> bytes ! (nl - 1) = carriage then 1 else 0)"
  shows "p < nl \<and> bytes ! p = newline \<and> sub_bytes (Suc p) nl bytes \<in> {[], [carriage]} \<longleftrightarrow>
    0 < e \<and> p = e - 1 \<and> bytes ! (e - 1) = newline"
proof
  assume l: "p < nl \<and> bytes ! p = newline \<and> sub_bytes (Suc p) nl bytes \<in> {[], [carriage]}"
  then have "length (sub_bytes (Suc p) nl bytes) \<le> 1" by auto
  then have "nl = Suc p \<or> nl = Suc (Suc p)" using l assms(1) by (auto simp: length_sub_bytes)
  moreover have "sub_bytes (Suc p) (Suc (Suc p)) bytes = [bytes ! Suc p]" if "Suc p < length bytes"
    using that by (simp add: sub_bytes_def take_Suc_conv_app_nth)
  ultimately show "0 < e \<and> p = e - 1 \<and> bytes ! (e - 1) = newline" using l assms(1) by (auto simp: e_def sub_bytes_def)
next
  assume r: "0 < e \<and> p = e - 1 \<and> bytes ! (e - 1) = newline"
  show "p < nl \<and> bytes ! p = newline \<and> sub_bytes (Suc p) nl bytes \<in> {[], [carriage]}"
  proof (cases "0 < nl \<and> bytes ! (nl - 1) = carriage")
    case True
    with r have "nl = Suc (Suc p)" by (auto simp: e_def)
    moreover from this True have "sub_bytes (Suc p) nl bytes = [carriage]"
      using assms(1) by (simp add: sub_bytes_def take_Suc_conv_app_nth)
    ultimately show ?thesis using True r by (simp add: e_def)
  next
    case False
    with r show ?thesis by (auto simp: e_def sub_bytes_def)
  qed
qed

lemma boundary_here_iff:
  assumes "nl < length bytes" "bytes ! nl = newline"
  shows "boundary_here bytes continuation prefixes blank nl \<longleftrightarrow> is_boundary bytes continuation prefixes blank nl"
proof -
  define e where "e = nl - (if 0 < nl \<and> bytes ! (nl - 1) = carriage then 1 else 0)"
  note blank = blank_line_iff [OF assms(1), folded e_def]
  show ?thesis
  proof (cases "blank \<and> 0 < e \<and> bytes ! (e - 1) = newline")
    case True
    then have p: "e - 1 < nl" "sub_bytes (Suc (e - 1)) nl bytes \<in> {[], [carriage]}" using blank [of "e - 1"] by auto
    then have start: "line_start_of bytes nl = e" using line_start_blank [OF _ assms(1)] True by fastforce
    have "(\<exists>p<nl. bytes ! p = newline \<and> sub_bytes (Suc p) nl bytes \<in> {[], [carriage]} \<and>
        \<not> continued bytes continuation p \<and> \<not> comment_line bytes prefixes p) \<longleftrightarrow>
      \<not> continued bytes continuation (e - 1) \<and> \<not> comment_line bytes prefixes (e - 1)"
      (is "?E \<longleftrightarrow> _")
    proof
      assume ?E
      then obtain q where q: "q < nl" "bytes ! q = newline" "sub_bytes (Suc q) nl bytes \<in> {[], [carriage]}"
        "\<not> continued bytes continuation q" "\<not> comment_line bytes prefixes q" by blast
      then have "q = e - 1" using blank [of q] by blast
      with q show "\<not> continued bytes continuation (e - 1) \<and> \<not> comment_line bytes prefixes (e - 1)" by simp
    qed (use True p in blast)
    then have "is_boundary bytes continuation prefixes blank nl \<longleftrightarrow> \<not> continued bytes continuation nl \<and>
        \<not> comment_line bytes prefixes nl \<and> \<not> continued bytes continuation (e - 1) \<and> \<not> comment_line bytes prefixes (e - 1)"
      using True assms by (simp add: is_boundary_def)
    moreover have "sub_bytes e nl bytes = [] \<or> sub_bytes e nl bytes = [carriage]" using True p(2) by simp
    ultimately show ?thesis using True
      unfolding boundary_here_def Let_def e_def [symmetric] start comment_line_def
      by (cases "prefixes = []"; cases "continued bytes continuation nl") simp_all
  next
    case False
    show ?thesis
    proof (cases blank)
      case True
      then have "\<not> is_boundary bytes continuation prefixes blank nl" using False blank unfolding is_boundary_def by blast
      moreover have "\<not> boundary_here bytes continuation prefixes blank nl"
        using True False unfolding boundary_here_def Let_def e_def [symmetric] by simp
      ultimately show ?thesis by simp
    next
      case False
      then show ?thesis using assms
        by (cases "prefixes = []") (simp_all add: boundary_here_def is_boundary_def comment_line_def Let_def)
    qed
  qed
qed

lemma find_append: "List.find P (xs @ ys) = (case List.find P xs of None \<Rightarrow> List.find P ys | Some x \<Rightarrow> Some x)"
  by (induction xs) simp_all

lemma boundary_from_find:
  "boundary_from bytes pos continuation prefixes blank =
     map_option Suc (List.find (is_boundary bytes continuation prefixes blank) [pos..<length bytes])"
proof (induction bytes pos continuation prefixes blank rule: boundary_from.induct)
  case (1 bytes pos continuation prefixes blank)
  let ?B = "is_boundary bytes continuation prefixes blank"
  show ?case
  proof (cases "memchr newline (drop pos bytes)")
    case None
    then have "\<not> ?B i" if "pos \<le> i" for i
    proof -
      have "drop pos bytes ! (i - pos) \<in> set (drop pos bytes)" if "i < length bytes"
        using that \<open>pos \<le> i\<close> by (intro nth_mem) simp
      with None \<open>pos \<le> i\<close> show ?thesis by (auto simp: memchr_None is_boundary_def)
    qed
    then have "List.find ?B [pos..<length bytes] = None" by (auto simp: find_None_iff)
    with None show ?thesis by (subst boundary_from.simps) simp
  next
    case (Some rel)
    then have nl: "pos + rel < length bytes" "bytes ! (pos + rel) = newline" "\<forall>j<rel. bytes ! (pos + j) \<noteq> newline"
      by (auto dest!: memchr_Some)
    then have before: "\<not> ?B i" if "pos \<le> i" "i < pos + rel" for i
      using that by (auto simp: is_boundary_def dest: spec [of _ "i - pos"])
    have "[pos..<length bytes] = [pos..<pos + rel] @ (pos + rel) # [pos + rel + 1..<length bytes]"
      using nl(1) by (metis Suc_eq_plus1 less_imp_le_nat le_add1 upt_add_eq_append upt_conv_Cons le_add_diff_inverse)
    moreover have "List.find ?B [pos..<pos + rel] = None" using before by (auto simp: find_None_iff)
    ultimately have "List.find ?B [pos..<length bytes] = List.find ?B ((pos + rel) # [pos + rel + 1..<length bytes])"
      by (simp add: find_append del: List.find.simps upt_Suc)
    with Some nl 1 [OF _ Some] show ?thesis
      by (subst boundary_from.simps) (simp add: boundary_here_iff del: upt_Suc)
  qed
qed

lemma find_next_find:
  "find_next_record_boundary bytes from_pos continuation prefixes blank =
     map_option Suc (List.find (is_boundary bytes continuation prefixes blank) [from_pos..<length bytes])"
proof (cases "continuation = None \<and> prefixes = [] \<and> \<not> blank \<and> from_pos \<le> length bytes")
  case plain: True
  then have here: "boundary_here bytes continuation prefixes blank nl" for nl
    by (simp add: boundary_here_def continued_def)
  have "boundary_from bytes from_pos continuation prefixes blank = map_option (\<lambda>offset. from_pos + offset + 1) (memchr newline (drop from_pos bytes))"
    using plain here by (subst boundary_from.simps) (auto simp: memchr_def split: option.splits)
  with plain show ?thesis by (simp add: find_next_record_boundary_def flip: boundary_from_find)
next
  case False
  then show ?thesis
    by (auto simp: find_next_record_boundary_def boundary_from_find simp del: upt_Suc)
qed

section \<open>What is promised\<close>

text \<open>
  The record boundary reported is the one right behind the first newline, at or after the start of the search, that ends a
  record: it is not continued, its line is no comment and, in blank-line mode, it ends an empty
  line behind a line that is neither continued nor a comment.
\<close>

theorem boundary_is_first:
  "find_next_record_boundary bytes from_pos continuation prefixes blank =
     map_option Suc (List.find (is_boundary bytes continuation prefixes blank) [from_pos..<length bytes])"
  by (rule find_next_find)

text \<open>
  A position counts as inside a skip region exactly when some occurrence of an opener within the
  window before it is followed by no closer that ends before it.
\<close>

theorem skip_region_unclosed:
  "in_skip_region bytes pos f \<longleftrightarrow> pos \<le> length bytes \<and>
     (\<exists>opener \<in> set (openers f). \<exists>i\<ge>pos - window f. occurs opener bytes i \<and> i + length opener \<le> pos \<and>
        (i + length opener = pos \<or>
         \<not> (\<exists>c\<ge>i + length opener. occurs (closer_for f opener) bytes c \<and> c + length (closer_for f opener) \<le> pos)))"
  unfolding in_skip_region_iff unclosed_def ..

definition comment_finder :: skip_finder where
  "comment_finder = \<lparr>openers = [''<!--''], closer_for = (\<lambda>_. ''-->''), window = 65536\<rparr>"

theorem skip_region_unclosed_witness: "in_skip_region ''a<!-- b'' 7 comment_finder \<and> \<not> in_skip_region ''<!---->b'' 7 comment_finder"
proof
  have "occurs ''<!--'' ''a<!-- b'' 1" by (simp add: occurs_def)
  moreover have "\<not> occurs ''-->'' ''a<!-- b'' c" if "5 \<le> c" for c using that by (simp add: occurs_def)
  ultimately show "in_skip_region ''a<!-- b'' 7 comment_finder"
    unfolding skip_region_unclosed by (auto simp: comment_finder_def intro!: exI [of _ 1])
  have "occurs ''-->'' ''<!---->b'' 4" by (simp add: occurs_def eval_nat_numeral)
  moreover have "i = 0" if "occurs ''<!--'' ''<!---->b'' i" for i
  proof -
    have "i \<in> {0, 1, 2, 3, 4}" using that by (auto simp: occurs_def)
    with that show ?thesis by (auto simp: occurs_def eval_nat_numeral)
  qed
  ultimately show "\<not> in_skip_region ''<!---->b'' 7 comment_finder"
    unfolding skip_region_unclosed by (fastforce simp: comment_finder_def)
qed

text \<open>
  The planned number of chunks never exceeds the maximum, is at least the number of threads
  as long as that is no more than the maximum, and keeps every chunk above the floor unless
  the number of threads forces smaller ones.
\<close>

theorem chunk_count_bounds:
  "plan_chunk_count_with bytes threads mode floor_bytes \<le> MAX_SPLIT_CHUNKS \<and>
   (threads \<le> MAX_SPLIT_CHUNKS \<longrightarrow> threads \<le> plan_chunk_count_with bytes threads mode floor_bytes) \<and>
   (threads < plan_chunk_count_with bytes threads mode floor_bytes \<longrightarrow>
      plan_chunk_count_with bytes threads mode floor_bytes * max floor_bytes 1 \<le> bytes)"
proof -
  let ?n = "plan_chunk_count_with bytes threads mode floor_bytes"
  have "?n * max floor_bytes 1 \<le> bytes" if "threads < ?n"
  proof -
    have "?n \<le> bytes div max floor_bytes 1"
      using that by (auto simp: plan_chunk_count_with_def Let_def min_def max_def split: if_splits)
    then show ?thesis by (metis div_times_less_eq_dividend le_trans mult_le_mono1)
  qed
  then show ?thesis by (simp add: plan_chunk_count_with_def Let_def)
qed

theorem chunk_count_bounds_witness:
  "(2::nat) \<le> plan_chunk_count_with 4096 2 Parallel 512 \<and> plan_chunk_count_with 4096 2 Parallel 512 * 512 \<le> 4096"
proof -
  have "2 < plan_chunk_count_with 4096 2 Parallel 512" "2 \<le> MAX_SPLIT_CHUNKS"
    by (simp_all add: plan_chunk_count_with_def MAX_SPLIT_CHUNKS_def sat_mul_def usize_max_def)
  with chunk_count_bounds [of 4096 2 Parallel 512] show ?thesis by simp
qed

subsection \<open>Cutting along ascending points\<close>

lemma cuts_cover:
  assumes "sorted_wrt (<) ps" "ps \<noteq> []"
  shows "concat (map (\<lambda>(a, b). sub_bytes a b xs) (zip ps (tl ps))) = sub_bytes (hd ps) (last ps) xs"
  using assms
proof (induction ps)
  case (Cons p ps)
  show ?case
  proof (cases ps)
    case (Cons q qs)
    with Cons.prems have "p < q" "q \<le> last ps" by (auto simp: less_imp_le)
    then have "sub_bytes p q xs @ sub_bytes q (last ps) xs = sub_bytes p (last ps) xs"
      unfolding sub_bytes_def using take_add [of "q - p" "last ps - q" "drop p xs"] by (simp add: add.commute)
    moreover have "concat (map (\<lambda>(a, b). sub_bytes a b xs) (zip ps (tl ps))) = sub_bytes (hd ps) (last ps) xs"
      using Cons.IH Cons.prems Cons by simp
    ultimately show ?thesis using Cons by simp
  qed (simp add: sub_bytes_def)
qed simp

lemma zip_ascending: "sorted_wrt (<) ps \<Longrightarrow> (a, b) \<in> set (zip ps (tl ps)) \<Longrightarrow> a < b"
  by (induction ps) (auto simp: zip_Cons1 split: list.splits)

lemma butlast_zip_ascending:
  fixes ps :: "nat list"
  shows "sorted_wrt (<) ps \<Longrightarrow> (a, b) \<in> set (butlast (zip ps (tl ps))) \<Longrightarrow> b < last ps \<and> b \<in> set ps"
proof (induction ps)
  case (Cons p ps)
  show ?case
  proof (cases ps)
    case (Cons q qs)
    have "b < last ps \<and> b \<in> set ps" if "qs \<noteq> []" "(a, b) = (p, q)"
      using Cons.prems(1) that Cons last_in_set [of qs] by auto
    moreover have "b < last ps \<and> b \<in> set ps" if "(a, b) \<in> set (butlast (zip ps (tl ps)))"
      using Cons.IH Cons.prems(1) that by simp
    moreover have "zip (p # ps) (tl (p # ps)) = (p, q) # zip ps (tl ps)" "zip ps (tl ps) = [] \<longleftrightarrow> qs = []"
      using Cons by auto
    ultimately show ?thesis using Cons.prems(2) Cons by (auto split: if_splits)
  qed (use Cons.prems in simp)
qed simp

lemma ranges_ascending:
  assumes "sorted_wrt (<) ps" "2 \<le> length ps"
  shows "split_points_to_ranges ps len = zip ps (tl ps)"
  using assms zip_ascending [OF assms(1)] by (auto simp: split_points_to_ranges_def filter_id_conv)

lemma sorted_le_last:
  fixes x :: nat
  assumes "sorted_wrt (<) xs" "x \<in> set xs"
  shows "x \<le> last xs"
  using assms by (induction xs) (auto dest: less_imp_le)

lemma strict_remdups_adj: "sorted xs \<Longrightarrow> sorted_wrt (<) (remdups_adj (xs :: nat list))"
  by (induction xs rule: remdups_adj.induct) (auto simp: remdups_adj_set less_le)

text \<open>A splitter whose record starts lie inside the input, and what the planner makes of it.\<close>

locale record_splitter =
  fixes starts :: "string \<Rightarrow> nat \<Rightarrow> nat option"
  assumes starts_le: "starts bytes from_pos = Some p \<Longrightarrow> p \<le> length bytes"
begin

lemma points:
  fixes bytes and max_chunks floor_bytes p :: nat
  assumes "next_record_start S = starts" "bytes \<noteq> []"
  defines "ps \<equiv> default_find_split_points S bytes max_chunks floor_bytes"
  shows "sorted_wrt (<) ps" "2 \<le> length ps" "hd ps = 0" "last ps = length bytes"
    "p \<in> set ps \<Longrightarrow> p = 0 \<or> p = length bytes \<or>
       (\<exists>a. starts bytes a = Some p) \<and> (\<forall>f. skip_regions S = Some f \<longrightarrow> \<not> in_skip_region bytes p f)"
proof -
  define n where "n = plan_chunk_count_with (length bytes) max_chunks Parallel floor_bytes"
  define qs where "qs = filter (\<lambda>p. 0 < p) (remdups_adj (sort
    (List.map_filter (\<lambda>i. candidate S bytes (length bytes div n * i)) [1..<n])))"
  have qs: "(\<exists>a. starts bytes a = Some q) \<and> (\<forall>f. skip_regions S = Some f \<longrightarrow> \<not> in_skip_region bytes q f)" "0 < q"
    if "q \<in> set qs" for q
    using that assms(1) by (auto simp: qs_def map_filter_def candidate_def split: option.splits if_splits)
  have s: "sorted_wrt (<) (0 # qs)"
    using qs(2) by (simp add: qs_def sorted_wrt_filter strict_remdups_adj)
  have ps: "ps = (if max_chunks \<le> 1 then [0, length bytes]
      else if last (0 # qs) \<noteq> length bytes then 0 # qs @ [length bytes] else 0 # qs)"
    using assms(2) by (simp add: ps_def default_find_split_points_def n_def qs_def Let_def)
  have le: "q \<le> length bytes" if "q \<in> set (0 # qs)" for q using that qs(1) [of q] starts_le by auto
  have lt: "q < length bytes" if "last (0 # qs) \<noteq> length bytes" "q \<in> set (0 # qs)" for q
  proof -
    have "q \<le> last (0 # qs)" by (rule sorted_le_last [OF s that(2)])
    moreover have "last (0 # qs) \<le> length bytes" by (rule le) (rule last_in_set, simp)
    ultimately show ?thesis using that(1) by linarith
  qed
  show "hd ps = 0" "last ps = length bytes" using assms(2) by (simp_all add: ps)
  have "sorted_wrt (<) (0 # qs @ [length bytes])" if "last (0 # qs) \<noteq> length bytes"
    using s lt [OF that] sorted_wrt_append [of "(<)" "0 # qs" "[length bytes]"] by simp
  then show "sorted_wrt (<) ps" using s assms(2) by (simp add: ps)
  show "2 \<le> length ps" using assms(2) by (cases qs) (auto simp: ps)
  show "p = 0 \<or> p = length bytes \<or>
       (\<exists>a. starts bytes a = Some p) \<and> (\<forall>f. skip_regions S = Some f \<longrightarrow> \<not> in_skip_region bytes p f)" if "p \<in> set ps"
    using that qs(1) [of p] by (auto simp: ps split: if_splits)
qed

lemma ranges_cover:
  fixes bytes and max_chunks floor_bytes a b :: nat
  assumes "next_record_start S = starts"
  defines "rs \<equiv> split_points_to_ranges (default_find_split_points S bytes max_chunks floor_bytes) (length bytes)"
  shows "concat (map (\<lambda>(a, b). sub_bytes a b bytes) rs) = bytes" "(a, b) \<in> set rs \<Longrightarrow> a < b \<and> b \<le> length bytes"
proof -
  let ?ps = "default_find_split_points S bytes max_chunks floor_bytes"
  have *: "concat (map (\<lambda>(a, b). sub_bytes a b bytes) rs) = bytes \<and> (\<forall>(a, b) \<in> set rs. a < b \<and> b \<le> length bytes)"
  proof (cases "bytes = []")
    case True
    then show ?thesis by (simp add: rs_def default_find_split_points_def split_points_to_ranges_def)
  next
    case False
    note ps = points [OF assms(1) False, where max_chunks = max_chunks and floor_bytes = floor_bytes]
    have rs: "rs = zip ?ps (tl ?ps)" unfolding rs_def by (rule ranges_ascending [OF ps(1,2)])
    have "?ps \<noteq> []" using ps(2) by auto
    from cuts_cover [OF ps(1) this, of bytes] have "concat (map (\<lambda>(a, b). sub_bytes a b bytes) rs) = bytes"
      by (simp add: rs ps(3,4) sub_bytes_def)
    moreover have "a < b \<and> b \<le> length bytes" if "(a, b) \<in> set rs" for a b
    proof -
      have "b \<in> set ?ps" using that \<open>?ps \<noteq> []\<close> unfolding rs by (meson list.set_sel(2) set_zip_rightD)
      then have "b \<le> length bytes" using ps(5) starts_le by blast
      then show ?thesis using that zip_ascending [OF ps(1)] by (simp add: rs)
    qed
    ultimately show ?thesis by blast
  qed
  then show "concat (map (\<lambda>(a, b). sub_bytes a b bytes) rs) = bytes" ..
  show "a < b \<and> b \<le> length bytes" if "(a, b) \<in> set rs" using * that by blast
qed

end

interpretation declared: record_splitter "\<lambda>bytes from_pos. find_next_record_boundary bytes from_pos continuation prefixes blank"
  for continuation prefixes blank
  by unfold_locales (auto simp: find_next_find find_upt_Some simp del: upt_Suc)

text \<open>
  C23. Without an override the split points ascend strictly from 0 to the length of the input, and
  each point between is a record boundary outside every skip region.
\<close>

theorem split_points_valid:
  assumes "next_record_start S = (\<lambda>bytes from_pos. find_next_record_boundary bytes from_pos continuation prefixes blank)"
    and "split_override S = None" "bytes \<noteq> []" "points = find_split_points_with S bytes max_chunks floor_bytes"
  shows "sorted_wrt (<) points \<and> hd points = 0 \<and> last points = length bytes \<and>
    (\<forall>p \<in> set points. p = 0 \<or> p = length bytes \<or>
       is_boundary bytes continuation prefixes blank (p - 1) \<and>
       (\<forall>f. skip_regions S = Some f \<longrightarrow> \<not> in_skip_region bytes p f))"
proof -
  have points: "points = default_find_split_points S bytes max_chunks floor_bytes"
    using assms(2,4) by (simp add: find_split_points_with_def find_split_points_def)
  note valid = declared.points [OF assms(1,3), where max_chunks = max_chunks and floor_bytes = floor_bytes, folded points]
  have "is_boundary bytes continuation prefixes blank (p - 1)"
    if "find_next_record_boundary bytes a continuation prefixes blank = Some p" for a p
    using that by (auto simp: find_next_find find_upt_Some simp del: upt_Suc)
  with valid show ?thesis by meson
qed

text \<open>The splitter of the documentation example: every newline ends a record.\<close>

definition line_splitter :: splitter where
  "line_splitter = \<lparr>next_record_start = (\<lambda>bytes from_pos. find_next_record_boundary bytes from_pos None [] False),
     estimate_bytes_per_row = (\<lambda>sample. max (length sample) 1), skip_regions = None, split_override = None\<rparr>"

lemma line_splitter_simps:
  "next_record_start line_splitter = (\<lambda>bytes from_pos. find_next_record_boundary bytes from_pos None [] False)"
  "split_override line_splitter = None"
  by (simp_all add: line_splitter_def)

theorem split_points_valid_witness:
  "hd (find_split_points_with line_splitter [newline, newline] 2 1) = 0 \<and>
   last (find_split_points_with line_splitter [newline, newline] 2 1) = 2"
  using split_points_valid [OF line_splitter_simps _ refl, of "[newline, newline]" 2 1] by simp

text \<open>The lines of an input, each with the newline that ends it.\<close>

fun lines_of :: "string \<Rightarrow> string list" where
  "lines_of [] = []"
| "lines_of (c # s) =
     (if c = newline then [c] # lines_of s
      else case lines_of s of [] \<Rightarrow> [[c]] | l # ls \<Rightarrow> (c # l) # ls)"

lemma lines_of_Nil_iff [simp]: "lines_of s = [] \<longleftrightarrow> s = []"
  by (cases s) (simp_all split: list.splits)

lemma lines_of_append:
  "xs = [] \<or> last xs = newline \<Longrightarrow> lines_of (xs @ ys) = lines_of xs @ lines_of ys"
proof (induction xs)
  case (Cons c xs)
  then show ?case by (cases "xs = []") (auto split: list.splits)
qed simp

lemma lines_of_concat:
  "(\<forall>c \<in> set (butlast cs). c \<noteq> [] \<and> last c = newline) \<Longrightarrow> lines_of (concat cs) = concat (map lines_of cs)"
  by (induction cs) (auto simp: lines_of_append split: if_splits)

lemma chunks_cover:
  assumes "next_record_start S = (\<lambda>bytes from_pos. find_next_record_boundary bytes from_pos continuation prefixes blank)"
    and "split_override S = None"
    and "ranges = split_points_to_ranges (find_split_points_with S bytes max_chunks floor_bytes) (length bytes)"
  shows "(\<forall>(a, b) \<in> set ranges. a < b \<and> b \<le> length bytes) \<and>
    concat (map (\<lambda>(a, b). sub_bytes a b bytes) ranges) = bytes \<and>
    concat (map (\<lambda>(a, b). lines_of (sub_bytes a b bytes)) ranges) = lines_of bytes"
proof -
  have ranges: "ranges = split_points_to_ranges (default_find_split_points S bytes max_chunks floor_bytes) (length bytes)"
    using assms(2,3) by (simp add: find_split_points_with_def find_split_points_def)
  note cover = declared.ranges_cover [OF assms(1), where max_chunks = max_chunks and floor_bytes = floor_bytes and bytes = bytes, folded ranges]
  let ?chunks = "map (\<lambda>(a, b). sub_bytes a b bytes) ranges"
  have "c \<noteq> [] \<and> last c = newline" if c: "c \<in> set (butlast ?chunks)" for c
  proof -
    have "bytes \<noteq> []" using c by (auto simp: ranges default_find_split_points_def split_points_to_ranges_def)
    note ps = declared.points [OF assms(1) this, where max_chunks = max_chunks and floor_bytes = floor_bytes]
    have zip: "ranges = zip (default_find_split_points S bytes max_chunks floor_bytes) (tl (default_find_split_points S bytes max_chunks floor_bytes))"
      unfolding ranges by (rule ranges_ascending [OF ps(1,2)])
    from c obtain a b where ab: "(a, b) \<in> set (butlast ranges)" "c = sub_bytes a b bytes" by (auto simp: map_butlast simp flip: map_butlast)
    have b: "a < b" "b \<le> length bytes" using cover(2) [OF in_set_butlastD [OF ab(1)]] by auto
    have "b < length bytes" "b \<in> set (default_find_split_points S bytes max_chunks floor_bytes)"
      using butlast_zip_ascending [OF ps(1)] ab(1) by (simp_all add: zip ps(4))
    then obtain x where "find_next_record_boundary bytes x continuation prefixes blank = Some b"
      using ps(5) [of b] b(1) by auto
    then have "bytes ! (b - 1) = newline"
      by (auto simp: find_next_find find_upt_Some is_boundary_def simp del: upt_Suc)
    moreover have "last c = bytes ! (b - 1)" "c \<noteq> []"
      using b by (auto simp: ab(2) sub_bytes_def last_conv_nth)
    ultimately show ?thesis by simp
  qed
  then have "lines_of (concat ?chunks) = concat (map lines_of ?chunks)" by (intro lines_of_concat) blast
  moreover have "concat (map lines_of ?chunks) = concat (map (\<lambda>(a, b). lines_of (sub_bytes a b bytes)) ranges)"
    by (intro arg_cong [of _ _ concat]) auto
  ultimately show ?thesis using cover by auto
qed

text \<open>
  Cutting loses, repeats and tears nothing: the chunks between the split points are not empty,
  lie inside the input, put together they are the input, and their lines in order are its lines.
\<close>

theorem chunks_partition_input:
  assumes "next_record_start S = (\<lambda>bytes from_pos. find_next_record_boundary bytes from_pos continuation prefixes blank)"
    and "split_override S = None"
    and "ranges = split_points_to_ranges (find_split_points_with S bytes max_chunks floor_bytes) (length bytes)"
  shows "(\<forall>(a, b) \<in> set ranges. a < b \<and> b \<le> length bytes) \<and>
    concat (map (\<lambda>(a, b). sub_bytes a b bytes) ranges) = bytes \<and>
    concat (map (\<lambda>(a, b). lines_of (sub_bytes a b bytes)) ranges) = lines_of bytes"
  using chunks_cover [OF assms] .

theorem chunks_partition_input_witness:
  "concat (map (\<lambda>(a, b). lines_of (sub_bytes a b [newline, newline]))
     (split_points_to_ranges (find_split_points_with line_splitter [newline, newline] 2 1) 2)) = [[newline], [newline]]"
  using chunks_partition_input [OF line_splitter_simps refl, of "[newline, newline]" 2 1] by (simp add: numeral_2_eq_2)

text \<open>An empty input has the split point 0 twice.\<close>

lemma empty_input_points: "split_override S = None \<Longrightarrow> find_split_points S [] n = [0, 0]"
  by (simp add: find_split_points_def default_find_split_points_def)

text \<open>More threads than the maximum: fewer chunks than threads.\<close>

lemma chunks_below_threads: "plan_chunk_count bytes 2000 mode < 2000"
  by (simp add: plan_chunk_count_def plan_chunk_count_with_def MAX_SPLIT_CHUNKS_def Let_def)

end
