(* ===== verification/Block_Masks.thy ===== *)
theory Block_Masks
  imports Decoder
begin

text \<open>
  The 64-byte block masks that answer delimiter searches (\<open>block_masks.rs\<close>): the byte comparison
  into a mask on each kind of CPU, the block cache, single and multiple delimiter searches, and
  the forward cursor that skips quoted values with a prefix XOR. A failed \<open>expect\<close> is \<open>None\<close>.
\<close>

section \<open>Masks of 64 bytes\<close>

type_synonym mask64 = "64 word"

abbreviation NUL :: char where "NUL \<equiv> CHR 0x00"

definition MAX_DELIMS :: nat where "MAX_DELIMS = 8"

definition prefix_xor :: "mask64 \<Rightarrow> mask64" where
  "prefix_xor m =
     (let m = m XOR push_bit 1 m; m = m XOR push_bit 2 m; m = m XOR push_bit 4 m;
          m = m XOR push_bit 8 m; m = m XOR push_bit 16 m; m = m XOR push_bit 32 m in m)"

text \<open>\<open>_mm_movemask_epi8\<close> of \<open>_mm_cmpeq_epi8\<close>, for a vector of any number of byte lanes.\<close>

definition movemask_eq :: "char \<Rightarrow> string \<Rightarrow> mask64" where
  "movemask_eq needle lanes =
     fold (\<lambda>i m. if lanes ! i = needle then m OR push_bit i 1 else m) [0..<length lanes] 0"

definition lanes :: "nat \<Rightarrow> nat \<Rightarrow> string \<Rightarrow> string" where
  "lanes start n p = take n (drop start p)"

definition mask64_avx2 :: "string \<Rightarrow> char \<Rightarrow> mask64" where
  "mask64_avx2 p needle =
     movemask_eq needle (lanes 0 32 p) OR push_bit 32 (movemask_eq needle (lanes 32 32 p))"

definition mask64_sse2 :: "string \<Rightarrow> char \<Rightarrow> mask64" where
  "mask64_sse2 p needle =
     fold (\<lambda>i m. m OR push_bit (i * 16) (movemask_eq needle (lanes (i * 16) 16 p))) [0..<4] 0"

definition mask64_scalar :: "string \<Rightarrow> char \<Rightarrow> mask64" where
  "mask64_scalar p needle = fold (\<lambda>i m. if p ! i = needle then m OR push_bit i 1 else m) [0..<64] 0"

text \<open>Which of the variants runs: the compilation target and the CPU's features.\<close>

datatype cpu = Avx2 | Sse2 | Scalar_only

definition mask64 :: "cpu \<Rightarrow> string \<Rightarrow> char \<Rightarrow> mask64" where
  "mask64 cpu p needle =
     (case cpu of Avx2 \<Rightarrow> mask64_avx2 p needle | Sse2 \<Rightarrow> mask64_sse2 p needle | Scalar_only \<Rightarrow> mask64_scalar p needle)"

definition masks64_avx2 :: "string \<Rightarrow> string \<Rightarrow> nat \<Rightarrow> mask64 list \<Rightarrow> mask64 list" where
  "masks64_avx2 p delims n out =
     (let lo = lanes 0 32 p; hi = lanes 32 32 p
      in fold (\<lambda>i out. out[i := movemask_eq (delims ! i) lo OR push_bit 32 (movemask_eq (delims ! i) hi)]) [0..<n] out)"

definition masks64_sse2 :: "string \<Rightarrow> string \<Rightarrow> nat \<Rightarrow> mask64 list \<Rightarrow> mask64 list" where
  "masks64_sse2 p delims n out =
     (let v0 = lanes 0 16 p; v1 = lanes 16 16 p; v2 = lanes 32 16 p; v3 = lanes 48 16 p
      in fold (\<lambda>i out. let d = delims ! i in
           out[i := movemask_eq d v0 OR push_bit 16 (movemask_eq d v1) OR
                    push_bit 32 (movemask_eq d v2) OR push_bit 48 (movemask_eq d v3)]) [0..<n] out)"

definition masks64_scalar :: "string \<Rightarrow> string \<Rightarrow> nat \<Rightarrow> mask64 list \<Rightarrow> mask64 list" where
  "masks64_scalar p delims n out =
     fold (\<lambda>j out. fold (\<lambda>i out. if delims ! i = p ! j then out[i := out ! i OR push_bit j 1] else out) [0..<n] out)
       [0..<64] (replicate n 0 @ drop n out)"

definition masks64 :: "cpu \<Rightarrow> string \<Rightarrow> string \<Rightarrow> nat \<Rightarrow> mask64 list \<Rightarrow> mask64 list" where
  "masks64 cpu p delims n out =
     (case cpu of Avx2 \<Rightarrow> masks64_avx2 p delims n out | Sse2 \<Rightarrow> masks64_sse2 p delims n out
      | Scalar_only \<Rightarrow> masks64_scalar p delims n out)"

section \<open>The cached block\<close>

record block_masks =
  bm_buf :: string
  bm_base :: nat
  bm_loaded :: bool
  bm_computed :: "8 word"
  bm_masks :: "mask64 list"
  bm_in_quote :: char
  bm_quote_pos :: nat
  bm_delims :: string
  bm_quotes :: string

definition bm_build :: "string \<Rightarrow> string \<Rightarrow> string \<Rightarrow> block_masks option" where
  "bm_build buf delims quotes =
     (if length delims \<le> MAX_DELIMS \<and> list_all (\<lambda>q. q \<in> set delims) quotes
      then Some \<lparr>bm_buf = buf, bm_base = usize_max, bm_loaded = False, bm_computed = 0,
                 bm_masks = replicate MAX_DELIMS 0, bm_in_quote = NUL, bm_quote_pos = 0,
                 bm_delims = delims, bm_quotes = quotes\<rparr>
      else None)"

definition bm_new :: "string \<Rightarrow> string \<Rightarrow> block_masks option" where
  "bm_new buf delims = bm_build buf delims []"

definition bm_with_quotes :: "string \<Rightarrow> string \<Rightarrow> string \<Rightarrow> block_masks option" where
  "bm_with_quotes buf delims quotes = bm_build buf delims quotes"

definition delim_index :: "block_masks \<Rightarrow> char \<Rightarrow> nat option" where
  "delim_index s d = position (\<lambda>x. x = d) (bm_delims s)"

definition full_mask :: "block_masks \<Rightarrow> 8 word" where
  "full_mask s = (let n = length (bm_delims s) in if 8 \<le> n then - 1 else push_bit n 1 - 1)"

text \<open>The bytes of the block at \<open>base\<close>, padded with zeros behind the end of the buffer.\<close>

definition tail_bytes :: "string \<Rightarrow> nat \<Rightarrow> string" where
  "tail_bytes buf base = drop base buf @ replicate (64 - (length buf - base)) NUL"

definition fill :: "cpu \<Rightarrow> block_masks \<Rightarrow> nat \<Rightarrow> string \<Rightarrow> mask64 list \<Rightarrow> mask64 list" where
  "fill cpu s base delims out =
     (let n = length delims; len = length (bm_buf s)
      in if n = 0 then out
         else if base + 64 \<le> len then masks64 cpu (drop base (bm_buf s)) delims n out
         else (let rem = len - base
               in if rem = 0 then out
                  else (let out = masks64 cpu (tail_bytes (bm_buf s) base) delims n out;
                            keep = push_bit rem 1 - 1
                        in map (\<lambda>m. m AND keep) (take n out) @ drop n out)))"

definition load_at :: "nat \<Rightarrow> block_masks \<Rightarrow> block_masks" where
  "load_at base s = s\<lparr>bm_base := base, bm_loaded := True, bm_computed := 0\<rparr>"

text \<open>\<open>from & !63\<close>.\<close>

definition block_start :: "nat \<Rightarrow> nat" where
  "block_start i = i - i mod 64"

definition select_block :: "nat \<Rightarrow> block_masks \<Rightarrow> block_masks" where
  "select_block i s =
     (if block_start i \<noteq> bm_base s \<or> \<not> bm_loaded s then load_at (block_start i) s else s)"

text \<open>The base is a block of the buffer here, so adding 64 does not wrap around.\<close>

definition advance_block :: "block_masks \<Rightarrow> block_masks option" where
  "advance_block s =
     (let nb = bm_base s + 64 in if length (bm_buf s) \<le> nb then None else Some (load_at nb s))"

definition compute_one :: "cpu \<Rightarrow> char \<Rightarrow> block_masks \<Rightarrow> mask64" where
  "compute_one cpu d s =
     (let base = bm_base s; len = length (bm_buf s)
      in if base + 64 \<le> len then mask64 cpu (drop base (bm_buf s)) d
         else (let rem = len - base
               in if rem = 0 then 0
                  else mask64 cpu (tail_bytes (bm_buf s) base) d AND (push_bit rem 1 - 1)))"

definition mask_for :: "cpu \<Rightarrow> char \<Rightarrow> block_masks \<Rightarrow> (mask64 \<times> block_masks) option" where
  "mask_for cpu d s =
     (case delim_index s d of None \<Rightarrow> None
      | Some i \<Rightarrow>
         (let s = (if bit (bm_computed s) i then s
                   else s\<lparr>bm_masks := (bm_masks s)[i := compute_one cpu d s],
                          bm_computed := bm_computed s OR push_bit i 1\<rparr>)
          in Some (bm_masks s ! i, s)))"

definition ensure_all :: "cpu \<Rightarrow> block_masks \<Rightarrow> block_masks" where
  "ensure_all cpu s =
     (if bm_computed s = full_mask s then s
      else s\<lparr>bm_masks := fill cpu s (bm_base s) (bm_delims s) (replicate MAX_DELIMS 0),
             bm_computed := full_mask s\<rparr>)"

definition from_mask :: "nat \<Rightarrow> mask64" where
  "from_mask pos = (if 64 \<le> pos then 0 else push_bit pos (- 1))"

definition trailing_zeros :: "mask64 \<Rightarrow> nat" where
  "trailing_zeros m = (case List.find (bit m) [0..<64] of Some i \<Rightarrow> i | None \<Rightarrow> 64)"

definition count_ones :: "mask64 \<Rightarrow> nat" where
  "count_ones m = length (filter (bit m) [0..<64])"

text \<open>The block under \<open>cur\<close>, as both search loops select it.\<close>

definition seek :: "nat \<Rightarrow> block_masks \<Rightarrow> block_masks" where
  "seek cur s = (if cur < bm_base s \<or> bm_base s + 64 \<le> cur then select_block cur s else s)"

lemma seek_base: "bm_base (seek cur s) \<le> cur" "cur < bm_base (seek cur s) + 64"
  by (auto simp: seek_def select_block_def load_at_def block_start_def)

lemma seek_buf [simp]: "bm_buf (seek cur s) = bm_buf s"
  by (simp add: seek_def select_block_def load_at_def)

lemma mask_for_frame:
  "mask_for cpu d s = Some (m, t) \<Longrightarrow> bm_base t = bm_base s \<and> bm_buf t = bm_buf s"
  by (auto simp: mask_for_def Let_def split: option.splits if_splits)

lemma ensure_all_frame [simp]: "bm_base (ensure_all cpu s) = bm_base s" "bm_buf (ensure_all cpu s) = bm_buf s"
  by (simp_all add: ensure_all_def)

lemma advance_frame: "advance_block s = Some t \<Longrightarrow> bm_base t = bm_base s + 64 \<and> bm_buf t = bm_buf s \<and> bm_base t < length (bm_buf s)"
  by (auto simp: advance_block_def load_at_def Let_def split: if_splits)

section \<open>Searches\<close>

text \<open>The loop of \<open>next\<close>: \<open>None\<close> is a panic, \<open>Some (None, _)\<close> that nothing was found.\<close>

function next_loop :: "cpu \<Rightarrow> char \<Rightarrow> nat \<Rightarrow> block_masks \<Rightarrow> (nat option \<times> block_masks) option" where
  "next_loop cpu d cur s =
     (let s = seek cur s; offset = cur - bm_base s
      in case mask_for cpu d s of None \<Rightarrow> None
         | Some (m, s) \<Rightarrow>
             (let m = m AND push_bit offset (- 1)
              in if m \<noteq> 0 then Some (Some (bm_base s + trailing_zeros m), s)
                 else case advance_block s of None \<Rightarrow> Some (None, s)
                      | Some s \<Rightarrow> next_loop cpu d (bm_base s) s))"
  by pat_completeness auto
termination
proof (relation "measure (\<lambda>(_, _, cur, s). length (bm_buf s) - cur)", goal_cases)
  case (2 cpu d cur s s1 offset pair m s2 m' s3)
  then have "bm_buf s3 = bm_buf s" "bm_base s3 = bm_base s1 + 64" "bm_base s3 < length (bm_buf s)" "cur < bm_base s1 + 64"
    using mask_for_frame [of cpu d s1 m s2] advance_frame [of s2 s3] seek_base(2) [of cur s] by auto
  then show ?case by simp
qed simp

declare next_loop.simps [simp del]

definition bm_next :: "cpu \<Rightarrow> nat \<Rightarrow> char \<Rightarrow> block_masks \<Rightarrow> (nat option \<times> block_masks) option" where
  "bm_next cpu i d s = (if length (bm_buf s) \<le> i then Some (None, s) else next_loop cpu d i s)"

definition masks_at :: "block_masks \<Rightarrow> char \<Rightarrow> mask64 option" where
  "masks_at s d = map_option (\<lambda>i. bm_masks s ! i) (delim_index s d)"

text \<open>\<open>combined |= masks[..]\<close> over the delimiters asked for.\<close>

fun combined :: "block_masks \<Rightarrow> string \<Rightarrow> mask64 option" where
  "combined s [] = Some 0"
| "combined s (d # ds) =
     (case masks_at s d of None \<Rightarrow> None
      | Some m \<Rightarrow> map_option (\<lambda>c. m OR c) (combined s ds))"

function next_any_loop :: "cpu \<Rightarrow> string \<Rightarrow> nat \<Rightarrow> block_masks \<Rightarrow> ((nat \<times> char) option \<times> block_masks) option" where
  "next_any_loop cpu ds cur s =
     (let s = ensure_all cpu (seek cur s); offset = cur - bm_base s
      in case combined s ds of None \<Rightarrow> None
         | Some c \<Rightarrow>
             (let m = c AND push_bit offset (- 1)
              in if m \<noteq> 0
                 then (let pos = bm_base s + trailing_zeros m
                       in case List.find (\<lambda>d. case masks_at s d of None \<Rightarrow> False | Some w \<Rightarrow> bit w (pos - bm_base s)) ds of
                            Some d \<Rightarrow> Some (Some (pos, d), s)
                          | None \<Rightarrow> map_option (\<lambda>d. (Some (pos, d), s)) (idx ds 0))
                 else case advance_block s of None \<Rightarrow> Some (None, s)
                      | Some s \<Rightarrow> next_any_loop cpu ds (bm_base s) s))"
  by pat_completeness auto
termination
proof (relation "measure (\<lambda>(_, _, cur, s). length (bm_buf s) - cur)", goal_cases)
  case (2 cpu ds cur s s1 offset c m s3)
  then have "bm_buf s3 = bm_buf s" "bm_base s3 = bm_base s1 + 64" "bm_base s3 < length (bm_buf s)" "cur < bm_base s1 + 64"
    using advance_frame [of s1 s3] seek_base(2) [of cur s] by auto
  then show ?case by simp
qed simp

declare next_any_loop.simps [simp del]

definition next_any :: "cpu \<Rightarrow> nat \<Rightarrow> string \<Rightarrow> block_masks \<Rightarrow> ((nat \<times> char) option \<times> block_masks) option" where
  "next_any cpu i ds s = (if length (bm_buf s) \<le> i then Some (None, s) else next_any_loop cpu ds i s)"

text \<open>For long spans \<open>next_far\<close> asks \<open>memchr\<close>; slicing behind the end panics there.\<close>

definition next_far :: "cpu \<Rightarrow> nat \<Rightarrow> char \<Rightarrow> nat \<Rightarrow> block_masks \<Rightarrow> (nat option \<times> block_masks) option" where
  "next_far cpu i d hint s =
     (if 256 < hint
      then (if i \<le> length (bm_buf s) then Some (map_option (\<lambda>k. i + k) (memchr d (drop i (bm_buf s))), s) else None)
      else bm_next cpu i d s)"

section \<open>Bits of the masks\<close>

lemma bit_from_mask [simp]: "bit (from_mask pos) i \<longleftrightarrow> pos \<le> i \<and> i < 64"
  by (auto simp: from_mask_def bit_not_iff bit_mask_iff)

lemma mask64_nonzero: "m \<noteq> 0 \<longleftrightarrow> (\<exists>i<64. bit m i)" for m :: mask64
  by (auto simp: bit_eq_iff dest: bit_imp_le_length)

lemma trailing_zeros_nonzero:
  assumes "m \<noteq> 0"
  shows "bit m (trailing_zeros m)" "trailing_zeros m < 64" "j < trailing_zeros m \<Longrightarrow> \<not> bit m j"
proof -
  obtain i where "i < 64" "bit m i" using assms mask64_nonzero by blast
  then have "List.find (bit m) [0..<64] \<noteq> None" by (auto simp: find_None_iff)
  then obtain k where k: "List.find (bit m) [0..<64] = Some k" by auto
  then have "trailing_zeros m = k" by (simp add: trailing_zeros_def)
  with k show "bit m (trailing_zeros m)" "trailing_zeros m < 64" "j < trailing_zeros m \<Longrightarrow> \<not> bit m j"
    by (auto simp: find_upt_Some)
qed

lemma masked_trailing_zeros:
  assumes "m AND from_mask pos \<noteq> 0"
  shows "pos \<le> trailing_zeros (m AND from_mask pos)" "trailing_zeros (m AND from_mask pos) < 64"
  using trailing_zeros_nonzero(1,2) [OF assms] by (simp_all add: bit_and_iff)

lemma masked_step: "m AND from_mask pos \<noteq> 0 \<Longrightarrow> 63 - trailing_zeros (m AND from_mask pos) < 64 - pos"
  using masked_trailing_zeros [of m pos] by linarith

section \<open>The quote-aware cursor\<close>

fun single_quote :: "block_masks \<Rightarrow> nat \<Rightarrow> string \<Rightarrow> nat option \<Rightarrow> nat option option" where
  "single_quote s pos [] found = Some found"
| "single_quote s pos (q # qs) found =
     (case delim_index s q of None \<Rightarrow> None
      | Some qi \<Rightarrow>
         if bm_masks s ! qi AND from_mask pos \<noteq> 0
         then (if found \<noteq> None then Some None else single_quote s pos qs (Some qi))
         else single_quote s pos qs found)"

definition single_quote_remaining :: "block_masks \<Rightarrow> nat \<Rightarrow> nat option option" where
  "single_quote_remaining s pos = single_quote s pos (bm_quotes s) None"

fun quote_index_in :: "block_masks \<Rightarrow> nat \<Rightarrow> string \<Rightarrow> nat option" where
  "quote_index_in s pos [] = None"
| "quote_index_in s pos (q # qs) =
     (case delim_index s q of None \<Rightarrow> None
      | Some qi \<Rightarrow> if bit (bm_masks s ! qi) pos then Some qi else quote_index_in s pos qs)"

definition quote_index_at :: "block_masks \<Rightarrow> nat \<Rightarrow> nat option" where
  "quote_index_at s pos = quote_index_in s pos (bm_quotes s)"

text \<open>The general path of \<open>scan_block_unquoted\<close>: from quote event to quote event.\<close>

function walk_quotes :: "block_masks \<Rightarrow> nat \<Rightarrow> nat \<Rightarrow> (nat option \<times> block_masks) option" where
  "walk_quotes s di pos =
     (if bm_in_quote s = NUL then
        (case combined s (bm_quotes s) of None \<Rightarrow> None
         | Some qbits \<Rightarrow>
            (let g = bm_masks s ! di AND from_mask pos; q = qbits AND from_mask pos;
                 gpos = trailing_zeros g; qpos = trailing_zeros q
             in if g \<noteq> 0 \<and> (q = 0 \<or> gpos < qpos) then Some (Some gpos, s)
                else if q = 0 then Some (None, s)
                else case quote_index_at s qpos of None \<Rightarrow> None
                     | Some qi \<Rightarrow> walk_quotes (s\<lparr>bm_in_quote := bm_delims s ! qi\<rparr>) di (qpos + 1)))
      else
        (case masks_at s (bm_in_quote s) of None \<Rightarrow> None
         | Some w \<Rightarrow>
            (let c = w AND from_mask pos
             in if c = 0 then Some (None, s)
                else walk_quotes (s\<lparr>bm_in_quote := NUL\<rparr>) di (trailing_zeros c + 1))))"
  by pat_completeness auto
termination
  by (relation "measure (\<lambda>(_, _, pos). 64 - pos)")
     (auto simp: Let_def masked_step)

declare walk_quotes.simps [simp del]

definition scan_block_unquoted :: "block_masks \<Rightarrow> nat \<Rightarrow> nat \<Rightarrow> (nat option \<times> block_masks) option" where
  "scan_block_unquoted s offset di =
     (if bm_in_quote s \<noteq> NUL then walk_quotes s di offset
      else case single_quote_remaining s offset of None \<Rightarrow> None
        | Some None \<Rightarrow> walk_quotes s di offset
        | Some (Some qi) \<Rightarrow>
            (let qmask = bm_masks s ! qi AND from_mask offset; inside = prefix_xor qmask;
                 hits = (bm_masks s ! di AND from_mask offset) AND NOT inside
             in if hits \<noteq> 0 then Some (Some (trailing_zeros hits), s)
                else Some (None, if odd (count_ones qmask) then s\<lparr>bm_in_quote := bm_delims s ! qi\<rparr> else s)))"

lemma walk_quotes_frame:
  "walk_quotes s di pos = Some (r, t) \<Longrightarrow> bm_base t = bm_base s \<and> bm_buf t = bm_buf s"
proof (induction s di pos rule: walk_quotes.induct)
  case (1 s di pos)
  show ?case
  proof (cases "bm_in_quote s = NUL")
    case True
    with 1(3) obtain qbits where c: "combined s (bm_quotes s) = Some qbits"
      by (subst (asm) walk_quotes.simps) (auto split: option.splits)
    show ?thesis using 1(3) 1(1) [OF True c refl refl refl refl] True c
      by (subst (asm) walk_quotes.simps) (simp add: Let_def split: if_splits option.splits)
  next
    case False
    with 1(3) obtain w where w: "masks_at s (bm_in_quote s) = Some w"
      by (subst (asm) walk_quotes.simps) (auto split: option.splits)
    show ?thesis using 1(3) 1(2) [OF False w refl] False w
      by (subst (asm) walk_quotes.simps) (simp add: Let_def split: if_splits)
  qed
qed

lemma scan_block_frame:
  "scan_block_unquoted s offset di = Some (r, t) \<Longrightarrow> bm_base t = bm_base s \<and> bm_buf t = bm_buf s"
  by (auto simp: scan_block_unquoted_def Let_def dest: walk_quotes_frame split: if_splits option.splits)

text \<open>\<open>cur - self.base\<close> as a release build computes it, modulo 2^64.\<close>

definition wrapping_sub :: "nat \<Rightarrow> nat \<Rightarrow> nat" where
  "wrapping_sub a b = (if b \<le> a then a - b else usize_max + 1 - (b - a))"

function unquoted_loop :: "cpu \<Rightarrow> nat \<Rightarrow> nat \<Rightarrow> block_masks \<Rightarrow> (nat option \<times> block_masks) option" where
  "unquoted_loop cpu di cur s =
     (let s = ensure_all cpu s
      in case scan_block_unquoted s (wrapping_sub cur (bm_base s)) di of None \<Rightarrow> None
         | Some (Some p, s) \<Rightarrow> Some (Some (bm_base s + p), s\<lparr>bm_quote_pos := bm_base s + p + 1\<rparr>)
         | Some (None, s) \<Rightarrow>
             (case advance_block s of
                None \<Rightarrow> Some (None, s\<lparr>bm_quote_pos := bm_base s + 64\<rparr>)
              | Some s \<Rightarrow> unquoted_loop cpu di (bm_base s) (s\<lparr>bm_quote_pos := bm_base s\<rparr>)))"
  by pat_completeness auto
termination
proof (relation "measure (\<lambda>(_, _, _, s). length (bm_buf s) - bm_base s)", goal_cases)
  case (2 cpu di cur s s1 r p s2 s3)
  then have "bm_buf s3 = bm_buf s" "bm_base s3 = bm_base s + 64" "bm_base s3 < length (bm_buf s)"
    using scan_block_frame [of s1 "wrapping_sub cur (bm_base s1)" di None s2] advance_frame [of s2 s3] by auto
  then show ?case by simp
qed simp

declare unquoted_loop.simps [simp del]

definition next_unquoted :: "cpu \<Rightarrow> nat \<Rightarrow> char \<Rightarrow> block_masks \<Rightarrow> (nat option \<times> block_masks) option" where
  "next_unquoted cpu i d s =
     (if bm_quotes s = [] then bm_next cpu i d s
      else if length (bm_buf s) \<le> i then Some (None, s)
      else case delim_index s d of None \<Rightarrow> None
        | Some di \<Rightarrow>
           (let s = (if \<not> bm_loaded s \<or> i \<noteq> bm_quote_pos s
                     then load_at (block_start i) (s\<lparr>bm_in_quote := NUL, bm_quote_pos := i\<rparr>) else s)
            in unquoted_loop cpu di i s))"

end
