(* ===== verification/Block_Laws.thy ===== *)
theory Block_Laws
  imports Block_Masks
begin

text \<open>
  The block masks answer like plain loops over the bytes: the masks of every CPU variant, the
  cached block, the first occurrence of one or several delimiters, and the first delimiter
  outside quotes as a byte-by-byte walk finds it.
\<close>

section \<open>The masks\<close>

lemma bit_fold_set:
  "bit (fold (\<lambda>i m. if P i then m OR push_bit i 1 else m) [0..<n] (0 :: mask64)) k \<longleftrightarrow> k < n \<and> k < 64 \<and> P k"
proof (induction n)
  case (Suc n)
  then show ?case by (auto simp: bit_or_iff bit_exp_iff less_Suc_eq)
qed simp

lemma bit_movemask [simp]:
  "bit (movemask_eq needle v) k \<longleftrightarrow> k < length v \<and> k < 64 \<and> v ! k = needle"
  by (auto simp: movemask_eq_def bit_fold_set)

lemma lanes_simps [simp]:
  "a + n \<le> length p \<Longrightarrow> length (lanes a n p) = n" "k < n \<Longrightarrow> a + k < length p \<Longrightarrow> lanes a n p ! k = p ! (a + k)"
  by (simp_all add: lanes_def)

lemma bit_mask64:
  assumes "64 \<le> length p"
  shows "bit (mask64 cpu p d) k \<longleftrightarrow> k < 64 \<and> p ! k = d"
proof -
  have upt: "[0..<4] = [0, 1, 2, 3 :: nat]" by (simp add: upt_rec)
  have "bit (mask64_avx2 p d) k \<longleftrightarrow> k < 64 \<and> p ! k = d"
    using assms by (cases "k < 32") (auto simp: mask64_avx2_def bit_or_iff bit_push_bit_iff)
  moreover have "bit (mask64_sse2 p d) k \<longleftrightarrow> k < 64 \<and> p ! k = d"
    using assms by (cases "k < 16"; cases "k < 32"; cases "k < 48")
      (auto simp: mask64_sse2_def upt bit_or_iff bit_push_bit_iff)
  ultimately show ?thesis
    by (cases cpu) (auto simp: mask64_def mask64_scalar_def bit_fold_set)
qed

lemma mask64_cpu: "64 \<le> length p \<Longrightarrow> mask64 cpu p d = mask64_scalar p d"
  using bit_mask64 [of p cpu d] bit_mask64 [of p Scalar_only d] by (intro bit_eqI) (simp add: mask64_def)

lemma fold_update_all:
  "n \<le> length out \<Longrightarrow> fold (\<lambda>i out. out[i := f i]) [0..<n] out = map f [0..<n] @ drop n out"
proof (induction n)
  case (Suc n)
  then have "drop n out = out ! n # drop (Suc n) out" by (simp add: Cons_nth_drop_Suc)
  with Suc show ?case by (simp add: list_update_append)
qed simp

lemma fold_or_all:
  assumes "n \<le> length out"
  shows "fold (\<lambda>i out. if P i then out[i := out ! i OR w] else out) [0..<n] out =
    map (\<lambda>i. if P i then out ! i OR w else out ! i) [0..<n] @ drop n out"
  using assms
proof (induction n)
  case (Suc n)
  then have "drop n out = out ! n # drop (Suc n) out" by (simp add: Cons_nth_drop_Suc)
  with Suc show ?case by (auto simp: list_update_append nth_append)
qed simp

lemma masks64_scalar_step:
  "n \<le> length delims \<Longrightarrow>
   fold (\<lambda>j out. fold (\<lambda>i out. if delims ! i = p ! j then out[i := out ! i OR push_bit j 1] else out) [0..<n] out)
     [0..<m] (replicate n 0 @ rest) =
   map (\<lambda>i. fold (\<lambda>j w. if p ! j = delims ! i then w OR push_bit j 1 else w) [0..<m] (0 :: mask64)) [0..<n] @ rest"
proof (induction m)
  case 0
  then show ?case by (simp add: map_replicate_trivial)
next
  case (Suc m)
  let ?w = "\<lambda>i. fold (\<lambda>j w. if p ! j = delims ! i then w OR push_bit j 1 else w) [0..<m] (0 :: mask64)"
  have "fold (\<lambda>i out. if delims ! i = p ! m then out[i := out ! i OR push_bit m 1] else out) [0..<n] (map ?w [0..<n] @ rest) =
    map (\<lambda>i. if p ! m = delims ! i then ?w i OR push_bit m 1 else ?w i) [0..<n] @ rest"
    by (subst fold_or_all) (auto simp: nth_append)
  with Suc show ?case by simp
qed

lemma masks64_map:
  assumes "64 \<le> length p" "n \<le> length delims" "n \<le> length out"
  shows "masks64 cpu p delims n out = map (mask64_scalar p) (take n delims) @ drop n out"
proof -
  have take: "map (mask64_scalar p) (take n delims) = map (\<lambda>i. mask64_scalar p (delims ! i)) [0..<n]"
    using assms(2) by (intro nth_equalityI) simp_all
  have "[0..<4] = [0, 1, 2, 3 :: nat]" by (simp add: upt_rec)
  then have sse2: "mask64 Sse2 p d = movemask_eq d (lanes 0 16 p) OR push_bit 16 (movemask_eq d (lanes 16 16 p)) OR
      push_bit 32 (movemask_eq d (lanes 32 16 p)) OR push_bit 48 (movemask_eq d (lanes 48 16 p))" for d
    by (simp add: mask64_def mask64_sse2_def or.assoc)
  have "masks64_avx2 p delims n out = map (\<lambda>i. mask64 Avx2 p (delims ! i)) [0..<n] @ drop n out"
    using assms(3) by (simp add: masks64_avx2_def fold_update_all mask64_def mask64_avx2_def Let_def)
  moreover have "masks64_sse2 p delims n out = map (\<lambda>i. mask64 Sse2 p (delims ! i)) [0..<n] @ drop n out"
    using assms(3) by (simp add: masks64_sse2_def fold_update_all sse2 Let_def)
  moreover have "masks64_scalar p delims n out = map (\<lambda>i. mask64_scalar p (delims ! i)) [0..<n] @ drop n out"
    using masks64_scalar_step [OF assms(2), of p 64 "drop n out"] by (simp add: masks64_scalar_def mask64_scalar_def)
  ultimately show ?thesis
    using mask64_cpu [OF assms(1)] by (cases cpu) (simp_all add: masks64_def take)
qed

section \<open>The cached block\<close>

text \<open>Byte \<open>k\<close> of the block at \<open>base\<close> is \<open>d\<close>.\<close>

definition in_block :: "string \<Rightarrow> nat \<Rightarrow> char \<Rightarrow> nat \<Rightarrow> bool" where
  "in_block buf base d k \<longleftrightarrow> k < 64 \<and> base + k < length buf \<and> buf ! (base + k) = d"

lemma bit_keep: "bit (2 ^ n - 1 :: mask64) k \<longleftrightarrow> k < n \<and> k < 64"
  using bit_mask_iff [of n k, where 'a = "64 word"] by (auto simp: mask_eq_exp_minus_1)

lemma bit_tail:
  assumes "length buf < base + 64"
  shows "bit (mask64 cpu (tail_bytes buf base) d AND (push_bit (length buf - base) 1 - 1)) k \<longleftrightarrow> in_block buf base d k"
proof -
  have "64 \<le> length (tail_bytes buf base)" by (simp add: tail_bytes_def)
  then have m: "bit (mask64 cpu (tail_bytes buf base) d) k \<longleftrightarrow> k < 64 \<and> tail_bytes buf base ! k = d" by (rule bit_mask64)
  show ?thesis
  proof (cases "base + k < length buf")
    case True
    then have "k < length buf - base" "tail_bytes buf base ! k = buf ! (base + k)" by (auto simp: tail_bytes_def nth_append)
    with True m assms show ?thesis by (simp add: bit_and_iff bit_keep in_block_def)
  next
    case False
    then show ?thesis by (simp add: bit_and_iff bit_keep in_block_def) linarith
  qed
qed

lemma bit_compute_one: "bit (compute_one cpu d s) k \<longleftrightarrow> in_block (bm_buf s) (bm_base s) d k"
proof (cases "bm_base s + 64 \<le> length (bm_buf s)")
  case True
  then show ?thesis by (auto simp: compute_one_def Let_def bit_mask64 in_block_def)
next
  case False
  then show ?thesis using bit_tail [of "bm_buf s" "bm_base s" cpu d k]
    by (auto simp: compute_one_def Let_def in_block_def)
qed

lemma fill_bits:
  assumes "length delims \<le> 8" "i < length delims"
  shows "bit (fill cpu s base delims (replicate 8 0) ! i) k \<longleftrightarrow> in_block (bm_buf s) base (delims ! i) k"
proof -
  let ?buf = "bm_buf s"
  have p: "64 \<le> length (tail_bytes ?buf base)" by (simp add: tail_bytes_def)
  have d: "delims \<noteq> []" using assms(2) by auto
  consider "base + 64 \<le> length ?buf" | "length ?buf < base + 64" "length ?buf \<le> base"
    | "length ?buf < base + 64" "base < length ?buf" by linarith
  then show ?thesis
  proof cases
    case 1
    then show ?thesis using assms d bit_mask64 [of "drop base ?buf" Scalar_only "delims ! i" k]
      by (simp add: fill_def Let_def masks64_map nth_append mask64_def in_block_def) auto
  next
    case 2
    then show ?thesis using assms by (simp add: fill_def in_block_def Let_def)
  next
    case 3
    then show ?thesis using assms d p bit_tail [OF 3(1), of Scalar_only "delims ! i" k]
      by (simp add: fill_def Let_def masks64_map nth_append mask64_def)
  qed
qed

lemma length_fill: "length delims \<le> 8 \<Longrightarrow> length (fill cpu s base delims (replicate 8 0)) = 8"
  by (auto simp: fill_def Let_def masks64_map tail_bytes_def)

text \<open>The invariant: whatever is marked as computed describes the block under the base.\<close>

definition bm_ok :: "block_masks \<Rightarrow> bool" where
  "bm_ok s \<longleftrightarrow> length (bm_masks s) = 8 \<and> length (bm_delims s) \<le> 8 \<and> set (bm_quotes s) \<subseteq> set (bm_delims s) \<and>
     length (bm_buf s) < usize_max \<and> (\<not> bm_loaded s \<longrightarrow> bm_base s = usize_max) \<and>
     (\<forall>i < length (bm_delims s). bit (bm_computed s) i \<longrightarrow>
        (\<forall>k. bit (bm_masks s ! i) k \<longleftrightarrow> in_block (bm_buf s) (bm_base s) (bm_delims s ! i) k))"

definition same_setup :: "block_masks \<Rightarrow> block_masks \<Rightarrow> bool" where
  "same_setup s t \<longleftrightarrow> bm_buf t = bm_buf s \<and> bm_delims t = bm_delims s \<and> bm_quotes t = bm_quotes s"

lemma same_setup_refl [simp]: "same_setup s s"
  by (simp add: same_setup_def)

lemma same_setup_trans [trans]: "same_setup s t \<Longrightarrow> same_setup t u \<Longrightarrow> same_setup s u"
  by (simp add: same_setup_def)

lemma build_ok: "bm_build buf delims quotes = Some s \<Longrightarrow> length buf < usize_max \<Longrightarrow> bm_ok s \<and> \<not> bm_loaded s \<and> bm_buf s = buf \<and>
    bm_delims s = delims \<and> bm_quotes s = quotes \<and> bm_in_quote s = NUL"
  by (auto simp: bm_build_def bm_ok_def MAX_DELIMS_def list_all_iff split: if_splits)

lemma load_at_ok: "bm_ok s \<Longrightarrow> bm_ok (load_at base s) \<and> same_setup s (load_at base s)"
  by (simp add: bm_ok_def load_at_def same_setup_def)

lemma load_at_simps [simp]: "bm_loaded (load_at base s)" "bm_base (load_at base s) = base" "bm_in_quote (load_at base s) = bm_in_quote s"
    "bm_quote_pos (load_at base s) = bm_quote_pos s"
  by (simp_all add: load_at_def)

lemma seek_ok:
  assumes "bm_ok s" "cur < length (bm_buf s)"
  shows "bm_ok (seek cur s) \<and> bm_loaded (seek cur s) \<and> same_setup s (seek cur s)"
  using assms load_at_ok [OF assms(1)] by (auto simp: seek_def select_block_def bm_ok_def)

lemma advance_ok:
  assumes "bm_ok s" "advance_block s = Some t"
  shows "bm_ok t \<and> bm_loaded t \<and> same_setup s t \<and> bm_base t = bm_base s + 64 \<and> bm_base t < length (bm_buf s) \<and>
    bm_in_quote t = bm_in_quote s"
  using load_at_ok [OF assms(1)] assms(2) by (auto simp: advance_block_def Let_def split: if_splits)

lemma delim_index_Some:
  assumes "d \<in> set (bm_delims s)"
  obtains i where "delim_index s d = Some i" "i < length (bm_delims s)" "bm_delims s ! i = d"
  using assms position_None [of "\<lambda>x. x = d" "bm_delims s"] position_Some [of "\<lambda>x. x = d" "bm_delims s"]
  by (cases "delim_index s d") (auto simp: delim_index_def)

lemma mask_for_ok:
  assumes "bm_ok s" "bm_loaded s" "d \<in> set (bm_delims s)"
  shows "\<exists>m t. mask_for cpu d s = Some (m, t) \<and> bm_ok t \<and> bm_loaded t \<and> same_setup s t \<and> bm_base t = bm_base s \<and>
    (\<forall>k. bit m k \<longleftrightarrow> in_block (bm_buf s) (bm_base s) d k)"
proof -
  obtain i where i: "delim_index s d = Some i" "i < length (bm_delims s)" "bm_delims s ! i = d"
    using assms(3) by (rule delim_index_Some)
  have "i < 8" using i(2) assms(1) by (simp add: bm_ok_def)
  show ?thesis
  proof (cases "bit (bm_computed s) i")
    case True
    then show ?thesis using assms i by (auto simp: mask_for_def bm_ok_def)
  next
    case False
    let ?t = "s\<lparr>bm_masks := (bm_masks s)[i := compute_one cpu d s], bm_computed := bm_computed s OR push_bit i 1\<rparr>"
    have "bm_ok ?t" using assms i \<open>i < 8\<close>
      by (auto simp: bm_ok_def nth_list_update bit_compute_one bit_or_iff bit_exp_iff)
    then show ?thesis using assms i False \<open>i < 8\<close>
      by (auto simp: mask_for_def Let_def same_setup_def bit_compute_one bm_ok_def)
  qed
qed

lemma ensure_all_ok:
  assumes "bm_ok s"
  shows "bm_ok (ensure_all cpu s) \<and> same_setup s (ensure_all cpu s) \<and> bm_loaded (ensure_all cpu s) = bm_loaded s \<and>
    bm_in_quote (ensure_all cpu s) = bm_in_quote s \<and> bm_quote_pos (ensure_all cpu s) = bm_quote_pos s"
    "d \<in> set (bm_delims s) \<Longrightarrow> \<exists>m. masks_at (ensure_all cpu s) d = Some m \<and>
       (\<forall>k. bit m k \<longleftrightarrow> in_block (bm_buf s) (bm_base s) d k)"
proof -
  have all: "bit (bm_masks (ensure_all cpu s) ! i) k \<longleftrightarrow> in_block (bm_buf s) (bm_base s) (bm_delims s ! i) k"
    if "i < length (bm_delims s)" for i k
  proof (cases "bm_computed s = full_mask s")
    case True
    have "bit (full_mask s) i"
      using that assms bit_mask_iff [of "length (bm_delims s)" i, where 'a = "8 word"]
      by (auto simp: full_mask_def Let_def bm_ok_def mask_eq_exp_minus_1)
    with True that assms show ?thesis by (simp add: ensure_all_def bm_ok_def)
  next
    case False
    with that assms show ?thesis by (simp add: ensure_all_def MAX_DELIMS_def fill_bits bm_ok_def)
  qed
  moreover have "length (bm_masks (ensure_all cpu s)) = 8"
    using assms by (simp add: ensure_all_def MAX_DELIMS_def length_fill bm_ok_def)
  ultimately show "bm_ok (ensure_all cpu s) \<and> same_setup s (ensure_all cpu s) \<and> bm_loaded (ensure_all cpu s) = bm_loaded s \<and>
    bm_in_quote (ensure_all cpu s) = bm_in_quote s \<and> bm_quote_pos (ensure_all cpu s) = bm_quote_pos s"
    using assms by (auto simp: bm_ok_def same_setup_def ensure_all_def split: if_splits)
  show "\<exists>m. masks_at (ensure_all cpu s) d = Some m \<and> (\<forall>k. bit m k \<longleftrightarrow> in_block (bm_buf s) (bm_base s) d k)"
    if d: "d \<in> set (bm_delims s)"
  proof -
    obtain i where i: "delim_index s d = Some i" "i < length (bm_delims s)" "bm_delims s ! i = d"
      using d by (rule delim_index_Some)
    moreover have "delim_index (ensure_all cpu s) d = delim_index s d" by (simp add: delim_index_def ensure_all_def)
    ultimately show ?thesis using all [OF i(2)] by (simp add: masks_at_def)
  qed
qed

section \<open>Single and multiple delimiters\<close>

text \<open>The search over the rest of the buffer, block by block.\<close>

lemma find_block_hit:
  assumes "m \<noteq> 0" "\<And>k. bit m k \<longleftrightarrow> k < 64 \<and> cur \<le> base + k \<and> base + k < e \<and> P (base + k)" "base \<le> cur"
  shows "List.find P [cur..<e] = Some (base + trailing_zeros m)"
proof -
  note tz = trailing_zeros_nonzero [OF assms(1)]
  have "\<not> P j" if "cur \<le> j" "j < base + trailing_zeros m" for j
    using tz(2) tz(3) [of "j - base"] assms(2) [of "j - base"] assms(2) [of "trailing_zeros m"] tz(1) that assms(3) by auto
  then show ?thesis using tz(1,2) assms(2) [of "trailing_zeros m"] by (auto simp: find_upt_Some)
qed

lemma find_block_miss:
  assumes "m = 0" "\<And>k. bit m k \<longleftrightarrow> k < 64 \<and> cur \<le> base + k \<and> base + k < e \<and> P (base + k)" "base \<le> cur" "cur < base + 64"
  shows "List.find P [cur..<e] = (if e \<le> base + 64 then None else List.find P [base + 64..<e])"
proof -
  have no: "\<not> P j" if "cur \<le> j" "j < base + 64" "j < e" for j
    using assms(2) [of "j - base"] assms(1,3) that by auto
  show ?thesis
  proof (cases "e \<le> base + 64")
    case True
    then show ?thesis using no by (auto simp: find_None_iff)
  next
    case False
    then have "[cur..<e] = [cur..<base + 64] @ [base + 64..<e]" 
      using assms(4) upt_add_eq_append [of cur "base + 64" "e - (base + 64)"] by simp
    moreover have "List.find P [cur..<base + 64] = None" using no False by (auto simp: find_None_iff)
    ultimately show ?thesis using False by (simp add: find_append)
  qed
qed

lemma bit_behind: "bit (m AND push_bit offset (- 1)) k \<longleftrightarrow> bit m k \<and> offset \<le> k" for m :: mask64
  by (auto simp: bit_and_iff bit_not_iff bit_mask_iff dest: bit_imp_le_length)

lemma next_loop_ok:
  assumes "bm_ok s" "d \<in> set (bm_delims s)" "cur < length (bm_buf s)"
  shows "\<exists>t. next_loop cpu d cur s = Some (List.find (\<lambda>i. bm_buf s ! i = d) [cur..<length (bm_buf s)], t) \<and>
    bm_ok t \<and> same_setup s t"
  using assms
proof (induction cpu d cur s rule: next_loop.induct)
  case (1 cpu d cur s)
  define s1 where "s1 = seek cur s"
  have s1: "bm_ok s1" "bm_loaded s1" "same_setup s s1" "bm_base s1 \<le> cur" "cur < bm_base s1 + 64"
    using seek_ok [OF 1(2,4)] seek_base [of cur s] by (simp_all add: s1_def)
  have d: "d \<in> set (bm_delims s1)" using 1(3) s1(3) by (simp add: same_setup_def)
  obtain m s2 where m: "mask_for cpu d s1 = Some (m, s2)" "bm_ok s2" "bm_loaded s2" "same_setup s1 s2"
      "bm_base s2 = bm_base s1" "\<And>k. bit m k \<longleftrightarrow> in_block (bm_buf s1) (bm_base s1) d k"
    using mask_for_ok [OF s1(1,2) d] by blast
  have s: "same_setup s s2" "bm_buf s2 = bm_buf s" using same_setup_trans [OF s1(3) m(4)] by (simp_all add: same_setup_def)
  let ?m = "m AND push_bit (cur - bm_base s1) (- 1)" and ?len = "length (bm_buf s)"
  have bits: "bit ?m k \<longleftrightarrow> k < 64 \<and> cur \<le> bm_base s1 + k \<and> bm_base s1 + k < ?len \<and> bm_buf s ! (bm_base s1 + k) = d" for k
    using s1(3,4) unfolding bit_behind by (auto simp: m(6) in_block_def same_setup_def)
  have unfold: "next_loop cpu d cur s =
     (if ?m \<noteq> 0 then Some (Some (bm_base s1 + trailing_zeros ?m), s2)
      else case advance_block s2 of None \<Rightarrow> Some (None, s2) | Some s \<Rightarrow> next_loop cpu d (bm_base s) s)"
    by (subst next_loop.simps) (simp add: Let_def m(1,5) del: push_bit_minus_one flip: s1_def)
  show ?case
  proof (cases "?m = 0")
    case False
    then show ?thesis using find_block_hit [OF False bits s1(4)] s m(2) unfolding unfold by auto
  next
    case True
    note miss = find_block_miss [OF True bits s1(4,5)]
    show ?thesis
    proof (cases "advance_block s2")
      case None
      then have "?len \<le> bm_base s1 + 64" using s(2) m(5) by (auto simp: advance_block_def Let_def split: if_splits)
      then show ?thesis using None True miss s m(2) unfolding unfold by auto
    next
      case (Some s3)
      note a = advance_ok [OF m(2) Some]
      then have s3: "same_setup s s3" "bm_base s3 = bm_base s1 + 64" "bm_buf s3 = bm_buf s" "bm_delims s3 = bm_delims s"
        using same_setup_trans [OF s(1), of s3] m(5) s(2) by (simp_all add: same_setup_def)
      have nz: "\<not> ?m \<noteq> 0" using True by simp
      have "\<exists>t. next_loop cpu d (bm_base s3) s3 = Some (List.find (\<lambda>i. bm_buf s3 ! i = d) [bm_base s3..<length (bm_buf s3)], t) \<and>
          bm_ok t \<and> same_setup s3 t"
        using a 1(3) s3 s(2) by (intro 1(1) [OF s1_def refl m(1) refl refl nz Some]) auto
      moreover have "\<not> ?len \<le> bm_base s1 + 64" using a s3 s(2) by simp
      ultimately show ?thesis using True Some miss s3 same_setup_trans [OF s3(1)] unfolding unfold by auto
    qed
  qed
qed

lemma bm_next_ok:
  assumes "bm_ok s" "d \<in> set (bm_delims s)"
  shows "\<exists>t. bm_next cpu i d s = Some (List.find (\<lambda>i. bm_buf s ! i = d) [i..<length (bm_buf s)], t) \<and> bm_ok t \<and> same_setup s t"
  using assms next_loop_ok [OF assms, of i cpu] by (auto simp: bm_next_def not_less)

lemma combined_ok:
  assumes "\<And>d. d \<in> set ds \<Longrightarrow> \<exists>m. masks_at s d = Some m \<and> (\<forall>k. bit m k \<longleftrightarrow> in_block buf base d k)"
  shows "\<exists>c. combined s ds = Some c \<and> (\<forall>k. bit c k \<longleftrightarrow> (\<exists>d \<in> set ds. in_block buf base d k))"
  using assms
proof (induction ds)
  case (Cons d ds)
  obtain m where "masks_at s d = Some m" "\<forall>k. bit m k \<longleftrightarrow> in_block buf base d k" using Cons.prems [of d] by auto
  moreover obtain c where "combined s ds = Some c" "\<forall>k. bit c k \<longleftrightarrow> (\<exists>d \<in> set ds. in_block buf base d k)"
    using Cons.IH Cons.prems by auto
  ultimately show ?case by (auto simp: bit_or_iff)
qed simp

lemma next_any_loop_ok:
  assumes "bm_ok s" "set ds \<subseteq> set (bm_delims s)" "cur < length (bm_buf s)"
  shows "\<exists>t. next_any_loop cpu ds cur s =
      Some (map_option (\<lambda>i. (i, bm_buf s ! i)) (List.find (\<lambda>i. bm_buf s ! i \<in> set ds) [cur..<length (bm_buf s)]), t) \<and>
    bm_ok t \<and> same_setup s t"
  using assms
proof (induction cpu ds cur s rule: next_any_loop.induct)
  case (1 cpu ds cur s)
  define s1 where "s1 = ensure_all cpu (seek cur s)"
  let ?len = "length (bm_buf s)" and ?P = "\<lambda>i. bm_buf s ! i \<in> set ds"
  have sk: "bm_ok (seek cur s)" "bm_loaded (seek cur s)" "same_setup s (seek cur s)" using seek_ok [OF 1(2,4)] by auto
  have s1: "bm_ok s1" "bm_loaded s1" "same_setup s s1" "bm_base s1 \<le> cur" "cur < bm_base s1 + 64" "bm_buf s1 = bm_buf s"
    using ensure_all_ok(1) [OF sk(1), of cpu] sk same_setup_trans [OF sk(3)] seek_base [of cur s] by (simp_all add: s1_def)
  have masks: "\<exists>m. masks_at s1 d = Some m \<and> (\<forall>k. bit m k \<longleftrightarrow> in_block (bm_buf s) (bm_base s1) d k)" if "d \<in> set ds" for d
    using ensure_all_ok(2) [OF sk(1), of d cpu] that 1(3) sk(3) by (auto simp: s1_def same_setup_def)
  obtain c where c: "combined s1 ds = Some c" "\<And>k. bit c k \<longleftrightarrow> (\<exists>d \<in> set ds. in_block (bm_buf s) (bm_base s1) d k)"
    using combined_ok [of ds s1, OF masks] by blast
  let ?m = "c AND push_bit (cur - bm_base s1) (- 1)"
  have bits: "bit ?m k \<longleftrightarrow> k < 64 \<and> cur \<le> bm_base s1 + k \<and> bm_base s1 + k < ?len \<and> ?P (bm_base s1 + k)" for k
    using s1(4) unfolding bit_behind by (auto simp: c(2) in_block_def)
  have pick: "List.find (\<lambda>d. case masks_at s1 d of None \<Rightarrow> False | Some w \<Rightarrow> bit w (trailing_zeros ?m)) ds =
      Some (bm_buf s ! (bm_base s1 + trailing_zeros ?m))" if nz: "?m \<noteq> 0"
  proof -
    have here: "trailing_zeros ?m < 64" "bm_base s1 + trailing_zeros ?m < ?len" "?P (bm_base s1 + trailing_zeros ?m)"
      using trailing_zeros_nonzero(1) [OF nz] bits by blast+
    have "(case masks_at s1 d of None \<Rightarrow> False | Some w \<Rightarrow> bit w (trailing_zeros ?m)) \<longleftrightarrow>
        d = bm_buf s ! (bm_base s1 + trailing_zeros ?m)" if e: "d \<in> set ds" for d
    proof -
      obtain w where "masks_at s1 d = Some w" "\<And>k. bit w k \<longleftrightarrow> in_block (bm_buf s) (bm_base s1) d k" using masks [OF e] by blast
      with here(1,2) show ?thesis unfolding in_block_def by (simp del: push_bit_minus_one) blast
    qed
    then have "List.find (\<lambda>d. case masks_at s1 d of None \<Rightarrow> False | Some w \<Rightarrow> bit w (trailing_zeros ?m)) ds =
      List.find (\<lambda>d. d = bm_buf s ! (bm_base s1 + trailing_zeros ?m)) ds" by (intro find_cong) auto
    also have "\<dots> = Some (bm_buf s ! (bm_base s1 + trailing_zeros ?m))"
      using here(3) by (induction ds) auto
    finally show ?thesis .
  qed
  have unfold: "next_any_loop cpu ds cur s =
     (if ?m \<noteq> 0 then Some (Some (bm_base s1 + trailing_zeros ?m, bm_buf s ! (bm_base s1 + trailing_zeros ?m)), s1)
      else case advance_block s1 of None \<Rightarrow> Some (None, s1) | Some s \<Rightarrow> next_any_loop cpu ds (bm_base s) s)"
    unfolding next_any_loop.simps [of cpu ds cur s] Let_def s1_def [symmetric] c(1) option.case
      add_diff_cancel_left' using pick by (auto simp del: push_bit_minus_one)
  show ?case
  proof (cases "?m = 0")
    case False
    then show ?thesis using find_block_hit [OF False bits s1(4)] s1 unfolding unfold by auto
  next
    case True
    note miss = find_block_miss [OF True bits s1(4,5)]
    show ?thesis
    proof (cases "advance_block s1")
      case None
      then have "?len \<le> bm_base s1 + 64" using s1(6) by (auto simp: advance_block_def Let_def split: if_splits)
      then show ?thesis using None True miss s1 unfolding unfold by auto
    next
      case (Some s3)
      note a = advance_ok [OF s1(1) Some]
      then have s3: "same_setup s s3" "bm_base s3 = bm_base s1 + 64" "bm_buf s3 = bm_buf s" "bm_delims s3 = bm_delims s"
        using same_setup_trans [OF s1(3), of s3] s1(6) by (simp_all add: same_setup_def)
      have nz: "\<not> ?m \<noteq> 0" using True by simp
      have "\<exists>t. next_any_loop cpu ds (bm_base s3) s3 =
          Some (map_option (\<lambda>i. (i, bm_buf s3 ! i)) (List.find (\<lambda>i. bm_buf s3 ! i \<in> set ds) [bm_base s3..<length (bm_buf s3)]), t) \<and>
          bm_ok t \<and> same_setup s3 t"
        using a 1(3) s3 s1(6) by (intro 1(1) [OF s1_def refl c(1) refl nz Some]) auto
      moreover have "\<not> ?len \<le> bm_base s1 + 64" using a s3 s1(6) by simp
      ultimately show ?thesis using True Some miss s3 same_setup_trans [OF s3(1)] unfolding unfold by auto
    qed
  qed
qed

lemma next_any_ok:
  assumes "bm_ok s" "set ds \<subseteq> set (bm_delims s)"
  shows "\<exists>t. next_any cpu i ds s =
      Some (map_option (\<lambda>i. (i, bm_buf s ! i)) (List.find (\<lambda>i. bm_buf s ! i \<in> set ds) [i..<length (bm_buf s)]), t) \<and>
    bm_ok t \<and> same_setup s t"
  using assms next_any_loop_ok [OF assms, of i cpu] by (auto simp: next_any_def not_less)

section \<open>Outside quotes\<close>

subsection \<open>The prefix XOR is the parity of the bits so far\<close>

text \<open>The number of bits of \<open>m\<close> among the \<open>w\<close> positions that end at \<open>i\<close>.\<close>

definition window_bits :: "mask64 \<Rightarrow> nat \<Rightarrow> nat \<Rightarrow> nat set" where
  "window_bits m w i = {j. j \<le> i \<and> i < j + w \<and> bit m j}"

lemma finite_window [simp]: "finite (window_bits m w i)"
  by (rule finite_subset [of _ "{..i}"]) (auto simp: window_bits_def)

lemma window_double:
  fixes x :: mask64
  assumes "\<And>i. i < 64 \<Longrightarrow> bit x i \<longleftrightarrow> odd (card (window_bits m w i))" "i < 64"
  shows "bit (x XOR push_bit w x) i \<longleftrightarrow> odd (card (window_bits m (2 * w) i))"
proof (cases "w \<le> i")
  case True
  have "window_bits m (2 * w) i = window_bits m w i \<union> window_bits m w (i - w)"
    "window_bits m w i \<inter> window_bits m w (i - w) = {}"
    using True by (auto simp: window_bits_def)
  then have "card (window_bits m (2 * w) i) = card (window_bits m w i) + card (window_bits m w (i - w))"
    by (simp add: card_Un_disjoint)
  then show ?thesis using True assms by (auto simp: bit_xor_iff bit_push_bit_iff)
next
  case False
  then have "window_bits m (2 * w) i = window_bits m w i" by (auto simp: window_bits_def)
  then show ?thesis using False assms by (auto simp: bit_xor_iff bit_push_bit_iff)
qed

lemma bit_prefix_xor:
  assumes "i < 64"
  shows "bit (prefix_xor m) i \<longleftrightarrow> odd (card {j. j \<le> i \<and> bit m j})"
proof -
  have one: "bit m i \<longleftrightarrow> odd (card (window_bits m 1 i))" for i
  proof -
    have "window_bits m 1 i = (if bit m i then {i} else {})" 
      by (auto simp: window_bits_def) (metis le_antisym less_Suc_eq_le)
    then show ?thesis by simp
  qed
  note w = window_double
  have "bit (prefix_xor m) i \<longleftrightarrow> odd (card (window_bits m 64 i))"
    using w [OF w [OF w [OF w [OF w [OF w [OF one]]]]], where i = i] assms
    by (simp add: prefix_xor_def Let_def)
  moreover have "window_bits m 64 i = {j. j \<le> i \<and> bit m j}" using assms by (auto simp: window_bits_def)
  ultimately show ?thesis by simp
qed

subsection \<open>The byte-by-byte walk\<close>

text \<open>
  The reference: from position \<open>i\<close> to \<open>e\<close> with the quote character \<open>a\<close> open (\<open>NUL\<close> outside quotes). Only
  the same character closes a quote. The result is the first \<open>d\<close> outside, and the quote left open.
\<close>

function unquoted :: "string \<Rightarrow> string \<Rightarrow> char \<Rightarrow> char \<Rightarrow> nat \<Rightarrow> nat \<Rightarrow> nat option \<times> char" where
  "unquoted buf qs d a i e =
     (if e \<le> i then (None, a)
      else if a = NUL then
        (if buf ! i \<in> set qs then unquoted buf qs d (buf ! i) (i + 1) e
         else if buf ! i = d then (Some i, NUL)
         else unquoted buf qs d NUL (i + 1) e)
      else unquoted buf qs d (if buf ! i = a then NUL else a) (i + 1) e)"
  by pat_completeness auto
termination by (relation "measure (\<lambda>(_, _, _, _, i, e). e - i)") auto

declare unquoted.simps [simp del]

lemma unquoted_end: "e \<le> i \<Longrightarrow> unquoted buf qs d a i e = (None, a)"
  by (simp add: unquoted.simps)

lemma unquoted_step:
  "i < e \<Longrightarrow> unquoted buf qs d a i e =
     (if a = NUL then
        (if buf ! i \<in> set qs then unquoted buf qs d (buf ! i) (i + 1) e
         else if buf ! i = d then (Some i, NUL)
         else unquoted buf qs d NUL (i + 1) e)
      else unquoted buf qs d (if buf ! i = a then NUL else a) (i + 1) e)"
  by (simp add: unquoted.simps [of buf qs d a i e])

lemma unquoted_hit_less:
  "unquoted buf qs d a i e = (Some p, b) \<Longrightarrow> i \<le> p \<and> p < e \<and> b = NUL"
proof (induction "e - i" arbitrary: i a)
  case 0
  then show ?case by (simp add: unquoted_end)
next
  case (Suc n)
  then have "i < e" "n = e - (i + 1)" by simp_all
  note IH = Suc.hyps(1) [OF this(2), unfolded One_nat_def add_Suc_right add_0_right]
  show ?case using Suc.prems \<open>i < e\<close> unfolding unquoted_step [OF \<open>i < e\<close>]
    by (auto split: if_splits dest!: IH)
qed

lemma unquoted_skip:
  assumes "i \<le> k" "k \<le> e" "\<And>j. i \<le> j \<Longrightarrow> j < k \<Longrightarrow> (if a = NUL then buf ! j \<notin> set qs \<and> buf ! j \<noteq> d else buf ! j \<noteq> a)"
  shows "unquoted buf qs d a i e = unquoted buf qs d a k e"
  using assms
proof (induction "k - i" arbitrary: i)
  case (Suc n)
  then have "i < k" by simp
  then have "unquoted buf qs d a i e = unquoted buf qs d a (i + 1) e"
    using Suc.prems(2) Suc.prems(3) [of i] by (subst unquoted.simps) (auto split: if_splits)
  also have "\<dots> = unquoted buf qs d a k e" using Suc by (intro Suc.hyps(1)) auto
  finally show ?case .
qed simp

lemma unquoted_split:
  assumes "i \<le> k" "k \<le> e"
  shows "unquoted buf qs d a i e =
    (case unquoted buf qs d a i k of (Some p, b) \<Rightarrow> (Some p, b) | (None, b) \<Rightarrow> unquoted buf qs d b k e)"
  using assms
proof (induction "k - i" arbitrary: i a)
  case (Suc n)
  then have ik: "i < k" "i < e" by simp_all
  have "n = k - (i + 1)" "i + 1 \<le> k" using Suc by simp_all
  note IH = Suc.hyps(1) [OF this Suc.prems(2), unfolded One_nat_def add_Suc_right add_0_right]
  show ?case
    unfolding unquoted_step [OF ik(2)] unquoted_step [OF ik(1)] by (simp add: IH)
next
  case 0
  then show ?case by (simp add: unquoted_end)
qed

lemma first_in_block:
  assumes "\<And>k. bit m k \<longleftrightarrow> pos \<le> k \<and> k < 64 \<and> base + k < len \<and> P (base + k)"
  shows "m = 0 \<Longrightarrow> base + pos \<le> j \<Longrightarrow> j < min (base + 64) len \<Longrightarrow> \<not> P j"
    and "m \<noteq> 0 \<Longrightarrow> pos \<le> trailing_zeros m \<and> trailing_zeros m < 64 \<and> base + trailing_zeros m < len \<and> P (base + trailing_zeros m)"
    and "m \<noteq> 0 \<Longrightarrow> base + pos \<le> j \<Longrightarrow> j < base + trailing_zeros m \<Longrightarrow> \<not> P j"
proof -
  show "\<not> P j" if "m = 0" "base + pos \<le> j" "j < min (base + 64) len"
    using assms [of "j - base"] that by auto
  assume nz: "m \<noteq> 0"
  show hit: "pos \<le> trailing_zeros m \<and> trailing_zeros m < 64 \<and> base + trailing_zeros m < len \<and> P (base + trailing_zeros m)"
    using trailing_zeros_nonzero(1) [OF nz] assms by blast
  show "\<not> P j" if "base + pos \<le> j" "j < base + trailing_zeros m"
    using trailing_zeros_nonzero(3) [OF nz, of "j - base"] assms [of "j - base"] hit that by auto
qed

text \<open>Every delimiter's mask describes the block.\<close>

definition covers :: "block_masks \<Rightarrow> bool" where
  "covers s \<longleftrightarrow> (\<forall>d \<in> set (bm_delims s). \<exists>m. masks_at s d = Some m \<and> (\<forall>k. bit m k \<longleftrightarrow> in_block (bm_buf s) (bm_base s) d k))"

definition set_quote :: "char \<Rightarrow> block_masks \<Rightarrow> block_masks" where
  "set_quote q s = s\<lparr>bm_in_quote := q\<rparr>"

lemma set_quote_simps [simp]:
  "bm_buf (set_quote q s) = bm_buf s" "bm_base (set_quote q s) = bm_base s" "bm_delims (set_quote q s) = bm_delims s"
  "bm_quotes (set_quote q s) = bm_quotes s" "bm_in_quote (set_quote q s) = q" "bm_masks (set_quote q s) = bm_masks s"
  "masks_at (set_quote q s) d = masks_at s d" "delim_index (set_quote q s) d = delim_index s d" "set_quote q (set_quote r s) = set_quote q s"
  "covers (set_quote q s) = covers s" "bm_in_quote s = q \<Longrightarrow> set_quote q s = s"
  by (simp_all add: set_quote_def masks_at_def delim_index_def covers_def)

lemma covers_index:
  assumes "covers s" "d \<in> set (bm_delims s)" "delim_index s d = Some i"
  shows "bit (bm_masks s ! i) k \<longleftrightarrow> in_block (bm_buf s) (bm_base s) d k"
  using assms by (auto simp: covers_def masks_at_def)

lemma quote_index_in_ok:
  assumes "covers s" "set qs \<subseteq> set (bm_delims s)" "k < 64" "bm_base s + k < length (bm_buf s)" "bm_buf s ! (bm_base s + k) \<in> set qs"
  shows "\<exists>i. quote_index_in s k qs = Some i \<and> bm_delims s ! i = bm_buf s ! (bm_base s + k)"
  using assms(2,5)
proof (induction qs)
  case (Cons q qs)
  obtain i where i: "delim_index s q = Some i" "bm_delims s ! i = q"
    using Cons.prems(1) delim_index_Some [of q s] by auto
  have "bit (bm_masks s ! i) k \<longleftrightarrow> bm_buf s ! (bm_base s + k) = q"
    using covers_index [OF assms(1) _ i(1), of k] Cons.prems(1) assms(3,4) by (simp add: in_block_def)
  then show ?case using Cons i by auto
qed simp

lemma walk_quotes_ok:
  assumes "covers s" "set (bm_quotes s) \<subseteq> set (bm_delims s)" "delim_index s d = Some di" "d \<in> set (bm_delims s)"
    and "d \<notin> set (bm_quotes s)" "NUL \<notin> set (bm_quotes s)" "bm_in_quote s = NUL \<or> bm_in_quote s \<in> set (bm_quotes s)"
    and "pos \<le> 64" "bm_base s + pos \<le> length (bm_buf s)"
  shows "\<exists>r q. walk_quotes s di pos = Some (r, set_quote q s) \<and> (q = NUL \<or> q \<in> set (bm_quotes s)) \<and>
    unquoted (bm_buf s) (bm_quotes s) d (bm_in_quote s) (bm_base s + pos) (min (bm_base s + 64) (length (bm_buf s))) =
      (map_option (\<lambda>p. bm_base s + p) r, q)"
  using assms
proof (induction s di pos rule: walk_quotes.induct)
  case (1 s di pos)
  let ?buf = "bm_buf s" and ?qs = "bm_quotes s" and ?base = "bm_base s" and ?len = "length (bm_buf s)"
  let ?e = "min (?base + 64) ?len"
  have start: "?base + pos \<le> ?e" using 1(10,11) by simp
  show ?case
  proof (cases "bm_in_quote s = NUL")
    case True
    have masks: "\<exists>m. masks_at s q = Some m \<and> (\<forall>k. bit m k \<longleftrightarrow> in_block ?buf ?base q k)" if "q \<in> set ?qs" for q
      using 1(3,4) that by (auto simp: covers_def)
    obtain qbits where qb: "combined s ?qs = Some qbits" "\<And>k. bit qbits k \<longleftrightarrow> (\<exists>q \<in> set ?qs. in_block ?buf ?base q k)"
      using combined_ok [of ?qs s, OF masks] by blast
    define g where "g = bm_masks s ! di AND from_mask pos"
    define q where "q = qbits AND from_mask pos"
    have g: "bit g k \<longleftrightarrow> pos \<le> k \<and> k < 64 \<and> ?base + k < ?len \<and> ?buf ! (?base + k) = d" for k
      using covers_index [OF 1(3,6,5), of k] by (auto simp: g_def bit_and_iff in_block_def)
    have q: "bit q k \<longleftrightarrow> pos \<le> k \<and> k < 64 \<and> ?base + k < ?len \<and> ?buf ! (?base + k) \<in> set ?qs" for k
      by (auto simp: q_def bit_and_iff qb(2) in_block_def)
    note gh = first_in_block [of g pos ?base ?len "\<lambda>j. ?buf ! j = d", OF g]
    note qh = first_in_block [of q pos ?base ?len "\<lambda>j. ?buf ! j \<in> set ?qs", OF q]
    note skip = unquoted_skip [of "?base + pos" _ ?e NUL ?buf ?qs d]
    have unfold: "walk_quotes s di pos =
       (if g \<noteq> 0 \<and> (q = 0 \<or> trailing_zeros g < trailing_zeros q) then Some (Some (trailing_zeros g), s)
        else if q = 0 then Some (None, s)
        else case quote_index_at s (trailing_zeros q) of None \<Rightarrow> None
             | Some qi \<Rightarrow> walk_quotes (set_quote (bm_delims s ! qi) s) di (trailing_zeros q + 1))"
      unfolding walk_quotes.simps [of s di pos] Let_def set_quote_def g_def q_def using True by (simp add: qb(1))
    consider (hit) "g \<noteq> 0" "q = 0 \<or> trailing_zeros g < trailing_zeros q" | (none) "g = 0" "q = 0"
      | (quote) "q \<noteq> 0" "g = 0 \<or> trailing_zeros q \<le> trailing_zeros g" by linarith
    then show ?thesis
    proof cases
      case hit
      have noq: "?buf ! j \<notin> set ?qs" if "?base + pos \<le> j" "j < ?base + trailing_zeros g" for j
        using hit(2) qh(1) [of j] qh(3) [of j] gh(2) [OF hit(1)] that by fastforce
      have "unquoted ?buf ?qs d NUL (?base + pos) ?e = unquoted ?buf ?qs d NUL (?base + trailing_zeros g) ?e"
        using gh(2,3) [OF hit(1)] noq by (intro skip) auto
      also have "\<dots> = (Some (?base + trailing_zeros g), NUL)"
        using gh(2) [OF hit(1)] 1(7) by (subst unquoted.simps) auto
      finally show ?thesis using hit True unfolding unfold by (intro exI [of _ "Some (trailing_zeros g)"] exI [of _ NUL]) simp
    next
      case none
      have "unquoted ?buf ?qs d NUL (?base + pos) ?e = unquoted ?buf ?qs d NUL ?e ?e"
        using gh(1) [OF none(1)] qh(1) [OF none(2)] start by (intro skip) auto
      then show ?thesis using none True unfolding unfold
        by (intro exI [of _ None] exI [of _ NUL]) (simp add: unquoted_end)
    next
      case quote
      note h = qh(2) [OF quote(1)]
      have nod: "?buf ! j \<noteq> d" if "?base + pos \<le> j" "j < ?base + trailing_zeros q" for j
        using quote(2) gh(1) [of j] gh(3) [of j] h that by fastforce
      have ne: "\<not> (g \<noteq> 0 \<and> (q = 0 \<or> trailing_zeros g < trailing_zeros q))" using quote by linarith
      obtain qi where qi: "quote_index_at s (trailing_zeros q) = Some qi" "bm_delims s ! qi = ?buf ! (?base + trailing_zeros q)"
        using quote_index_in_ok [OF 1(3,4), of "trailing_zeros q"] h by (auto simp: quote_index_at_def)
      let ?s = "set_quote (bm_delims s ! qi) s"
      have "unquoted ?buf ?qs d NUL (?base + pos) ?e = unquoted ?buf ?qs d NUL (?base + trailing_zeros q) ?e"
        using h qh(3) [OF quote(1)] nod by (intro skip) auto
      also have "\<dots> = unquoted ?buf ?qs d (bm_in_quote ?s) (?base + (trailing_zeros q + 1)) ?e"
        using h qi(2) by (subst unquoted.simps) auto
      finally have step: "unquoted ?buf ?qs d NUL (?base + pos) ?e = \<dots>" .
      have "\<exists>r c. walk_quotes ?s di (trailing_zeros q + 1) = Some (r, set_quote c ?s) \<and> (c = NUL \<or> c \<in> set (bm_quotes ?s)) \<and>
        unquoted (bm_buf ?s) (bm_quotes ?s) d (bm_in_quote ?s) (bm_base ?s + (trailing_zeros q + 1))
          (min (bm_base ?s + 64) (length (bm_buf ?s))) = (map_option (\<lambda>p. bm_base ?s + p) r, c)"
        unfolding set_quote_def [of "bm_delims s ! qi" s]
        by (rule 1(1) [OF True qb(1) g_def q_def refl refl ne quote(1) qi(1)])
           (use 1(3-11) h qi(2) in \<open>simp_all add: covers_def masks_at_def delim_index_def\<close>)
      then show ?thesis using quote qi(1) ne True step unfolding unfold by (auto simp: \<open>q \<noteq> 0\<close>)
    qed
  next
    case False
    then have iq: "bm_in_quote s \<in> set ?qs" using 1(9) by simp
    then obtain w where w: "masks_at s (bm_in_quote s) = Some w" "\<And>k. bit w k \<longleftrightarrow> in_block ?buf ?base (bm_in_quote s) k"
      using 1(3,4) unfolding covers_def by blast
    define c where "c = w AND from_mask pos"
    have c: "bit c k \<longleftrightarrow> pos \<le> k \<and> k < 64 \<and> ?base + k < ?len \<and> ?buf ! (?base + k) = bm_in_quote s" for k
      by (auto simp: c_def bit_and_iff w(2) in_block_def)
    note ch = first_in_block [of c pos ?base ?len "\<lambda>j. ?buf ! j = bm_in_quote s", OF c]
    note skip = unquoted_skip [of "?base + pos" _ ?e "bm_in_quote s" ?buf ?qs d]
    have unfold: "walk_quotes s di pos =
       (if c = 0 then Some (None, s) else walk_quotes (set_quote NUL s) di (trailing_zeros c + 1))"
      by (subst walk_quotes.simps) (simp add: False w(1) Let_def c_def set_quote_def)
    show ?thesis
    proof (cases "c = 0")
      case True
      have "unquoted ?buf ?qs d (bm_in_quote s) (?base + pos) ?e = unquoted ?buf ?qs d (bm_in_quote s) ?e ?e"
        using ch(1) [OF True] start False by (intro skip) auto
      then show ?thesis using True iq unfolding unfold
        by (intro exI [of _ None] exI [of _ "bm_in_quote s"]) (simp add: unquoted_end)
    next
      case nz: False
      note h = ch(2) [OF nz]
      let ?s = "set_quote NUL s"
      have "unquoted ?buf ?qs d (bm_in_quote s) (?base + pos) ?e = unquoted ?buf ?qs d (bm_in_quote s) (?base + trailing_zeros c) ?e"
        using h ch(3) [OF nz] False by (intro skip) auto
      also have "\<dots> = unquoted ?buf ?qs d (bm_in_quote ?s) (?base + (trailing_zeros c + 1)) ?e"
        using h False by (subst unquoted.simps) auto
      finally have step: "unquoted ?buf ?qs d (bm_in_quote s) (?base + pos) ?e = \<dots>" .
      have "\<exists>r c'. walk_quotes ?s di (trailing_zeros c + 1) = Some (r, set_quote c' ?s) \<and> (c' = NUL \<or> c' \<in> set (bm_quotes ?s)) \<and>
        unquoted (bm_buf ?s) (bm_quotes ?s) d (bm_in_quote ?s) (bm_base ?s + (trailing_zeros c + 1))
          (min (bm_base ?s + 64) (length (bm_buf ?s))) = (map_option (\<lambda>p. bm_base ?s + p) r, c')"
        unfolding set_quote_def [of NUL s]
        by (rule 1(2) [OF False w(1) c_def nz])
           (use 1(3-11) h in \<open>simp_all add: covers_def masks_at_def delim_index_def\<close>)
      then show ?thesis using nz step unfolding unfold by auto
    qed
  qed
qed

subsection \<open>The prefix XOR path\<close>

lemma single_quote_ok:
  assumes "set qs \<subseteq> set (bm_delims s)"
  shows "\<exists>r. single_quote s pos qs found = Some r \<and>
    (\<forall>x y. found = Some x \<longrightarrow> r = Some y \<longrightarrow> y = x \<and>
       (\<forall>q \<in> set qs. \<forall>i. delim_index s q = Some i \<longrightarrow> bm_masks s ! i AND from_mask pos = 0)) \<and>
    (\<forall>y. found = None \<longrightarrow> r = Some y \<longrightarrow> (\<exists>q \<in> set qs. delim_index s q = Some y) \<and>
       (\<forall>q \<in> set qs. \<forall>i. delim_index s q = Some i \<longrightarrow> i = y \<or> bm_masks s ! i AND from_mask pos = 0))"
  using assms
proof (induction qs arbitrary: found)
  case (Cons q qs)
  obtain i where i: "delim_index s q = Some i" using Cons.prems delim_index_Some [of q s] by auto
  have sub: "set qs \<subseteq> set (bm_delims s)" using Cons.prems by simp
  show ?case using i Cons.IH [OF sub, of found] Cons.IH [OF sub, of "Some i"] by auto
qed simp

lemma unquoted_parity:
  assumes "d \<noteq> q" "q \<noteq> NUL" "\<And>j. a \<le> j \<Longrightarrow> j < e \<Longrightarrow> buf ! j \<in> set qs \<longleftrightarrow> buf ! j = q"
    and "\<And>j. a \<le> j \<Longrightarrow> j < k \<Longrightarrow> buf ! j = d \<Longrightarrow> odd (card {i. a \<le> i \<and> i < j \<and> buf ! i = q})"
    and "a \<le> k" "k \<le> e"
  shows "unquoted buf qs d NUL a e = unquoted buf qs d (if odd (card {i. a \<le> i \<and> i < k \<and> buf ! i = q}) then q else NUL) k e"
  using assms(5,4,6)
proof (induction k rule: dec_induct)
  case base
  have none: "{i. a \<le> i \<and> i < a \<and> buf ! i = q} = {}" by auto
  show ?case unfolding none by simp
next
  case (step k)
  have fin: "finite {i. a \<le> i \<and> i < k \<and> buf ! i = q}" by simp
  have "{i. a \<le> i \<and> i < Suc k \<and> buf ! i = q} =
      (if buf ! k = q then insert k {i. a \<le> i \<and> i < k \<and> buf ! i = q} else {i. a \<le> i \<and> i < k \<and> buf ! i = q})"
    using step.hyps(1) by (auto simp: less_Suc_eq)
  then have odd: "odd (card {i. a \<le> i \<and> i < Suc k \<and> buf ! i = q}) \<longleftrightarrow>
      (if buf ! k = q then even (card {i. a \<le> i \<and> i < k \<and> buf ! i = q}) else odd (card {i. a \<le> i \<and> i < k \<and> buf ! i = q}))"
    by simp
  have "unquoted buf qs d NUL a e = unquoted buf qs d (if odd (card {i. a \<le> i \<and> i < k \<and> buf ! i = q}) then q else NUL) k e"
    using step.IH step.prems by simp
  also have "\<dots> = unquoted buf qs d (if odd (card {i. a \<le> i \<and> i < Suc k \<and> buf ! i = q}) then q else NUL) (Suc k) e"
  proof -
    have "k < e" using step.prems by simp
    note here = unquoted_step [OF this, of buf qs d, unfolded Suc_eq_plus1 [symmetric]]
    show ?thesis unfolding here odd
      using assms(1,2) assms(3) [of k] step.hyps(1) step.prems(1) [of k] \<open>k < e\<close> by auto
  qed
  finally show ?case .
qed

lemma card_shift: "card {k. P (b + k) \<and> Q k} = card {i. P i \<and> b \<le> i \<and> Q (i - b)}" for b :: nat
proof -
  have "(\<lambda>k. b + k) ` {k. P (b + k) \<and> Q k} = {i. P i \<and> b \<le> i \<and> Q (i - b)}"
    by (auto simp: image_iff) (metis le_add_diff_inverse)
  then show ?thesis using card_image [of "\<lambda>k. b + k" "{k. P (b + k) \<and> Q k}"] by (simp add: inj_on_def)
qed

lemma count_ones_card: "count_ones m = card {k. k < 64 \<and> bit m k}"
proof -
  have "count_ones m = card (set (filter (bit m) [0..<64]))" unfolding count_ones_def by (rule distinct_card [symmetric]) simp
  also have "set (filter (bit m) [0..<64]) = {k. k < 64 \<and> bit m k}" by auto
  finally show ?thesis .
qed

lemma prefix_path_ok:
  assumes q: "\<And>k. bit qm k \<longleftrightarrow> pos \<le> k \<and> k < 64 \<and> base + k < len \<and> buf ! (base + k) = q"
    and g: "\<And>k. bit gm k \<longleftrightarrow> pos \<le> k \<and> k < 64 \<and> base + k < len \<and> buf ! (base + k) = d"
    and h: "h = gm AND NOT (prefix_xor qm)"
    and "d \<noteq> q" "q \<noteq> NUL" "d \<notin> set qs" "len = length buf" "base + pos \<le> len" "pos \<le> 64"
    and only: "\<And>j. base + pos \<le> j \<Longrightarrow> j < min (base + 64) len \<Longrightarrow> buf ! j \<in> set qs \<longleftrightarrow> buf ! j = q"
  shows "unquoted buf qs d NUL (base + pos) (min (base + 64) len) =
    (if h \<noteq> 0 then (Some (base + trailing_zeros h), NUL) else (None, if odd (count_ones qm) then q else NUL))"
proof -
  let ?e = "min (base + 64) len"
  define C where "C k = card {i. base + pos \<le> i \<and> i < k \<and> buf ! i = q}" for k
  have inside: "bit (prefix_xor qm) k \<longleftrightarrow> odd (C (base + k))"
    if "pos \<le> k" "k < 64" "base + k < len" "buf ! (base + k) = d" for k
  proof -
    have "{j. j \<le> k \<and> bit qm j} = {j. (base + pos \<le> base + j \<and> base + j < base + k \<and> buf ! (base + j) = q) \<and> True}"
      using that assms(4) by (auto simp: q nat_less_le)
    then have "card {j. j \<le> k \<and> bit qm j} = card {i. (base + pos \<le> i \<and> i < base + k \<and> buf ! i = q) \<and> base \<le> i \<and> True}"
      using card_shift [of "\<lambda>i. base + pos \<le> i \<and> i < base + k \<and> buf ! i = q" base "\<lambda>_. True"] by simp
    also have "{i. (base + pos \<le> i \<and> i < base + k \<and> buf ! i = q) \<and> base \<le> i \<and> True} = {i. base + pos \<le> i \<and> i < base + k \<and> buf ! i = q}"
      by auto
    finally show ?thesis using bit_prefix_xor [OF that(2), of qm] by (simp add: C_def)
  qed
  have hits: "bit h k \<longleftrightarrow> pos \<le> k \<and> k < 64 \<and> base + k < len \<and> (buf ! (base + k) = d \<and> even (C (base + k)))" for k
    using inside [of k] by (auto simp: h bit_and_iff bit_not_iff g)
  note first = first_in_block [of h pos base len "\<lambda>j. buf ! j = d \<and> even (C j)", OF hits]
  note parity = unquoted_parity [of d q "base + pos" ?e buf qs, OF assms(4,5) only, folded C_def]
  show ?thesis
  proof (cases "h = 0")
    case True
    have "odd (C j)" if "base + pos \<le> j" "j < ?e" "buf ! j = d" for j using first(1) [OF True that(1,2)] that(3) by blast
    then have "unquoted buf qs d NUL (base + pos) ?e = unquoted buf qs d (if odd (C ?e) then q else NUL) ?e ?e"
      using assms(8,9) by (intro parity) auto
    moreover have "count_ones qm = C ?e"
    proof -
      have "{k. k < 64 \<and> bit qm k} = {k. (base + pos \<le> base + k \<and> base + k < ?e \<and> buf ! (base + k) = q) \<and> True}"
        by (auto simp: q)
      then have "count_ones qm = card {i. (base + pos \<le> i \<and> i < ?e \<and> buf ! i = q) \<and> base \<le> i \<and> True}"
        using card_shift [of "\<lambda>i. base + pos \<le> i \<and> i < ?e \<and> buf ! i = q" base "\<lambda>_. True"] by (simp add: count_ones_card)
      also have "{i. (base + pos \<le> i \<and> i < ?e \<and> buf ! i = q) \<and> base \<le> i \<and> True} = {i. base + pos \<le> i \<and> i < ?e \<and> buf ! i = q}" by auto
      finally show ?thesis by (simp add: C_def)
    qed
    ultimately show ?thesis using True by (simp add: unquoted_end)
  next
    case False
    define k where "k = base + trailing_zeros h"
    have k: "base + pos \<le> k" "k < ?e" "buf ! k = d" "even (C k)" using first(2) [OF False] by (auto simp: k_def)
    have "odd (C j)" if "base + pos \<le> j" "j < k" "buf ! j = d" for j
      using first(3) [OF False that(1)] that(2,3) by (simp add: k_def) 
    then have "unquoted buf qs d NUL (base + pos) ?e = unquoted buf qs d (if odd (C k) then q else NUL) k ?e"
      using k by (intro parity) auto
    then show ?thesis using False k assms(6) by (simp add: unquoted_step k_def)
  qed
qed

subsection \<open>One block, then all of them\<close>

text \<open>What a search for \<open>d\<close> outside quotes needs of its delimiters.\<close>

definition quotable :: "block_masks \<Rightarrow> char \<Rightarrow> bool" where
  "quotable s d \<longleftrightarrow> d \<in> set (bm_delims s) \<and> d \<notin> set (bm_quotes s) \<and> NUL \<notin> set (bm_quotes s) \<and>
     set (bm_quotes s) \<subseteq> set (bm_delims s)"

definition open_ok :: "block_masks \<Rightarrow> bool" where
  "open_ok s \<longleftrightarrow> bm_in_quote s = NUL \<or> bm_in_quote s \<in> set (bm_quotes s)"

lemma scan_block_ok:
  assumes "covers s" "quotable s d" "delim_index s d = Some di" "open_ok s" "pos \<le> 64" "bm_base s + pos \<le> length (bm_buf s)"
  shows "\<exists>r q. scan_block_unquoted s pos di = Some (r, set_quote q s) \<and> (q = NUL \<or> q \<in> set (bm_quotes s)) \<and>
    unquoted (bm_buf s) (bm_quotes s) d (bm_in_quote s) (bm_base s + pos) (min (bm_base s + 64) (length (bm_buf s))) =
      (map_option (\<lambda>p. bm_base s + p) r, q)"
proof -
  have walk: "\<exists>r q. walk_quotes s di pos = Some (r, set_quote q s) \<and> (q = NUL \<or> q \<in> set (bm_quotes s)) \<and>
    unquoted (bm_buf s) (bm_quotes s) d (bm_in_quote s) (bm_base s + pos) (min (bm_base s + 64) (length (bm_buf s))) =
      (map_option (\<lambda>p. bm_base s + p) r, q)"
    using assms by (intro walk_quotes_ok) (auto simp: quotable_def open_ok_def)
  obtain r where r: "single_quote_remaining s pos = Some r"
    "\<And>y. r = Some y \<Longrightarrow> (\<exists>q \<in> set (bm_quotes s). delim_index s q = Some y) \<and>
       (\<forall>q \<in> set (bm_quotes s). \<forall>i. delim_index s q = Some i \<longrightarrow> i = y \<or> bm_masks s ! i AND from_mask pos = 0)"
    using single_quote_ok [of "bm_quotes s" s pos None] assms(2) by (auto simp: single_quote_remaining_def quotable_def)
  show ?thesis
  proof (cases "bm_in_quote s = NUL \<and> r \<noteq> None")
    case False
    then have "scan_block_unquoted s pos di = walk_quotes s di pos" using r(1) by (auto simp: scan_block_unquoted_def)
    with walk show ?thesis by simp
  next
    case True
    then obtain qi where qi: "r = Some qi" by auto
    obtain q where q: "q \<in> set (bm_quotes s)" "delim_index s q = Some qi" using r(2) [OF qi] by blast
    have qd: "q \<in> set (bm_delims s)" "bm_delims s ! qi = q" "q \<noteq> NUL" "d \<noteq> q"
      using q assms(2) delim_index_Some [of q s] by (auto simp: quotable_def)
    let ?qm = "bm_masks s ! qi AND from_mask pos" and ?gm = "bm_masks s ! di AND from_mask pos"
    let ?h = "?gm AND NOT (prefix_xor ?qm)" and ?e = "min (bm_base s + 64) (length (bm_buf s))"
    have only: "bm_buf s ! j \<in> set (bm_quotes s) \<longleftrightarrow> bm_buf s ! j = q" if j: "bm_base s + pos \<le> j" "j < ?e" for j
    proof
      assume b: "bm_buf s ! j \<in> set (bm_quotes s)"
      then have bd: "bm_buf s ! j \<in> set (bm_delims s)" using assms(2) by (auto simp: quotable_def)
      then obtain i where i: "delim_index s (bm_buf s ! j) = Some i" "bm_delims s ! i = bm_buf s ! j" by (rule delim_index_Some)
      have "bit (bm_masks s ! i AND from_mask pos) (j - bm_base s)"
      proof -
        have "pos \<le> j - bm_base s" "j - bm_base s < 64" "bm_base s + (j - bm_base s) = j" "j < length (bm_buf s)" using j by auto
        then show ?thesis using covers_index [OF assms(1) bd i(1), of "j - bm_base s"] by (simp add: bit_and_iff in_block_def)
      qed
      then have "bm_masks s ! i AND from_mask pos \<noteq> 0" by auto
      then have "i = qi" using r(2) [OF qi] b i(1) by blast
      then show "bm_buf s ! j = q" using i(2) qd(2) by simp
    qed (use q(1) in simp)
    have "unquoted (bm_buf s) (bm_quotes s) d NUL (bm_base s + pos) ?e =
        (if ?h \<noteq> 0 then (Some (bm_base s + trailing_zeros ?h), NUL) else (None, if odd (count_ones ?qm) then q else NUL))"
      using assms(2,5,6) qd(3,4) covers_index [OF assms(1) qd(1) q(2)] covers_index [OF assms(1) _ assms(3)]
      by (intro prefix_path_ok only) (auto simp: quotable_def bit_and_iff in_block_def)
    moreover have "scan_block_unquoted s pos di = (if ?h \<noteq> 0 then Some (Some (trailing_zeros ?h), set_quote NUL s)
        else Some (None, set_quote (if odd (count_ones ?qm) then q else NUL) s))"
      using True r(1) qi qd(2) by (auto simp: scan_block_unquoted_def Let_def set_quote_def)
    ultimately show ?thesis using True q(1) by auto
  qed
qed

lemma loaded_ensure_all:
  assumes "bm_ok s"
  shows "covers (ensure_all cpu s)"
  using ensure_all_ok [OF assms, where cpu = cpu] by (auto simp: covers_def same_setup_def)

lemma bm_ok_quote [simp]: "bm_ok (set_quote q s) = bm_ok s" "same_setup s (set_quote q s)" "bm_loaded (set_quote q s) = bm_loaded s"
  by (simp_all add: bm_ok_def set_quote_def same_setup_def)

lemma bm_ok_pos [simp]: "bm_ok (s\<lparr>bm_quote_pos := i\<rparr>) = bm_ok s" "same_setup s (s\<lparr>bm_quote_pos := i\<rparr>)"
    "delim_index (s\<lparr>bm_quote_pos := i\<rparr>) d = delim_index s d" "quotable (s\<lparr>bm_quote_pos := i\<rparr>) d = quotable s d"
    "open_ok (s\<lparr>bm_quote_pos := i\<rparr>) = open_ok s"
  by (simp_all add: bm_ok_def same_setup_def delim_index_def quotable_def open_ok_def)

lemma same_setup_moves:
  "same_setup s t \<Longrightarrow> quotable t d = quotable s d" "same_setup s t \<Longrightarrow> delim_index t d = delim_index s d"
  by (simp_all add: same_setup_def quotable_def delim_index_def)

lemma unquoted_loop_ok:
  assumes "bm_ok s" "bm_loaded s" "quotable s d" "delim_index s d = Some di" "open_ok s"
    and "bm_base s \<le> cur" "cur \<le> bm_base s + 64" "cur \<le> length (bm_buf s)"
  shows "\<exists>r t. unquoted_loop cpu di cur s = Some (r, t) \<and> bm_ok t \<and> same_setup s t \<and> bm_loaded t \<and>
    unquoted (bm_buf s) (bm_quotes s) d (bm_in_quote s) cur (length (bm_buf s)) = (r, bm_in_quote t) \<and>
    (case r of None \<Rightarrow> length (bm_buf s) \<le> bm_quote_pos t
     | Some p \<Rightarrow> bm_quote_pos t = p + 1 \<and> bm_base t \<le> p + 1 \<and> p + 1 \<le> bm_base t + 64)"
  using assms
proof (induction cpu di cur s rule: unquoted_loop.induct)
  case (1 cpu di cur s)
  define s1 where "s1 = ensure_all cpu s"
  let ?len = "length (bm_buf s)" and ?pos = "cur - bm_base s"
  have s1: "bm_ok s1" "bm_loaded s1" "same_setup s s1" "bm_base s1 = bm_base s" "bm_in_quote s1 = bm_in_quote s" "covers s1"
    using ensure_all_ok(1) [OF 1(2), of cpu] 1(3) loaded_ensure_all [OF 1(2)] by (simp_all add: s1_def)
  have conf: "bm_buf s1 = bm_buf s" "bm_quotes s1 = bm_quotes s" "quotable s1 d" "delim_index s1 d = Some di" "open_ok s1"
    using s1(3,5) 1(4-6) same_setup_moves [OF s1(3)] by (simp_all add: same_setup_def open_ok_def)
  have pos: "wrapping_sub cur (bm_base s1) = ?pos" "?pos \<le> 64" "bm_base s1 + ?pos = cur"
    using 1(7,8) by (simp_all add: wrapping_sub_def s1(4))
  obtain r q where scan: "scan_block_unquoted s1 ?pos di = Some (r, set_quote q s1)" "q = NUL \<or> q \<in> set (bm_quotes s1)"
    "unquoted (bm_buf s) (bm_quotes s) d (bm_in_quote s) cur (min (bm_base s + 64) ?len) = (map_option (\<lambda>p. bm_base s + p) r, q)"
    using scan_block_ok [OF s1(6) conf(3,4,5) pos(2)] pos(3) 1(9) by (auto simp: conf s1(4,5))
  define s2 where "s2 = set_quote q s1"
  have s2: "bm_ok s2" "bm_loaded s2" "same_setup s s2" "bm_base s2 = bm_base s" "bm_in_quote s2 = q" "bm_buf s2 = bm_buf s"
    using s1 same_setup_trans [OF s1(3)] conf(1) by (simp_all add: s2_def)
  have split: "unquoted (bm_buf s) (bm_quotes s) d (bm_in_quote s) cur ?len =
      (case (map_option (\<lambda>p. bm_base s + p) r, q) of (Some p, b) \<Rightarrow> (Some p, b)
       | (None, b) \<Rightarrow> unquoted (bm_buf s) (bm_quotes s) d b (min (bm_base s + 64) ?len) ?len)"
    using unquoted_split [of cur "min (bm_base s + 64) ?len" ?len] 1(8,9) scan(3) by simp
  have unfold: "unquoted_loop cpu di cur s =
      (case r of Some p \<Rightarrow> Some (Some (bm_base s + p), s2\<lparr>bm_quote_pos := bm_base s + p + 1\<rparr>)
       | None \<Rightarrow> (case advance_block s2 of None \<Rightarrow> Some (None, s2\<lparr>bm_quote_pos := bm_base s + 64\<rparr>)
           | Some s \<Rightarrow> unquoted_loop cpu di (bm_base s) (s\<lparr>bm_quote_pos := bm_base s\<rparr>)))"
    unfolding unquoted_loop.simps [of cpu di cur s] Let_def s1_def [symmetric] pos(1) scan(1) s2_def [symmetric]
    by (simp add: s2(4) split: option.splits)
  show ?case
  proof (cases r)
    case (Some p)
    have "bm_base s + p < min (bm_base s + 64) ?len"
      using scan(3) Some unquoted_hit_less [of "bm_buf s" "bm_quotes s" d "bm_in_quote s" cur] by fastforce
    with Some show ?thesis using s2 same_setup_trans [OF s2(3)] split
      by (intro exI [of _ "Some (bm_base s + p)"] exI [of _ "s2\<lparr>bm_quote_pos := bm_base s + p + 1\<rparr>"]) (simp add: unfold)
  next
    case None
    show ?thesis
    proof (cases "advance_block s2")
      case over: None
      then have len: "?len \<le> bm_base s + 64" using s2(4,6) by (auto simp: advance_block_def Let_def split: if_splits)
      then have "unquoted (bm_buf s) (bm_quotes s) d (bm_in_quote s) cur ?len = (None, q)"
        using split None by (simp add: unquoted_end)
      with len None show ?thesis using s2 same_setup_trans [OF s2(3)] over
        by (intro exI [of _ None] exI [of _ "s2\<lparr>bm_quote_pos := bm_base s + 64\<rparr>"]) (simp add: unfold)
    next
      case (Some s3)
      note a = advance_ok [OF s2(1) Some]
      define s4 where "s4 = s3\<lparr>bm_quote_pos := bm_base s3\<rparr>"
      have s4: "bm_ok s4" "bm_loaded s4" "same_setup s s4" "bm_base s4 = bm_base s + 64" "bm_in_quote s4 = q" "bm_base s3 = bm_base s + 64"
        using a s2 same_setup_trans [OF s2(3), of s3] by (auto simp: s4_def same_setup_def)
      have len: "bm_base s + 64 < ?len" using a s2(4,6) by simp
      have conf4: "bm_buf s4 = bm_buf s" "bm_quotes s4 = bm_quotes s" "quotable s4 d" "delim_index s4 d = Some di" "open_ok s4"
        using s4(3,5) 1(4,5) same_setup_moves [OF s4(3)] scan(2) conf(2) by (simp_all add: same_setup_def open_ok_def)
      have s3: "bm_ok s3" "bm_loaded s3" "quotable s3 d" "delim_index s3 d = Some di" "open_ok s3" "bm_buf s3 = bm_buf s"
        using a conf4 by (simp_all add: s4_def)
      have "\<exists>r t. unquoted_loop cpu di (bm_base s3) s4 = Some (r, t) \<and> bm_ok t \<and> same_setup s4 t \<and> bm_loaded t \<and>
        unquoted (bm_buf s4) (bm_quotes s4) d (bm_in_quote s4) (bm_base s3) (length (bm_buf s4)) = (r, bm_in_quote t) \<and>
        (case r of None \<Rightarrow> length (bm_buf s4) \<le> bm_quote_pos t
         | Some p \<Rightarrow> bm_quote_pos t = p + 1 \<and> bm_base t \<le> p + 1 \<and> p + 1 \<le> bm_base t + 64)"
        unfolding s4_def
        by (rule 1(1) [OF s1_def _ refl _ Some])
           (use scan(1) None pos(1) s4(6) s3 len in \<open>simp_all add: s2_def\<close>)
      then obtain r' t where t: "unquoted_loop cpu di (bm_base s + 64) s4 = Some (r', t)" "bm_ok t" "same_setup s4 t" "bm_loaded t"
        "unquoted (bm_buf s) (bm_quotes s) d q (bm_base s + 64) ?len = (r', bm_in_quote t)"
        "case r' of None \<Rightarrow> ?len \<le> bm_quote_pos t | Some p \<Rightarrow> bm_quote_pos t = p + 1 \<and> bm_base t \<le> p + 1 \<and> p + 1 \<le> bm_base t + 64"
        unfolding conf4(1,2) s4(5,6) by blast
      have "unquoted_loop cpu di cur s = Some (r', t)" using t(1) None Some by (simp add: unfold s4_def s4(6))
      moreover have "unquoted (bm_buf s) (bm_quotes s) d (bm_in_quote s) cur ?len = (r', bm_in_quote t)"
        using split None t(5) len by (simp add: min_def)
      ultimately show ?thesis using t(2,4,6) same_setup_trans [OF s4(3) t(3)] by blast
    qed
  qed
qed

text \<open>The quote open before byte \<open>i\<close>, counted from the start of the buffer.\<close>

fun quote_state :: "string \<Rightarrow> string \<Rightarrow> nat \<Rightarrow> char" where
  "quote_state buf qs 0 = NUL"
| "quote_state buf qs (Suc i) =
     (let a = quote_state buf qs i
      in if a = NUL then (if buf ! i \<in> set qs then buf ! i else NUL) else if buf ! i = a then NUL else a)"

definition outside :: "string \<Rightarrow> string \<Rightarrow> char \<Rightarrow> nat \<Rightarrow> bool" where
  "outside buf qs d i \<longleftrightarrow> buf ! i = d \<and> quote_state buf qs i = NUL"

lemma unquoted_outside:
  assumes "d \<notin> set qs"
  shows "fst (unquoted buf qs d (quote_state buf qs i) i e) = List.find (outside buf qs d) [i..<e]"
proof (induction "e - i" arbitrary: i)
  case 0
  then show ?case by (simp add: unquoted_end)
next
  case (Suc n)
  then have i: "i < e" "n = e - Suc i" by simp_all
  note IH = Suc.hyps(1) [OF i(2)]
  have "[i..<e] = i # [Suc i..<e]" using i(1) by (rule upt_conv_Cons)
  then show ?case using assms IH
    by (cases "quote_state buf qs i = NUL"; cases "buf ! i \<in> set qs"; cases "buf ! i = quote_state buf qs i")
       (auto simp: unquoted_step [OF i(1)] outside_def)
qed

text \<open>The cursor: where it continues, its quote state is that of the buffer.\<close>

definition cursor :: "block_masks \<Rightarrow> bool" where
  "cursor s \<longleftrightarrow> (bm_quotes s \<noteq> [] \<and> bm_loaded s \<and> bm_quote_pos s < length (bm_buf s) \<longrightarrow>
     bm_base s \<le> bm_quote_pos s \<and> bm_quote_pos s \<le> bm_base s + 64 \<and> open_ok s \<and>
     bm_in_quote s = quote_state (bm_buf s) (bm_quotes s) (bm_quote_pos s))"

lemma block_start_bounds: "block_start i \<le> i" "i < block_start i + 64"
  using mod_less_divisor [of 64 i] mod_less_eq_dividend [of i 64] by (simp_all add: block_start_def del: mod_less_divisor)

lemma quote_state_Nil [simp]: "quote_state buf [] i = NUL"
  by (induction i) simp_all

lemma next_unquoted_ok:
  assumes "bm_ok s" "cursor s" "quotable s d" "quote_state (bm_buf s) (bm_quotes s) i = NUL"
  shows "\<exists>t. next_unquoted cpu i d s = Some (List.find (outside (bm_buf s) (bm_quotes s) d) [i..<length (bm_buf s)], t) \<and>
    bm_ok t \<and> cursor t \<and> same_setup s t"
proof -
  let ?buf = "bm_buf s" and ?qs = "bm_quotes s"
  have d: "d \<in> set (bm_delims s)" "d \<notin> set ?qs" using assms(3) by (simp_all add: quotable_def)
  consider "?qs = []" | "?qs \<noteq> []" "length ?buf \<le> i" | "?qs \<noteq> []" "i < length ?buf" by linarith
  then show ?thesis
  proof cases
    case 1
    then have "outside ?buf ?qs d = (\<lambda>i. ?buf ! i = d)" by (auto simp: outside_def)
    with 1 bm_next_ok [OF assms(1) d(1), of cpu i] show ?thesis
      by (auto simp: next_unquoted_def cursor_def same_setup_def)
  next
    case 2
    then show ?thesis using assms(1,2) by (simp add: next_unquoted_def)
  next
    case 3
    obtain di where di: "delim_index s d = Some di" using d(1) by (rule delim_index_Some)
    define u where "u = (if \<not> bm_loaded s \<or> i \<noteq> bm_quote_pos s
        then load_at (block_start i) (s\<lparr>bm_in_quote := NUL, bm_quote_pos := i\<rparr>) else s)"
    have ok: "bm_ok (s\<lparr>bm_in_quote := NUL, bm_quote_pos := i\<rparr>)" "same_setup s (s\<lparr>bm_in_quote := NUL, bm_quote_pos := i\<rparr>)"
      using assms(1) by (simp_all add: bm_ok_def same_setup_def)
    have u: "bm_ok u" "bm_loaded u" "same_setup s u" "bm_in_quote u = NUL" "bm_base u \<le> i" "i \<le> bm_base u + 64"
      using load_at_ok [OF ok(1), of "block_start i"] same_setup_trans [OF ok(2)] block_start_bounds [of i] assms(1,2,4) 3
      by (auto simp: u_def cursor_def)
    then have v: "quotable u d" "delim_index u d = Some di" "open_ok u" "bm_buf u = ?buf" "bm_quotes u = ?qs"
      using assms(3) di same_setup_moves [OF u(3)] by (simp_all add: open_ok_def same_setup_def)
    obtain r t where t: "unquoted_loop cpu di i u = Some (r, t)" "bm_ok t" "same_setup u t" "bm_loaded t"
        "unquoted ?buf ?qs d NUL i (length ?buf) = (r, bm_in_quote t)"
        "case r of None \<Rightarrow> length ?buf \<le> bm_quote_pos t | Some p \<Rightarrow> bm_quote_pos t = p + 1 \<and> bm_base t \<le> p + 1 \<and> p + 1 \<le> bm_base t + 64"
      using unquoted_loop_ok [OF u(1,2) v(1,2,3) u(5,6), of cpu] 3(2) unfolding v(4,5) u(4) by fastforce
    have r: "r = List.find (outside ?buf ?qs d) [i..<length ?buf]"
      using unquoted_outside [OF d(2), of ?buf i "length ?buf"] assms(4) t(5) by simp
    have setup_t: "same_setup s t" using same_setup_trans [OF u(3) t(3)] .
    have "cursor t"
    proof (cases r)
      case None
      then show ?thesis using t(6) setup_t by (simp add: cursor_def same_setup_def)
    next
      case (Some p)
      have "outside ?buf ?qs d p" using r [symmetric] unfolding Some find_upt_Some by blast
      moreover have "bm_in_quote t = NUL" using unquoted_hit_less [OF t(5) [unfolded Some]] by blast
      ultimately show ?thesis using Some t(6) setup_t d(2) by (simp add: cursor_def same_setup_def open_ok_def outside_def)
    qed
    moreover have "next_unquoted cpu i d s = unquoted_loop cpu di i u"
      using 3 di by (simp add: next_unquoted_def u_def Let_def)
    ultimately show ?thesis using t(1,2) r setup_t by auto
  qed
qed

section \<open>What is promised\<close>

text \<open>
  C26. On every CPU the vector code computes the masks of the scalar loop: bit \<open>k\<close> is set exactly when byte \<open>k\<close>
  of the block is the delimiter, for one delimiter and for several in one pass.
\<close>

theorem simd_masks_agree:
  assumes "64 \<le> length p" "n \<le> length delims" "n \<le> length out"
  shows "masks64 cpu p delims n out = map (mask64_scalar p) (take n delims) @ drop n out \<and>
    mask64 cpu p d = mask64_scalar p d \<and> (\<forall>k. bit (mask64 cpu p d) k \<longleftrightarrow> k < 64 \<and> p ! k = d)"
  using masks64_map [OF assms] mask64_cpu [OF assms(1)] bit_mask64 [OF assms(1)] by blast

theorem simd_masks_agree_witness:
  "bit (mask64 Sse2 (replicate 64 CHR ''x'') CHR ''x'') 17 \<and> masks64 Avx2 (replicate 64 CHR ''x'') [] 0 [5] = [5]"
proof -
  have len: "64 \<le> length (replicate 64 CHR ''x'')" "0 \<le> length ([] :: string)" "0 \<le> length [5 :: mask64]" by simp_all
  have "\<forall>k. bit (mask64 Sse2 (replicate 64 CHR ''x'') CHR ''x'') k \<longleftrightarrow> k < 64 \<and> replicate 64 CHR ''x'' ! k = CHR ''x''"
    using simd_masks_agree [OF len, of Sse2 "CHR ''x''"] by blast
  then have "bit (mask64 Sse2 (replicate 64 CHR ''x'') CHR ''x'') 17" by (rule allE [of _ 17]) simp
  with simd_masks_agree [OF len, of Avx2] show ?thesis by simp
qed

text \<open>
  The prefix XOR is the parity: bit \<open>i\<close> of it tells whether the number of bits up to \<open>i\<close> is odd.
\<close>

theorem prefix_xor_parity:
  assumes "i < 64"
  shows "bit (prefix_xor m) i \<longleftrightarrow> odd (card {j. j \<le> i \<and> bit m j})"
  using bit_prefix_xor [OF assms] .

theorem prefix_xor_parity_witness: "bit (prefix_xor 1) 5"
proof -
  have "{j. j \<le> (5::nat) \<and> bit (1 :: mask64) j} = {0}" by (auto simp: bit_1_iff)
  then show ?thesis using prefix_xor_parity [of 5 1] by simp
qed

text \<open>
  C25. The block search finds the first occurrence: of one delimiter, of any of several with the byte found,
  and through the long-span fallback, from any state the searches leave behind.
\<close>

theorem block_search_first:
  assumes "bm_ok s" "d \<in> set (bm_delims s)" "set ds \<subseteq> set (bm_delims s)" "i \<le> length (bm_buf s)"
  shows "(\<exists>t. bm_next cpu i d s = Some (List.find (\<lambda>i. bm_buf s ! i = d) [i..<length (bm_buf s)], t) \<and> bm_ok t \<and> same_setup s t) \<and>
    (\<exists>t. next_any cpu i ds s =
      Some (map_option (\<lambda>i. (i, bm_buf s ! i)) (List.find (\<lambda>i. bm_buf s ! i \<in> set ds) [i..<length (bm_buf s)]), t) \<and>
      bm_ok t \<and> same_setup s t) \<and>
    (\<exists>t. next_far cpu i d hint s = Some (List.find (\<lambda>i. bm_buf s ! i = d) [i..<length (bm_buf s)], t) \<and> bm_ok t \<and> same_setup s t)"
proof -
  have "map_option (\<lambda>k. i + k) (memchr d (drop i (bm_buf s))) = List.find (\<lambda>i. bm_buf s ! i = d) [i..<length (bm_buf s)]"
  proof (cases "memchr d (drop i (bm_buf s))")
    case None
    have "List.find (\<lambda>i. bm_buf s ! i = d) [i..<length (bm_buf s)] = None"
    proof -
      have "bm_buf s ! j \<noteq> d" if "i \<le> j" "j < length (bm_buf s)" for j
        using None that nth_mem [of "j - i" "drop i (bm_buf s)"] by (auto simp: memchr_None)
      then show ?thesis by (auto simp: find_None_iff)
    qed
    with None show ?thesis by simp
  next
    case (Some k)
    have k: "i + k < length (bm_buf s)" "bm_buf s ! (i + k) = d" "\<And>j. j < k \<Longrightarrow> bm_buf s ! (i + j) \<noteq> d"
      using memchr_Some [OF Some] assms(4) by auto
    have "bm_buf s ! j \<noteq> d" if "i \<le> j" "j < i + k" for j using k(3) [of "j - i"] that by simp
    then have "List.find (\<lambda>i. bm_buf s ! i = d) [i..<length (bm_buf s)] = Some (i + k)"
      using k(1,2) by (auto simp: find_upt_Some)
    with Some show ?thesis by simp
  qed
  then show ?thesis
    using bm_next_ok [OF assms(1,2), of cpu i] next_any_ok [OF assms(1,3), of cpu i] assms(1,4) by (auto simp: next_far_def)
qed

definition sample_masks :: block_masks where
  "sample_masks = the (bm_with_quotes [CHR ''a'', CHR ''<'', CHR 0x22, CHR ''<'', CHR 0x22, CHR ''<''] [CHR ''<'', CHR 0x22] [CHR 0x22])"

lemma sample_masks_ok:
  "bm_ok sample_masks" "\<not> bm_loaded sample_masks" "bm_buf sample_masks = [CHR ''a'', CHR ''<'', CHR 0x22, CHR ''<'', CHR 0x22, CHR ''<'']"
  "bm_delims sample_masks = [CHR ''<'', CHR 0x22]" "bm_quotes sample_masks = [CHR 0x22]"
proof -
  have "bm_build [CHR ''a'', CHR ''<'', CHR 0x22, CHR ''<'', CHR 0x22, CHR ''<''] [CHR ''<'', CHR 0x22] [CHR 0x22] = Some sample_masks"
    by (simp add: sample_masks_def bm_with_quotes_def bm_build_def MAX_DELIMS_def)
  from build_ok [OF this] show "bm_ok sample_masks" "\<not> bm_loaded sample_masks"
      "bm_buf sample_masks = [CHR ''a'', CHR ''<'', CHR 0x22, CHR ''<'', CHR 0x22, CHR ''<'']"
      "bm_delims sample_masks = [CHR ''<'', CHR 0x22]" "bm_quotes sample_masks = [CHR 0x22]"
    by (simp_all add: usize_max_def)
qed

theorem block_search_first_witness:
  "\<exists>t. bm_next Avx2 2 CHR ''<'' sample_masks = Some (Some 3, t)"
proof -
  have "List.find (\<lambda>i. bm_buf sample_masks ! i = CHR ''<'') [2..<length (bm_buf sample_masks)] = Some 3"
    by (simp add: sample_masks_ok(3) upt_rec)
  then show ?thesis
    using block_search_first [OF sample_masks_ok(1), of "CHR ''<''" "[]" 2 Avx2 0] by (auto simp: sample_masks_ok)
qed

text \<open>
  C24. The quote-aware cursor finds exactly the delimiters outside quotes: asked from a position outside, it
  returns the first occurrence from there that is outside the quotes counted byte by byte from
  the start of the buffer, with one kind of quote or several, across blocks; the position behind
  a hit is outside again, so a run of such calls lists all of them in order.
\<close>

theorem next_unquoted_first:
  assumes "bm_ok s" "cursor s" "quotable s d" "quote_state (bm_buf s) (bm_quotes s) i = NUL"
  shows "\<exists>r t. next_unquoted cpu i d s = Some (r, t) \<and> r = List.find (outside (bm_buf s) (bm_quotes s) d) [i..<length (bm_buf s)] \<and>
    bm_ok t \<and> cursor t \<and> same_setup s t \<and> (\<forall>p. r = Some p \<longrightarrow> quote_state (bm_buf t) (bm_quotes t) (p + 1) = NUL)"
proof -
  obtain t where t: "next_unquoted cpu i d s = Some (List.find (outside (bm_buf s) (bm_quotes s) d) [i..<length (bm_buf s)], t)"
    "bm_ok t" "cursor t" "same_setup s t" using next_unquoted_ok [OF assms, of cpu] by blast
  have "quote_state (bm_buf t) (bm_quotes t) (p + 1) = NUL"
    if "List.find (outside (bm_buf s) (bm_quotes s) d) [i..<length (bm_buf s)] = Some p" for p
    using that assms(3) t(4) unfolding find_upt_Some by (simp add: outside_def same_setup_def quotable_def)
  with t show ?thesis by blast
qed

theorem next_unquoted_first_witness:
  "\<exists>t. next_unquoted Scalar_only 2 CHR ''<'' sample_masks = Some (Some 5, t)"
proof -
  note s = sample_masks_ok
  have "cursor sample_masks" "quotable sample_masks CHR ''<''" "quote_state (bm_buf sample_masks) (bm_quotes sample_masks) 2 = NUL"
    by (simp_all add: cursor_def quotable_def s numeral_2_eq_2)
  moreover have "List.find (outside (bm_buf sample_masks) (bm_quotes sample_masks) CHR ''<'') [2..<length (bm_buf sample_masks)] = Some 5"
    by (simp add: s upt_rec outside_def eval_nat_numeral)
  ultimately show ?thesis using next_unquoted_first [OF s(1), of "CHR ''<''" 2 Scalar_only] by auto
qed

lemma scan_behind_block:
  assumes "covers s" "quotable s d" "open_ok s" "64 \<le> pos"
  shows "scan_block_unquoted s pos di = Some (None, s)"
proof -
  have zero: "m AND from_mask pos = 0" for m using assms(4) by (simp add: from_mask_def)
  obtain r where "single_quote_remaining s pos = Some r" "\<And>y. r = Some y \<Longrightarrow> \<exists>q \<in> set (bm_quotes s). delim_index s q = Some y"
    using single_quote_ok [of "bm_quotes s" s pos None] assms(2) by (auto simp: single_quote_remaining_def quotable_def)
  have none: "single_quote s pos qs None = Some None" if "set qs \<subseteq> set (bm_delims s)" for qs
    using that
  proof (induction qs)
    case (Cons q qs)
    then obtain i where "delim_index s q = Some i" using delim_index_Some [of q s] by auto
    with Cons show ?case by (simp add: zero)
  qed simp
  have qs: "set (bm_quotes s) \<subseteq> set (bm_delims s)" using assms(2) by (simp add: quotable_def)
  have masks: "\<exists>m. masks_at s q = Some m" if "q \<in> set (bm_quotes s)" for q
    using assms(1) qs that unfolding covers_def by blast
  have "combined s qs' \<noteq> None" if "set qs' \<subseteq> set (bm_quotes s)" for qs'
    using that
  proof (induction qs')
    case (Cons q qs')
    obtain m where "masks_at s q = Some m" using masks [of q] Cons.prems by auto
    with Cons show ?case by auto
  qed simp
  then obtain c where c: "combined s (bm_quotes s) = Some c" by blast
  have "walk_quotes s di pos = Some (None, s)"
  proof (cases "bm_in_quote s = NUL")
    case True
    then show ?thesis by (subst walk_quotes.simps) (simp add: c zero)
  next
    case False
    then obtain m where "masks_at s (bm_in_quote s) = Some m" using masks assms(3) by (auto simp: open_ok_def)
    with False show ?thesis by (subst walk_quotes.simps) (simp add: zero)
  qed
  with none [OF qs] show ?thesis by (simp add: scan_block_unquoted_def single_quote_remaining_def)
qed

text \<open>
  The cursor does not survive other searches in between: when one of them has moved the block beyond the
  position where the cursor continues, the offset into the block wraps around and everything
  before the end of the moved block is skipped.
\<close>

theorem stale_cursor_skips:
  assumes "bm_ok s" "bm_loaded s" "quotable s d" "open_ok s" "bm_quotes s \<noteq> []" "i = bm_quote_pos s"
    and "i < bm_base s" "bm_base s < length (bm_buf s)" "length (bm_buf s) < 2 ^ 63"
  shows "\<exists>r t. next_unquoted cpu i d s = Some (r, t) \<and> (\<forall>p. r = Some p \<longrightarrow> bm_base s + 64 \<le> p)"
proof -
  have d: "d \<in> set (bm_delims s)" using assms(3) by (simp add: quotable_def)
  obtain di where di: "delim_index s d = Some di" using d by (rule delim_index_Some)
  define u where "u = ensure_all cpu s"
  have u: "bm_ok u" "same_setup s u" "bm_loaded u" "bm_base u = bm_base s" "covers u" "quotable u d" "open_ok u" "delim_index u d = Some di"
    using ensure_all_ok(1) [OF assms(1), of cpu] loaded_ensure_all [OF assms(1)] assms(2-4) di same_setup_moves [of s u]
    by (auto simp: u_def open_ok_def same_setup_def)
  have "64 \<le> wrapping_sub i (bm_base u)" using assms(7-9) by (simp add: wrapping_sub_def u(4) usize_max_def)
  note scan = scan_behind_block [OF u(5,6,7) this, of di]
  have step: "next_unquoted cpu i d s =
      (case advance_block u of None \<Rightarrow> Some (None, u\<lparr>bm_quote_pos := bm_base u + 64\<rparr>)
       | Some v \<Rightarrow> unquoted_loop cpu di (bm_base v) (v\<lparr>bm_quote_pos := bm_base v\<rparr>))"
    using assms(2,5-8) di scan by (simp add: next_unquoted_def unquoted_loop.simps [of cpu di _ s] Let_def flip: u_def)
  show ?thesis
  proof (cases "advance_block u")
    case None
    then show ?thesis by (simp add: step)
  next
    case (Some v)
    note a = advance_ok [OF u(1) Some]
    let ?v = "v\<lparr>bm_quote_pos := bm_base v\<rparr>"
    have v: "quotable v d" "delim_index v d = Some di" "open_ok v" "bm_buf v = bm_buf u"
      using a u(6-8) same_setup_moves [of u v] by (auto simp: open_ok_def same_setup_def)
    obtain r t where "unquoted_loop cpu di (bm_base v) ?v = Some (r, t)"
        "unquoted (bm_buf v) (bm_quotes v) d (bm_in_quote v) (bm_base v) (length (bm_buf v)) = (r, bm_in_quote t)"
      using unquoted_loop_ok [of ?v d di "bm_base v" cpu] a v by auto
    moreover have "bm_base v \<le> p" if "r = Some p" for p
      using calculation(2) that unquoted_hit_less by fastforce
    ultimately show ?thesis using a u(4) Some by (auto simp: step)
  qed
qed

text \<open>A cursor that stands behind the hit at 0 while the block at 64 is loaded.\<close>

definition stale_masks :: block_masks where
  "stale_masks = load_at 64 (the (bm_with_quotes (CHR ''<'' # CHR ''<'' # replicate 98 CHR ''x'') [CHR ''<'', CHR 0x22] [CHR 0x22])\<lparr>bm_quote_pos := 1\<rparr>)"

theorem stale_cursor_skips_witness:
  "bm_buf stale_masks ! 1 = CHR ''<'' \<and> (\<exists>r t. next_unquoted Avx2 1 CHR ''<'' stale_masks = Some (r, t) \<and> r \<noteq> Some 1)"
proof -
  let ?buf = "CHR ''<'' # CHR ''<'' # replicate 98 CHR ''x''"
  define b where "b = the (bm_with_quotes ?buf [CHR ''<'', CHR 0x22] [CHR 0x22])"
  have "bm_build ?buf [CHR ''<'', CHR 0x22] [CHR 0x22] = Some b"
    by (simp add: b_def bm_with_quotes_def bm_build_def MAX_DELIMS_def)
  from build_ok [OF this] have b: "bm_ok b" "bm_buf b = ?buf" "bm_delims b = [CHR ''<'', CHR 0x22]" "bm_quotes b = [CHR 0x22]" "bm_in_quote b = NUL"
    by (simp_all add: usize_max_def)
  have s: "stale_masks = load_at 64 (b\<lparr>bm_quote_pos := 1\<rparr>)" by (simp add: stale_masks_def b_def)
  have ok: "bm_ok stale_masks" unfolding s using load_at_ok [of "b\<lparr>bm_quote_pos := 1\<rparr>" 64] b(1) by simp
  have "bm_buf stale_masks = ?buf" "bm_delims stale_masks = [CHR ''<'', CHR 0x22]" "bm_quotes stale_masks = [CHR 0x22]"
    "bm_in_quote stale_masks = NUL" "bm_base stale_masks = 64" "bm_loaded stale_masks" "bm_quote_pos stale_masks = 1"
    using b by (simp_all add: s load_at_def)
  with stale_cursor_skips [OF ok, of "CHR ''<''" 1 Avx2] show ?thesis
    by (fastforce simp: quotable_def open_ok_def)
qed

end
