(* ===== verification/Budget.thy ===== *)
theory Budget
  imports Prelude
begin

text \<open>
  Memory budgets (\<open>MemoryBudget\<close> in \<open>bounded.rs\<close>), the limits derived from them and the account of
  live bytes (\<open>budget.rs\<close>).
\<close>

section \<open>Budgets and their shares\<close>

record memory_budget =
  budget_bytes :: nat
  is_strict :: bool

definition budget_new :: "nat \<Rightarrow> memory_budget" where
  "budget_new bytes = \<lparr>budget_bytes = bytes, is_strict = False\<rparr>"

definition with_strict :: "bool \<Rightarrow> memory_budget \<Rightarrow> memory_budget" where
  "with_strict strict b = b\<lparr>is_strict := strict\<rparr>"

definition budget_share :: "memory_budget \<Rightarrow> nat \<Rightarrow> memory_budget" where
  "budget_share b n = b\<lparr>budget_bytes := budget_bytes b div max n 1\<rparr>"

definition budget_check :: "memory_budget \<Rightarrow> nat \<Rightarrow> unit result" where
  "budget_check b used =
     (if is_strict b \<and> budget_bytes b < used then Inl (Memory_error used (budget_bytes b)) else Inr ())"

section \<open>The partition\<close>

record budget_partition =
  bp_budget :: nat
  batch_target :: nat
  max_chunk_bytes :: nat
  bp_in_flight :: nat
  reorder_limit :: nat

definition partition_serial :: "memory_budget \<Rightarrow> budget_partition" where
  "partition_serial mb =
     (let b = budget_bytes mb
      in \<lparr>bp_budget = b, batch_target = max (b div 8) 1, max_chunk_bytes = max (b div 16) 1, bp_in_flight = 2,
          reorder_limit = 0\<rparr>)"

definition partition_parallel :: "memory_budget \<Rightarrow> nat \<Rightarrow> budget_partition" where
  "partition_parallel mb threads =
     (let b = budget_bytes mb; n = max threads 1; chunk = max (b div (8 * n)) 1
      in \<lparr>bp_budget = b, batch_target = chunk, max_chunk_bytes = chunk, bp_in_flight = 2 * n,
          reorder_limit = max (b div 2) 1\<rparr>)"

section \<open>The ledger\<close>

definition STRUCTURAL_ALLOWANCE :: nat where "STRUCTURAL_ALLOWANCE = 262144"

record ledger =
  lg_budget :: nat
  lg_input :: nat
  lg_builders :: nat
  lg_in_flight :: nat
  lg_reorder :: nat
  peak :: nat

definition ledger_new :: "memory_budget \<Rightarrow> ledger" where
  "ledger_new b = \<lparr>lg_budget = budget_bytes b, lg_input = 0, lg_builders = 0, lg_in_flight = 0, lg_reorder = 0, peak = 0\<rparr>"

definition live :: "ledger \<Rightarrow> nat" where
  "live l = lg_input l + lg_builders l + lg_in_flight l + lg_reorder l"

definition note_peak :: "ledger \<Rightarrow> ledger" where
  "note_peak l = l\<lparr>peak := max (peak l) (live l)\<rparr>"

definition set_input :: "nat \<Rightarrow> ledger \<Rightarrow> ledger" where
  "set_input n l = note_peak (l\<lparr>lg_input := n\<rparr>)"

definition set_builders :: "nat \<Rightarrow> ledger \<Rightarrow> ledger" where
  "set_builders n l = note_peak (l\<lparr>lg_builders := n\<rparr>)"

definition charge_in_flight :: "nat \<Rightarrow> ledger \<Rightarrow> ledger" where
  "charge_in_flight n l = note_peak (l\<lparr>lg_in_flight := lg_in_flight l + n\<rparr>)"

definition release_in_flight :: "nat \<Rightarrow> ledger \<Rightarrow> ledger" where
  "release_in_flight n l = l\<lparr>lg_in_flight := lg_in_flight l - n\<rparr>"

definition charge_reorder :: "nat \<Rightarrow> ledger \<Rightarrow> ledger" where
  "charge_reorder n l = note_peak (l\<lparr>lg_reorder := lg_reorder l + n\<rparr>)"

definition release_reorder :: "nat \<Rightarrow> ledger \<Rightarrow> ledger" where
  "release_reorder n l = l\<lparr>lg_reorder := lg_reorder l - n\<rparr>"

definition ledger_check :: "nat \<Rightarrow> ledger \<Rightarrow> unit result" where
  "ledger_check allowance l =
     (let limit = sat_add (lg_budget l) allowance
      in if limit < live l then Inl (Memory_error (live l) limit) else Inr ())"

text \<open>The account as a machine: one constructor for each operation that changes it.\<close>

datatype charge =
    Set_input nat | Set_builders nat | Charge_in_flight nat | Release_in_flight nat | Charge_reorder nat | Release_reorder nat

fun apply_charge :: "charge \<Rightarrow> ledger \<Rightarrow> ledger" where
  "apply_charge (Set_input n) = set_input n"
| "apply_charge (Set_builders n) = set_builders n"
| "apply_charge (Charge_in_flight n) = charge_in_flight n"
| "apply_charge (Release_in_flight n) = release_in_flight n"
| "apply_charge (Charge_reorder n) = charge_reorder n"
| "apply_charge (Release_reorder n) = release_reorder n"

text \<open>The live bytes after each operation.\<close>

fun live_history :: "charge list \<Rightarrow> ledger \<Rightarrow> nat list" where
  "live_history [] l = []"
| "live_history (c # cs) l = live (apply_charge c l) # live_history cs (apply_charge c l)"

lemmas ledger_defs = note_peak_def set_input_def set_builders_def charge_in_flight_def release_in_flight_def
  charge_reorder_def release_reorder_def live_def

lemma apply_charge_peak:
  assumes "live l \<le> peak l"
  shows "peak (apply_charge c l) = max (peak l) (live (apply_charge c l)) \<and> lg_budget (apply_charge c l) = lg_budget l"
  using assms by (cases c) (auto simp: ledger_defs)

section \<open>Properties\<close>

lemma share_sum: "0 < n \<Longrightarrow> n * budget_bytes (budget_share b n) \<le> budget_bytes b"
  by (simp add: budget_share_def max_def)

lemma share_check_all:
  assumes "is_strict b" "\<forall>u \<in> set us. budget_check (budget_share b n) u = Inr ()" "length us \<le> n"
  shows "sum_list us \<le> budget_bytes b"
proof (cases "us = []")
  case False
  then have n: "0 < n" using assms(3) by (cases n) auto
  have "\<forall>u \<in> set us. u \<le> budget_bytes (budget_share b n)"
    using assms(1,2) by (auto simp: budget_check_def budget_share_def split: if_splits)
  then have "sum_list us \<le> length us * budget_bytes (budget_share b n)"
    by (induction us) auto
  also have "\<dots> \<le> n * budget_bytes (budget_share b n)" using assms(3) by (rule mult_le_mono1)
  finally show ?thesis using share_sum [OF n, of b] by linarith
qed simp

text \<open>
  The documented envelope: with a budget of at least 16 bytes the components of serial streaming
  (one chunk, its builder at twice the chunk, the accumulator at twice the batch target and the
  batches in flight) take at most 11/16 of it; with at least 8 bytes for each thread the chunk
  builders, finished batches and the reorder buffer of parallel streaming stay within it.
\<close>

theorem partition_fits_budget:
  "(16 \<le> budget_bytes b \<longrightarrow>
     (let p = partition_serial b
      in 16 * (max_chunk_bytes p + 2 * max_chunk_bytes p + 2 * batch_target p + bp_in_flight p * batch_target p) \<le> 11 * budget_bytes b)) \<and>
   (8 * max n 1 \<le> budget_bytes b \<longrightarrow>
     (let p = partition_parallel b n
      in max n 1 * (2 * max_chunk_bytes p) + bp_in_flight p * batch_target p + reorder_limit p \<le> budget_bytes b))"
proof -
  have "max n 1 * (2 * max (x div (8 * max n 1)) 1) + 2 * max n 1 * max (x div (8 * max n 1)) 1 + max (x div 2) 1 \<le> x"
    if x: "8 * max n 1 \<le> x" for x
  proof -
    let ?k = "max n 1"
    have k: "0 < 8 * ?k" "8 \<le> x" using x by auto
    then have one: "max (x div (8 * ?k)) 1 = x div (8 * ?k)" using x div_le_mono [OF x, of "8 * ?k"] by (simp add: max_def)
    have "8 * (?k * (x div (8 * ?k))) \<le> x" using times_div_less_eq_dividend [of "8 * ?k" x] by (simp only: mult.assoc)
    moreover have half: "max (x div 2) 1 = x div 2" using k(2) by auto
    moreover have "2 * (x div 2) \<le> x" by simp
    moreover have "?k * (2 * (x div (8 * ?k))) + 2 * ?k * (x div (8 * ?k)) = 4 * (?k * (x div (8 * ?k)))" by simp
    ultimately show ?thesis unfolding one half by linarith
  qed
  then show ?thesis by (auto simp: partition_serial_def partition_parallel_def Let_def max_def)
qed

theorem partition_fits_budget_witness:
  "(let p = partition_serial (budget_new 1600) in 16 * (3 * max_chunk_bytes p + 4 * batch_target p) \<le> 17600)"
  using partition_fits_budget [of "budget_new 1600" 1] by (simp add: budget_new_def partition_serial_def Let_def)

lemma peak_history:
  assumes "live l \<le> peak l"
  shows "peak (fold apply_charge cs l) = Max (set (peak l # live_history cs l)) \<and> live (fold apply_charge cs l) \<le> peak (fold apply_charge cs l)"
  using assms
proof (induction cs arbitrary: l)
  case (Cons c cs)
  note s = apply_charge_peak [OF Cons.prems, of c]
  have "live (apply_charge c l) \<le> peak (apply_charge c l)" using s by simp
  from Cons.IH [OF this] s show ?case by (cases "live_history cs (apply_charge c l) = []") (simp_all add: max.assoc)
qed simp

text \<open>
  Whatever is charged and released, the peak of a new ledger is the largest number of live bytes
  there has been after any operation, so a run's reported peak is at least its live bytes; and
  the check fails exactly when the live bytes exceed budget and allowance.
\<close>

theorem peak_is_maximum:
  "peak (fold apply_charge cs (ledger_new b)) = Max (set (0 # live_history cs (ledger_new b))) \<and>
   live (fold apply_charge cs (ledger_new b)) \<le> peak (fold apply_charge cs (ledger_new b)) \<and>
   (ledger_check allowance (fold apply_charge cs (ledger_new b)) = Inr () \<longleftrightarrow>
      live (fold apply_charge cs (ledger_new b)) \<le> sat_add (lg_budget (fold apply_charge cs (ledger_new b))) allowance)"
  using peak_history [of "ledger_new b" cs] by (auto simp: ledger_new_def live_def ledger_check_def Let_def)

end
