(* ===== verification/Merge_Tables.thy ===== *)
theory Merge_Tables
  imports Table_Properties
begin

text \<open>
  Merging chunk builders (\<open>merge.rs\<close>): \<open>extend\<close> appends the rows of one builder to another, column by
  column, and \<open>engines_to_record_batches\<close> exports the chunks with one schema without merging them.
\<close>

section \<open>Appending a builder\<close>

text \<open>A column of the other builder that this one does not have: nulls for the rows so far.\<close>

definition adopt_column :: "env \<Rightarrow> table_builder \<Rightarrow> string \<Rightarrow> table_builder \<Rightarrow> table_builder" where
  "adopt_column E other name t =
     (if map_of (field_index t) name \<noteq> None then t
      else let b = (cb_push (ext E) None ^^ row_count t) (cb_with_capacity (column_type (plan other) name));
               t1 = add_column name b t;
               t2 = (if length (row_dirty t1) < mask_words (length (columns t1))
                     then t1\<lparr>row_dirty := row_dirty t1 @ [0]\<rparr> else t1)
           in t2\<lparr>column_order := insert_at (schema_insert_index name t2) name (column_order t2)\<rparr>)"

text \<open>
  One column of the other builder appended to this one's. The first component is the column
  left behind: a failed second promotion comes after the first has been done.
\<close>

definition append_column :: "column_builder \<Rightarrow> column_builder \<Rightarrow> (column_builder \<times> unit result) option" where
  "append_column b ob =
     (if variant_key b = variant_key ob
      then (case cb_extend_owned b ob of None \<Rightarrow> None
            | Some (Inl e) \<Rightarrow> Some (b, Inl e) | Some (Inr c) \<Rightarrow> Some (c, Inr ()))
      else case unify_variants (variant_key b) (variant_key ob) of
        None \<Rightarrow> Some (b, Inl (Merge_error ''conflicting types across chunks''))
      | Some target \<Rightarrow>
         (case cb_promote target b of Inl e \<Rightarrow> Some (b, Inl e)
          | Inr b1 \<Rightarrow>
             (case cb_promote target ob of Inl e \<Rightarrow> Some (b1, Inl e)
              | Inr ob1 \<Rightarrow>
                 (case cb_extend_owned b1 ob1 of None \<Rightarrow> None
                  | Some (Inl e) \<Rightarrow> Some (b1, Inl e) | Some (Inr c) \<Rightarrow> Some (c, Inr ())))))"

fun append_columns :: "env \<Rightarrow> nat \<Rightarrow> string list \<Rightarrow> table_builder \<Rightarrow> table_builder \<Rightarrow> (unit result \<times> table_builder) option" where
  "append_columns E other_rows [] other t = Some (Inr (), t)"
| "append_columns E other_rows (name # names) other t =
     (case map_of (field_index t) name of
        None \<Rightarrow> append_columns E other_rows names other t
      | Some i \<Rightarrow>
         do {
           b \<leftarrow> idx (columns t) i;
           taken \<leftarrow> take_column name other;
           (case taken of
              (None, other') \<Rightarrow>
                append_columns E other_rows names other' (t\<lparr>columns := (columns t)[i := (cb_push (ext E) None ^^ other_rows) b]\<rparr>)
            | (Some ob, other') \<Rightarrow>
                (case append_column b ob of
                   None \<Rightarrow> None
                 | Some (c, Inl e) \<Rightarrow> Some (Inl e, t\<lparr>columns := (columns t)[i := c]\<rparr>)
                 | Some (c, Inr _) \<Rightarrow>
                     append_columns E other_rows names other' (t\<lparr>columns := (columns t)[i := c]\<rparr>)))
         })"

definition tb_extend :: "env \<Rightarrow> table_builder \<Rightarrow> table_builder \<Rightarrow> (unit result \<times> table_builder) option" where
  "tb_extend E other t =
     (let t = normalize t; other = normalize other;
          t = t\<lparr>strict_error := (if strict_error t = None then strict_error other else strict_error t),
                unknown_error := (if unknown_error t = None then unknown_error other else unknown_error t),
                rows_accepted := rows_accepted t + rows_accepted other,
                rows_rejected := rows_rejected t + rows_rejected other\<rparr>;
          rows = row_count t;
          t = fold (adopt_column E other) (column_order other) t
      in case append_columns E (row_count other) (column_order t) other t of
           None \<Rightarrow> None
         | Some (Inl e, t) \<Rightarrow> Some (Inl e, t)
         | Some (Inr _, t) \<Rightarrow> Some (Inr (), t\<lparr>row_count := rows + row_count other\<rparr>))"

section \<open>Taking columns out of the other builder\<close>

text \<open>What a name reads, and the index invariant that \<open>swap_remove\<close> needs and keeps.\<close>

definition column_named :: "table_builder \<Rightarrow> string \<Rightarrow> column_builder option" where
  "column_named t n = map_option (\<lambda>i. columns t ! i) (map_of (field_index t) n)"

definition slots_sound :: "table_builder \<Rightarrow> bool" where
  "slots_sound t \<longleftrightarrow> (\<forall>n i. map_of (field_index t) n = Some i \<longrightarrow> i < length (columns t)) \<and>
     (\<forall>m n i. map_of (field_index t) m = Some i \<longrightarrow> map_of (field_index t) n = Some i \<longrightarrow> m = n)"

lemma find_entry:
  assumes "distinct (map fst al)"
  shows "(case List.find (\<lambda>(k, v). v = j) al of None \<Rightarrow> \<forall>n. map_of al n \<noteq> Some j | Some (k, v) \<Rightarrow> v = j \<and> map_of al k = Some j)"
  using assms
proof (induction al)
  case (Cons kv al)
  obtain k v where kv: "kv = (k, v)" by fastforce
  show ?case
  proof (cases "v = j")
    case False
    with Cons have "case List.find (\<lambda>(k, v). v = j) al of None \<Rightarrow> \<forall>n. map_of al n \<noteq> Some j | Some (k, v) \<Rightarrow> v = j \<and> map_of al k = Some j"
      by (simp add: kv)
    moreover have "n \<noteq> k" if "map_of al n = Some j" for n using Cons.prems map_of_SomeD [OF that] by (force simp: kv)
    ultimately show ?thesis using False by (fastforce simp: kv split: option.splits)
  qed (simp add: kv)
qed simp

lemma find_slot:
  "case List.find (\<lambda>(k, v). v = j) (AList.clearjunk al) of None \<Rightarrow> \<forall>n. map_of al n \<noteq> Some j
   | Some (k, v) \<Rightarrow> v = j \<and> map_of al k = Some j"
  using find_entry [OF distinct_clearjunk, of al j] unfolding map_of_clearjunk .

lemma take_column_ok:
  assumes "slots_sound t"
  shows "\<exists>u. take_column n t = Some (column_named t n, u) \<and> slots_sound u \<and> column_named u = (column_named t)(n := None)"
proof (cases "map_of (field_index t) n")
  case None
  then show ?thesis using assms by (auto simp: take_column_def column_named_def fun_eq_iff)
next
  case (Some i)
  have i: "i < length (columns t)" and inj: "\<And>m. map_of (field_index t) m = Some i \<Longrightarrow> m = n"
    using assms Some unfolding slots_sound_def by blast+
  let ?del = "AList.delete n (field_index t)" and ?last = "length (columns t) - 1"
  let ?t1 = "t\<lparr>row_dirty := mask_clear (mask_resize (mask_words (length (columns t))) (row_dirty t))\<rparr>"
  have del: "map_of ?del = (map_of (field_index t))(n := None)" by (rule AList.delete_conv')
  have bound: "j < length (columns t) \<and> j \<noteq> i" if "map_of ?del m = Some j" for m j
    using that assms inj [of m] unfolding del slots_sound_def by (auto split: if_splits)
  have uniq: "m = m'" if "map_of ?del m = Some j" "map_of ?del m' = Some j" for m m' j
    using that assms unfolding del slots_sound_def by (auto split: if_splits)
  have nonempty: "columns t \<noteq> []" using i by auto
  show ?thesis
  proof (cases "i = ?last")
    case True
    let ?u = "?t1\<lparr>columns := butlast (columns t), field_index := ?del\<rparr>"
    have lt: "j < ?last" if "map_of ?del m = Some j" for m j using bound [OF that] True by linarith
    have "slots_sound ?u" unfolding slots_sound_def
    proof (intro conjI allI impI)
      fix m j assume "map_of (field_index ?u) m = Some j"
      then show "j < length (columns ?u)" using lt [of m j] by simp
    next
      fix m m' j assume "map_of (field_index ?u) m = Some j" "map_of (field_index ?u) m' = Some j"
      then show "m = m'" by (intro uniq) simp_all
    qed
    moreover have "column_named ?u = (column_named t)(n := None)"
    proof
      fix m
      show "column_named ?u m = ((column_named t)(n := None)) m"
        using lt [of m] by (cases "map_of ?del m") (auto simp: column_named_def nth_butlast del split: if_splits)
    qed
    ultimately show ?thesis using Some i True by (auto simp: take_column_def idx_def column_named_def Let_def)
  next
    case False
    then have il: "i < ?last" using i by linarith
    let ?cols = "butlast ((columns t)[i := columns t ! ?last])"
    define index where "index = (case List.find (\<lambda>(k, v). v = ?last) (AList.clearjunk ?del) of Some (k, _) \<Rightarrow> AList.update k i ?del | None \<Rightarrow> ?del)"
    let ?u = "?t1\<lparr>columns := ?cols, field_index := index\<rparr>"
    have slot: "map_of index m = map_option (\<lambda>j. if j = ?last then i else j) (map_of ?del m)" for m
    proof (cases "List.find (\<lambda>(k, v). v = ?last) (AList.clearjunk ?del)")
      case None
      then have "map_of ?del m \<noteq> Some ?last" using find_slot [where j = ?last and al = ?del] by simp
      moreover have "index = ?del" unfolding index_def None by simp
      ultimately show ?thesis by (cases "map_of ?del m") auto
    next
      case (Some kv)
      obtain k v where kv: "kv = (k, v)" by fastforce
      have k: "map_of ?del k = Some ?last" using find_slot [where j = ?last and al = ?del] Some kv by simp
      have "map_of index m = ((map_of ?del)(k \<mapsto> i)) m" using Some kv by (simp add: index_def update_conv')
      moreover have "j \<noteq> ?last" if "m \<noteq> k" "map_of ?del m = Some j" for j using uniq [OF k, of m] that by auto
      ultimately show ?thesis using k by (cases "m = k"; cases "map_of ?del m") auto
    qed
    have "slots_sound ?u" unfolding slots_sound_def
    proof (intro conjI allI impI)
      fix m j assume "map_of (field_index ?u) m = Some j"
      then show "j < length (columns ?u)" using bound [of m] il by (auto simp: slot split: if_splits)
    next
      fix m m' j assume "map_of (field_index ?u) m = Some j" "map_of (field_index ?u) m' = Some j"
      then show "m = m'" using bound [of m] bound [of m'] uniq [of m _ m'] by (auto simp: slot split: if_splits)
    qed
    moreover have "column_named ?u = (column_named t)(n := None)"
    proof
      fix m
      show "column_named ?u m = ((column_named t)(n := None)) m"
      proof (cases "map_of ?del m")
        case None
        then show ?thesis by (auto simp: column_named_def slot del split: if_splits)
      next
        case (Some j)
        then have m: "m \<noteq> n" "map_of (field_index t) m = Some j" by (auto simp: del split: if_splits)
        have "?cols ! (if j = ?last then i else j) = columns t ! j"
          using bound [OF Some] il by (auto simp: nth_butlast)
        with m Some show ?thesis by (simp add: column_named_def slot)
      qed
    qed
    ultimately show ?thesis using Some i False by (auto simp: take_column_def idx_def column_named_def Let_def index_def)
  qed
qed

section \<open>Adopting the other builder's columns\<close>

definition clean_rows :: "table_builder \<Rightarrow> bool" where
  "clean_rows t \<longleftrightarrow> tb_wf t \<and> (\<forall>i. \<not> mask_test i (row_dirty t))"

lemma adopt_column_ok:
  assumes t: "clean_rows t" and p: "plan other = plan t"
  shows "clean_rows (adopt_column E other name t) \<and> tb_rows (adopt_column E other name t) = tb_rows t \<and>
    plan (adopt_column E other name t) = plan t \<and> row_count (adopt_column E other name t) = row_count t \<and>
    set (column_order (adopt_column E other name t)) = insert name (set (column_order t))"
proof (cases "map_of (field_index t) name")
  case (Some i)
  then have "name \<in> set (column_order t)" using t by (auto simp: clean_rows_def tb_wf_def index_ok_def)
  then show ?thesis using Some t by (auto simp: adopt_column_def)
next
  case None
  define b where "b = backfilled E (row_count t) (column_type (plan t) name)"
  define m where "m = (if length (row_dirty t) < mask_words (Suc (length (columns t))) then row_dirty t @ [0] else row_dirty t)"
  have wf: "tb_wf t" using t by (simp add: clean_rows_def)
  have "mask_words (length (columns t)) \<le> length (row_dirty t)" using wf by (simp add: tb_wf_def aligned_def)
  then have m: "mask_words (Suc (length (columns t))) \<le> length m" "mask_test i m = mask_test i (row_dirty t)" for i
    by (auto simp: m_def mask_words_def div_ceil_def mask_test_bit nth_append split: if_splits)
  obtain pos where a: "adopt_column E other name t = with_column name pos b m t"
  proof (cases "length (row_dirty t) < mask_words (Suc (length (columns t)))")
    case True
    then show ?thesis using None that
      by (simp add: adopt_column_def with_column_def add_column_def b_def m_def backfilled_def p Let_def)
  next
    case False
    then show ?thesis using None that
      by (simp add: adopt_column_def with_column_def add_column_def b_def m_def backfilled_def p Let_def)
  qed
  note w = with_column_ok [OF wf None b_def m(1) m(2), of pos]
  have "clean_rows (with_column name pos b m t)"
    using w m(2) t by (simp add: clean_rows_def with_column_def)
  then show ?thesis using w by (simp add: a with_column_def add_column_def set_insert_at)
qed

lemma adopt_columns_ok:
  assumes "clean_rows t" "plan other = plan t"
  shows "clean_rows (fold (adopt_column E other) names t) \<and> tb_rows (fold (adopt_column E other) names t) = tb_rows t \<and>
    plan (fold (adopt_column E other) names t) = plan t \<and> row_count (fold (adopt_column E other) names t) = row_count t \<and>
    set (column_order (fold (adopt_column E other) names t)) = set names \<union> set (column_order t)"
  using assms
proof (induction names arbitrary: t)
  case (Cons n names)
  then show ?case using adopt_column_ok [OF Cons.prems, of E n] Cons.IH [of "adopt_column E other n t"] by auto
qed simp

section \<open>Appending column by column\<close>

lemma nulls_ok:
  assumes "cb_ok b"
  shows "cb_ok ((cb_push X None ^^ n) b) \<and> cb_rows ((cb_push X None ^^ n) b) = cb_rows b @ replicate n None \<and>
    cb_kind ((cb_push X None ^^ n) b) = cb_kind b"
proof (induction n)
  case (Suc n)
  then show ?case using cb_push_None [of "(cb_push X None ^^ n) b" X] cb_kind_pushes [where X = X and n = "Suc n" and c = b]
    by (auto simp: replicate_append_same)
qed (use assms in simp)

text \<open>What the other builder holds for a name, as rows.\<close>

definition rows_named :: "table_builder \<Rightarrow> nat \<Rightarrow> string \<Rightarrow> typed_value option list" where
  "rows_named other n name = (case column_named other name of None \<Rightarrow> replicate n None | Some ob \<Rightarrow> cb_rows ob)"

text \<open>The column pairs that are put together fit in the 32-bit offsets of one column.\<close>

definition merge_room :: "column_builder \<Rightarrow> column_builder \<Rightarrow> bool" where
  "merge_room b ob \<longleftrightarrow> cb_arena b + cb_arena ob < 2 ^ 31 \<and> cb_entries b + cb_entries ob + 2 < 2 ^ 31"

lemma append_column_ok:
  assumes "cb_ok b" "cb_ok ob" "cb_kind b = cb_kind ob" "merge_room b ob"
  shows "\<exists>c. append_column b ob = Some (c, Inr ()) \<and> cb_ok c \<and> cb_kind c = cb_kind b \<and> cb_rows c = cb_rows b @ cb_rows ob"
proof -
  have key: "variant_key b = variant_key ob" using assms(3) by (cases b; cases ob) (auto split: time_unit.splits)
  have fit: "merge_fits b ob" using merge_fits_sizes [OF assms(1,2)] assms(4) by (simp add: merge_room_def)
  have same: "same_variant (cb_kind b) (cb_kind ob)" using assms(3) by (cases "cb_kind ob") simp_all
  obtain c where c: "cb_extend_owned b ob = Some (Inr c)" "cb_ok c" "cb_rows c = cb_rows b @ cb_rows ob"
    using cb_extend_ok [OF assms(1,2) same fit] by blast
  have "cb_kind c = cb_kind b" using c(1) assms(3)
    by (cases b; cases ob) (auto simp: type_mismatch_def split: if_splits option.splits)
  with c key show ?thesis by (simp add: append_column_def)
qed

lemma index_surjective:
  assumes "index_ok t" "i < length (columns t)"
  obtains n where "map_of (field_index t) n = Some i" "n \<in> set (column_order t)"
proof -
  let ?f = "\<lambda>n. the (map_of (field_index t) n)"
  have dom: "map_of (field_index t) n = Some (?f n)" if "n \<in> set (column_order t)" for n
    using assms(1) that unfolding index_ok_def by fastforce
  have "inj_on ?f (set (column_order t))"
  proof (rule inj_onI)
    fix m n assume "m \<in> set (column_order t)" "n \<in> set (column_order t)" "?f m = ?f n"
    then show "m = n" using dom [of m] dom [of n] assms(1) unfolding index_ok_def by metis
  qed
  then have "card (?f ` set (column_order t)) = card (set (column_order t))" by (rule card_image)
  also have "\<dots> = length (columns t)" using assms(1) by (simp add: index_ok_def distinct_card)
  finally have card: "card (?f ` set (column_order t)) = card {..<length (columns t)}" by simp
  have "?f ` set (column_order t) \<subseteq> {..<length (columns t)}"
    using dom assms(1) unfolding index_ok_def by fastforce
  then have "?f ` set (column_order t) = {..<length (columns t)}" using card by (intro card_subset_eq) auto
  then have "i \<in> ?f ` set (column_order t)" using assms(2) by simp
  then obtain n where "n \<in> set (column_order t)" "?f n = i" by auto
  then show ?thesis using that dom by metis
qed

lemma append_columns_ok:
  assumes "slots_sound other" "distinct names" "index_ok t"
    and "\<And>n i. n \<in> set names \<Longrightarrow> map_of (field_index t) n = Some i \<Longrightarrow> cb_ok (columns t ! i)"
    and "\<And>n i ob. n \<in> set names \<Longrightarrow> map_of (field_index t) n = Some i \<Longrightarrow> column_named other n = Some ob \<Longrightarrow>
      cb_ok ob \<and> cb_kind (columns t ! i) = cb_kind ob \<and> merge_room (columns t ! i) ob"
  shows "\<exists>cs. append_columns E k names other t = Some (Inr (), t\<lparr>columns := cs\<rparr>) \<and> length cs = length (columns t) \<and>
    (\<forall>n i. map_of (field_index t) n = Some i \<longrightarrow>
       (if n \<in> set names then cb_ok (cs ! i) \<and> cb_kind (cs ! i) = cb_kind (columns t ! i) \<and>
          cb_rows (cs ! i) = cb_rows (columns t ! i) @ rows_named other k n
        else cs ! i = columns t ! i))"
  using assms
proof (induction names arbitrary: other t)
  case Nil
  then show ?case by (intro exI [of _ "columns t"]) simp
next
  case (Cons name names)
  show ?case
  proof (cases "map_of (field_index t) name")
    case None
    have "\<exists>cs. append_columns E k names other t = Some (Inr (), t\<lparr>columns := cs\<rparr>) \<and> length cs = length (columns t) \<and>
      (\<forall>n i. map_of (field_index t) n = Some i \<longrightarrow>
       (if n \<in> set names then cb_ok (cs ! i) \<and> cb_kind (cs ! i) = cb_kind (columns t ! i) \<and>
          cb_rows (cs ! i) = cb_rows (columns t ! i) @ rows_named other k n
        else cs ! i = columns t ! i))"
    proof (rule Cons.IH [OF Cons.prems(1) _ Cons.prems(3)])
      show "distinct names" using Cons.prems(2) by simp
    qed (use Cons.prems(4,5) in \<open>blast intro: list.set_intros(2)\<close>)+
    with None show ?thesis by (auto split: if_splits)
  next
    case (Some i)
    have i: "i < length (columns t)" "\<And>n. map_of (field_index t) n = Some i \<Longrightarrow> n = name"
      using Cons.prems(3) Some unfolding index_ok_def by blast+
    obtain other' where o: "take_column name other = Some (column_named other name, other')" "slots_sound other'"
        "column_named other' = (column_named other)(name := None)"
      using take_column_ok [OF Cons.prems(1), of name] by blast
    have "\<exists>c. cb_ok c \<and> cb_kind c = cb_kind (columns t ! i) \<and> cb_rows c = cb_rows (columns t ! i) @ rows_named other k name \<and>
        append_columns E k (name # names) other t = append_columns E k names other' (t\<lparr>columns := (columns t)[i := c]\<rparr>)"
    proof (cases "column_named other name")
      case None
      have "cb_ok (columns t ! i)" by (rule Cons.prems(4) [OF list.set_intros(1) Some])
      then show ?thesis using nulls_ok [of "columns t ! i" k "ext E"] None Some i(1) o(1)
        by (intro exI [of _ "(cb_push (ext E) None ^^ k) (columns t ! i)"]) (simp add: idx_def rows_named_def)
    next
      case (Some ob)
      obtain c where "append_column (columns t ! i) ob = Some (c, Inr ())" "cb_ok c" "cb_kind c = cb_kind (columns t ! i)"
          "cb_rows c = cb_rows (columns t ! i) @ cb_rows ob"
        using append_column_ok [of "columns t ! i" ob] Cons.prems(4) [OF list.set_intros(1) \<open>map_of (field_index t) name = Some i\<close>]
          Cons.prems(5) [OF list.set_intros(1) \<open>map_of (field_index t) name = Some i\<close> Some] by blast
      then show ?thesis using Some \<open>map_of (field_index t) name = Some i\<close> i(1) o(1)
        by (intro exI [of _ c]) (simp add: idx_def rows_named_def)
    qed
    then obtain c where c: "cb_ok c" "cb_kind c = cb_kind (columns t ! i)"
        "cb_rows c = cb_rows (columns t ! i) @ rows_named other k name"
        "append_columns E k (name # names) other t = append_columns E k names other' (t\<lparr>columns := (columns t)[i := c]\<rparr>)" by blast
    let ?t = "t\<lparr>columns := (columns t)[i := c]\<rparr>"
    have "name \<notin> set names" using Cons.prems(2) by simp
    then have same: "(columns t)[i := c] ! j = columns t ! j" if "n \<in> set names" "map_of (field_index t) n = Some j" for n j
      using that i(2) by (cases "j = i") auto
    have rows: "rows_named other' k n = rows_named other k n" if "n \<in> set names" for n
      using that \<open>name \<notin> set names\<close> by (auto simp: rows_named_def o(3))
    have "\<exists>cs. append_columns E k names other' ?t = Some (Inr (), ?t\<lparr>columns := cs\<rparr>) \<and> length cs = length (columns ?t) \<and>
      (\<forall>n i. map_of (field_index ?t) n = Some i \<longrightarrow>
       (if n \<in> set names then cb_ok (cs ! i) \<and> cb_kind (cs ! i) = cb_kind (columns ?t ! i) \<and>
          cb_rows (cs ! i) = cb_rows (columns ?t ! i) @ rows_named other' k n
        else cs ! i = columns ?t ! i))"
    proof (rule Cons.IH [OF o(2)])
      show "distinct names" "index_ok ?t" using Cons.prems(2,3) by (simp_all add: index_ok_def)
      show "cb_ok (columns ?t ! j)" if "n \<in> set names" "map_of (field_index ?t) n = Some j" for n j
        using that same [of n j] Cons.prems(4) [of n j] by simp
      show "cb_ok ob \<and> cb_kind (columns ?t ! j) = cb_kind ob \<and> merge_room (columns ?t ! j) ob"
        if "n \<in> set names" "map_of (field_index ?t) n = Some j" "column_named other' n = Some ob" for n j ob
        using that same [of n j] Cons.prems(5) [of n j ob] by (auto simp: o(3) split: if_splits)
    qed
    then obtain cs where cs: "append_columns E k names other' ?t = Some (Inr (), t\<lparr>columns := cs\<rparr>)" "length cs = length (columns t)"
      "\<And>n j. map_of (field_index t) n = Some j \<Longrightarrow>
       (if n \<in> set names then cb_ok (cs ! j) \<and> cb_kind (cs ! j) = cb_kind ((columns t)[i := c] ! j) \<and>
          cb_rows (cs ! j) = cb_rows ((columns t)[i := c] ! j) @ rows_named other' k n
        else cs ! j = (columns t)[i := c] ! j)" by auto
    have "if n \<in> set (name # names) then cb_ok (cs ! j) \<and> cb_kind (cs ! j) = cb_kind (columns t ! j) \<and>
          cb_rows (cs ! j) = cb_rows (columns t ! j) @ rows_named other k n
        else cs ! j = columns t ! j" if n: "map_of (field_index t) n = Some j" for n j
    proof (cases "n = name")
      case True
      then have "j = i" using n Some by simp
      then show ?thesis using True cs(3) [OF n] \<open>name \<notin> set names\<close> c(1-3) i(1) by simp
    next
      case False
      then have "j \<noteq> i" using n i(2) by auto
      then show ?thesis using False cs(3) [OF n] rows [of n] by (auto split: if_splits)
    qed
    moreover have "append_columns E k (name # names) other t = Some (Inr (), t\<lparr>columns := cs\<rparr>)"
      using cs(1) by (simp only: c(4))
    ultimately show ?thesis using cs(2) by blast
  qed
qed

section \<open>The merged table\<close>

text \<open>Two builders have room: under every name of the other, its column fits behind this one's.\<close>

definition named_or_nulls :: "env \<Rightarrow> table_builder \<Rightarrow> string \<Rightarrow> column_builder" where
  "named_or_nulls E t n = (case column_named t n of Some b \<Rightarrow> b | None \<Rightarrow> backfilled E (row_count t) (column_type (plan t) n))"

definition merge_rooms :: "env \<Rightarrow> table_builder \<Rightarrow> table_builder \<Rightarrow> bool" where
  "merge_rooms E t other \<longleftrightarrow>
     (\<forall>n \<in> set (column_order other).
        case column_named (normalize other) n of None \<Rightarrow> True | Some ob \<Rightarrow> merge_room (named_or_nulls E (normalize t) n) ob)"

lemma index_slots: "index_ok t \<Longrightarrow> slots_sound t"
  unfolding index_ok_def slots_sound_def by blast

lemma column_named_Some:
  assumes "tb_wf t" "column_named t n = Some b"
  shows "cb_ok b" "cb_kind b = column_type (plan t) n" "b \<in> set (columns t)" "r < cb_len b \<Longrightarrow> row_at t r n = cb_rows b ! r"
proof -
  obtain i where i: "map_of (field_index t) n = Some i" "columns t ! i = b" "i < length (columns t)"
    using assms by (auto simp: column_named_def tb_wf_def index_ok_def)
  show b: "b \<in> set (columns t)" using i by auto
  show "cb_ok b" "cb_kind b = column_type (plan t) n" using assms(1) b i by (auto simp: tb_wf_def kinds_ok_def)
  then show "row_at t r n = cb_rows b ! r" if "r < cb_len b" using i that by (simp add: row_at_def get_typed_value_rows)
qed

lemma adopted_column:
  assumes t: "clean_rows t" and p: "plan other = plan t"
  shows "column_named t n = Some b \<Longrightarrow> column_named (fold (adopt_column E other) names t) n = Some b"
    and "column_named t n = None \<Longrightarrow> column_named (fold (adopt_column E other) names t) n = Some b \<Longrightarrow>
      b = backfilled E (row_count t) (column_type (plan t) n)"
proof -
  have step: "column_named (adopt_column E other m t) n =
      (case column_named t n of Some b \<Rightarrow> Some b
       | None \<Rightarrow> if n = m then Some (backfilled E (row_count t) (column_type (plan t) n)) else None)"
    if "clean_rows t" "plan other = plan t" for m t
  proof -
    have ix: "i < length (columns t)" if "map_of (field_index t) k = Some i" for k i
      using that \<open>clean_rows t\<close> by (auto simp: clean_rows_def tb_wf_def index_ok_def)
    show ?thesis
    proof (cases "map_of (field_index t) m")
      case (Some i)
      then show ?thesis by (auto simp: adopt_column_def column_named_def split: option.splits)
    next
      case None
      have "field_index (adopt_column E other m t) = AList.update m (length (columns t)) (field_index t)"
        "columns (adopt_column E other m t) = columns t @ [backfilled E (row_count t) (column_type (plan t) m)]"
        using None that(2) by (simp_all add: adopt_column_def add_column_def backfilled_def Let_def)
      then show ?thesis using None ix [of n]
        by (auto simp: column_named_def update_conv' nth_append split: option.splits)
    qed
  qed
  have keep: "column_named (fold (adopt_column E other) ms t) n = Some b"
    if "clean_rows t" "plan other = plan t" "column_named t n = Some b" for ms t b
    using that
  proof (induction ms arbitrary: t)
    case (Cons m ms)
    then show ?case using adopt_column_ok [OF Cons.prems(1,2), of E m] step [OF Cons.prems(1,2), of m]
        Cons.IH [of "adopt_column E other m t"] by simp
  qed simp
  have both: "(column_named t n = Some b \<longrightarrow> column_named (fold (adopt_column E other) names t) n = Some b) \<and>
    (column_named t n = None \<longrightarrow> column_named (fold (adopt_column E other) names t) n = Some b \<longrightarrow>
      b = backfilled E (row_count t) (column_type (plan t) n))"
    using t p
  proof (induction names arbitrary: t)
    case (Cons m names)
    note a = adopt_column_ok [OF Cons.prems, of E m]
    have "clean_rows (adopt_column E other m t)" "plan other = plan (adopt_column E other m t)" using a Cons.prems(2) by auto
    note ih = Cons.IH [OF this]
    show ?case
    proof (cases "column_named t n")
      case (Some b')
      then show ?thesis using ih step [OF Cons.prems, of m] by auto
    next
      case None
      show ?thesis
      proof (cases "n = m")
        case True
        then have "column_named (adopt_column E other m t) n = Some (backfilled E (row_count t) (column_type (plan t) n))"
          using step [OF Cons.prems, of m] None by simp
        then show ?thesis using None keep [OF \<open>clean_rows (adopt_column E other m t)\<close> \<open>plan other = plan (adopt_column E other m t)\<close>] by fastforce
      next
        case False
        then show ?thesis using ih step [OF Cons.prems, of m] None a by simp
      qed
    qed
  qed simp
  then show "column_named t n = Some b \<Longrightarrow> column_named (fold (adopt_column E other) names t) n = Some b"
    "column_named t n = None \<Longrightarrow> column_named (fold (adopt_column E other) names t) n = Some b \<Longrightarrow>
      b = backfilled E (row_count t) (column_type (plan t) n)" by blast+
qed

lemma normalize_clean:
  assumes "tb_wf t"
  shows "clean_rows (normalize t)" "row_count (normalize t) = row_count t" "plan (normalize t) = plan t"
    "column_order (normalize t) = column_order t" "field_index (normalize t) = field_index t"
proof -
  show sel: "row_count (normalize t) = row_count t" "plan (normalize t) = plan t"
    "column_order (normalize t) = column_order t" "field_index (normalize t) = field_index t"
    by (simp_all add: normalize_def)
  have "tb_wf (normalize t)" "\<forall>c \<in> set (columns (normalize t)). cb_len c = row_count t"
    using normalize_ok [OF assms] by auto
  then show "clean_rows (normalize t)" unfolding clean_rows_def tb_wf_def aligned_def
    by (metis nth_mem add_eq_self_zero sel(1) zero_neq_one)
qed

lemma rows_named_at:
  assumes "tb_wf other" "\<forall>c \<in> set (columns other). cb_len c = k"
  shows "length (rows_named other k n) = k" "r < k \<Longrightarrow> rows_named other k n ! r = row_at other r n"
proof -
  have len: "cb_len ob = k" if "column_named other n = Some ob" for ob
    using column_named_Some(3) [OF assms(1) that] assms(2) by simp
  then show "length (rows_named other k n) = k" by (auto simp: rows_named_def split: option.splits)
  show "rows_named other k n ! r = row_at other r n" if "r < k"
  proof (cases "column_named other n")
    case None
    then show ?thesis using that by (auto simp: rows_named_def column_named_def row_at_def)
  next
    case (Some ob)
    then show ?thesis using column_named_Some(4) [OF assms(1) Some] len that by (simp add: rows_named_def)
  qed
qed

lemma merged_table:
  assumes t: "clean_rows t" and order: "set names = set (column_order t)" "distinct names"
    and other: "tb_wf other" "\<forall>c \<in> set (columns other). cb_len c = row_count other" "plan other = plan t"
      "set (column_order other) \<subseteq> set (column_order t)"
    and room: "\<And>n i ob. map_of (field_index t) n = Some i \<Longrightarrow> column_named other n = Some ob \<Longrightarrow> merge_room (columns t ! i) ob"
  shows "\<exists>cs. append_columns E (row_count other) names other t = Some (Inr (), t\<lparr>columns := cs\<rparr>) \<and>
    clean_rows (t\<lparr>columns := cs, row_count := row_count t + row_count other\<rparr>) \<and>
    tb_rows (t\<lparr>columns := cs, row_count := row_count t + row_count other\<rparr>) = tb_rows t @ tb_rows other"
proof -
  have wf: "tb_wf t" "\<And>i. \<not> mask_test i (row_dirty t)" using t by (simp_all add: clean_rows_def)
  have ix: "index_ok t" using wf(1) by (simp add: tb_wf_def)
  have slot: "i < length (columns t)" "columns t ! i \<in> set (columns t)" "n \<in> set names" if "map_of (field_index t) n = Some i" for n i
    using that ix order(1) by (auto simp: index_ok_def)
  have len: "cb_len (columns t ! i) = row_count t" if "i < length (columns t)" for i
    using wf that by (simp add: tb_wf_def aligned_def)
  obtain cs where cs: "append_columns E (row_count other) names other t = Some (Inr (), t\<lparr>columns := cs\<rparr>)"
      "length cs = length (columns t)"
    and col: "\<And>n i. map_of (field_index t) n = Some i \<Longrightarrow> cb_ok (cs ! i) \<and> cb_kind (cs ! i) = cb_kind (columns t ! i) \<and>
       cb_rows (cs ! i) = cb_rows (columns t ! i) @ rows_named other (row_count other) n"
  proof -
    have "\<exists>cs. append_columns E (row_count other) names other t = Some (Inr (), t\<lparr>columns := cs\<rparr>) \<and> length cs = length (columns t) \<and>
      (\<forall>n i. map_of (field_index t) n = Some i \<longrightarrow>
       (if n \<in> set names then cb_ok (cs ! i) \<and> cb_kind (cs ! i) = cb_kind (columns t ! i) \<and>
          cb_rows (cs ! i) = cb_rows (columns t ! i) @ rows_named other (row_count other) n
        else cs ! i = columns t ! i))"
    proof (rule append_columns_ok [OF _ order(2) ix])
      show "slots_sound other" using other(1) by (simp add: tb_wf_def index_slots)
      show "cb_ok (columns t ! i)" if "n \<in> set names" "map_of (field_index t) n = Some i" for n i
        using slot [OF that(2)] wf(1) by (simp add: tb_wf_def)
      show "cb_ok ob \<and> cb_kind (columns t ! i) = cb_kind ob \<and> merge_room (columns t ! i) ob"
        if "n \<in> set names" "map_of (field_index t) n = Some i" "column_named other n = Some ob" for n i ob
        using column_named_Some(1,2) [OF other(1) that(3)] room [OF that(2,3)] wf(1) that(2) other(3)
        by (simp add: tb_wf_def kinds_ok_def)
    qed
    then show ?thesis using that slot(3) by meson
  qed
  let ?u = "t\<lparr>columns := cs, row_count := row_count t + row_count other\<rparr>"
  have clen: "cb_ok (cs ! i) \<and> cb_len (cs ! i) = row_count t + row_count other" if "i < length (columns t)" for i
  proof -
    obtain n where n: "map_of (field_index t) n = Some i" using index_surjective [OF ix \<open>i < length (columns t)\<close>] by blast
    have "cb_len (cs ! i) = length (cb_rows (columns t ! i) @ rows_named other (row_count other) n)"
      using col [OF n] length_cb_rows by metis
    then show ?thesis using col [OF n] len [OF that] rows_named_at(1) [OF other(1,2)] by simp
  qed
  have "tb_wf ?u" unfolding tb_wf_def
  proof (intro conjI)
    show "\<forall>c \<in> set (columns ?u). cb_ok c" using clen cs(2) by (auto simp: in_set_conv_nth)
    show "index_ok ?u" using ix cs(2) by (simp add: index_ok_def)
    show "aligned ?u" using wf clen cs(2) by (simp add: tb_wf_def aligned_def)
    show "kinds_ok ?u" using wf(1) col by (simp add: tb_wf_def kinds_ok_def)
  qed
  then have "clean_rows ?u" using wf(2) by (simp add: clean_rows_def)
  moreover have "row_at ?u r n = (if r < row_count t then row_at t r n else row_at other (r - row_count t) n)"
    if r: "r < row_count t + row_count other" for r n
  proof (cases "map_of (field_index t) n")
    case None
    then have "n \<notin> set (column_order t)" using ix unfolding index_ok_def by blast
    then have "n \<notin> set (column_order other)" using other(4) by blast
    then have "map_of (field_index other) n = None" using other(1) by (auto simp: tb_wf_def index_ok_def)
    with None show ?thesis by (simp add: row_at_def)
  next
    case (Some i)
    have "row_at ?u r n = cb_rows (cs ! i) ! r"
      using Some clen slot(1) [OF Some] r by (simp add: row_at_def get_typed_value_rows)
    also have "\<dots> = (if r < row_count t then cb_rows (columns t ! i) ! r else rows_named other (row_count other) n ! (r - row_count t))"
      using col [OF Some] len [OF slot(1) [OF Some]] by (simp add: nth_append)
    finally show ?thesis
      using Some rows_named_at(2) [OF other(1,2)] len [OF slot(1) [OF Some]] r by (simp add: row_at_def get_typed_value_rows)
  qed
  then have "tb_rows ?u = tb_rows t @ tb_rows other"
    by (intro nth_equalityI) (auto simp: tb_rows_def nth_append intro!: ext)
  ultimately show ?thesis using cs(1) by blast
qed

lemma rows_beside [simp]:
  "clean_rows (t\<lparr>strict_error := a, unknown_error := b, rows_accepted := c, rows_rejected := d\<rparr>) = clean_rows t"
  "tb_rows (t\<lparr>strict_error := a, unknown_error := b, rows_accepted := c, rows_rejected := d\<rparr>) = tb_rows t"
  "column_named (t\<lparr>strict_error := a, unknown_error := b, rows_accepted := c, rows_rejected := d\<rparr>) = column_named t"
proof -
  let ?u = "t\<lparr>strict_error := a, unknown_error := b, rows_accepted := c, rows_rejected := d\<rparr>"
  show "clean_rows ?u = clean_rows t" by (simp add: clean_rows_def tb_wf_def index_ok_def aligned_def kinds_ok_def)
  have "row_at ?u = row_at t" by (intro ext) (simp add: row_at_def split: option.splits)
  then show "tb_rows ?u = tb_rows t" by (simp add: tb_rows_def)
  show "column_named ?u = column_named t" by (intro ext) (simp add: column_named_def)
qed

lemma adopt_column_counters:
  "errors (adopt_column E other n t) = errors t" "rows_accepted (adopt_column E other n t) = rows_accepted t"
  "rows_rejected (adopt_column E other n t) = rows_rejected t"
  by (simp_all add: adopt_column_def add_column_def errors_def Let_def)

lemma adopt_columns_counters:
  "errors (fold (adopt_column E other) ns t) = errors t" "rows_accepted (fold (adopt_column E other) ns t) = rows_accepted t"
  "rows_rejected (fold (adopt_column E other) ns t) = rows_rejected t"
  by (induction ns arbitrary: t) (simp_all add: adopt_column_counters)

definition first_error :: "'e option \<Rightarrow> 'e option \<Rightarrow> 'e option" where
  "first_error e e' = (if e = None then e' else e)"

lemma extend_ok:
  assumes "tb_wf t" "tb_wf other" "plan other = plan t" "merge_rooms E t other"
  shows "\<exists>u. tb_extend E other t = Some (Inr (), u) \<and> clean_rows u \<and> tb_rows u = tb_rows t @ tb_rows other \<and> plan u = plan t \<and>
    errors u = (first_error (fst (errors t)) (fst (errors other)), first_error (snd (errors t)) (snd (errors other))) \<and>
    rows_accepted u = rows_accepted t + rows_accepted other \<and> rows_rejected u = rows_rejected t + rows_rejected other"
proof -
  let ?o = "normalize other"
  define t0 where "t0 = (normalize t)\<lparr>
     strict_error := (if strict_error (normalize t) = None then strict_error ?o else strict_error (normalize t)),
     unknown_error := (if unknown_error (normalize t) = None then unknown_error ?o else unknown_error (normalize t)),
     rows_accepted := rows_accepted (normalize t) + rows_accepted ?o,
     rows_rejected := rows_rejected (normalize t) + rows_rejected ?o\<rparr>"
  note n = normalize_clean [OF assms(1)] and no = normalize_clean [OF assms(2)]
  have t0: "clean_rows t0" "plan t0 = plan t" "row_count t0 = row_count t" "column_named t0 = column_named (normalize t)"
    "tb_rows t0 = tb_rows t"
    using n normalize_ok [OF assms(1)] unfolding t0_def rows_beside by simp_all
  define t1 where "t1 = fold (adopt_column E ?o) (column_order ?o) t0"
  have po: "plan ?o = plan t0" using t0(2) no(3) assms(3) by simp
  note a = adopt_columns_ok [OF t0(1) po, of E "column_order ?o"]
  note col = adopted_column [OF t0(1) po, where E = E and names = "column_order ?o"]
  have t1: "clean_rows t1" "tb_rows t1 = tb_rows t" "plan t1 = plan t" "row_count t1 = row_count t"
    "set (column_order ?o) \<subseteq> set (column_order t1)" using a t0 unfolding t1_def by auto
  have ix: "distinct (column_order t1)" using t1(1) by (simp add: clean_rows_def tb_wf_def index_ok_def)
  have len: "\<forall>c \<in> set (columns ?o). cb_len c = row_count ?o" using normalize_ok [OF assms(2)] no(2) by simp
  have wfo: "tb_wf ?o" using no(1) by (simp add: clean_rows_def)
  have room: "merge_room (columns t1 ! i) ob" if i: "map_of (field_index t1) m = Some i" and ob: "column_named ?o m = Some ob" for m i ob
  proof -
    have "m \<in> set (column_order other)" using ob wfo no(4) by (auto simp: column_named_def tb_wf_def index_ok_def)
    then have r: "merge_room (named_or_nulls E (normalize t) m) ob" using assms(4) ob by (force simp: merge_rooms_def)
    have c: "column_named t1 m = Some (columns t1 ! i)" using i by (simp add: column_named_def)
    have "columns t1 ! i = named_or_nulls E (normalize t) m"
    proof (cases "column_named t0 m")
      case None
      then show ?thesis using col(2) [OF None] c t0(2-4) n(2,3) unfolding t1_def by (simp add: named_or_nulls_def)
    next
      case (Some b)
      then show ?thesis using col(1) [OF Some] c t0(4) unfolding t1_def by (simp add: named_or_nulls_def)
    qed
    then show ?thesis using r by simp
  qed
  obtain cs where cs: "append_columns E (row_count ?o) (column_order t1) ?o t1 = Some (Inr (), t1\<lparr>columns := cs\<rparr>)"
      "clean_rows (t1\<lparr>columns := cs, row_count := row_count t1 + row_count ?o\<rparr>)"
      "tb_rows (t1\<lparr>columns := cs, row_count := row_count t1 + row_count ?o\<rparr>) = tb_rows t1 @ tb_rows ?o"
  proof -
    have "plan ?o = plan t1" using po t0(2) t1(3) by simp
    from merged_table [where E = E, OF t1(1) refl ix wfo len this t1(5)] room that show ?thesis by blast
  qed
  let ?u = "t1\<lparr>columns := cs, row_count := row_count t1 + row_count ?o\<rparr>"
  have "tb_extend E other t = Some (Inr (), ?u)"
    unfolding tb_extend_def Let_def t0_def [symmetric] t1_def [symmetric] cs(1) using t1(4) t0(3) by simp
  moreover have "tb_rows ?u = tb_rows t @ tb_rows other" using cs(3) t1(2) normalize_ok [OF assms(2)] by simp
  moreover have "errors ?u = errors t0" "rows_accepted ?u = rows_accepted t0" "rows_rejected ?u = rows_rejected t0"
    using adopt_columns_counters [of E ?o "column_order ?o" t0] unfolding t1_def errors_def by simp_all
  moreover have "errors t0 = (first_error (fst (errors t)) (fst (errors other)), first_error (snd (errors t)) (snd (errors other)))"
    "rows_accepted t0 = rows_accepted t + rows_accepted other" "rows_rejected t0 = rows_rejected t + rows_rejected other"
    by (simp_all add: t0_def errors_def normalize_def first_error_def)
  ultimately show ?thesis using cs(2) t1(3) by auto
qed

text \<open>Which names a parse can add, to know the room of the examples.\<close>

lemma store_order: "store_at E i v t = Some u \<Longrightarrow> column_order u = column_order t"
  by (auto simp: store_at_def split: bind_splits)

lemma push_resolved_order:
  assumes "\<not> is_exact_frozen t" "\<not> is_direct t" "push_field_resolved E n v t = Some u"
  shows "set (column_order u) \<subseteq> insert n (set (column_order t))"
proof -
  obtain i t1 where e: "ensure_column_idx E n t = (i, t1)" by fastforce
  have t1: "set (column_order t1) \<subseteq> insert n (set (column_order t))"
  proof (cases "map_of (field_index t) n")
    case None
    then show ?thesis using ensure_new [OF None assms(1,2), of E] e
      by (auto simp: with_column_def add_column_def set_insert_at)
  qed (use e in \<open>auto simp: ensure_known\<close>)
  have "same_core t1 (track_ordinal i n (notify_put_field i v (record_strict_violation_at E i v t1)))"
    by (rule core_put_prefix(1))
  then have "column_order u = column_order t1"
    using assms(1,3) e store_order by (auto simp: push_field_resolved_def same_core_def)
  with t1 show ?thesis by simp
qed

lemma put_order:
  assumes "unbudgeted t" "direct_path t" "\<not> is_direct t" "\<not> is_exact_frozen t" "put_field E name v t = Some u"
    "resolve_field (plan t) name = Some n"
  shows "set (column_order u) \<subseteq> insert n (set (column_order t))"
  using assms(5,6) unfolding put_field_direct [OF assms(1,2)] push_field_resolves
  by (auto dest!: push_resolved_order [OF assms(4,3)])

lemma finish_row_order: "finish_row E t = Some u \<Longrightarrow> column_order u = column_order t"
  by (auto simp: finish_row_def null_fill_def commit_row_def notify_def split: bind_splits option.splits if_splits)

lemma begin_row_order: "unbudgeted t \<Longrightarrow> column_order (begin_row E t) = column_order t"
  by (simp add: begin_row_def Let_def update_buf_def notify_def)

lemma inline_rooms:
  assumes "tb_wf t" "tb_wf other" "plan other = plan t" "\<forall>n \<in> set (column_order other). inline_type (column_type (plan t) n)"
  shows "merge_rooms E t other"
proof -
  have small: "cb_arena c = 0 \<and> cb_entries c = 0" if "inline_type (cb_kind c)" for c
    using that by (cases c) (simp_all add: inline_type_def)
  have "merge_room (named_or_nulls E (normalize t) n) ob" if "n \<in> set (column_order other)" "column_named (normalize other) n = Some ob" for n ob
  proof -
    have "tb_wf (normalize t)" "tb_wf (normalize other)" using normalize_ok assms(1,2) by auto
    then have "cb_kind ob = column_type (plan t) n" "cb_kind (named_or_nulls E (normalize t) n) = column_type (plan t) n"
      using column_named_Some(2) [of _ n] that(2) normalize_clean(3) [OF assms(1)] normalize_clean(3) [OF assms(2)] assms(3)
      by (auto simp: named_or_nulls_def backfilled_ok split: option.splits)
    then show ?thesis using small [of ob] small [of "named_or_nulls E (normalize t) n"] that(1) assms(4) by (simp add: merge_room_def)
  qed
  then show ?thesis by (auto simp: merge_rooms_def split: option.splits)
qed

lemma merge_sample:
  obtains t where "parse_rows sample_env [[(''a'', Int64 i)]] (tb_with_plan 0 sample_plan) = Some t" "tb_wf t"
    "tb_rows t = [no_cells(''b'' := Some (TV_Int64 i))]" "plan t = sample_plan" "set (column_order t) \<subseteq> {''b''}"
    "unbudgeted t" "errors t = (None, None)"
proof -
  let ?t = "tb_with_plan 0 sample_plan"
  have "rows_fit sample_env [[(''a'', Int64 i)]] (tb_with_plan 0 sample_plan)"
    using sample_table by (intro rows_fit_inline) (simp_all add: inline_record_def inline_type_def)
  note fits = this
  then obtain t where t: "parse_rows sample_env [[(''a'', Int64 i)]] ?t = Some t" "tb_wf t"
    "tb_rows t = [no_cells(''b'' := Some (TV_Int64 i))]" "plan t = sample_plan"
    using parse_rows_direct [OF sample_table(1-3,5,7)] sample_table(6,8) by (fastforce simp: accepts_def convert_def sample_env_def)
  obtain u where u: "put_field sample_env ''a'' (Int64 i) (begin_row sample_env ?t) = Some u" "end_row sample_env u = Some t"
    using t(1) by (auto simp: parse_row_def split: bind_splits)
  note b = begin_row_core [OF sample_table(2), of sample_env]
  have fit: "put_fits sample_env n (Int64 i) (begin_row sample_env ?t)" if "resolve_field (plan (begin_row sample_env ?t)) ''a'' = Some n" for n
    using that sample_table b by (intro put_fits_inline) (auto simp: name_known_def inline_type_def)
  have path: "tb_wf (begin_row sample_env ?t)" "unbudgeted (begin_row sample_env ?t)" "direct_path (begin_row sample_env ?t)"
    "\<not> is_direct (begin_row sample_env ?t)" "\<not> is_exact_frozen (begin_row sample_env ?t)"
    using b sample_table by simp_all
  have "stays (begin_row sample_env ?t) u" using put_field_ok [where name = "''a''" and v = "Int64 i" and E = sample_env, OF path fit] u(1) by auto
  then have "end_row sample_env u = finish_row sample_env u" using stays_path path by (simp add: end_row_def direct_path_def)
  moreover have "column_order ?t = []"
    by (simp add: tb_with_plan_def predeclare_schema_columns_def tb_with_capacity_def predeclare_names_def)
  ultimately have "set (column_order t) \<subseteq> {''b''}"
    using finish_row_order [of sample_env u t] u put_order [OF path(2-5) u(1)] begin_row_order [OF sample_table(2)] sample_table(6) b(6) by simp
  moreover have "errors t = (None, None)" "unbudgeted t"
    using errors_parse_rows [OF sample_table(1-3,5,7) _ fits t(1)] sample_table(6,9) by simp_all
  ultimately show ?thesis using t that by blast
qed

section \<open>Properties\<close>

text \<open>
  Merging a builder of the same plan into another (given the 32-bit room its columns need) never
  panics or fails: the table is the rows of the first followed by the rows of the second, under
  every column name of either, whatever order the columns appeared in and whichever are missing
  on one side; the first recorded error of each kind survives and the counters add up.
\<close>

theorem extend_appends_rows:
  assumes "tb_wf t" "tb_wf other" "plan other = plan t" "merge_rooms E t other"
  shows "\<exists>u. tb_extend E other t = Some (Inr (), u) \<and> tb_wf u \<and> tb_rows u = tb_rows t @ tb_rows other \<and>
    errors u = (first_error (fst (errors t)) (fst (errors other)), first_error (snd (errors t)) (snd (errors other))) \<and>
    rows_accepted u = rows_accepted t + rows_accepted other \<and> rows_rejected u = rows_rejected t + rows_rejected other"
  using extend_ok [OF assms] by (auto simp: clean_rows_def)

theorem extend_appends_rows_witness:
  "\<exists>t other u. tb_extend sample_env other t = Some (Inr (), u) \<and>
     tb_rows u = [no_cells(''b'' := Some (TV_Int64 1)), no_cells(''b'' := Some (TV_Int64 2))]"
proof -
  obtain t other where t: "tb_wf t" "tb_rows t = [no_cells(''b'' := Some (TV_Int64 1))]" "plan t = sample_plan"
    and o: "tb_wf other" "tb_rows other = [no_cells(''b'' := Some (TV_Int64 2))]" "plan other = sample_plan"
      "set (column_order other) \<subseteq> {''b''}"
    using merge_sample by metis
  have "merge_rooms sample_env t other" using t o by (intro inline_rooms) (auto simp: inline_type_def)
  with extend_appends_rows [of t other sample_env] t o show ?thesis by auto
qed

text \<open>
  C12. Parsing two chunks of records in builders of their own and merging the second into the first
  gives the table that one builder would have made of all the records in order.
\<close>

theorem chunks_merge_as_whole:
  assumes "plan_filter p = None" and "rows_fit E recs (tb_with_plan m p)" "rows_fit E recs' (tb_with_plan n p)"
    and "rows_fit E (recs @ recs') (tb_with_plan k p)"
    and "parse_rows E recs (tb_with_plan m p) = Some a" "parse_rows E recs' (tb_with_plan n p) = Some b"
    and "parse_rows E (recs @ recs') (tb_with_plan k p) = Some whole" "merge_rooms E a b"
  shows "\<exists>u. tb_extend E b a = Some (Inr (), u) \<and> tb_rows u = tb_rows whole"
proof -
  have t: "tb_wf (tb_with_plan m p)" "tb_rows (tb_with_plan m p) = []" "cur_row (tb_with_plan m p) = no_cells"
    "plan (tb_with_plan m p) = p" "unbudgeted (tb_with_plan m p)" "direct_path (tb_with_plan m p)"
    "\<not> is_exact_frozen (tb_with_plan m p)" for m
    using tb_with_plan_ok [of m p] assms(1) by (auto simp: setup_of_def unbudgeted_def direct_path_def is_exact_frozen_def)
  note direct = parse_rows_direct [OF t(1,5,6,7,3)]
  have a: "tb_wf a" "plan a = p" and b: "tb_wf b" "plan b = p"
    using direct [OF assms(2)] direct [OF assms(3)] assms(5,6) t(4) by auto
  have "tb_rows whole = tb_rows a @ tb_rows b"
    using direct [OF assms(2)] direct [OF assms(3)] direct [OF assms(4)] assms(5-7) t(2,4) by auto
  with extend_ok [OF a(1) b(1) _ assms(8)] a b show ?thesis by auto
qed

theorem chunks_merge_as_whole_witness:
  "\<exists>a b whole u. parse_rows sample_env [[(''a'', Int64 1)]] (tb_with_plan 0 sample_plan) = Some a \<and>
     parse_rows sample_env [[(''a'', Int64 2)]] (tb_with_plan 0 sample_plan) = Some b \<and>
     parse_rows sample_env [[(''a'', Int64 1)], [(''a'', Int64 2)]] (tb_with_plan 0 sample_plan) = Some whole \<and>
     tb_extend sample_env b a = Some (Inr (), u) \<and> tb_rows u = tb_rows whole"
proof -
  let ?t = "tb_with_plan 0 sample_plan"
  obtain a where a: "parse_rows sample_env [[(''a'', Int64 1)]] ?t = Some a" "tb_wf a" "plan a = sample_plan"
    using merge_sample by metis
  obtain b where b: "parse_rows sample_env [[(''a'', Int64 2)]] ?t = Some b" "tb_wf b" "plan b = sample_plan"
      "set (column_order b) \<subseteq> {''b''}"
    using merge_sample by metis
  have fit: "rows_fit sample_env recs ?t" if "list_all (inline_record sample_plan) recs" for recs
    using that sample_table by (intro rows_fit_inline) simp_all
  have recs: "inline_record sample_plan [(''a'', Int64 i)]" for i by (simp add: inline_record_def inline_type_def)
  obtain whole where w: "parse_rows sample_env ([[(''a'', Int64 1)]] @ [[(''a'', Int64 2)]]) ?t = Some whole"
    using parse_rows_direct [OF sample_table(1-3,5,7) fit [of "[[(''a'', Int64 1)]] @ [[(''a'', Int64 2)]]"]] recs by auto
  have "merge_rooms sample_env a b" using a b by (intro inline_rooms) (auto simp: inline_type_def)
  with chunks_merge_as_whole [OF _ fit fit fit a(1) b(1) w] recs a b w show ?thesis by auto
qed

end
