(* ===== verification/Chunk_Export.thy ===== *)
theory Chunk_Export
  imports Merge_Tables
begin

text \<open>
  Exporting chunk builders without merging them (\<open>engines_to_record_batches\<close> of \<open>merge.rs\<close>) and the
  comparison filter on assembled batches (\<open>arrow_export.rs\<close>). The compute kernels of the arrow
  crate are parameters.
\<close>

section \<open>Loops that stop at the first error\<close>

text \<open>\<open>None\<close> is a panic, \<open>Some (Inl e)\<close> the error that \<open>?\<close> returns.\<close>

fun try_bind :: "'a result option \<Rightarrow> ('a \<Rightarrow> 'b result option) \<Rightarrow> 'b result option" where
  "try_bind None f = None"
| "try_bind (Some (Inl e)) f = Some (Inl e)"
| "try_bind (Some (Inr x)) f = f x"

fun try_fold :: "('a \<Rightarrow> 's \<Rightarrow> 's result option) \<Rightarrow> 'a list \<Rightarrow> 's \<Rightarrow> 's result option" where
  "try_fold f [] s = Some (Inr s)"
| "try_fold f (x # xs) s = try_bind (f x s) (try_fold f xs)"

fun try_map :: "('a \<Rightarrow> 'b result option) \<Rightarrow> 'a list \<Rightarrow> 'b list result option" where
  "try_map f [] = Some (Inr [])"
| "try_map f (x # xs) = try_bind (f x) (\<lambda>y. try_bind (try_map f xs) (\<lambda>ys. Some (Inr (y # ys))))"

lemma try_map_ok:
  assumes "\<And>x. x \<in> set xs \<Longrightarrow> f x = Some (Inr (g x))"
  shows "try_map f xs = Some (Inr (map g xs))"
  using assms by (induction xs) simp_all

lemma those_map_ok:
  assumes "\<And>x. x \<in> set xs \<Longrightarrow> f x = Some (g x)"
  shows "those (map f xs) = Some (map g xs)"
  using assms by (induction xs) simp_all

lemma try_fold_unchanged:
  assumes "\<And>x. x \<in> set xs \<Longrightarrow> f x s = Some (Inr s)"
  shows "try_fold f xs s = Some (Inr s)"
  using assms by (induction xs) simp_all

lemma try_fold_inv:
  assumes "P ys s" "\<And>x ys s. x \<in> set xs \<Longrightarrow> P ys s \<Longrightarrow> \<exists>u. f x s = Some (Inr u) \<and> P (ys @ [x]) u"
  shows "\<exists>u. try_fold f xs s = Some (Inr u) \<and> P (ys @ xs) u"
  using assms
proof (induction xs arbitrary: ys s)
  case (Cons x xs)
  obtain u where u: "f x s = Some (Inr u)" "P (ys @ [x]) u" using Cons.prems(2) [OF list.set_intros(1) Cons.prems(1)] by blast
  have "\<exists>w. try_fold f xs u = Some (Inr w) \<and> P ((ys @ [x]) @ xs) w"
    by (rule Cons.IH [OF u(2)]) (use Cons.prems(2) in \<open>meson list.set_intros(2)\<close>)
  with u(1) show ?case by simp
qed simp

section \<open>One schema for all chunks\<close>

text \<open>Looking a column up by name; the outer option is the panic of an index out of range.\<close>

definition column_of :: "string \<Rightarrow> table_builder \<Rightarrow> column_builder option option" where
  "column_of name e =
     (case map_of (field_index e) name of None \<Rightarrow> Some None | Some i \<Rightarrow> map_option Some (idx (columns e) i))"

text \<open>The order of first appearance and the storage variant of every name.\<close>

type_synonym unified = "string list \<times> (string, string) hmap"

definition unify_column :: "table_builder \<Rightarrow> string \<Rightarrow> unified \<Rightarrow> unified result option" where
  "unify_column e name u =
     (let (order, targets) = u
      in case column_of name e of None \<Rightarrow> None
       | Some None \<Rightarrow> Some (Inr u)
       | Some (Some b) \<Rightarrow>
           (case map_of targets name of
              None \<Rightarrow> Some (Inr (order @ [name], AList.update name (variant_key b) targets))
            | Some t \<Rightarrow>
                (case unify_variants t (variant_key b) of
                   None \<Rightarrow> Some (Inl (Merge_error ''conflicting types across chunks''))
                 | Some k \<Rightarrow> Some (Inr (order, AList.update name k targets)))))"

definition unify_engines :: "table_builder list \<Rightarrow> unified result option" where
  "unify_engines es = try_fold (\<lambda>e. try_fold (unify_column e) (column_order e)) es ([], [])"

definition promote_column :: "(string, string) hmap \<Rightarrow> string \<Rightarrow> table_builder \<Rightarrow> table_builder result option" where
  "promote_column targets name e =
     (case map_of targets name of None \<Rightarrow> Some (Inr e)
      | Some k \<Rightarrow>
         (case map_of (field_index e) name of None \<Rightarrow> Some (Inr e)
          | Some i \<Rightarrow>
             (case idx (columns e) i of None \<Rightarrow> None
              | Some b \<Rightarrow>
                 (case cb_promote k b of Inl err \<Rightarrow> Some (Inl err)
                  | Inr c \<Rightarrow> Some (Inr (e\<lparr>columns := (columns e)[i := c]\<rparr>))))))"

definition promote_engine :: "(string, string) hmap \<Rightarrow> table_builder \<Rightarrow> table_builder result option" where
  "promote_engine targets e = try_fold (promote_column targets) (column_order e) e"

text \<open>The data type of the first column seen under each name.\<close>

definition note_type :: "table_builder \<Rightarrow> string \<Rightarrow> (string, data_type) hmap \<Rightarrow> (string, data_type) hmap result option" where
  "note_type e name types =
     (case map_of types name of Some _ \<Rightarrow> Some (Inr types)
      | None \<Rightarrow> (case column_of name e of
                   Some (Some b) \<Rightarrow> Some (Inr (AList.update name (arrow_datatype b) types))
                 | _ \<Rightarrow> None))"

definition unified_types :: "table_builder list \<Rightarrow> (string, data_type) hmap result option" where
  "unified_types es = try_fold (\<lambda>e. try_fold (note_type e) (column_order e)) es []"

section \<open>The batches\<close>

definition null_array :: "data_type \<Rightarrow> nat \<Rightarrow> arrow_array" where
  "null_array ty n = \<lparr>atype = ty, acells = replicate n None\<rparr>"

fun export_arrays :: "(string, data_type) hmap \<Rightarrow> string list \<Rightarrow> table_builder \<Rightarrow> arrow_array list result option" where
  "export_arrays types [] e = Some (Inr [])"
| "export_arrays types (name # names) e =
     (case map_of (field_index e) name of
        Some i \<Rightarrow>
          (case export_at i e of None \<Rightarrow> None
           | Some (Inl err, _) \<Rightarrow> Some (Inl err)
           | Some (Inr a, e') \<Rightarrow> try_bind (export_arrays types names e') (\<lambda>rest. Some (Inr (a # rest))))
      | None \<Rightarrow>
          (case map_of types name of None \<Rightarrow> None
           | Some ty \<Rightarrow> try_bind (export_arrays types names e) (\<lambda>rest. Some (Inr (null_array ty (row_count e) # rest)))))"

record arrow_kernels =
  cast_to :: "data_type \<Rightarrow> arrow_array \<Rightarrow> arrow_array result"
  compare_arrays :: "compare_op \<Rightarrow> arrow_array \<Rightarrow> arrow_array \<Rightarrow> bool option list result"
  and_masks :: "bool option list \<Rightarrow> bool option list \<Rightarrow> bool option list result"
  filter_record_batch :: "record_batch \<Rightarrow> bool option list \<Rightarrow> record_batch result"

text \<open>Which trees are checked again, and the mask of one.\<close>

fun is_pure_compare_tree :: "filter_predicate \<Rightarrow> bool" where
  "is_pure_compare_tree (Compare _ _ _) = True"
| "is_pure_compare_tree (And a b) = (is_pure_compare_tree a \<and> is_pure_compare_tree b)"
| "is_pure_compare_tree _ = False"

definition is_numeric :: "data_type \<Rightarrow> bool" where
  "is_numeric dt \<longleftrightarrow> dt \<in> {DT_Int64, DT_Float64, DT_Boolean}"

definition compare_columns :: "arrow_kernels \<Rightarrow> arrow_array \<Rightarrow> arrow_array \<Rightarrow> compare_op \<Rightarrow> bool option list result" where
  "compare_columns K col_a col_b op =
     (let common = (if is_numeric (atype col_a) \<and> is_numeric (atype col_b) then DT_Float64 else DT_Utf8)
      in bind_result (cast_to K common col_a) (\<lambda>a.
         bind_result (cast_to K common col_b) (\<lambda>b.
           if atype a = DT_Float64 \<or> atype a = DT_Utf8 then compare_arrays K op a b
           else Inl (Plan_error ''unsupported common type for compare filter''))))"

fun compare_mask :: "arrow_kernels \<Rightarrow> record_batch \<Rightarrow> filter_predicate \<Rightarrow> bool option list option result" where
  "compare_mask K batch (Compare field_a op field_b) =
     (case map_of batch field_a of
        None \<Rightarrow> Inl (Plan_error (''compare filter references unknown column '' @ field_a))
      | Some a \<Rightarrow>
         (case map_of batch field_b of
            None \<Rightarrow> Inl (Plan_error (''compare filter references unknown column '' @ field_b))
          | Some b \<Rightarrow> bind_result (compare_columns K a b op) (\<lambda>m. Inr (Some m))))"
| "compare_mask K batch (And p q) =
     bind_result (compare_mask K batch p) (\<lambda>mp.
     bind_result (compare_mask K batch q) (\<lambda>mq.
       case (mp, mq) of
         (Some x, Some y) \<Rightarrow> bind_result (and_masks K x y) (\<lambda>m. Inr (Some m))
       | (Some x, None) \<Rightarrow> Inr (Some x)
       | (None, Some y) \<Rightarrow> Inr (Some y)
       | (None, None) \<Rightarrow> Inr None))"
| "compare_mask K batch _ = Inr None"

definition apply_compare_filter :: "arrow_kernels \<Rightarrow> record_batch \<Rightarrow> filter_predicate \<Rightarrow> record_batch result" where
  "apply_compare_filter K batch p =
     (if \<not> is_pure_compare_tree p then Inr batch
      else bind_result (compare_mask K batch p) (\<lambda>m.
        case m of None \<Rightarrow> Inr batch | Some m \<Rightarrow> filter_record_batch K batch m))"

text \<open>
  The whole export. The workers of the last loop run in parallel; the model reports the error
  of the first batch that has one.
\<close>

definition export_batch :: "(string \<times> data_type) list \<Rightarrow> (string, data_type) hmap \<Rightarrow> table_builder \<Rightarrow> record_batch result option" where
  "export_batch schema types e = try_bind (export_arrays types (map fst schema) e) (\<lambda>arrays. Some (batch_of schema arrays))"

definition schema_of :: "string list \<Rightarrow> (string, data_type) hmap \<Rightarrow> (string \<times> data_type) list option" where
  "schema_of order types = those (map (\<lambda>n. map_option (Pair n) (map_of types n)) order)"

definition prepare_engine :: "env \<Rightarrow> table_builder \<Rightarrow> table_builder result option" where
  "prepare_engine E e = (case prepare_finish E e of (Inl err, _) \<Rightarrow> Some (Inl err) | (Inr _, e') \<Rightarrow> Some (Inr e'))"

definition engines_to_record_batches ::
    "env \<Rightarrow> arrow_kernels \<Rightarrow> table_builder list \<Rightarrow> execution_plan \<Rightarrow> record_batch list result option" where
  "engines_to_record_batches E K engines p =
     try_bind (try_map (prepare_engine E) engines) (\<lambda>prepared.
       let es = filter (\<lambda>e. 0 < row_count e) prepared
       in try_bind (unify_engines es) (\<lambda>(order, targets).
         if order = [] then Some (Inr [])
         else try_bind (try_map (promote_engine targets) es) (\<lambda>es.
              try_bind (unified_types es) (\<lambda>types.
                case schema_of order types of None \<Rightarrow> None
                | Some schema \<Rightarrow>
                    try_bind (try_map (export_batch schema types) es) (\<lambda>batches.
                      case plan_filter p of None \<Rightarrow> Some (Inr batches)
                      | Some f \<Rightarrow> try_map (\<lambda>b. Some (apply_compare_filter K b f)) batches)))))"

end
