(* ===== verification/Coordinator.thy ===== *)
theory Coordinator
  imports Budget Chunk_Export
begin

text \<open>
  The parallel streaming executor (\<open>run_bytes_stream_core\<close> of \<open>parallel_stream.rs\<close>): workers take
  chunks from a queue, wait for the dispatch window, parse, and send results through a bounded
  channel; the coordinator hands batches to the consumer, in order when asked. Threads are
  interleaved by a step relation; \<open>pending\<close> is the \<open>BTreeMap\<close> of batches that came too early.
\<close>

section \<open>The run's parameters and state\<close>

record stream_setup =
  chunk_count :: nat
  channel_cap :: nat
  dispatch_window :: nat
  max_reorder_bytes :: nat
  ordered :: bool
  strict_budget :: bool
  chunk_result :: "nat \<Rightarrow> record_batch result"
  array_size :: "record_batch \<Rightarrow> nat"
  consume :: "record_batch list \<Rightarrow> record_batch \<Rightarrow> unit result"

text \<open>Where a worker is in its loop; the sequence number is the chunk it holds.\<close>

datatype worker = Ready | Waiting nat | Running nat | Sending nat "record_batch result" | Exited

text \<open>
  \<open>dispatch\<close> is what the coordinator has published, \<open>None\<close> once the guard is dropped;
  \<open>outcome\<close> is what the coordinator's loop has returned, after which the receiver is gone.
\<close>

record coord =
  queue :: "nat list"
  workers :: "worker list"
  channel :: "(nat \<times> record_batch result) list"
  dispatch :: "nat option"
  pending :: "(nat, record_batch) hmap"
  next_seq :: nat
  reorder_bytes :: nat
  delivered :: "(nat \<times> record_batch) list"
  outcome :: "unit result option"

definition stream_start :: "stream_setup \<Rightarrow> nat \<Rightarrow> coord" where
  "stream_start C threads =
     \<lparr>queue = rev [0..<chunk_count C], workers = replicate threads Ready, channel = [], dispatch = Some 0, pending = [],
      next_seq = 0, reorder_bytes = 0, delivered = [], outcome = None\<rparr>"

section \<open>The coordinator\<close>

definition deliver :: "stream_setup \<Rightarrow> nat \<Rightarrow> record_batch \<Rightarrow> coord \<Rightarrow> unit result \<times> coord" where
  "deliver C seq b s =
     (case consume C (map snd (delivered s)) b of
        Inl err \<Rightarrow> (Inl err, s)
      | Inr _ \<Rightarrow> (Inr (), s\<lparr>delivered := delivered s @ [(seq, b)]\<rparr>))"

lemma delete_shorter: "map_of al k = Some v \<Longrightarrow> length (AList.delete k al) < length al"
  by (induction al) (auto simp: le_imp_less_Suc AList.length_delete_le)

text \<open>The batches that had waited for the one just delivered.\<close>

function drain :: "stream_setup \<Rightarrow> coord \<Rightarrow> unit result \<times> coord" where
  "drain C s =
     (case map_of (pending s) (next_seq s) of
        None \<Rightarrow> (Inr (), s)
      | Some b \<Rightarrow>
          (let t = s\<lparr>pending := AList.delete (next_seq s) (pending s), reorder_bytes := reorder_bytes s - array_size C b\<rparr>
           in case deliver C (next_seq t) b t of
                (Inl err, u) \<Rightarrow> (Inl err, u)
              | (Inr _, u) \<Rightarrow> drain C (u\<lparr>next_seq := next_seq t + 1\<rparr>)))"
  by pat_completeness auto

termination drain
  by (relation "measure (\<lambda>(C, s). length (pending s))") (auto simp: deliver_def delete_shorter split: sum.splits)

declare drain.simps [simp del]

text \<open>One message of the channel.\<close>

definition receive :: "stream_setup \<Rightarrow> nat \<times> record_batch result \<Rightarrow> coord \<Rightarrow> unit result \<times> coord" where
  "receive C msg s =
     (let (seq, res) = msg
      in case res of
           Inl err \<Rightarrow> (Inl err, s)
         | Inr b \<Rightarrow>
             if \<not> ordered C then deliver C seq b s
             else if seq = next_seq s
             then (case deliver C seq b s of
                     (Inl err, t) \<Rightarrow> (Inl err, t)
                   | (Inr _, t) \<Rightarrow>
                       (case drain C (t\<lparr>next_seq := next_seq t + 1\<rparr>) of
                          (Inl err, u) \<Rightarrow> (Inl err, u)
                        | (Inr _, u) \<Rightarrow> (Inr (), u\<lparr>dispatch := Some (next_seq u)\<rparr>)))
             else (let bytes = sat_add (reorder_bytes s) (array_size C b); t = s\<lparr>reorder_bytes := bytes\<rparr>
                   in if strict_budget C \<and> max_reorder_bytes C < bytes
                      then (Inl (Memory_error bytes (max_reorder_bytes C)), t)
                      else (Inr (), t\<lparr>pending := AList.update seq b (pending t)\<rparr>)))"

section \<open>The steps\<close>

definition is_err :: "'a result \<Rightarrow> bool" where
  "is_err r = (case r of Inl _ \<Rightarrow> True | Inr _ \<Rightarrow> False)"

inductive stream_step :: "stream_setup \<Rightarrow> coord \<Rightarrow> coord \<Rightarrow> bool" for C where
  pop: "i < length (workers s) \<Longrightarrow> workers s ! i = Ready \<Longrightarrow> queue s = q @ [n] \<Longrightarrow>
    stream_step C s (s\<lparr>queue := q, workers := (workers s)[i := if ordered C then Waiting n else Running n]\<rparr>)"
| no_chunk: "i < length (workers s) \<Longrightarrow> workers s ! i = Ready \<Longrightarrow> queue s = [] \<Longrightarrow>
    stream_step C s (s\<lparr>workers := (workers s)[i := Exited]\<rparr>)"
| dispatched: "i < length (workers s) \<Longrightarrow> workers s ! i = Waiting n \<Longrightarrow> dispatch s = Some d \<Longrightarrow>
    n < sat_add d (dispatch_window C) \<Longrightarrow> stream_step C s (s\<lparr>workers := (workers s)[i := Running n]\<rparr>)"
| cancelled: "i < length (workers s) \<Longrightarrow> workers s ! i = Waiting n \<Longrightarrow> dispatch s = None \<Longrightarrow>
    stream_step C s (s\<lparr>workers := (workers s)[i := Exited]\<rparr>)"
| parsed: "i < length (workers s) \<Longrightarrow> workers s ! i = Running n \<Longrightarrow>
    stream_step C s (s\<lparr>workers := (workers s)[i := Sending n (chunk_result C n)]\<rparr>)"
| sent: "i < length (workers s) \<Longrightarrow> workers s ! i = Sending n r \<Longrightarrow> outcome s = None \<Longrightarrow> length (channel s) < channel_cap C \<Longrightarrow>
    stream_step C s (s\<lparr>channel := channel s @ [(n, r)], workers := (workers s)[i := if is_err r then Exited else Ready]\<rparr>)"
| disconnected: "i < length (workers s) \<Longrightarrow> workers s ! i = Sending n r \<Longrightarrow> outcome s \<noteq> None \<Longrightarrow>
    stream_step C s (s\<lparr>workers := (workers s)[i := Exited]\<rparr>)"
| received: "outcome s = None \<Longrightarrow> channel s = m # ch \<Longrightarrow> receive C m (s\<lparr>channel := ch\<rparr>) = (Inr (), t) \<Longrightarrow> stream_step C s t"
| failed: "outcome s = None \<Longrightarrow> channel s = m # ch \<Longrightarrow> receive C m (s\<lparr>channel := ch\<rparr>) = (Inl err, t) \<Longrightarrow>
    stream_step C s (t\<lparr>channel := [], outcome := Some (Inl err)\<rparr>)"
| closed: "outcome s = None \<Longrightarrow> channel s = [] \<Longrightarrow> \<forall>w \<in> set (workers s). w = Exited \<Longrightarrow>
    stream_step C s (s\<lparr>outcome := Some (Inr ())\<rparr>)"
| guard_dropped: "outcome s \<noteq> None \<Longrightarrow> dispatch s \<noteq> None \<Longrightarrow> stream_step C s (s\<lparr>dispatch := None\<rparr>)"

inductive stream_reaches :: "stream_setup \<Rightarrow> coord \<Rightarrow> coord \<Rightarrow> bool" for C where
  here: "stream_reaches C s s"
| there: "stream_reaches C s t \<Longrightarrow> stream_step C t u \<Longrightarrow> stream_reaches C s u"

text \<open>Everything has come to its end: the loop has returned and the workers can be joined.\<close>

definition finished :: "coord \<Rightarrow> bool" where
  "finished s \<longleftrightarrow> outcome s \<noteq> None \<and> dispatch s = None \<and> (\<forall>w \<in> set (workers s). w = Exited)"

end
