(* ===== verification/Coordinator_Laws.thy ===== *)
theory Coordinator_Laws
  imports Coordinator
begin

text \<open>
  What the parallel streaming run promises, for every interleaving: batches reach the consumer
  once and in order, the reorder buffer and the memory of the run stay within the budget, no
  state is stuck and every run ends.
\<close>

inductive_cases stream_stepE: "stream_step C s t"

section \<open>Where the chunks are\<close>

fun held :: "worker \<Rightarrow> nat multiset" where
  "held (Waiting n) = {#n#}"
| "held (Running n) = {#n#}"
| "held (Sending n r) = {#n#}"
| "held _ = {#}"

definition held_all :: "worker list \<Rightarrow> nat multiset" where
  "held_all ws = sum_list (map held ws)"

lemma held_update:
  assumes "i < length ws"
  shows "held_all (ws[i := w]) + held (ws ! i) = held_all ws + held w"
  using assms
proof (induction ws arbitrary: i)
  case (Cons x ws)
  then show ?case
  proof (cases i)
    case (Suc j)
    then have "held_all (ws[j := w]) + held (ws ! j) = held_all ws + held w" using Cons by simp
    then show ?thesis using Suc by (simp add: held_all_def union_assoc)
  qed (simp add: held_all_def union_ac)
qed simp

lemma held_mem: "n \<in># held_all ws \<longleftrightarrow> (\<exists>w \<in> set ws. n \<in># held w)"
  by (induction ws) (auto simp: held_all_def)

definition keys :: "('a \<times> 'b) list \<Rightarrow> 'a list" where
  "keys xs = map fst xs"

lemma keys_simps [simp]: "keys [] = []" "keys ((n, x) # xs) = n # keys xs" "keys (xs @ ys) = keys xs @ keys ys"
  by (simp_all add: keys_def)

text \<open>All chunks taken from the queue so far, wherever they are.\<close>

definition in_play :: "coord \<Rightarrow> nat multiset" where
  "in_play s = held_all (workers s) + mset (keys (channel s)) + mset (keys (pending s)) + mset (keys (delivered s))"

text \<open>What the coordinator's own state keeps between messages, and while it drains.\<close>

definition pending_bytes :: "stream_setup \<Rightarrow> coord \<Rightarrow> nat" where
  "pending_bytes C s = sum_list (map (array_size C \<circ> snd) (pending s))"

definition coord_ok :: "stream_setup \<Rightarrow> coord \<Rightarrow> bool" where
  "coord_ok C s \<longleftrightarrow>
     (\<forall>(n, b) \<in> set (pending s) \<union> set (delivered s). chunk_result C n = Inr b) \<and>
     (if ordered C then keys (delivered s) = [0..<next_seq s] else pending s = []) \<and>
     distinct (keys (pending s)) \<and> reorder_bytes s \<le> pending_bytes C s"

definition rest_same :: "coord \<Rightarrow> coord \<Rightarrow> bool" where
  "rest_same s t \<longleftrightarrow> queue t = queue s \<and> workers t = workers s \<and> channel t = channel s \<and> outcome t = outcome s"

lemma delete_keys:
  assumes "map_of al k = Some v" "distinct (keys al)"
  shows "mset (keys al) = add_mset k (mset (keys (AList.delete k al)))" "distinct (keys (AList.delete k al))"
    "set (AList.delete k al) \<subseteq> set al"
    "sum_list (map (f \<circ> snd) al) = f v + sum_list (map (f \<circ> snd) (AList.delete k al) :: nat list)"
  using assms
proof (induction al)
  case (Cons x al)
  obtain k' v' where x: "x = (k', v')" by fastforce
  have same: "k \<notin> set (keys al) \<Longrightarrow> AList.delete k al = al"
    by (induction al) (auto simp: keys_def)
  {
    case 1 then show ?case using Cons same x by (auto split: if_splits)
  next
    case 2 then show ?case using Cons same x by (auto simp: keys_def split: if_splits)
  next
    case 3 then show ?case using Cons same x by (auto split: if_splits)
  next
    case 4 then show ?case using Cons same x by (auto split: if_splits)
  }
qed simp_all

lemma add_mset_set: "mset xs = add_mset k (mset ys) \<Longrightarrow> set xs = insert k (set ys)"
  by (metis set_mset_add_mset_insert set_mset_mset)

definition consumer_fails :: "stream_setup \<Rightarrow> error \<Rightarrow> bool" where
  "consumer_fails C err \<longleftrightarrow> (\<exists>bs b. consume C bs b = Inl err)"

lemma deliver_ok:
  assumes "coord_ok C s" "chunk_result C n = Inr b" "ordered C \<longrightarrow> n = next_seq s" "deliver C n b s = (r, t)"
  shows "rest_same s t \<and> pending t = pending s \<and> dispatch t = dispatch s \<and> next_seq t = next_seq s \<and>
    (case r of Inl err \<Rightarrow> t = s \<and> consumer_fails C err
     | Inr _ \<Rightarrow> coord_ok C (if ordered C then t\<lparr>next_seq := next_seq t + 1\<rparr> else t) \<and>
                mset (keys (delivered t)) = add_mset n (mset (keys (delivered s))))"
  using assms
  by (auto simp: deliver_def coord_ok_def rest_same_def consumer_fails_def pending_bytes_def split: sum.splits if_splits)

lemma drain_ok:
  assumes "drain C s = (r, t)" "coord_ok C s" "ordered C"
  shows "rest_same s t \<and> dispatch t = dispatch s \<and> coord_ok C t \<and> next_seq s \<le> next_seq t \<and>
    set (pending t) \<subseteq> set (pending s) \<and> set (keys (delivered t)) \<subseteq> set (keys (pending s)) \<union> set (keys (delivered s)) \<and>
    (case r of Inl err \<Rightarrow> consumer_fails C err
     | Inr _ \<Rightarrow> map_of (pending t) (next_seq t) = None \<and>
         mset (keys (pending t)) + mset (keys (delivered t)) = mset (keys (pending s)) + mset (keys (delivered s)))"
  using assms
proof (induction C s arbitrary: r t rule: drain.induct)
  case (1 C s)
  show ?case
  proof (cases "map_of (pending s) (next_seq s)")
    case None
    with 1(2,3) show ?thesis by (subst (asm) drain.simps) (auto simp: rest_same_def)
  next
    case (Some b)
    let ?t = "s\<lparr>pending := AList.delete (next_seq s) (pending s), reorder_bytes := reorder_bytes s - array_size C b\<rparr>"
    have b: "chunk_result C (next_seq s) = Inr b" using map_of_SomeD [OF Some] 1(3) by (auto simp: coord_ok_def)
    have dist: "distinct (keys (pending s))" using 1(3) by (simp add: coord_ok_def)
    note del = delete_keys(1-3) [OF Some dist]
    have ok: "coord_ok C ?t"
      using 1(3) del delete_keys(4) [OF Some dist, of "array_size C"] by (auto simp: coord_ok_def pending_bytes_def)
    obtain r' u where u: "deliver C (next_seq ?t) b ?t = (r', u)" by fastforce
    note d = deliver_ok [OF ok _ _ u, simplified, OF b]
    show ?thesis
    proof (cases r')
      case (Inl err)
      then have "(r, t) = (Inl err, u)" using 1(2) Some u by (subst (asm) drain.simps) (simp add: Let_def)
      then have "r = Inl err" "t = ?t" "consumer_fails C err" using d Inl by auto
      then show ?thesis using ok del(3) by (simp add: rest_same_def)
    next
      case (Inr x)
      have "drain C (u\<lparr>next_seq := next_seq ?t + 1\<rparr>) = (r, t)"
        using 1(2) Some u Inr by (subst (asm) drain.simps) (simp add: Let_def)
      moreover have nu: "next_seq u = next_seq ?t" using d by simp
      have "coord_ok C (u\<lparr>next_seq := next_seq u + 1\<rparr>)" using d Inr 1(4) by auto
      then have "coord_ok C (u\<lparr>next_seq := next_seq ?t + 1\<rparr>)" unfolding nu .
      ultimately have ih: "rest_same (u\<lparr>next_seq := next_seq ?t + 1\<rparr>) t \<and> dispatch t = dispatch u \<and> coord_ok C t \<and>
          next_seq ?t + 1 \<le> next_seq t \<and> set (pending t) \<subseteq> set (pending u) \<and>
           set (keys (delivered t)) \<subseteq> set (keys (pending u)) \<union> set (keys (delivered u)) \<and>
          (case r of Inl err \<Rightarrow> consumer_fails C err
           | Inr _ \<Rightarrow> map_of (pending t) (next_seq t) = None \<and>
               mset (keys (pending t)) + mset (keys (delivered t)) = mset (keys (pending u)) + mset (keys (delivered u)))"
        using 1(1) [OF Some refl u [symmetric] Inr] 1(4) by (auto split: sum.splits)
      have sets: "set (keys (pending s)) = insert (next_seq s) (set (keys (AList.delete (next_seq s) (pending s))))"
        "set (keys (delivered u)) = insert (next_seq s) (set (keys (delivered s)))"
        using add_mset_set [OF del(1)] add_mset_set [of "keys (delivered u)" "next_seq s" "keys (delivered s)"] d Inr by auto
      from del(1,3) d Inr ih sets show ?thesis by (auto simp: rest_same_def split: sum.splits)
    qed
  qed
qed

section \<open>The invariant of a running coordinator\<close>

definition active :: "coord \<Rightarrow> nat set" where
  "active s = {n. Running n \<in> set (workers s) \<or> (\<exists>r. Sending n r \<in> set (workers s))} \<union> set (keys (channel s)) \<union> set (keys (pending s))"

definition run_ok :: "stream_setup \<Rightarrow> coord \<Rightarrow> bool" where
  "run_ok C s \<longleftrightarrow>
     (\<exists>k \<le> chunk_count C. queue s = rev [k..<chunk_count C] \<and> in_play s = mset [0..<k]) \<and>
     (\<forall>n r. Sending n r \<in> set (workers s) \<or> (n, r) \<in> set (channel s) \<longrightarrow> r = chunk_result C n) \<and>
     (\<forall>n. Waiting n \<in> set (workers s) \<longrightarrow> ordered C) \<and>
     workers s \<noteq> [] \<and> length (channel s) \<le> channel_cap C \<and> coord_ok C s \<and> dispatch s = Some (next_seq s) \<and>
     (ordered C \<longrightarrow> map_of (pending s) (next_seq s) = None \<and> (\<forall>n \<in> active s. n < sat_add (next_seq s) (dispatch_window C))) \<and>
     (Exited \<in> set (workers s) \<longrightarrow> queue s = [] \<or> (\<exists>(n, r) \<in> set (channel s). is_err r))"

text \<open>The setup holds what a worker checks of its batch, and the reorder limit is that of the window.\<close>

definition batches_fit :: "stream_setup \<Rightarrow> bool" where
  "batches_fit C \<longleftrightarrow> (\<exists>a. (\<forall>n < chunk_count C. \<forall>b. chunk_result C n = Inr b \<longrightarrow> array_size C b \<le> a) \<and>
     (dispatch_window C - 1) * a \<le> max_reorder_bytes C)"

definition error_from :: "stream_setup \<Rightarrow> error \<Rightarrow> bool" where
  "error_from C err \<longleftrightarrow> (\<exists>n < chunk_count C. chunk_result C n = Inl err) \<or> consumer_fails C err \<or>
     (ordered C \<and> strict_budget C \<and> \<not> batches_fit C)"

definition delivered_ok :: "stream_setup \<Rightarrow> coord \<Rightarrow> bool" where
  "delivered_ok C s \<longleftrightarrow> (\<forall>(n, b) \<in> set (delivered s). chunk_result C n = Inr b) \<and> distinct (keys (delivered s)) \<and>
     set (keys (delivered s)) \<subseteq> {..<chunk_count C} \<and> (ordered C \<longrightarrow> keys (delivered s) = [0..<length (delivered s)])"

definition stream_ok :: "stream_setup \<Rightarrow> coord \<Rightarrow> bool" where
  "stream_ok C s \<longleftrightarrow> delivered_ok C s \<and>
     (case outcome s of None \<Rightarrow> run_ok C s
      | Some (Inl err) \<Rightarrow> error_from C err
      | Some (Inr _) \<Rightarrow> mset (keys (delivered s)) = mset [0..<chunk_count C])"

lemma in_play_facts:
  assumes "in_play s = mset [0..<k]"
  shows "distinct (keys (channel s))" "distinct (keys (pending s))" "distinct (keys (delivered s))"
    "set (keys (channel s)) \<inter> (set (keys (pending s)) \<union> set (keys (delivered s))) = {}"
    "set (keys (pending s)) \<inter> set (keys (delivered s)) = {}"
    "set (keys (delivered s)) \<union> set (keys (channel s)) \<union> set (keys (pending s)) \<subseteq> {..<k}"
    "n \<in># held_all (workers s) \<Longrightarrow> n < k \<and> n \<notin> set (keys (channel s)) \<union> set (keys (pending s)) \<union> set (keys (delivered s))"
proof -
  let ?all = "keys (channel s) @ keys (pending s) @ keys (delivered s)"
  obtain ws where ws: "mset ws = held_all (workers s)" using ex_mset by blast
  then have eq: "mset (ws @ ?all) = mset [0..<k]" using assms by (simp add: in_play_def union_ac)
  have dist: "distinct (ws @ ?all)" unfolding mset_eq_imp_distinct_iff [OF eq] by (rule distinct_upt)
  have cover: "set (ws @ ?all) = {..<k}" unfolding atLeast_upt by (rule mset_eq_setD [OF eq])
  have mem: "n \<in># held_all (workers s) \<longleftrightarrow> n \<in> set ws" by (simp flip: ws)
  show "distinct (keys (channel s))" "distinct (keys (pending s))" "distinct (keys (delivered s))"
    using dist unfolding distinct_append by blast+
  show "set (keys (channel s)) \<inter> (set (keys (pending s)) \<union> set (keys (delivered s))) = {}"
    "set (keys (pending s)) \<inter> set (keys (delivered s)) = {}"
    using dist unfolding distinct_append set_append by blast+
  show "set (keys (delivered s)) \<union> set (keys (channel s)) \<union> set (keys (pending s)) \<subseteq> {..<k}"
    unfolding cover [symmetric] by auto
  assume "n \<in># held_all (workers s)"
  then have n: "n \<in> set ws" by (simp add: mem)
  then have "n \<in> {..<k}" unfolding cover [symmetric] by simp
  then show "n < k \<and> n \<notin> set (keys (channel s)) \<union> set (keys (pending s)) \<union> set (keys (delivered s))"
    using n dist unfolding distinct_append set_append by blast
qed


lemma run_delivered:
  assumes "run_ok C s"
  shows "delivered_ok C s"
proof -
  obtain k where k: "k \<le> chunk_count C" "in_play s = mset [0..<k]" using assms by (auto simp: run_ok_def)
  have co: "coord_ok C s" using assms by (simp add: run_ok_def)
  have order: "keys (delivered s) = [0..<length (delivered s)]" if o: "ordered C"
  proof -
    have eq: "keys (delivered s) = [0..<next_seq s]" using co o by (simp add: coord_ok_def)
    have "length (delivered s) = next_seq s" using arg_cong [OF eq, of length] by (simp add: keys_def)
    then show ?thesis using eq by simp
  qed
  have "set (keys (delivered s)) \<subseteq> {..<chunk_count C}" using in_play_facts(6) [OF k(2)] k(1) by fastforce
  then show ?thesis using co order in_play_facts(3) [OF k(2)] by (auto simp: delivered_ok_def coord_ok_def)
qed

lemma run_okD:
  assumes "run_ok C s"
  shows "Sending n r \<in> set (workers s) \<Longrightarrow> r = chunk_result C n" "(n, r) \<in> set (channel s) \<Longrightarrow> r = chunk_result C n"
    "Waiting n \<in> set (workers s) \<Longrightarrow> ordered C"
    "Exited \<in> set (workers s) \<Longrightarrow> queue s = [] \<or> (\<exists>(n, r) \<in> set (channel s). is_err r)"
    "ordered C \<Longrightarrow> m \<in> active s \<Longrightarrow> m < sat_add (next_seq s) (dispatch_window C)"
    "workers s \<noteq> []" "length (channel s) \<le> channel_cap C" "coord_ok C s" "dispatch s = Some (next_seq s)"
    "ordered C \<Longrightarrow> map_of (pending s) (next_seq s) = None"
  using assms unfolding run_ok_def by blast+

lemma update_mem: "x \<in> set (ws[i := w]) \<Longrightarrow> x = w \<or> x \<in> set ws"
  using set_update_subset_insert by fastforce

lemma run_ok_worker:
  assumes ok: "run_ok C s" and i: "i < length (workers s)" and held: "held w = held (workers s ! i)"
    and send: "\<And>n r. w = Sending n r \<Longrightarrow> r = chunk_result C n" and wait: "\<And>n. w = Waiting n \<Longrightarrow> ordered C"
    and run: "\<And>n r. ordered C \<Longrightarrow> w = Running n \<or> w = Sending n r \<Longrightarrow> n < sat_add (next_seq s) (dispatch_window C)"
    and exit: "w = Exited \<Longrightarrow> queue s = []"
  shows "run_ok C (s\<lparr>workers := (workers s)[i := w]\<rparr>)"
proof -
  let ?s = "s\<lparr>workers := (workers s)[i := w]\<rparr>"
  have "held_all ((workers s)[i := w]) = held_all (workers s)" using held_update [OF i, of w] held by simp
  then have play: "in_play ?s = in_play s" by (simp add: in_play_def)
  have "active ?s \<subseteq> active s \<union> {n. w = Running n \<or> (\<exists>r. w = Sending n r)}"
    using update_mem [of _ "workers s" i w] by (fastforce simp: active_def)
  then have act: "\<forall>n \<in> active ?s. n < sat_add (next_seq s) (dispatch_window C)" if o: "ordered C"
    using ok run [OF o] o by (auto simp: run_ok_def)
  have co: "coord_ok C ?s" using ok by (simp add: run_ok_def coord_ok_def pending_bytes_def)
  show ?thesis
    unfolding run_ok_def
  proof (intro conjI)
    show "\<forall>n r. Sending n r \<in> set (workers ?s) \<or> (n, r) \<in> set (channel ?s) \<longrightarrow> r = chunk_result C n"
      using ok send update_mem [of _ "workers s" i w] by (fastforce simp: run_ok_def)
    show "\<forall>n. Waiting n \<in> set (workers ?s) \<longrightarrow> ordered C"
      using ok wait update_mem [of _ "workers s" i w] by (fastforce simp: run_ok_def)
    show "Exited \<in> set (workers ?s) \<longrightarrow> queue ?s = [] \<or> (\<exists>(n, r) \<in> set (channel ?s). is_err r)"
      using ok exit update_mem [of _ "workers s" i w] by (fastforce simp: run_ok_def)
    show "\<exists>k \<le> chunk_count C. queue ?s = rev [k..<chunk_count C] \<and> in_play ?s = mset [0..<k]"
      using ok play by (simp add: run_ok_def)
  qed (use ok act co in \<open>auto simp: run_ok_def\<close>)
qed

lemma run_ok_pop:
  assumes ok: "run_ok C s" and i: "i < length (workers s)" "workers s ! i = Ready" and q: "queue s = q @ [n]"
  shows "run_ok C (s\<lparr>queue := q, workers := (workers s)[i := if ordered C then Waiting n else Running n]\<rparr>)" (is "run_ok C ?s")
proof -
  note old = run_okD [OF ok]
  let ?w = "if ordered C then Waiting n else Running n"
  obtain k where k: "k \<le> chunk_count C" "queue s = rev [k..<chunk_count C]" "in_play s = mset [0..<k]"
    using ok by (auto simp: run_ok_def)
  have lt: "k < chunk_count C" using k(1,2) q by (cases "k = chunk_count C") auto
  then have "q @ [n] = rev [Suc k..<chunk_count C] @ [k]" using k(2) q by (simp add: upt_conv_Cons)
  then have n: "n = k" "q = rev [Suc k..<chunk_count C]" by auto
  have "held_all ((workers s)[i := ?w]) = add_mset n (held_all (workers s))" using held_update [OF i(1), of ?w] i(2) by auto
  then have play: "in_play ?s = mset [0..<Suc k]" using k(3) n by (simp add: in_play_def)
  have act: "\<forall>n \<in> active ?s. n < sat_add (next_seq s) (dispatch_window C)" if o: "ordered C"
    using ok o update_mem [of _ "workers s" i ?w] by (fastforce simp: run_ok_def active_def)
  have co: "coord_ok C ?s" using ok by (simp add: run_ok_def coord_ok_def pending_bytes_def)
  have up: "x \<in> set (workers ?s) \<Longrightarrow> x \<noteq> Waiting n \<Longrightarrow> x \<noteq> Running n \<Longrightarrow> x \<in> set (workers s)" for x
    using update_mem [of x "workers s" i ?w] by (auto split: if_splits)
  show ?thesis
    unfolding run_ok_def
  proof (intro conjI)
    show "\<forall>n r. Sending n r \<in> set (workers ?s) \<or> (n, r) \<in> set (channel ?s) \<longrightarrow> r = chunk_result C n"
    proof (intro allI impI)
      fix m x assume "Sending m x \<in> set (workers ?s) \<or> (m, x) \<in> set (channel ?s)"
      then have "Sending m x \<in> set (workers s) \<or> (m, x) \<in> set (channel s)" using up by auto
      then show "x = chunk_result C m" using old(1,2) by blast
    qed
    show "\<forall>n. Waiting n \<in> set (workers ?s) \<longrightarrow> ordered C" 
    proof (intro allI impI)
      fix m assume "Waiting m \<in> set (workers ?s)"
      then have "Waiting m = ?w \<or> Waiting m \<in> set (workers s)" using update_mem [of "Waiting m" "workers s" i ?w] by simp
      then show "ordered C" using old(3) by (cases "ordered C") auto
    qed
    show "Exited \<in> set (workers ?s) \<longrightarrow> queue ?s = [] \<or> (\<exists>(n, r) \<in> set (channel ?s). is_err r)"
      using old(4) up [of Exited] q by auto
    show "\<exists>k \<le> chunk_count C. queue ?s = rev [k..<chunk_count C] \<and> in_play ?s = mset [0..<k]"
    proof (intro exI [of _ "Suc k"] conjI)
      show "Suc k \<le> chunk_count C" using lt by simp
      show "queue ?s = rev [Suc k..<chunk_count C]" using n(2) by simp
    qed (rule play)
  qed (use ok act co in \<open>auto simp: run_ok_def\<close>)
qed

lemma run_ok_sent:
  assumes ok: "run_ok C s" and i: "i < length (workers s)" "workers s ! i = Sending n r" and room: "length (channel s) < channel_cap C"
  shows "run_ok C (s\<lparr>channel := channel s @ [(n, r)], workers := (workers s)[i := if is_err r then Exited else Ready]\<rparr>)" (is "run_ok C ?s")
proof -
  note old = run_okD [OF ok]
  let ?w = "if is_err r then Exited else Ready"
  have mem: "Sending n r \<in> set (workers s)" using i nth_mem by metis
  have "held_all (workers s) = add_mset n (held_all ((workers s)[i := ?w]))"
    using held_update [OF i(1), of ?w] i(2) by (auto split: if_splits)
  then have play: "in_play ?s = in_play s" by (simp add: in_play_def)
  have up: "x \<in> set (workers ?s) \<Longrightarrow> x \<noteq> Ready \<Longrightarrow> x \<noteq> Exited \<Longrightarrow> x \<in> set (workers s)" for x
    using update_mem [of x "workers s" i ?w] by (auto split: if_splits)
  have "active ?s \<subseteq> active s"
  proof
    fix m assume m: "m \<in> active ?s"
    have eq: "set (keys (channel ?s)) = insert n (set (keys (channel s)))" "pending ?s = pending s" by auto
    have "n \<in> active s" using mem by (auto simp: active_def)
    moreover have "Running m \<in> set (workers s) \<or> (\<exists>r. Sending m r \<in> set (workers s)) \<or> m = n \<or> m \<in> set (keys (channel s)) \<or> m \<in> set (keys (pending s))"
      using m up unfolding active_def eq by blast
    ultimately show "m \<in> active s" unfolding active_def by blast
  qed
  then have act: "\<forall>n \<in> active ?s. n < sat_add (next_seq s) (dispatch_window C)" if o: "ordered C"
    using ok o by (auto simp: run_ok_def)
  have co: "coord_ok C ?s" using ok by (simp add: run_ok_def coord_ok_def pending_bytes_def)
  show ?thesis
    unfolding run_ok_def
  proof (intro conjI)
    show "\<forall>n r. Sending n r \<in> set (workers ?s) \<or> (n, r) \<in> set (channel ?s) \<longrightarrow> r = chunk_result C n"
    proof (intro allI impI)
      fix m x assume "Sending m x \<in> set (workers ?s) \<or> (m, x) \<in> set (channel ?s)"
      then have "Sending m x \<in> set (workers s) \<or> (m, x) \<in> set (channel s)" using up mem by auto
      then show "x = chunk_result C m" using old(1,2) by blast
    qed
    show "\<forall>n. Waiting n \<in> set (workers ?s) \<longrightarrow> ordered C" using old(3) up by blast
    show "Exited \<in> set (workers ?s) \<longrightarrow> queue ?s = [] \<or> (\<exists>(n, r) \<in> set (channel ?s). is_err r)"
      using old(4) update_mem [of Exited "workers s" i ?w] by (auto split: if_splits)
    show "\<exists>k \<le> chunk_count C. queue ?s = rev [k..<chunk_count C] \<and> in_play ?s = mset [0..<k]"
      using ok play by (simp add: run_ok_def)
  qed (use ok act co room in \<open>auto simp: run_ok_def\<close>)
qed

section \<open>A message keeps the invariant\<close>

lemma window_sum:
  assumes "distinct (keys xs)" "\<And>n b. (n, b) \<in> set xs \<Longrightarrow> next < n \<and> n < next + w \<and> f b \<le> (a :: nat)"
  shows "sum_list (map (f \<circ> snd) xs) \<le> (w - 1) * a"
proof -
  have "set (keys xs) \<subseteq> {Suc next..<next + w}" using assms(2) by (auto simp: keys_def Suc_le_eq)
  then have "card (set (keys xs)) \<le> w - 1" using card_mono [of "{Suc next..<next + w}"] by fastforce
  then have len: "length xs \<le> w - 1" using distinct_card [OF assms(1)] by (simp add: keys_def)
  have "sum_list (map (f \<circ> snd) xs) \<le> sum_list (map (\<lambda>_. a) xs)" by (rule sum_list_mono) (use assms(2) in fastforce)
  also have "\<dots> = length xs * a" by (simp add: sum_list_triv)
  also have "\<dots> \<le> (w - 1) * a" using len by simp
  finally show ?thesis .
qed

text \<open>The message is of the run: it is not delivered yet, nor waiting, and within the window.\<close>

lemma in_play_bound:
  assumes "run_ok C s"
  shows "set (keys (pending s)) \<union> set (keys (delivered s)) \<subseteq> {..<chunk_count C}"
proof -
  obtain k where k: "k \<le> chunk_count C" "in_play s = mset [0..<k]" using assms by (auto simp: run_ok_def)
  then show ?thesis using in_play_facts(6) [OF k(2)] by fastforce
qed

lemma update_new: "k \<notin> set (keys al) \<Longrightarrow> AList.update k v al = al @ [(k, v)]"
  by (induction al) (auto simp: keys_def)

lemma message_facts:
  assumes ok: "run_ok C s" and ch: "channel s = (n, r) # ch"
  shows "r = chunk_result C n" "n < chunk_count C" "n \<notin> set (keys (pending s))"
    "ordered C \<Longrightarrow> next_seq s \<le> n \<and> n < sat_add (next_seq s) (dispatch_window C)"
    "ordered C \<Longrightarrow> m \<in> set (keys (pending s)) \<Longrightarrow> next_seq s < m \<and> m < sat_add (next_seq s) (dispatch_window C)"
proof -
  obtain k where k: "k \<le> chunk_count C" "in_play s = mset [0..<k]" using ok by (auto simp: run_ok_def)
  note facts = in_play_facts [OF k(2)]
  have act: "set (keys (channel s)) \<union> set (keys (pending s)) \<subseteq> active s" by (auto simp: active_def)
  have win: "ordered C \<Longrightarrow> \<forall>m \<in> active s. m < sat_add (next_seq s) (dispatch_window C)" using ok by (simp add: run_ok_def)
  have del: "ordered C \<Longrightarrow> set (keys (delivered s)) = {..<next_seq s}" using ok by (auto simp: run_ok_def coord_ok_def)
  have none: "ordered C \<Longrightarrow> next_seq s \<notin> set (keys (pending s))" using ok by (auto simp: run_ok_def map_of_eq_None_iff keys_def)
  have n: "n \<in> set (keys (channel s))" using ch by simp
  show "r = chunk_result C n" using ok ch by (auto simp: run_ok_def)
  show "n < chunk_count C" "n \<notin> set (keys (pending s))" using facts(4,6) n k(1) by fastforce+
  show "ordered C \<Longrightarrow> next_seq s \<le> n \<and> n < sat_add (next_seq s) (dispatch_window C)"
    using facts(4) n del win act by (fastforce simp: not_less [symmetric])
  show "ordered C \<Longrightarrow> m \<in> set (keys (pending s)) \<Longrightarrow> next_seq s < m \<and> m < sat_add (next_seq s) (dispatch_window C)"
    using facts(5) del win act none by (metis Int_iff Un_subset_iff empty_iff lessThan_iff linorder_neqE_nat subsetD)
qed

lemma delivered_ordered:
  assumes "coord_ok C t" "ordered C" "set (keys (delivered t)) \<subseteq> {..<chunk_count C}"
  shows "delivered_ok C t"
proof -
  have eq: "keys (delivered t) = [0..<next_seq t]" using assms(1,2) by (simp add: coord_ok_def)
  have "length (delivered t) = next_seq t" using arg_cong [OF eq, of length] by (simp add: keys_def)
  then show ?thesis using assms eq by (auto simp: delivered_ok_def coord_ok_def)
qed

lemma run_ok_received:
  assumes ok: "run_ok C s" and ch: "channel s = (n, r) # ch" and r: "\<not> is_err r" and same: "rest_same (s\<lparr>channel := ch\<rparr>) t"
    and co: "coord_ok C t" "dispatch t = Some (next_seq t)" "ordered C \<Longrightarrow> map_of (pending t) (next_seq t) = None" "next_seq s \<le> next_seq t"
    and moved: "mset (keys (pending t)) + mset (keys (delivered t)) = add_mset n (mset (keys (pending s)) + mset (keys (delivered s)))"
    and sub: "set (keys (pending t)) \<subseteq> insert n (set (keys (pending s)))"
  shows "run_ok C t"
proof -
  note old = run_okD [OF ok]
  have eq: "queue t = queue s" "workers t = workers s" "channel t = ch" using same by (simp_all add: rest_same_def)
  have play: "in_play t = in_play s" using moved by (simp add: in_play_def eq ch)
  have "active t \<subseteq> active s" using sub unfolding active_def eq ch by auto
  moreover have "sat_add (next_seq s) w \<le> sat_add (next_seq t) w" for w using co(4) by (simp add: sat_add_def)
  ultimately have act: "\<forall>m \<in> active t. m < sat_add (next_seq t) (dispatch_window C)" if o: "ordered C"
    using old(5) [OF o] by (meson less_le_trans subsetD)
  show ?thesis
    unfolding run_ok_def eq play
  proof (intro conjI)
    show "\<exists>k \<le> chunk_count C. queue s = rev [k..<chunk_count C] \<and> in_play s = mset [0..<k]"
      using ok unfolding run_ok_def by blast
    show "\<forall>n r. Sending n r \<in> set (workers s) \<or> (n, r) \<in> set ch \<longrightarrow> r = chunk_result C n"
      using old(1,2) ch by (metis list.set_intros(2))
    show "Exited \<in> set (workers s) \<longrightarrow> queue s = [] \<or> (\<exists>(n, r) \<in> set ch. is_err r)" using old(4) ch r by auto
  qed (use old(3,6,7) act co ch in auto)
qed

lemma message_start:
  assumes "run_ok C s" "channel s = (n, Inr b) # ch"
  shows "coord_ok C (s\<lparr>channel := ch\<rparr>)" "delivered_ok C (s\<lparr>channel := ch\<rparr>)" "chunk_result C n = Inr b"
  using run_okD(8) [OF assms(1)] run_delivered [OF assms(1)] message_facts(1) [OF assms]
  by (simp_all add: coord_ok_def pending_bytes_def delivered_ok_def)

lemma receive_unordered:
  assumes ok: "run_ok C s" and out: "outcome s = None" and ch: "channel s = (n, Inr b) # ch"
    and rec: "receive C (n, Inr b) (s\<lparr>channel := ch\<rparr>) = (res, t)" and o: "\<not> ordered C"
  shows "case res of Inl err \<Rightarrow> error_from C err \<and> delivered_ok C t | Inr _ \<Rightarrow> run_ok C t \<and> outcome t = None"
proof -
  let ?s = "s\<lparr>channel := ch\<rparr>"
  note old = run_okD [OF ok] and msg = message_facts [OF ok ch] and start = message_start [OF ok ch]
  have ne: "\<not> is_err (Inr b)" by (simp add: is_err_def)
  then have d: "deliver C n b ?s = (res, t)" using rec o by (simp add: receive_def)
  show ?thesis
  proof (cases res)
    case (Inl err)
    then show ?thesis using deliver_ok [OF start(1,3) _ d] o start(2) by (auto simp: error_from_def)
  next
    case (Inr x)
    then have t: "rest_same ?s t" "coord_ok C t" "pending t = pending s" "dispatch t = dispatch s" "next_seq t = next_seq s"
      "mset (keys (delivered t)) = add_mset n (mset (keys (delivered s)))"
      using deliver_ok [OF start(1,3) _ d] o by auto
    have "run_ok C t" by (rule run_ok_received [OF ok ch ne t(1,2)]) (use t o old(9) in auto)
    then show ?thesis using Inr t(1) out by (simp add: rest_same_def)
  qed
qed

lemma receive_next:
  assumes ok: "run_ok C s" and out: "outcome s = None" and ch: "channel s = (n, Inr b) # ch"
    and rec: "receive C (n, Inr b) (s\<lparr>channel := ch\<rparr>) = (res, t)" and o: "ordered C" and n: "n = next_seq s"
  shows "case res of Inl err \<Rightarrow> error_from C err \<and> delivered_ok C t | Inr _ \<Rightarrow> run_ok C t \<and> outcome t = None"
proof -
  let ?s = "s\<lparr>channel := ch\<rparr>"
  note old = run_okD [OF ok] and msg = message_facts [OF ok ch] and start = message_start [OF ok ch]
  have ne: "\<not> is_err (Inr b)" by (simp add: is_err_def)
  obtain r' u where u: "deliver C n b ?s = (r', u)" by fastforce
  note d = deliver_ok [OF start(1,3) _ u]
  show ?thesis
  proof (cases r')
    case (Inl err)
    then have "res = Inl err" "t = u" using rec o n u by (simp_all add: receive_def)
    then show ?thesis using d Inl o n start(2) by (auto simp: error_from_def)
  next
    case (Inr x)
    let ?u = "u\<lparr>next_seq := next_seq u + 1\<rparr>"
    have d: "rest_same ?s u" "pending u = pending s" "next_seq u = next_seq s" "coord_ok C ?u"
      "mset (keys (delivered u)) = add_mset n (mset (keys (delivered s)))"
      using d Inr o n by auto
    obtain r'' v where v: "drain C ?u = (r'', v)" by fastforce
    note dr = drain_ok [OF v d(4) o]
    have same: "rest_same ?s v" using dr d(1) by (auto simp: rest_same_def)
    show ?thesis
    proof (cases r'')
      case (Inl err)
      then have res: "res = Inl err" "t = v" using rec o n u v Inr by (simp_all add: receive_def)
      have "set (keys (delivered v)) \<subseteq> set (keys (pending s)) \<union> insert n (set (keys (delivered s)))"
        using dr d(2) add_mset_set [OF d(5)] by auto
      moreover have "set (keys (pending s)) \<union> insert n (set (keys (delivered s))) \<subseteq> {..<chunk_count C}"
        using in_play_bound [OF ok] msg(2) by auto
      ultimately have "delivered_ok C v" using delivered_ordered [of C v] dr o by auto
      then show ?thesis using dr Inl res by (auto simp: error_from_def)
    next
      case (Inr y)
      then have t: "res = Inr ()" "t = v\<lparr>dispatch := Some (next_seq v)\<rparr>"
        using rec o n u v \<open>r' = Inr x\<close> Inr by (simp_all add: receive_def)
      have "run_ok C t"
      proof (rule run_ok_received [OF ok ch ne])
        show "rest_same ?s t" using same t(2) by (simp add: rest_same_def)
        show "coord_ok C t" using dr t(2) by (simp add: coord_ok_def pending_bytes_def)
        show "mset (keys (pending t)) + mset (keys (delivered t)) = add_mset n (mset (keys (pending s)) + mset (keys (delivered s)))"
          using dr Inr t(2) d(2,5) by auto
        show "set (keys (pending t)) \<subseteq> insert n (set (keys (pending s)))" using dr t(2) d(2) by (auto simp: keys_def)
      qed (use dr Inr t(2) d(3) in auto)
      then show ?thesis using t same out by (simp add: rest_same_def)
    qed
  qed
qed

lemma receive_early:
  assumes ok: "run_ok C s" and out: "outcome s = None" and ch: "channel s = (n, Inr b) # ch"
    and rec: "receive C (n, Inr b) (s\<lparr>channel := ch\<rparr>) = (res, t)" and o: "ordered C" and n: "n \<noteq> next_seq s"
  shows "case res of Inl err \<Rightarrow> error_from C err \<and> delivered_ok C t | Inr _ \<Rightarrow> run_ok C t \<and> outcome t = None"
proof -
  let ?s = "s\<lparr>channel := ch\<rparr>"
  note old = run_okD [OF ok] and msg = message_facts [OF ok ch] and start = message_start [OF ok ch]
  have ne: "\<not> is_err (Inr b)" by (simp add: is_err_def)
  let ?bytes = "sat_add (reorder_bytes s) (array_size C b)"
  show ?thesis
  proof (cases "strict_budget C \<and> max_reorder_bytes C < ?bytes")
    case True
    then have res: "res = Inl (Memory_error ?bytes (max_reorder_bytes C))" "t = ?s\<lparr>reorder_bytes := ?bytes\<rparr>"
      using rec o n by (auto simp: receive_def Let_def)
    have "\<not> batches_fit C"
    proof
      assume "batches_fit C"
      then obtain a where a: "\<And>n b. n < chunk_count C \<Longrightarrow> chunk_result C n = Inr b \<Longrightarrow> array_size C b \<le> a"
        "(dispatch_window C - 1) * a \<le> max_reorder_bytes C" by (auto simp: batches_fit_def)
      have "sum_list (map (array_size C \<circ> snd) ((n, b) # pending s)) \<le> (dispatch_window C - 1) * a"
      proof (rule window_sum)
        show "distinct (keys ((n, b) # pending s))" using old(8) msg(3) by (simp add: coord_ok_def)
        fix m b' assume mem: "(m, b') \<in> set ((n, b) # pending s)"
        then have "m \<in> insert n (set (keys (pending s)))" by (force simp: keys_def)
        then have "next_seq s < m \<and> m < sat_add (next_seq s) (dispatch_window C) \<and> m < chunk_count C"
          using msg(2,4) msg(5) [of m] o n in_play_bound [OF ok] by auto
        moreover have "chunk_result C m = Inr b'" using mem start(3) old(8) by (auto simp: coord_ok_def)
        ultimately show "next_seq s < m \<and> m < next_seq s + dispatch_window C \<and> array_size C b' \<le> a"
          using a(1) by (auto simp: sat_add_def)
      qed
      moreover have "?bytes \<le> reorder_bytes s + array_size C b" by (simp add: sat_add_def)
      moreover have "reorder_bytes s \<le> sum_list (map (array_size C \<circ> snd) (pending s))"
        using old(8) by (simp add: coord_ok_def pending_bytes_def)
      ultimately show False using True a(2) by simp
    qed
    then have "error_from C (Memory_error ?bytes (max_reorder_bytes C))" using True o n by (simp add: error_from_def)
    moreover have "delivered_ok C t" using start(2) res(2) by (simp add: delivered_ok_def)
    ultimately show ?thesis using res(1) by simp
  next
    case False
    then have t: "res = Inr ()" "t = ?s\<lparr>reorder_bytes := ?bytes, pending := AList.update n b (pending s)\<rparr>"
      using rec o n by (auto simp: receive_def Let_def)
    have upd: "AList.update n b (pending s) = pending s @ [(n, b)]" using msg(3) by (simp add: update_new)
    have le: "?bytes \<le> pending_bytes C s + array_size C b" using old(8) by (auto simp: coord_ok_def sat_add_def)
    have "run_ok C t"
    proof (rule run_ok_received [OF ok ch ne])
      show "rest_same ?s t" using t(2) by (simp add: rest_same_def)
      show "coord_ok C t" using old(8) t(2) o start(3) le msg(3) unfolding upd by (auto simp: coord_ok_def pending_bytes_def)
      show "map_of (pending t) (next_seq t) = None" if "ordered C"
        using old(10) [OF that] t(2) n by (simp add: upd map_add_def)
    qed (use t(2) old(9) in \<open>auto simp: upd\<close>)
    then show ?thesis using t out by simp
  qed
qed

lemma receive_ok:
  assumes ok: "run_ok C s" and out: "outcome s = None" and ch: "channel s = (n, r) # ch"
    and rec: "receive C (n, r) (s\<lparr>channel := ch\<rparr>) = (res, t)"
  shows "case res of Inl err \<Rightarrow> error_from C err \<and> delivered_ok C t | Inr _ \<Rightarrow> run_ok C t \<and> outcome t = None"
proof (cases r)
  case (Inl err)
  then have "res = Inl err" "t = s\<lparr>channel := ch\<rparr>" using rec by (simp_all add: receive_def)
  moreover have "error_from C err" using message_facts(1,2) [OF ok ch] Inl by (auto simp: error_from_def)
  ultimately show ?thesis using run_delivered [OF ok] by (simp add: delivered_ok_def)
next
  case (Inr b)
  then show ?thesis
    using receive_unordered [OF ok out] receive_next [OF ok out] receive_early [OF ok out] ch rec by blast
qed

end
