(* ===== verification/Stream_Runs.thy ===== *)
theory Stream_Runs
  imports Coordinator_Laws
begin

text \<open>
  The runs of the parallel stream: every step keeps \<open>stream_ok\<close>, the consumer therefore sees
  each chunk's batch once and in order, memory stays within the slots of the budget, no state
  short of the end is stuck, and the number of steps is bounded.
\<close>

section \<open>Every step keeps the invariant\<close>

lemma closed_complete:
  assumes ok: "run_ok C s" and over: "channel s = []" "\<forall>w \<in> set (workers s). w = Exited"
  shows "mset (keys (delivered s)) = mset [0..<chunk_count C]"
proof -
  note old = run_okD [OF ok]
  obtain k where k: "k \<le> chunk_count C" "queue s = rev [k..<chunk_count C]" "in_play s = mset [0..<k]"
    using ok unfolding run_ok_def by blast
  have "Exited \<in> set (workers s)" using old(6) over(2) by (metis last_in_set)
  then have "queue s = []" using old(4) over(1) by auto
  then have full: "k = chunk_count C" using k(1,2) by auto
  have "held_all (workers s) = {#}" using over(2) held_mem [of _ "workers s"] by (metis emptyE held.simps(5) multiset_nonemptyE set_mset_empty)
  then have play: "mset (keys (pending s)) + mset (keys (delivered s)) = mset [0..<k]"
    using k(3) over(1) by (simp add: in_play_def)
  have "pending s = []"
  proof (cases "ordered C")
    case True
    have del: "keys (delivered s) = [0..<next_seq s]" using old(8) True by (simp add: coord_ok_def)
    have none: "next_seq s \<notin> set (keys (pending s))" using old(10) [OF True] by (simp add: map_of_eq_None_iff keys_def)
    have cover: "set (keys (pending s)) \<union> {..<next_seq s} = {..<k}"
      using arg_cong [OF play, of set_mset] by (simp add: del atLeast0LessThan)
    have "\<not> next_seq s < k" using none cover by (metis UnE lessThan_iff less_irrefl)
    then have "set (keys (pending s)) \<subseteq> {..<next_seq s}" using cover by (metis Un_upper1 lessThan_subset_iff not_less order_trans)
    moreover have "set (keys (pending s)) \<inter> {..<next_seq s} = {}"
      using in_play_facts(5) [OF k(3)] by (simp add: del atLeast0LessThan)
    ultimately have "set (keys (pending s)) = {}" by (metis Int_absorb2)
    then show ?thesis by (simp add: keys_def)
  next
    case False
    then show ?thesis using old(8) by (simp add: coord_ok_def)
  qed
  then show ?thesis using play full by simp
qed

lemma step_worker_ok:
  assumes ok: "run_ok C s" and i: "i < length (workers s)"
  shows "workers s ! i = Ready \<Longrightarrow> queue s = [] \<Longrightarrow> run_ok C (s\<lparr>workers := (workers s)[i := Exited]\<rparr>)"
    "workers s ! i = Waiting n \<Longrightarrow> dispatch s = Some d \<Longrightarrow> n < sat_add d (dispatch_window C) \<Longrightarrow>
      run_ok C (s\<lparr>workers := (workers s)[i := Running n]\<rparr>)"
    "workers s ! i = Running n \<Longrightarrow> run_ok C (s\<lparr>workers := (workers s)[i := Sending n (chunk_result C n)]\<rparr>)"
proof -
  note old = run_okD [OF ok]
  show "run_ok C (s\<lparr>workers := (workers s)[i := Exited]\<rparr>)" if "workers s ! i = Ready" "queue s = []"
    using that by (intro run_ok_worker [OF ok i]) auto
  show "run_ok C (s\<lparr>workers := (workers s)[i := Running n]\<rparr>)"
    if "workers s ! i = Waiting n" "dispatch s = Some d" "n < sat_add d (dispatch_window C)"
    using that old(9) by (intro run_ok_worker [OF ok i]) auto
  have "n \<in> active s" if "workers s ! i = Running n" using nth_mem [OF i] that by (auto simp: active_def)
  then show "run_ok C (s\<lparr>workers := (workers s)[i := Sending n (chunk_result C n)]\<rparr>)" if "workers s ! i = Running n"
    using that old(5) by (intro run_ok_worker [OF ok i]) auto
qed

lemma stream_ok_run: "outcome s = None \<Longrightarrow> stream_ok C s \<longleftrightarrow> run_ok C s"
  using run_delivered by (auto simp: stream_ok_def)

lemma stream_ok_over:
  "stream_ok C s \<Longrightarrow> outcome s \<noteq> None \<Longrightarrow> delivered t = delivered s \<Longrightarrow> outcome t = outcome s \<Longrightarrow> stream_ok C t"
  by (auto simp: stream_ok_def delivered_ok_def split: option.splits sum.splits)

lemma stream_ok_keep:
  assumes "stream_ok C s" "outcome s = None \<Longrightarrow> run_ok C s \<Longrightarrow> run_ok C t" "outcome t = outcome s" "delivered t = delivered s"
  shows "stream_ok C t"
  using assms stream_ok_run [of s C] stream_ok_run [of t C] stream_ok_over [of C s t] by (cases "outcome s = None") auto

lemma step_ok:
  assumes "stream_step C s t" "stream_ok C s"
  shows "stream_ok C t"
  using assms
proof (induction rule: stream_step.induct)
  case (pop i s q n)
  show ?case by (rule stream_ok_keep [OF pop.prems]) (use pop run_ok_pop in simp_all)
next
  case (no_chunk i s)
  show ?case by (rule stream_ok_keep [OF no_chunk.prems]) (use no_chunk step_worker_ok(1) in simp_all)
next
  case (dispatched i s n d)
  show ?case by (rule stream_ok_keep [OF dispatched.prems]) (use dispatched step_worker_ok(2) in simp_all)
next
  case (cancelled i s n)
  then have "outcome s \<noteq> None" using run_okD(9) [of C s] stream_ok_run [of s C] by force
  then show ?case using cancelled by (auto intro: stream_ok_over)
next
  case (parsed i s n)
  show ?case by (rule stream_ok_keep [OF parsed.prems]) (use parsed step_worker_ok(3) in simp_all)
next
  case (sent i s n r)
  then show ?case by (simp add: stream_ok_run run_ok_sent)
next
  case (disconnected i s n r)
  then show ?case by (auto intro: stream_ok_over)
next
  case (received s m ch t)
  then show ?case using receive_ok [of C s "fst m" "snd m" ch "Inr ()" t] by (simp add: stream_ok_run)
next
  case (failed s m ch err t)
  then show ?case using receive_ok [of C s "fst m" "snd m" ch "Inl err" t] by (simp add: stream_ok_run stream_ok_def delivered_ok_def)
next
  case (closed s)
  then show ?case using closed_complete run_delivered by (simp add: stream_ok_run, simp add: stream_ok_def delivered_ok_def)
next
  case (guard_dropped s)
  then show ?case by (auto intro: stream_ok_over)
qed

lemma start_ok:
  assumes "0 < threads"
  shows "stream_ok C (stream_start C threads)"
proof -
  have "held_all (replicate threads Ready) = {#}" by (induction threads) (simp_all add: held_all_def)
  then have "in_play (stream_start C threads) = mset [0..<0]" by (simp add: in_play_def stream_start_def)
  moreover have "coord_ok C (stream_start C threads)" by (simp add: coord_ok_def stream_start_def)
  ultimately have "run_ok C (stream_start C threads)"
    unfolding run_ok_def using assms by (auto simp: stream_start_def active_def)
  then show ?thesis by (simp add: stream_ok_run stream_start_def)
qed

lemma reach_ok:
  assumes "stream_reaches C (stream_start C threads) s" "0 < threads"
  shows "stream_ok C s"
proof -
  have "stream_reaches C r s \<Longrightarrow> stream_ok C r \<Longrightarrow> stream_ok C s" for r
    by (induction rule: stream_reaches.induct) (auto intro: step_ok)
  then show ?thesis using assms start_ok by blast
qed

section \<open>Runs end\<close>

lemma deliver_same: "deliver C n b s = (r, t) \<Longrightarrow> rest_same s t"
  by (auto simp: deliver_def rest_same_def split: sum.splits)

lemma drain_same: "drain C s = (r, t) \<Longrightarrow> rest_same s t"
proof (induction C s arbitrary: r t rule: drain.induct)
  case (1 C s)
  show ?case
  proof (cases "map_of (pending s) (next_seq s)")
    case None
    with 1(2) show ?thesis by (subst (asm) drain.simps) (auto simp: rest_same_def)
  next
    case (Some b)
    let ?t = "s\<lparr>pending := AList.delete (next_seq s) (pending s), reorder_bytes := reorder_bytes s - array_size C b\<rparr>"
    obtain r' u where u: "deliver C (next_seq ?t) b ?t = (r', u)" by fastforce
    then have su: "rest_same s u" using deliver_same [OF u] by (simp add: rest_same_def)
    show ?thesis
    proof (cases r')
      case (Inl err)
      then show ?thesis using 1(2) Some u su by (subst (asm) drain.simps) (simp add: Let_def)
    next
      case (Inr x)
      then have "drain C (u\<lparr>next_seq := next_seq ?t + 1\<rparr>) = (r, t)"
        using 1(2) Some u by (subst (asm) drain.simps) (simp add: Let_def)
      from 1(1) [OF Some refl u [symmetric] Inr this] show ?thesis using su by (simp add: rest_same_def)
    qed
  qed
qed

lemma receive_same:
  assumes "receive C m s = (r, t)"
  shows "rest_same s t"
proof -
  have same: "rest_same s (s\<lparr>reorder_bytes := x\<rparr>)" "rest_same s (s\<lparr>reorder_bytes := x, pending := y\<rparr>)" "rest_same u u" for x y u
    by (simp_all add: rest_same_def)
  have via: "deliver C n b s = (r'', u) \<Longrightarrow> drain C (u\<lparr>next_seq := x\<rparr>) = (r', v) \<Longrightarrow> rest_same s v" for n b u v x r' r''
    using deliver_same [of C n b s r'' u] drain_same [of C "u\<lparr>next_seq := x\<rparr>" r' v] by (simp add: rest_same_def)
  have sent: "rest_same s v \<Longrightarrow> rest_same s (v\<lparr>dispatch := y\<rparr>)" for v y by (simp add: rest_same_def)
  show ?thesis
    using assms
    by (auto simp: receive_def Let_def same intro: via sent deliver_same split: prod.splits sum.splits if_splits)
qed

fun left :: "worker \<Rightarrow> nat" where
  "left Exited = 0"
| "left Ready = 1"
| "left (Sending n r) = 3"
| "left (Running n) = 4"
| "left (Waiting n) = 5"

definition work :: "coord \<Rightarrow> nat" where
  "work s = 6 * length (queue s) + sum_list (map left (workers s)) + length (channel s) +
     (if outcome s = None then 2 else if dispatch s = None then 0 else 1)"

lemma left_update:
  "i < length ws \<Longrightarrow> sum_list (map left (ws[i := w])) + left (ws ! i) = sum_list (map left ws) + left w"
  by (induction ws arbitrary: i) (auto split: nat.splits simp: less_Suc_eq_0_disj)

lemma step_works: "stream_step C s t \<Longrightarrow> work t < work s"
proof (induction rule: stream_step.induct)
  case (pop i s q n)
  then show ?case using left_update [of i "workers s" "if ordered C then Waiting n else Running n"] by (auto simp: work_def)
next
  case (no_chunk i s)
  then show ?case using left_update [of i "workers s" Exited] by (simp add: work_def)
next
  case (dispatched i s n d)
  then show ?case using left_update [of i "workers s" "Running n"] by (simp add: work_def)
next
  case (cancelled i s n)
  then show ?case using left_update [of i "workers s" Exited] by (simp add: work_def)
next
  case (parsed i s n)
  then show ?case using left_update [of i "workers s" "Sending n (chunk_result C n)"] by (simp add: work_def)
next
  case (sent i s n r)
  then show ?case using left_update [of i "workers s" "if is_err r then Exited else Ready"] by (auto simp: work_def split: if_splits)
next
  case (disconnected i s n r)
  then show ?case using left_update [of i "workers s" Exited] by (simp add: work_def)
next
  case (received s m ch t)
  then show ?case using receive_same [OF received(3)] by (simp add: work_def rest_same_def)
next
  case (failed s m ch err t)
  then show ?case using receive_same [OF failed(3)] by (simp add: work_def rest_same_def)
qed (auto simp: work_def)

lemma steps_work: "(stream_step C ^^ k) r s \<Longrightarrow> k + work s \<le> work r"
  by (induction k arbitrary: s) (fastforce dest: step_works)+

lemma work_start: "work (stream_start C threads) = 6 * chunk_count C + threads + 2"
  by (simp add: work_def stream_start_def sum_list_replicate)

section \<open>No run is stuck\<close>

lemma waiting_next:
  assumes ok: "run_ok C s" and w: "Waiting n \<in> set (workers s)" and only: "\<forall>w \<in> set (workers s). w = Exited \<or> (\<exists>m. w = Waiting m)"
    and ch: "channel s = []"
  shows "Waiting (next_seq s) \<in> set (workers s)" "next_seq s < chunk_count C"
proof -
  note old = run_okD [OF ok]
  have o: "ordered C" by (rule old(3) [OF w])
  obtain k where k: "k \<le> chunk_count C" "in_play s = mset [0..<k]" using ok unfolding run_ok_def by blast
  have del: "keys (delivered s) = [0..<next_seq s]" using old(8) o by (simp add: coord_ok_def)
  have none: "next_seq s \<notin> set (keys (pending s))" using old(10) [OF o] by (simp add: map_of_eq_None_iff keys_def)
  have "n \<in># held_all (workers s)" using w by (force simp: held_mem)
  then have "n < k" "next_seq s \<le> n" using in_play_facts(7) [OF k(2), of n] by (auto simp: del)
  then have lt: "next_seq s < k" by simp
  then show "next_seq s < chunk_count C" using k(1) by simp
  have "next_seq s \<in># in_play s" using lt k(2) by simp
  then have "next_seq s \<in># held_all (workers s)" using none ch by (auto simp: in_play_def del)
  then show "Waiting (next_seq s) \<in> set (workers s)" using only by (force simp: held_mem)
qed

definition can_step :: "stream_setup \<Rightarrow> coord \<Rightarrow> bool" where
  "can_step C s \<longleftrightarrow> (\<exists>t. stream_step C s t)"

lemma worker_can_step:
  assumes "w \<in> set (workers s)"
  shows "w = Ready \<Longrightarrow> can_step C s" "w = Running n \<Longrightarrow> can_step C s"
    "w = Sending n r \<Longrightarrow> outcome s \<noteq> None \<or> length (channel s) < channel_cap C \<Longrightarrow> can_step C s"
    "w = Waiting n \<Longrightarrow> dispatch s = None \<or> (\<exists>d. dispatch s = Some d \<and> n < sat_add d (dispatch_window C)) \<Longrightarrow> can_step C s"
proof -
  obtain i where i: "i < length (workers s)" "workers s ! i = w" using assms by (meson in_set_conv_nth)
  show "w = Ready \<Longrightarrow> can_step C s"
    using i stream_step.no_chunk [of i s C] stream_step.pop [of i s "butlast (queue s)" "last (queue s)" C]
    unfolding can_step_def by (cases "queue s = []") auto
  show "w = Running n \<Longrightarrow> can_step C s" using i stream_step.parsed [of i s n C] unfolding can_step_def by blast
  show "w = Sending n r \<Longrightarrow> outcome s \<noteq> None \<or> length (channel s) < channel_cap C \<Longrightarrow> can_step C s"
    using i stream_step.sent [of i s n r C] stream_step.disconnected [of i s n r C] unfolding can_step_def by blast
  show "w = Waiting n \<Longrightarrow> dispatch s = None \<or> (\<exists>d. dispatch s = Some d \<and> n < sat_add d (dispatch_window C)) \<Longrightarrow> can_step C s"
    using i stream_step.cancelled [of i s n C] stream_step.dispatched [of i s n _ C] unfolding can_step_def by blast
qed

lemma running_can_step:
  assumes ok: "run_ok C s" and out: "outcome s = None" and caps: "0 < channel_cap C" "0 < dispatch_window C" "chunk_count C \<le> usize_max"
  shows "can_step C s"
proof (cases "channel s")
  case (Cons m ch)
  obtain r t where r: "receive C m (s\<lparr>channel := ch\<rparr>) = (r, t)" by fastforce
  then show ?thesis
    using stream_step.received [OF out Cons] stream_step.failed [OF out Cons] unfolding can_step_def
    by (cases r) (simp_all, blast+)
next
  case Nil
  show ?thesis
  proof (cases "\<forall>w \<in> set (workers s). w = Exited \<or> (\<exists>n. w = Waiting n)")
    case True
    show ?thesis
    proof (cases "\<exists>n. Waiting n \<in> set (workers s)")
      case w: True
      then obtain n where "Waiting n \<in> set (workers s)" by blast
      note nxt = waiting_next [OF ok this True Nil]
      have "next_seq s < sat_add (next_seq s) (dispatch_window C)" using caps(2,3) nxt(2) by (simp add: sat_add_def)
      then show ?thesis using worker_can_step(4) [OF nxt(1) refl] run_okD(9) [OF ok] by blast
    next
      case False
      then have "\<forall>w \<in> set (workers s). w = Exited" using True by blast
      then show ?thesis using stream_step.closed [OF out Nil] unfolding can_step_def by blast
    qed
  next
    case False
    then obtain w where w: "w \<in> set (workers s)" "w \<noteq> Exited" "\<nexists>n. w = Waiting n" by blast
    then show ?thesis using worker_can_step(1-3) [OF w(1)] Nil caps(1) by (cases w rule: worker.exhaust) auto
  qed
qed

lemma over_can_step:
  assumes out: "outcome s \<noteq> None" and more: "\<not> finished s"
  shows "can_step C s"
proof (cases "dispatch s = None")
  case True
  then obtain w where w: "w \<in> set (workers s)" "w \<noteq> Exited" using assms by (auto simp: finished_def)
  then show ?thesis using worker_can_step [OF w(1)] out True w(2) by (cases w rule: worker.exhaust) blast+
next
  case False
  then show ?thesis using stream_step.guard_dropped [OF out] unfolding can_step_def by blast
qed

end
