(* ===== verification/Chunk_Laws.thy ===== *)
theory Chunk_Laws
  imports Chunk_Export
begin

text \<open>
  What the export of several chunks promises: one schema, a batch for each chunk that has rows, and
  in order the rows of all chunks. Two plans it fails on are shown at the end.
\<close>

section \<open>Storage variants and data types\<close>

definition key_of :: "execution_plan \<Rightarrow> string \<Rightarrow> string" where
  "key_of p n = variant_key (cb_with_capacity (column_type p n))"

definition type_of :: "execution_plan \<Rightarrow> string \<Rightarrow> data_type" where
  "type_of p n = arrow_datatype (cb_with_capacity (column_type p n))"

fun is_decimal :: "field_type \<Rightarrow> bool" where
  "is_decimal (FT_Decimal128 _) = True"
| "is_decimal _ = False"

lemma kind_key:
  assumes "cb_kind b = column_type p n"
  shows "variant_key b = key_of p n" "arrow_datatype b = type_of p n"
  using assms by (cases b; simp add: key_of_def type_of_def flip: assms)+

lemma unify_same:
  assumes "\<not> is_decimal (column_type p n)"
  shows "unify_variants (key_of p n) (key_of p n) = Some (key_of p n)"
  using assms by (cases "column_type p n") (auto simp: unify_variants_def key_of_def VARIANT_KEYS_def split: time_unit.splits)

lemma promote_same: "variant_key b = k \<Longrightarrow> cb_promote k b = Inr b"
  by (simp add: cb_promote_def)

text \<open>A chunk that is ready for the export: normalised and built under the plan.\<close>

definition ready :: "execution_plan \<Rightarrow> table_builder \<Rightarrow> bool" where
  "ready p e \<longleftrightarrow> tb_wf e \<and> plan e = p \<and> (\<forall>c \<in> set (columns e). cb_len c = row_count e)"

lemma ready_column:
  assumes "ready p e" "n \<in> set (column_order e)"
  obtains i b where "map_of (field_index e) n = Some i" "i < length (columns e)" "columns e ! i = b"
    "column_of n e = Some (Some b)" "variant_key b = key_of p n" "arrow_datatype b = type_of p n"
proof -
  obtain i where i: "map_of (field_index e) n = Some i" "i < length (columns e)"
    using assms unfolding ready_def tb_wf_def index_ok_def by (metis option.exhaust)
  have "cb_kind (columns e ! i) = column_type p n" using assms(1) i by (simp add: ready_def tb_wf_def kinds_ok_def)
  from that [OF i refl _ kind_key [OF this]] i show ?thesis by (simp add: column_of_def idx_def)
qed

section \<open>The unified schema\<close>

text \<open>The names in the order they are first seen.\<close>

definition first_seen :: "'a list \<Rightarrow> 'a list" where
  "first_seen xs = rev (remdups (rev xs))"

lemma first_seen_simps [simp]:
  "first_seen [] = []" "first_seen (xs @ [x]) = (if x \<in> set xs then first_seen xs else first_seen xs @ [x])"
  "set (first_seen xs) = set xs" "distinct (first_seen xs)"
  by (simp_all add: first_seen_def)

definition all_names :: "table_builder list \<Rightarrow> string list" where
  "all_names es = concat (map column_order es)"

lemma unified_ok:
  assumes "\<forall>e \<in> set es. ready p e" "\<forall>n \<in> set (all_names es). \<not> is_decimal (column_type p n)"
  shows "\<exists>targets. unify_engines es = Some (Inr (first_seen (all_names es), targets)) \<and>
    (\<forall>n. map_of targets n = (if n \<in> set (all_names es) then Some (key_of p n) else None))"
proof -
  define P where "P ys u \<longleftrightarrow> fst u = first_seen ys \<and>
     (\<forall>n. map_of (snd u) n = (if n \<in> set ys then Some (key_of p n) else None))" for ys :: "string list" and u :: unified
  have step: "\<exists>u'. unify_column e n u = Some (Inr u') \<and> P (ys @ [n]) u'"
    if r: "ready p e" "n \<in> set (column_order e)" "\<not> is_decimal (column_type p n)" "P ys u" for e n ys u
  proof -
    obtain b where b: "column_of n e = Some (Some b)" "variant_key b = key_of p n"
      using ready_column [OF r(1,2)] by blast
    show ?thesis
      using b r(4) unify_same [OF r(3)]
      by (cases "n \<in> set ys") (auto simp: unify_column_def P_def update_conv' split: prod.splits)
  qed
  have inner: "\<exists>u'. try_fold (unify_column e) (column_order e) u = Some (Inr u') \<and> P (ys @ column_order e) u'"
    if e: "e \<in> set es" "P ys u" for e ys u
  proof (rule try_fold_inv [where P = P, OF e(2)])
    fix n ys u assume "n \<in> set (column_order e)" "P ys u"
    then show "\<exists>u'. unify_column e n u = Some (Inr u') \<and> P (ys @ [n]) u'"
      using e(1) assms by (intro step) (auto simp: all_names_def)
  qed
  have "\<exists>u. unify_engines es = Some (Inr u) \<and> P (all_names ([] @ es)) u"
    unfolding unify_engines_def
  proof (rule try_fold_inv [where P = "\<lambda>fs. P (all_names fs)"])
    show "P (all_names []) ([], [])" by (simp add: P_def all_names_def)
    show "\<exists>u'. try_fold (unify_column e) (column_order e) u = Some (Inr u') \<and> P (all_names (fs @ [e])) u'"
      if "e \<in> set es" "P (all_names fs) u" for e fs u using inner [OF that] by (simp add: all_names_def)
  qed
  then show ?thesis by (auto simp: P_def)
qed

lemma promote_engine_same:
  assumes "ready p e" "\<And>n. n \<in> set (column_order e) \<Longrightarrow> map_of targets n = Some (key_of p n)"
  shows "promote_engine targets e = Some (Inr e)"
  unfolding promote_engine_def
proof (rule try_fold_unchanged)
  fix n assume n: "n \<in> set (column_order e)"
  obtain i b where "map_of (field_index e) n = Some i" "i < length (columns e)" "columns e ! i = b" "variant_key b = key_of p n"
    using ready_column [OF assms(1) n] by blast
  then show "promote_column targets n e = Some (Inr e)"
    using assms(2) [OF n] list_update_id [of "columns e" i] by (simp add: promote_column_def idx_def promote_same)
qed

lemma unified_types_ok:
  assumes "\<forall>e \<in> set es. ready p e"
  shows "\<exists>types. unified_types es = Some (Inr types) \<and>
    (\<forall>n. map_of types n = (if n \<in> set (all_names es) then Some (type_of p n) else None))"
proof -
  define P where "P ys types \<longleftrightarrow> (\<forall>n. map_of types n = (if n \<in> set ys then Some (type_of p n) else None))"
    for ys :: "string list" and types :: "(string, data_type) hmap"
  have inner: "\<exists>u'. try_fold (note_type e) (column_order e) u = Some (Inr u') \<and> P (ys @ column_order e) u'"
    if e: "e \<in> set es" "P ys u" for e ys u
  proof (rule try_fold_inv [where P = P, OF e(2)])
    fix n ys u assume "n \<in> set (column_order e)" "P ys u"
    moreover obtain b where "column_of n e = Some (Some b)" "arrow_datatype b = type_of p n"
      using ready_column [of p e n] assms e(1) calculation(1) by blast
    ultimately show "\<exists>u'. note_type e n u = Some (Inr u') \<and> P (ys @ [n]) u'"
      by (cases "n \<in> set ys") (auto simp: note_type_def P_def update_conv')
  qed
  have "\<exists>u. unified_types es = Some (Inr u) \<and> P (all_names ([] @ es)) u"
    unfolding unified_types_def
  proof (rule try_fold_inv [where P = "\<lambda>fs. P (all_names fs)"])
    show "P (all_names []) []" by (simp add: P_def all_names_def)
    show "\<exists>u'. try_fold (note_type e) (column_order e) u = Some (Inr u') \<and> P (all_names (fs @ [e])) u'"
      if "e \<in> set es" "P (all_names fs) u" for e fs u using inner [OF that] by (simp add: all_names_def)
  qed
  then show ?thesis by (auto simp: P_def)
qed

lemma schema_of_ok:
  assumes "\<And>n. n \<in> set order \<Longrightarrow> map_of types n = Some (f n)"
  shows "schema_of order types = Some (map (\<lambda>n. (n, f n)) order)"
  using assms unfolding schema_of_def by (intro those_map_ok) simp

section \<open>The batches of the chunks\<close>

definition chunk_array :: "execution_plan \<Rightarrow> table_builder \<Rightarrow> string \<Rightarrow> arrow_array" where
  "chunk_array p e n = \<lparr>atype = type_of p n, acells = map (\<lambda>r. r n) (tb_rows e)\<rparr>"

lemma export_arrays_ok:
  assumes e0: "ready p e0" and "distinct names" "field_index e = field_index e0" "row_count e = row_count e0"
    "length (columns e) = length (columns e0)"
    and "\<And>n i. n \<in> set names \<Longrightarrow> map_of (field_index e0) n = Some i \<Longrightarrow> columns e ! i = columns e0 ! i"
    and "\<And>n. n \<in> set names \<Longrightarrow> map_of types n = Some (type_of p n)"
    and rows: "0 < row_count e0"
  shows "export_arrays types names e = Some (Inr (map (chunk_array p e0) names))"
  using assms(2-7)
proof (induction names arbitrary: e)
  case (Cons n names)
  have slot: "i < length (columns e0)" "cb_len (columns e0 ! i) = row_count e0" if "map_of (field_index e0) m = Some i" for m i
    using e0 that by (simp_all add: ready_def tb_wf_def index_ok_def)
  have cells: "column_cells e0 (row_count e0) n = map (\<lambda>r. r n) (tb_rows e0)"
    using slot(2) by (rule column_cells_rows)
  show ?case
  proof (cases "map_of (field_index e0) n")
    case None
    have "export_arrays types names e = Some (Inr (map (chunk_array p e0) names))"
      by (rule Cons.IH) (use Cons.prems in \<open>auto simp del: map_of_eq_Some_iff\<close>)
    moreover have "null_array (type_of p n) (row_count e) = chunk_array p e0 n"
      using cells None Cons.prems(3) by (simp add: null_array_def chunk_array_def column_cells_def)
    ultimately show ?thesis using Cons.prems(2) Cons.prems(6) [of n] None by simp
  next
    case (Some i)
    let ?b = "columns e0 ! i"
    let ?e = "e\<lparr>columns := (columns e)[i := snd (to_arrow_array ?b)]\<rparr>"
    have i: "i < length (columns e)" "columns e ! i = ?b" using Some slot(1) Cons.prems(4,5) by auto
    have "j \<noteq> i" if "m \<in> set names" "map_of (field_index e0) m = Some j" for m j
    proof
      assume "j = i"
      then have "m = n" using that Some e0 unfolding ready_def tb_wf_def index_ok_def by blast
      then show False using that Cons.prems(1) by simp
    qed
    note other = this
    have "export_arrays types names ?e = Some (Inr (map (chunk_array p e0) names))"
    proof (rule Cons.IH)
      show "columns ?e ! j = columns e0 ! j" if "m \<in> set names" "map_of (field_index e0) m = Some j" for m j
        using other [OF that] Cons.prems(5) [of m j] that by simp
    qed (use Cons.prems in simp_all)
    moreover have "fst (to_arrow_array ?b) = Inr (chunk_array p e0 n)"
    proof -
      have "exportable ?b" using slot(2) [OF Some] rows by (simp add: exportable_def)
      moreover have "arrow_datatype ?b = type_of p n"
        using kind_key(2) e0 Some by (simp add: ready_def tb_wf_def kinds_ok_def)
      moreover have "cb_rows ?b = map (\<lambda>r. r n) (tb_rows e0)" using cells Some by (simp add: column_cells_def)
      ultimately show ?thesis by (simp add: exported_array chunk_array_def)
    qed
    ultimately show ?thesis using Some i Cons.prems(2) by (simp add: export_at_def idx_def split_beta)
  qed
qed simp

lemma export_batch_ok:
  assumes "ready p e" "distinct order" "order \<noteq> []" "\<And>n. n \<in> set order \<Longrightarrow> map_of types n = Some (type_of p n)"
    "0 < row_count e"
  shows "export_batch (map (\<lambda>n. (n, type_of p n)) order) types e = Some (Inr (map (\<lambda>n. (n, chunk_array p e n)) order))"
proof -
  have "export_arrays types order e = Some (Inr (map (chunk_array p e) order))"
    by (rule export_arrays_ok [OF assms(1,2)]) (use assms(4,5) in simp_all)
  moreover have "make_batch (map (\<lambda>n. (n, chunk_array p e n)) order) = Inr (map (\<lambda>n. (n, chunk_array p e n)) order)"
    using assms(3) by (intro make_batch_ok [where k = "length (tb_rows e)"]) (auto simp: chunk_array_def)
  moreover have types: "map (\<lambda>n. atype (chunk_array p e n)) order = map (type_of p) order" by (simp add: chunk_array_def)
  moreover have "zip order (map (chunk_array p e) order) = map (\<lambda>n. (n, chunk_array p e n)) order"
    by (induction order) simp_all
  ultimately show ?thesis
    by (simp add: export_batch_def batch_of_def comp_def)
qed

section \<open>The whole export\<close>

text \<open>A chunk as its worker leaves it: built under the plan, no error recorded.\<close>

definition chunk_ok :: "execution_plan \<Rightarrow> table_builder \<Rightarrow> bool" where
  "chunk_ok p e \<longleftrightarrow> tb_wf e \<and> plan e = p \<and> unbudgeted e \<and> unknown_error e = None \<and> strict_error e = None"

lemma prepare_engine_ok:
  assumes "chunk_ok p e"
  shows "\<exists>e'. prepare_engine E e = Some (Inr e') \<and> ready p e' \<and> tb_rows e' = tb_rows e \<and> row_count e' = row_count e \<and>
    column_order e' = column_order e"
proof -
  define s where "s = notify (On_chunk_finished (rows_accepted e + rows_rejected e) (rows_accepted e) (rows_rejected e)) e"
  have s: "same_core e s" by (simp add: s_def)
  have prep: "prepare_engine E e = Some (Inr (normalize s))"
    using assms by (simp add: prepare_engine_def prepare_finish_def check_memory_budget_def unbudgeted_def chunk_ok_def s_def)
  have wf: "tb_wf s" using same_core_wf(1) [OF s] assms by (simp add: chunk_ok_def)
  have sel: "plan s = p" "row_count s = row_count e" "column_order s = column_order e" "tb_rows s = tb_rows e"
    using s assms same_core_wf(2) [OF s] by (simp_all add: same_core_def chunk_ok_def)
  have "ready p (normalize s)" using normalize_ok [OF wf] normalize_clean [OF wf] sel by (simp add: ready_def)
  then show ?thesis using prep normalize_ok [OF wf] normalize_clean [OF wf] sel by auto
qed

text \<open>The prepared chunks, as a function: they differ from the given ones only in what was normalised.\<close>

definition prepared_chunk :: "env \<Rightarrow> table_builder \<Rightarrow> table_builder" where
  "prepared_chunk E e = (case prepare_engine E e of Some (Inr e') \<Rightarrow> e' | _ \<Rightarrow> e)"

lemma prepared_chunk_ok:
  assumes "chunk_ok p e"
  shows "prepare_engine E e = Some (Inr (prepared_chunk E e))" "ready p (prepared_chunk E e)"
    "tb_rows (prepared_chunk E e) = tb_rows e" "row_count (prepared_chunk E e) = row_count e"
    "column_order (prepared_chunk E e) = column_order e"
proof -
  obtain e' where "prepare_engine E e = Some (Inr e')" "ready p e'" "tb_rows e' = tb_rows e" "row_count e' = row_count e"
    "column_order e' = column_order e" using prepare_engine_ok [OF assms] by blast
  then show "prepare_engine E e = Some (Inr (prepared_chunk E e))" "ready p (prepared_chunk E e)"
    "tb_rows (prepared_chunk E e) = tb_rows e" "row_count (prepared_chunk E e) = row_count e"
    "column_order (prepared_chunk E e) = column_order e" by (simp_all add: prepared_chunk_def)
qed

abbreviation kept :: "table_builder list \<Rightarrow> table_builder list" where
  "kept es \<equiv> filter (\<lambda>e. 0 < row_count e) es"

lemma prepared_all:
  assumes "\<forall>e \<in> set es. chunk_ok p e"
  shows "try_map (prepare_engine E) es = Some (Inr (map (prepared_chunk E) es))"
    "kept (map (prepared_chunk E) es) = map (prepared_chunk E) (kept es)"
    "all_names (map (prepared_chunk E) (kept es)) = all_names (kept es)"
    "\<forall>e \<in> set (map (prepared_chunk E) (kept es)). ready p e"
proof -
  note ok = prepared_chunk_ok [of p _ E]
  show "try_map (prepare_engine E) es = Some (Inr (map (prepared_chunk E) es))"
    using assms ok(1) by (intro try_map_ok) blast
  show "kept (map (prepared_chunk E) es) = map (prepared_chunk E) (kept es)"
    using assms ok(4) by (induction es) simp_all
  show "all_names (map (prepared_chunk E) (kept es)) = all_names (kept es)"
    using assms ok(5) unfolding all_names_def by (induction es) simp_all
  show "\<forall>e \<in> set (map (prepared_chunk E) (kept es)). ready p e" using assms ok(2) by auto
qed

text \<open>Everything up to the comparison filter.\<close>

definition chunk_batches :: "execution_plan \<Rightarrow> table_builder list \<Rightarrow> record_batch list" where
  "chunk_batches p es = map (\<lambda>e. map (\<lambda>n. (n, chunk_array p e n)) (first_seen (all_names (kept es)))) (kept es)"

definition recheck :: "arrow_kernels \<Rightarrow> execution_plan \<Rightarrow> record_batch list \<Rightarrow> record_batch list result option" where
  "recheck K p batches =
     (case plan_filter p of None \<Rightarrow> Some (Inr batches)
      | Some f \<Rightarrow> try_map (\<lambda>b. Some (apply_compare_filter K b f)) batches)"

lemma chunks_export_to:
  assumes es: "\<forall>e \<in> set es. chunk_ok p e" and dec: "\<forall>n \<in> set (all_names (kept es)). \<not> is_decimal (column_type p n)"
    and ne: "all_names (kept es) \<noteq> []"
  shows "engines_to_record_batches E K es p = recheck K p (chunk_batches p es)"
proof -
  let ?es = "map (prepared_chunk E) (kept es)" and ?order = "first_seen (all_names (kept es))"
  note prep = prepared_all [OF es, of E]
  obtain targets where t: "unify_engines ?es = Some (Inr (?order, targets))"
    "\<And>n. map_of targets n = (if n \<in> set (all_names (kept es)) then Some (key_of p n) else None)"
    using unified_ok [OF prep(4)] dec unfolding prep(3) by blast
  obtain types where ty: "unified_types ?es = Some (Inr types)"
    "\<And>n. map_of types n = (if n \<in> set (all_names (kept es)) then Some (type_of p n) else None)"
    using unified_types_ok [OF prep(4)] unfolding prep(3) by blast
  have "set ?order \<noteq> {}" using ne by simp
  then have order: "?order \<noteq> []" by (metis list.set(1))
  have prom: "try_map (promote_engine targets) ?es = Some (Inr ?es)"
  proof -
    have "promote_engine targets e = Some (Inr e)" if "e \<in> set ?es" for e
    proof (rule promote_engine_same)
      show "ready p e" using that prep(4) by blast
      have "set (column_order e) \<subseteq> set (all_names ?es)" using that by (auto simp: all_names_def)
      then show "map_of targets n = Some (key_of p n)" if "n \<in> set (column_order e)" for n
        using that t(2) [of n] unfolding prep(3) by auto
    qed
    then have "try_map (promote_engine targets) ?es = Some (Inr (map (\<lambda>e. e) ?es))" by (intro try_map_ok)
    then show ?thesis by simp
  qed
  have sch: "schema_of ?order types = Some (map (\<lambda>n. (n, type_of p n)) ?order)"
    by (rule schema_of_ok) (simp add: ty(2))
  have "try_map (export_batch (map (\<lambda>n. (n, type_of p n)) ?order) types) ?es =
      Some (Inr (map (\<lambda>e. map (\<lambda>n. (n, chunk_array p e n)) ?order) ?es))"
  proof (rule try_map_ok)
    fix e assume "e \<in> set ?es"
    then have r: "ready p e" "0 < row_count e" using prep(4) by (blast, simp add: flip: prep(2))
    show "export_batch (map (\<lambda>n. (n, type_of p n)) ?order) types e = Some (Inr (map (\<lambda>n. (n, chunk_array p e n)) ?order))"
      by (rule export_batch_ok [OF r(1) _ _ _ r(2)]) (use order ty(2) in simp_all)
  qed
  moreover have "map (\<lambda>e. map (\<lambda>n. (n, chunk_array p e n)) ?order) ?es = chunk_batches p es"
    using es prepared_chunk_ok(3) by (auto simp: chunk_batches_def chunk_array_def)
  ultimately show ?thesis using order
    by (simp add: engines_to_record_batches_def prep(1,2) t(1) prom ty(1) sch recheck_def)
qed

lemma chunks_export_rows:
  assumes "\<forall>e \<in> set es. chunk_ok p e" "\<forall>n \<in> set (all_names (kept es)). \<not> is_decimal (column_type p n)"
    and "all_names (kept es) \<noteq> []" "plan_filter p = None"
  shows "\<exists>bs. engines_to_record_batches E K es p = Some (Inr bs) \<and> length bs = length (kept es) \<and>
    (\<forall>b \<in> set bs. map (\<lambda>(n, a). (n, atype a)) b = map (\<lambda>n. (n, type_of p n)) (first_seen (all_names (kept es)))) \<and>
    (\<forall>n \<in> set (all_names (kept es)). concat (map (\<lambda>b. acells (the (map_of b n))) bs) = map (\<lambda>r. r n) (concat (map tb_rows es)))"
proof -
  let ?bs = "chunk_batches p es"
  have run: "engines_to_record_batches E K es p = Some (Inr ?bs)"
    using chunks_export_to [OF assms(1-3)] assms(4) by (simp add: recheck_def)
  have "map_of (map (\<lambda>n. (n, chunk_array p e n)) ns) n = Some (chunk_array p e n)" if "n \<in> set ns" for e n ns
    using that by (induction ns) auto
  then have "map (\<lambda>b. acells (the (map_of b n))) ?bs = map (\<lambda>e. map (\<lambda>r. r n) (tb_rows e)) (kept es)"
    if "n \<in> set (all_names (kept es))" for n
    using that by (simp add: chunk_batches_def comp_def) (simp add: chunk_array_def)
  moreover have "concat (map (\<lambda>e. map (\<lambda>r. r n) (tb_rows e)) (kept es)) = map (\<lambda>r. r n) (concat (map tb_rows es))" for n
    by (induction es) (simp_all add: tb_rows_def)
  ultimately have cells: "concat (map (\<lambda>b. acells (the (map_of b n))) ?bs) = map (\<lambda>r. r n) (concat (map tb_rows es))"
    if "n \<in> set (all_names (kept es))" for n using that by simp
  have "map (\<lambda>(n, a). (n, atype a)) b = map (\<lambda>n. (n, type_of p n)) (first_seen (all_names (kept es)))" if "b \<in> set ?bs" for b
    using that by (auto simp: chunk_batches_def chunk_array_def)
  moreover have "length ?bs = length (kept es)" by (simp add: chunk_batches_def)
  ultimately show ?thesis using cells run by blast
qed

text \<open>
  C11. Exporting the chunk builders of one plan (no decimal columns, no filter) gives a batch for each
  chunk that has rows, all with the same columns in the order of first appearance and the same
  types, and under every name the batches in order hold exactly the cells of all chunks' rows:
  the parallel fast path returns the table that one builder would have.
\<close>

theorem chunks_export_all_rows:
  assumes "\<forall>e \<in> set es. chunk_ok p e" "\<forall>n \<in> set (all_names (kept es)). \<not> is_decimal (column_type p n)"
    and "all_names (kept es) \<noteq> []" "plan_filter p = None"
  shows "\<exists>bs. engines_to_record_batches E K es p = Some (Inr bs) \<and> length bs = length (kept es) \<and>
    (\<forall>b \<in> set bs. map (\<lambda>(n, a). (n, atype a)) b = map (\<lambda>n. (n, type_of p n)) (first_seen (all_names (kept es)))) \<and>
    (\<forall>n \<in> set (all_names (kept es)). concat (map (\<lambda>b. acells (the (map_of b n))) bs) = map (\<lambda>r. r n) (concat (map tb_rows es)))"
  using chunks_export_rows [OF assms] .

lemma single_row:
  assumes "tb_wf t" "tb_rows t = [r]" "r n \<noteq> None"
  shows "row_count t = 1" "n \<in> set (column_order t)"
proof -
  show rc: "row_count t = 1" using arg_cong [OF assms(2), of length] by (simp add: tb_rows_def)
  then have "row_at t 0 n \<noteq> None" using assms(2,3) by (simp add: tb_rows_def)
  then have "map_of (field_index t) n \<noteq> None" by (cases "map_of (field_index t) n") (simp_all add: row_at_def)
  then show "n \<in> set (column_order t)" using assms(1) unfolding tb_wf_def index_ok_def by blast
qed

lemma export_sample:
  obtains a b where "\<forall>e \<in> set [a, b]. chunk_ok sample_plan e" "kept [a, b] = [a, b]" "set (all_names [a, b]) = {''b''}"
    "tb_rows a = [no_cells(''b'' := Some (TV_Int64 1))]" "tb_rows b = [no_cells(''b'' := Some (TV_Int64 2))]"
proof -
  have one: "\<exists>t. chunk_ok sample_plan t \<and> row_count t = 1 \<and> set (column_order t) = {''b''} \<and>
      tb_rows t = [no_cells(''b'' := Some (TV_Int64 i))]" for i
  proof -
    obtain t where t: "tb_wf t" "tb_rows t = [no_cells(''b'' := Some (TV_Int64 i))]" "plan t = sample_plan"
      "set (column_order t) \<subseteq> {''b''}" "unbudgeted t" "errors t = (None, None)" using merge_sample by metis
    have rc: "row_count t = 1" and "''b'' \<in> set (column_order t)" using single_row [OF t(1,2), of "''b''"] by simp_all
    then have "set (column_order t) = {''b''}" using t(4) by blast
    with t(1-3,5,6) rc show ?thesis by (intro exI [of _ t]) (simp add: chunk_ok_def errors_def)
  qed
  obtain a where a: "chunk_ok sample_plan a" "row_count a = 1" "set (column_order a) = {''b''}"
    "tb_rows a = [no_cells(''b'' := Some (TV_Int64 1))]" using one [of 1] by blast
  obtain b where b: "chunk_ok sample_plan b" "row_count b = 1" "set (column_order b) = {''b''}"
    "tb_rows b = [no_cells(''b'' := Some (TV_Int64 2))]" using one [of 2] by blast
  show ?thesis by (rule that [of a b]) (use a b in \<open>simp_all add: all_names_def\<close>)
qed

text \<open>Kernels for the examples: a cast that keeps the array, comparisons that hold, a filter that keeps all.\<close>

definition idle_kernels :: arrow_kernels where
  "idle_kernels = \<lparr>cast_to = (\<lambda>_ a. Inr a), compare_arrays = (\<lambda>_ a _. Inr (map (\<lambda>_. Some True) (acells a))),
     and_masks = (\<lambda>a _. Inr a), filter_record_batch = (\<lambda>b _. Inr b)\<rparr>"

theorem chunks_export_all_rows_witness:
  "\<exists>a b bs. engines_to_record_batches sample_env idle_kernels [a, b] sample_plan = Some (Inr bs) \<and> length bs = 2 \<and>
     concat (map (\<lambda>b. acells (the (map_of b ''b''))) bs) = [Some (TV_Int64 1), Some (TV_Int64 2)]"
proof -
  obtain a b where ab: "\<forall>e \<in> set [a, b]. chunk_ok sample_plan e" "kept [a, b] = [a, b]" "set (all_names [a, b]) = {''b''}"
    "tb_rows a = [no_cells(''b'' := Some (TV_Int64 1))]" "tb_rows b = [no_cells(''b'' := Some (TV_Int64 2))]"
    by (rule export_sample)
  have "all_names [a, b] \<noteq> []" using ab(3) by force
  with chunks_export_all_rows [of "[a, b]" sample_plan sample_env idle_kernels] ab show ?thesis by auto
qed

text \<open>
  A comparison filter that names a renamed field by its raw name: the row filter resolves the
  name and keeps rows, but the recheck of the exported batches looks the raw name up among
  their columns, so the parse fails with an unknown-column error.
\<close>

theorem raw_compare_fails_export:
  assumes "\<forall>e \<in> set es. chunk_ok p e" "\<forall>n \<in> set (all_names (kept es)). \<not> is_decimal (column_type p n)"
    and "all_names (kept es) \<noteq> []" "plan_filter p = Some (Compare f op g)" "f \<notin> set (all_names (kept es))"
  shows "engines_to_record_batches E K es p = Some (Inl (Plan_error (''compare filter references unknown column '' @ f)))"
proof -
  let ?bs = "chunk_batches p es"
  have "kept es \<noteq> []"
  proof
    assume "kept es = []"
    then show False using assms(3) by (simp only: all_names_def list.map concat.simps simp_thms)
  qed
  then have ne: "?bs \<noteq> []" by (simp add: chunk_batches_def)
  have "map_of (map (\<lambda>n. (n, chunk_array p e n)) ns) f = None" if "f \<notin> set ns" for e ns
    using that by (induction ns) auto
  then have "apply_compare_filter K b (Compare f op g) =
      Inl (Plan_error (''compare filter references unknown column '' @ f))" if "b \<in> set ?bs" for b
    using that assms(5) by (auto simp: chunk_batches_def apply_compare_filter_def)
  then have "apply_compare_filter K (hd ?bs) (Compare f op g) =
      Inl (Plan_error (''compare filter references unknown column '' @ f))" using ne by simp
  with ne chunks_export_to [OF assms(1-3), of E K] assms(4) show ?thesis by (cases ?bs) (simp_all add: recheck_def)
qed

definition raw_compare_plan :: execution_plan where
  "raw_compare_plan = sample_plan\<lparr>plan_filter := Some (Compare ''a'' Eq ''a'')\<rparr>"

theorem raw_compare_fails_export_witness:
  "\<exists>e. tb_rows e = [no_cells(''b'' := Some (TV_Int64 1))] \<and>
     engines_to_record_batches sample_env idle_kernels [e] raw_compare_plan =
       Some (Inl (Plan_error ''compare filter references unknown column a''))"
proof -
  obtain a b where ab: "\<forall>e \<in> set [a, b]. chunk_ok sample_plan e" "kept [a, b] = [a, b]" "set (all_names [a, b]) = {''b''}"
    "tb_rows a = [no_cells(''b'' := Some (TV_Int64 1))]"
    by (rule export_sample)
  let ?e = "a\<lparr>plan := raw_compare_plan\<rparr>"
  have ct: "column_type raw_compare_plan n = column_type sample_plan n" for n
    by (simp add: raw_compare_plan_def column_type_def)
  have wf: "tb_wf ?e" using ab(1) by (simp add: chunk_ok_def tb_wf_def index_ok_def aligned_def kinds_ok_def ct)
  have row: "row_at ?e = row_at a" by (intro ext) (simp add: row_at_def split: option.splits)
  have e: "chunk_ok raw_compare_plan ?e" using wf ab(1) by (simp add: chunk_ok_def unbudgeted_def)
  have rc: "0 < row_count a" and ord: "''b'' \<in> set (column_order a)"
    using single_row [OF _ ab(4), of "''b''"] ab(1) by (auto simp: chunk_ok_def)
  have only: "set (column_order a) \<subseteq> {''b''}" using ab(3) by (auto simp: all_names_def)
  have k: "kept [?e] = [?e]" "all_names [?e] = column_order a" using rc by (simp_all add: all_names_def)
  have "engines_to_record_batches sample_env idle_kernels [?e] raw_compare_plan =
      Some (Inl (Plan_error (''compare filter references unknown column '' @ ''a'')))"
  proof (rule raw_compare_fails_export)
    show "\<forall>n \<in> set (all_names (kept [?e])). \<not> is_decimal (column_type raw_compare_plan n)"
      using only unfolding k by (auto simp: ct)
    show "all_names (kept [?e]) \<noteq> []" "''a'' \<notin> set (all_names (kept [?e]))" using ord only unfolding k by auto
  qed (use e in \<open>simp_all add: raw_compare_plan_def\<close>)
  moreover have "tb_rows ?e = tb_rows a" by (simp add: tb_rows_def row)
  ultimately show ?thesis using ab(4) by (intro exI [of _ ?e]) simp
qed

section \<open>Decimal columns\<close>

text \<open>Folding with a step that either stops with one error or keeps an invariant.\<close>

lemma try_fold_or:
  assumes "P ys s" "\<And>x ys s. x \<in> set xs \<Longrightarrow> P ys s \<Longrightarrow> f x s = Some (Inl err) \<or> (\<exists>u. f x s = Some (Inr u) \<and> P (ys @ [x]) u)"
  shows "try_fold f xs s = Some (Inl err) \<or> (\<exists>u. try_fold f xs s = Some (Inr u) \<and> P (ys @ xs) u)"
  using assms
proof (induction xs arbitrary: ys s)
  case (Cons x xs)
  consider "f x s = Some (Inl err)" | u where "f x s = Some (Inr u)" "P (ys @ [x]) u"
    using Cons.prems(2) [OF list.set_intros(1) Cons.prems(1)] by blast
  then show ?case
  proof cases
    case 2
    have "try_fold f xs u = Some (Inl err) \<or> (\<exists>w. try_fold f xs u = Some (Inr w) \<and> P ((ys @ [x]) @ xs) w)"
      by (rule Cons.IH [OF 2(2)]) (use Cons.prems(2) in \<open>meson list.set_intros(2)\<close>)
    with 2(1) show ?thesis by simp
  qed simp
qed simp

lemma decimal_keys:
  assumes "is_decimal (column_type p n)"
  shows "unify_variants (key_of p n) (key_of p n) = None"
  using assms by (cases "column_type p n") (auto simp: unify_variants_def key_of_def VARIANT_KEYS_def)

lemma unify_decimals:
  assumes "\<forall>e \<in> set es. ready p e"
  shows "unify_engines es = Some (Inl (Merge_error ''conflicting types across chunks'')) \<or>
    (\<exists>u. unify_engines es = Some (Inr u) \<and> (\<forall>n. is_decimal (column_type p n) \<longrightarrow> count_list (all_names es) n \<le> 1))"
proof -
  let ?err = "Merge_error ''conflicting types across chunks''"
  define P where "P ys u \<longleftrightarrow> (\<forall>n. map_of (snd u) n = (if n \<in> set ys then Some (key_of p n) else None)) \<and>
     (\<forall>n. is_decimal (column_type p n) \<longrightarrow> count_list ys n \<le> 1)" for ys :: "string list" and u :: unified
  have step: "unify_column e n u = Some (Inl ?err) \<or> (\<exists>u'. unify_column e n u = Some (Inr u') \<and> P (ys @ [n]) u')"
    if r: "ready p e" "n \<in> set (column_order e)" "P ys u" for e n ys u
  proof -
    obtain b where b: "column_of n e = Some (Some b)" "variant_key b = key_of p n" using ready_column [OF r(1,2)] by blast
    obtain order targets where u: "u = (order, targets)" by fastforce
    show ?thesis
    proof (cases "n \<in> set ys")
      case False
      then have "count_list ys n = 0" by (simp add: count_list_0_iff)
      with False show ?thesis using b r(3) by (auto simp: unify_column_def u P_def update_conv' le_Suc_eq)
    next
      case True
      then have t: "map_of targets n = Some (key_of p n)" using r(3) by (simp add: P_def u)
      show ?thesis
      proof (cases "is_decimal (column_type p n)")
        case True
        then show ?thesis using b t by (simp add: unify_column_def u decimal_keys)
      next
        case False
        then show ?thesis using b t r(3) \<open>n \<in> set ys\<close>
          by (auto simp: unify_column_def u unify_same P_def update_conv')
      qed
    qed
  qed
  have inner: "try_fold (unify_column e) (column_order e) u = Some (Inl ?err) \<or>
      (\<exists>u'. try_fold (unify_column e) (column_order e) u = Some (Inr u') \<and> P (ys @ column_order e) u')"
    if e: "e \<in> set es" "P ys u" for e ys u
  proof (rule try_fold_or [where P = P, OF e(2)])
    show "unify_column e n u = Some (Inl ?err) \<or> (\<exists>u'. unify_column e n u = Some (Inr u') \<and> P (ys @ [n]) u')"
      if "n \<in> set (column_order e)" "P ys u" for n ys u using that e(1) assms by (intro step) auto
  qed
  have "unify_engines es = Some (Inl ?err) \<or> (\<exists>u. unify_engines es = Some (Inr u) \<and> P (all_names ([] @ es)) u)"
    unfolding unify_engines_def
  proof (rule try_fold_or [where P = "\<lambda>fs. P (all_names fs)"])
    show "P (all_names []) ([], [])" by (simp add: P_def all_names_def)
    show "try_fold (unify_column e) (column_order e) u = Some (Inl ?err) \<or>
        (\<exists>u'. try_fold (unify_column e) (column_order e) u = Some (Inr u') \<and> P (all_names (fs @ [e])) u')"
      if "e \<in> set es" "P (all_names fs) u" for e fs u using inner [OF that] by (simp add: all_names_def)
  qed
  then show ?thesis by (auto simp: P_def)
qed

text \<open>
  A decimal column that occurs in two chunks with rows cannot be exported: the table of storage
  variants has no decimal key, so unifying the column with itself fails and the parse reports
  conflicting types although all chunks agree.
\<close>

theorem decimal_chunks_fail:
  assumes "\<forall>e \<in> set es. chunk_ok p e" "is_decimal (column_type p n)" "2 \<le> count_list (all_names (kept es)) n"
  shows "engines_to_record_batches E K es p = Some (Inl (Merge_error ''conflicting types across chunks''))"
proof -
  note prep = prepared_all [OF assms(1), of E]
  have "unify_engines (map (prepared_chunk E) (kept es)) = Some (Inl (Merge_error ''conflicting types across chunks''))"
    using unify_decimals [OF prep(4)] assms(2,3) unfolding prep(3) by auto
  then show ?thesis by (simp add: engines_to_record_batches_def prep(1,2))
qed

definition decimal_plan :: execution_plan where
  "decimal_plan = plan_new\<lparr>field_types := [(''d'', FT_Decimal128 2)], schema_order := [''d'']\<rparr>"

theorem decimal_chunks_fail_witness:
  "\<exists>e. parse_rows sample_env [[]] (tb_with_plan 0 decimal_plan) = Some e \<and>
     engines_to_record_batches sample_env idle_kernels [e, e] decimal_plan = Some (Inl (Merge_error ''conflicting types across chunks''))"
proof -
  let ?t = "tb_with_plan 0 decimal_plan"
  have p: "plan_filter decimal_plan = None" "\<not> strict_types decimal_plan" "is_decimal (column_type decimal_plan ''d'')"
    by (simp_all add: decimal_plan_def plan_new_def column_type_def contains_key_def)
  have t: "tb_wf ?t" "tb_rows ?t = []" "cur_row ?t = no_cells" "plan ?t = decimal_plan" "unbudgeted ?t" "direct_path ?t"
    "\<not> is_exact_frozen ?t" "errors ?t = (None, None)"
    using tb_with_plan_ok [of 0 decimal_plan] p(1)
    by (auto simp: setup_of_def unbudgeted_def direct_path_def is_exact_frozen_def errors_def)
  have ord: "column_order ?t = [''d'']"
    by (simp add: tb_with_plan_def predeclare_schema_columns_def decimal_plan_def plan_new_def predeclare_names_def
        tb_with_capacity_def declare_column_def add_column_def cover_columns_def contains_key_def Let_def)
  have fits: "rows_fit sample_env [[]] ?t" by (simp split: option.splits)
  obtain e where e: "parse_rows sample_env [[]] ?t = Some e" "tb_wf e" "plan e = decimal_plan" "tb_rows e = [no_cells]"
    using parse_rows_direct [OF t(1,5,6,7,3) fits] t(2,4) p(1) by (auto simp: accepts_def simp del: parse_rows.simps)
  have err: "errors e = (None, None)" "unbudgeted e"
    using errors_parse_rows [OF t(1,5,6,7,3) _ fits e(1)] t(4,8) p(2) by simp_all
  have "end_row sample_env (begin_row sample_env ?t) = finish_row sample_env (begin_row sample_env ?t)"
    using begin_row_core [OF t(5), of sample_env] t(6) by (simp add: end_row_def direct_path_def)
  then have "column_order e = [''d'']"
    using e(1) finish_row_order [of sample_env "begin_row sample_env ?t" e] begin_row_order [OF t(5), of sample_env] ord
    by (auto simp: parse_row_def split: bind_splits)
  moreover have "row_count e = 1" using arg_cong [OF e(4), of length] by (simp add: tb_rows_def)
  ultimately have "kept [e, e] = [e, e]" "count_list (all_names (kept [e, e])) ''d'' = 2" by (simp_all add: all_names_def)
  moreover have "chunk_ok decimal_plan e" using e(2,3) err by (simp add: chunk_ok_def errors_def)
  ultimately show ?thesis using decimal_chunks_fail [of "[e, e]" decimal_plan "''d''" sample_env idle_kernels] p(3) e(1) by simp
qed

end
