(* ===== verification/Dict_Unify.thy ===== *)
theory Dict_Unify
  imports Chunk_Laws
begin

text \<open>
  Unifying the dictionaries of several chunks with a seed (\<open>dict.rs\<close>): values the seed does not
  have are appended to it, and every chunk gets a table from its codes to the unified ones.
\<close>

section \<open>Seeds, remap tables and the unification\<close>

record seed_dict =
  seed_values :: string
  seed_offsets :: "int list"
  seed_index :: "(string, int) hmap"

fun seed_extend :: "nat \<Rightarrow> string list \<Rightarrow> seed_dict \<Rightarrow> seed_dict" where
  "seed_extend i [] d = d"
| "seed_extend i (s # ss) d =
     (let data = seed_values d @ s
      in seed_extend (Suc i) ss
           \<lparr>seed_values = data, seed_offsets = seed_offsets d @ [as_i32 (int (length data))],
            seed_index = AList.update s (as_i32 (int i)) (seed_index d)\<rparr>)"

definition seed_new :: "string list \<Rightarrow> seed_dict" where
  "seed_new values = seed_extend 0 values \<lparr>seed_values = [], seed_offsets = [0], seed_index = []\<rparr>"

definition seed_len :: "seed_dict \<Rightarrow> nat" where
  "seed_len d = length (seed_offsets d) - 1"

record remap_table =
  rmap :: "int list"
  is_identity :: bool

definition remap_identity :: "nat \<Rightarrow> remap_table" where
  "remap_identity n = \<lparr>rmap = map int [0..<n], is_identity = True\<rparr>"

text \<open>The unified dictionary while it grows: index, arena, offsets and the next code.\<close>

record globals =
  gindex :: "(string, int) hmap"
  gdata :: string
  goffsets :: "int list"
  gnext :: int

text \<open>One local entry; \<open>None\<close> is the panic of offsets that do not slice the arena.\<close>

definition collect_entry :: "dict_table \<Rightarrow> nat \<Rightarrow> globals \<Rightarrow> globals option" where
  "collect_entry t i g = do {
     bytes \<leftarrow> dict_entry t (int i);
     let k = utf8_lossy bytes;
     Some (if contains_key (gindex g) k then g
           else (let data = gdata g @ k
                 in \<lparr>gindex = AList.update k (gnext g) (gindex g), gdata = data,
                     goffsets = goffsets g @ [as_i32 (int (length data))], gnext = as_i32 (gnext g + 1)\<rparr>))
   }"

fun collect_entries :: "dict_table \<Rightarrow> nat list \<Rightarrow> globals \<Rightarrow> globals option" where
  "collect_entries t [] g = Some g"
| "collect_entries t (i # is) g = Option.bind (collect_entry t i g) (collect_entries t is)"

fun collect_columns :: "nat \<Rightarrow> column_builder list \<Rightarrow> globals \<Rightarrow> globals option" where
  "collect_columns n [] g = Some g"
| "collect_columns n (CB_Dictionary codes t # cs) g = Option.bind (collect_entries t [n..<dict_size t] g) (collect_columns n cs)"
| "collect_columns n (c # cs) g = collect_columns n cs g"

text \<open>The unified code of one local code, and whether it is the local one.\<close>

definition remap_entry :: "(string, int) hmap \<Rightarrow> dict_table \<Rightarrow> nat \<Rightarrow> (int \<times> bool) option" where
  "remap_entry index t i = do {
     bytes \<leftarrow> dict_entry t (int i);
     let k = utf8_lossy bytes;
     Some (case map_of index k of None \<Rightarrow> (int i, True)
           | Some g \<Rightarrow> (case map_of (dindex t) k of None \<Rightarrow> (int i, True) | Some l \<Rightarrow> (g, g = l)))
   }"

definition remap_column :: "nat \<Rightarrow> (string, int) hmap \<Rightarrow> column_builder \<Rightarrow> remap_table option" where
  "remap_column n index c =
     (case c of
        CB_Dictionary codes t \<Rightarrow> do {
          entries \<leftarrow> those (map (remap_entry index t) [0..<dict_size t]);
          let same = list_all snd entries;
          Some \<lparr>rmap = map fst entries,
                is_identity = (if dict_size t = n \<and> same then same else if n < dict_size t then False else same)\<rparr>
        }
      | _ \<Rightarrow> Some (remap_identity 0))"

record unified_dict =
  udata :: string
  uoffsets :: "int list"

definition unify_dictionaries :: "seed_dict \<Rightarrow> column_builder list \<Rightarrow> (unified_dict \<times> remap_table list) option" where
  "unify_dictionaries seed locals = do {
     g \<leftarrow> collect_columns (seed_len seed) locals
            \<lparr>gindex = fold (\<lambda>(k, v). AList.update k v) (AList.clearjunk (seed_index seed)) [], gdata = seed_values seed,
             goffsets = seed_offsets seed, gnext = as_i32 (int (seed_len seed))\<rparr>;
     remaps \<leftarrow> those (map (remap_column (seed_len seed) (gindex g)) locals);
     Some (\<lparr>udata = gdata g, uoffsets = goffsets g\<rparr>, remaps)
   }"

definition apply_remap :: "remap_table \<Rightarrow> int option list \<Rightarrow> int option list" where
  "apply_remap r codes = (if is_identity r then codes else map (map_option (remap_code (rmap r))) codes)"

section \<open>Unified tables\<close>

text \<open>A growing unified dictionary stands for a list of distinct values.\<close>

definition as_table :: "globals \<Rightarrow> dict_table" where
  "as_table g = \<lparr>ddata = gdata g, doffsets = goffsets g, dindex = gindex g\<rparr>"

definition globals_repr :: "globals \<Rightarrow> string list \<Rightarrow> bool" where
  "globals_repr g vs \<longleftrightarrow> dict_repr (as_table g) vs \<and> gnext g = int (length vs)"

text \<open>The values a list of entries adds.\<close>

definition add_new :: "string list \<Rightarrow> string list \<Rightarrow> string list" where
  "add_new ws vs = fold (\<lambda>w vs. if w \<in> set vs then vs else vs @ [w]) ws vs"

lemma add_new_simps [simp]:
  "add_new [] vs = vs" "add_new (w # ws) vs = add_new ws (if w \<in> set vs then vs else vs @ [w])"
  "add_new (us @ ws) vs = add_new ws (add_new us vs)"
  by (simp_all add: add_new_def)

lemma add_new_set: "set (add_new ws vs) = set vs \<union> set ws"
  by (induction ws arbitrary: vs) auto

lemma add_new_prefix: "\<exists>us. add_new ws vs = vs @ us"
proof (induction ws arbitrary: vs)
  case (Cons w ws)
  obtain us where "add_new ws (if w \<in> set vs then vs else vs @ [w]) = (if w \<in> set vs then vs else vs @ [w]) @ us"
    using Cons.IH by blast
  then show ?case by (cases "w \<in> set vs") auto
qed simp

lemma globals_key:
  assumes "globals_repr g vs"
  shows "contains_key (gindex g) k \<longleftrightarrow> k \<in> set vs"
    "k \<in> set vs \<Longrightarrow> \<exists>i < length vs. vs ! i = k \<and> map_of (gindex g) k = Some (int i)"
proof -
  have ix: "map_of (gindex g) k = map_option int (position (\<lambda>u. u = k) vs)"
    using assms by (simp add: globals_repr_def dict_repr_def as_table_def)
  show "contains_key (gindex g) k \<longleftrightarrow> k \<in> set vs"
    using position_None [of "\<lambda>u. u = k" vs] by (auto simp: contains_key_def ix)
  show "\<exists>i < length vs. vs ! i = k \<and> map_of (gindex g) k = Some (int i)" if k: "k \<in> set vs"
  proof -
    obtain i where "position (\<lambda>u. u = k) vs = Some i"
      using k by (cases "position (\<lambda>u. u = k) vs") (auto simp: position_None)
    then show ?thesis using position_Some [of "\<lambda>u. u = k" vs i] by (auto simp: ix)
  qed
qed

text \<open>Room for more values in the 32-bit offsets and codes.\<close>

definition room_for :: "string list \<Rightarrow> string list \<Rightarrow> bool" where
  "room_for ws vs \<longleftrightarrow> length (concat vs) + length (concat ws) < 2 ^ 31 \<and> length vs + length ws + 1 < 2 ^ 31"

lemma collect_entry_ok:
  assumes g: "globals_repr g vs" and t: "dict_ok t" "i < length (dict_values t)" and room: "room_for [dict_values t ! i] vs"
  shows "\<exists>g'. collect_entry t i g = Some g' \<and> globals_repr g' (add_new [dict_values t ! i] vs)"
proof -
  let ?w = "dict_values t ! i"
  have e: "dict_entry t (int i) = Some ?w" "utf8_lossy ?w = ?w"
    using dict_ok_str [OF t] utf8_lossy_valid by simp_all
  show ?thesis
  proof (cases "?w \<in> set vs")
    case True
    then show ?thesis using e g globals_key(1) [OF g] by (simp add: collect_entry_def)
  next
    case False
    have r: "dict_repr (as_table g) vs" "gnext g = int (length vs)" using g by (simp_all add: globals_repr_def)
    have sz: "as_i32 (int (length (concat vs) + length ?w)) = int (length (concat vs)) + int (length ?w)"
      "as_i32 (int (length vs) + 1) = int (length vs) + 1"
      using room by (simp_all add: room_for_def i32_range_def)
    have none: "position (\<lambda>u. u = ?w) vs = None" using False by (auto simp: position_None)
    let ?g = "\<lparr>gindex = AList.update ?w (gnext g) (gindex g), gdata = gdata g @ ?w,
      goffsets = goffsets g @ [as_i32 (int (length (gdata g @ ?w)))], gnext = as_i32 (gnext g + 1)\<rparr>"
    have "dict_repr (as_table ?g) (vs @ [?w])"
      using r sz room False dict_ok_str(3) [OF t]
      by (auto simp: dict_repr_def as_table_def room_for_def position_snoc offs_snoc update_conv' none
          split: option.splits)
    then have "globals_repr ?g (vs @ [?w])" using r(2) sz(2) by (simp add: globals_repr_def)
    moreover have "collect_entry t i g = Some ?g" using e False globals_key(1) [OF g] by (simp add: collect_entry_def Let_def)
    ultimately show ?thesis using False by simp
  qed
qed

lemma room_for_step:
  assumes "room_for (w # ws) vs"
  shows "room_for [w] vs" "room_for ws (if w \<in> set vs then vs else vs @ [w])"
  using assms by (auto simp: room_for_def)

lemma collect_entries_ok:
  assumes "globals_repr g vs" "dict_ok t" "\<forall>i \<in> set is. i < length (dict_values t)" "room_for (map (\<lambda>i. dict_values t ! i) is) vs"
  shows "\<exists>g'. collect_entries t is g = Some g' \<and> globals_repr g' (add_new (map (\<lambda>i. dict_values t ! i) is) vs)"
  using assms
proof (induction "is" arbitrary: g vs)
  case (Cons i "is")
  note room = room_for_step [OF Cons.prems(4) [simplified]]
  obtain g' where g': "collect_entry t i g = Some g'" "globals_repr g' (add_new [dict_values t ! i] vs)"
    using collect_entry_ok [OF Cons.prems(1,2) _ room(1)] Cons.prems(3) by auto
  show ?case using Cons.IH [OF g'(2) Cons.prems(2)] Cons.prems(3) room(2) g'(1) by simp
qed simp

section \<open>Unifying with a populated seed\<close>

text \<open>The dictionaries of the given columns, and the values they add to a seed of \<open>n\<close> values.\<close>

fun dict_of :: "column_builder \<Rightarrow> dict_table option" where
  "dict_of (CB_Dictionary codes t) = Some t"
| "dict_of _ = None"

definition local_values :: "column_builder \<Rightarrow> string list" where
  "local_values c = (case dict_of c of None \<Rightarrow> [] | Some t \<Rightarrow> dict_values t)"

definition locals_ok :: "column_builder list \<Rightarrow> bool" where
  "locals_ok cs \<longleftrightarrow> (\<forall>c \<in> set cs. \<forall>t. dict_of c = Some t \<longrightarrow> dict_ok t)"

abbreviation overflow :: "nat \<Rightarrow> column_builder list \<Rightarrow> string list" where
  "overflow n cs \<equiv> concat (map (\<lambda>c. drop n (local_values c)) cs)"

lemma drop_as_map: "map ((!) xs) [n..<length xs] = drop n xs"
  by (intro nth_equalityI) simp_all

lemma room_for_append:
  assumes "room_for (us @ ws) vs"
  shows "room_for us vs" "room_for ws (add_new us vs)"
proof -
  show "room_for us vs" using assms by (simp add: room_for_def)
  have "length (concat (add_new us vs)) \<le> length (concat vs) + length (concat us) \<and> length (add_new us vs) \<le> length vs + length us"
  proof (induction us arbitrary: vs)
    case (Cons u us)
    from Cons.IH [of "if u \<in> set vs then vs else vs @ [u]"] show ?case by (auto split: if_splits)
  qed simp
  then show "room_for ws (add_new us vs)" using assms by (simp add: room_for_def)
qed

lemma dict_size_values: "dict_size t = length (dict_values t)"
  by (simp add: dict_values_def)

lemma collect_columns_ok:
  assumes "globals_repr g vs" "locals_ok cs" "room_for (overflow n cs) vs"
  shows "\<exists>g'. collect_columns n cs g = Some g' \<and> globals_repr g' (add_new (overflow n cs) vs)"
  using assms
proof (induction n cs g arbitrary: vs rule: collect_columns.induct)
  case (2 n codes t cs g)
  have t: "dict_ok t" using 2(3) by (simp add: locals_ok_def)
  have lv: "local_values (CB_Dictionary codes t) = dict_values t" by (simp add: local_values_def)
  have es: "map ((!) (dict_values t)) [n..<dict_size t] = drop n (dict_values t)"
    unfolding dict_size_values by (rule drop_as_map)
  note room = room_for_append [of "drop n (dict_values t)" "overflow n cs" vs]
  obtain g' where g': "collect_entries t [n..<dict_size t] g = Some g'" "globals_repr g' (add_new (drop n (dict_values t)) vs)"
    using collect_entries_ok [OF 2(2) t, of "[n..<dict_size t]"] room 2(4) by (auto simp: lv dict_size_values drop_as_map)
  have "\<exists>g''. collect_columns n cs g' = Some g'' \<and> globals_repr g'' (add_new (overflow n cs) (add_new (drop n (dict_values t)) vs))"
    using 2(1) [OF g'] 2(3,4) room by (simp add: lv locals_ok_def)
  with g'(1) show ?case by (simp add: lv)
qed (simp_all add: local_values_def locals_ok_def)

lemma remap_column_ok:
  assumes g: "globals_repr g us" and t: "dict_ok t" "set (dict_values t) \<subseteq> set us"
  shows "\<exists>r. remap_column n (gindex g) (CB_Dictionary codes t) = Some r \<and> length (rmap r) = length (dict_values t) \<and>
    (\<forall>i < length (dict_values t). \<exists>j < length us. rmap r ! i = int j \<and> us ! j = dict_values t ! i) \<and>
    (is_identity r \<longrightarrow> rmap r = map int [0..<length (dict_values t)])"
proof -
  have r: "dict_repr t (dict_values t)" using t(1) by (simp add: dict_ok_def)
  have entry: "\<exists>j. remap_entry (gindex g) t i = Some (int j, int j = int i) \<and> j < length us \<and> us ! j = dict_values t ! i"
    if i: "i < length (dict_values t)" for i
  proof -
    let ?w = "dict_values t ! i"
    have w: "dict_entry t (int i) = Some ?w" "utf8_lossy ?w = ?w" "?w \<in> set us"
      using dict_ok_str [OF t(1) i] utf8_lossy_valid t(2) i by auto
    have "map_of (dindex t) ?w = Some (int i)"
      using r position_distinct [of "dict_values t" i] i by (simp add: dict_repr_def)
    with w globals_key(2) [OF g w(3)] show ?thesis by (auto simp: remap_entry_def)
  qed
  then obtain f where f: "\<And>i. i < length (dict_values t) \<Longrightarrow> remap_entry (gindex g) t i = Some (int (f i), int (f i) = int i) \<and>
      f i < length us \<and> us ! (f i) = dict_values t ! i" by metis
  have "those (map (remap_entry (gindex g) t) [0..<dict_size t]) = Some (map (\<lambda>i. (int (f i), int (f i) = int i)) [0..<dict_size t])"
    by (rule those_map_ok) (use f in \<open>simp add: dict_size_values\<close>)
  then show ?thesis using f
    by (auto simp: remap_column_def dict_size_values comp_def list_all_iff Let_def split: if_splits)
qed

text \<open>A seed whose index has been filled, as \<open>SeedDict::new\<close> leaves it.\<close>

definition seed_table :: "seed_dict \<Rightarrow> dict_table" where
  "seed_table d = \<lparr>ddata = seed_values d, doffsets = seed_offsets d, dindex = seed_index d\<rparr>"

lemma seed_extend_ok:
  assumes "dict_repr (seed_table d) vs" "room_for ss vs" "distinct (vs @ ss)" "list_all utf8_valid ss"
  shows "dict_repr (seed_table (seed_extend (length vs) ss d)) (vs @ ss)"
  using assms
proof (induction ss arbitrary: d vs)
  case (Cons s ss)
  have none: "position (\<lambda>u. u = s) vs = None" using Cons.prems(3) by (auto simp: position_None)
  have sz: "as_i32 (int (length (concat vs) + length s)) = int (length (concat vs)) + int (length s)"
    "as_i32 (int (length vs)) = int (length vs)"
    using Cons.prems(2) by (simp_all add: room_for_def i32_range_def)
  let ?d = "\<lparr>seed_values = seed_values d @ s, seed_offsets = seed_offsets d @ [as_i32 (int (length (seed_values d @ s)))],
    seed_index = AList.update s (as_i32 (int (length vs))) (seed_index d)\<rparr>"
  have "dict_repr (seed_table ?d) (vs @ [s])"
    using Cons.prems sz none
    by (auto simp: dict_repr_def seed_table_def room_for_def position_snoc offs_snoc update_conv' split: option.splits)
  from Cons.IH [OF this] Cons.prems show ?case by (simp add: Let_def room_for_def)
qed simp

lemma seed_new_ok:
  assumes "distinct vs" "list_all utf8_valid vs" "room_for vs []"
  shows "dict_repr (seed_table (seed_new vs)) vs"
proof -
  have "dict_repr (seed_table \<lparr>seed_values = [], seed_offsets = [0], seed_index = []\<rparr>) []"
    by (simp add: dict_repr_def seed_table_def)
  from seed_extend_ok [OF this assms(3)] assms(1,2) show ?thesis by (simp add: seed_new_def)
qed

lemma update_all: "map_of (fold (\<lambda>(k, v). AList.update k v) kvs xs) = map_of xs ++ map_of (rev kvs)"
  by (induction kvs arbitrary: xs) (auto simp: update_conv' split: prod.splits)

lemma map_of_reversed: "distinct (map fst kvs) \<Longrightarrow> map_of (rev kvs) = map_of kvs"
  by (rule map_of_eqI) (auto simp: rev_map [symmetric] map_of_eq_Some_iff)

lemma copied_index: "map_of (fold (\<lambda>(k, v). AList.update k v) (AList.clearjunk ix) []) = map_of ix"
  unfolding update_all by (simp add: map_of_reversed distinct_clearjunk map_of_clearjunk)

text \<open>
  Unifying dictionaries with a filled seed: as long as the codes below the seed's length stand for
  seed values in every chunk, the unified dictionary starts with the seed, has each value once,
  and every chunk's remap table sends each of its codes to the same value; a table that calls
  itself the identity is the identity, so skipping it is right.
\<close>

theorem unified_codes_keep_values:
  assumes "distinct vs" "list_all utf8_valid vs" "locals_ok cs" "room_for (overflow (length vs) cs) vs"
    and "\<forall>c \<in> set cs. dict_of c \<noteq> None \<and> set (take (length vs) (local_values c)) \<subseteq> set vs"
  shows "\<exists>u rs us. unify_dictionaries (seed_new vs) cs = Some (u, rs) \<and>
    udata u = concat (vs @ us) \<and> uoffsets u = offs (vs @ us) \<and> distinct (vs @ us) \<and> length rs = length cs \<and>
    (\<forall>k < length cs. \<forall>i < length (local_values (cs ! k)). \<exists>j < length (vs @ us).
       rmap (rs ! k) ! i = int j \<and> (vs @ us) ! j = local_values (cs ! k) ! i) \<and>
    (\<forall>k < length cs. is_identity (rs ! k) \<longrightarrow> rmap (rs ! k) = map int [0..<length (local_values (cs ! k))])"
proof -
  let ?seed = "seed_new vs" and ?n = "length vs"
  have room: "room_for vs []" using assms(4) by (simp add: room_for_def)
  have seed: "dict_repr (seed_table ?seed) vs" by (rule seed_new_ok [OF assms(1,2) room])
  then have n: "seed_len ?seed = ?n" by (simp add: dict_repr_def seed_table_def seed_len_def)
  have small: "as_i32 (int ?n) = int ?n" using room by (simp add: room_for_def i32_range_def)
  let ?g = "\<lparr>gindex = fold (\<lambda>(k, v). AList.update k v) (AList.clearjunk (seed_index ?seed)) [], gdata = seed_values ?seed,
             goffsets = seed_offsets ?seed, gnext = as_i32 (int ?n)\<rparr>"
  have "globals_repr ?g vs"
    using seed small by (simp add: globals_repr_def dict_repr_def as_table_def seed_table_def copied_index)
  then obtain g where g: "collect_columns ?n cs ?g = Some g" "globals_repr g (add_new (overflow ?n cs) vs)"
    using collect_columns_ok [OF _ assms(3,4)] by blast
  obtain us where us: "add_new (overflow ?n cs) vs = vs @ us" using add_new_prefix by blast
  have covered: "set (local_values c) \<subseteq> set (vs @ us)" if "c \<in> set cs" for c
  proof -
    have "set (local_values c) = set (take ?n (local_values c)) \<union> set (drop ?n (local_values c))"
      using set_append [of "take ?n (local_values c)" "drop ?n (local_values c)"] by simp
    moreover have "set (drop ?n (local_values c)) \<subseteq> set (vs @ us)"
      using that add_new_set [of "overflow ?n cs" vs] us by auto
    ultimately show ?thesis using assms(5) that by auto
  qed
  have one: "\<exists>r. remap_column ?n (gindex g) c = Some r \<and>
      (\<forall>i < length (local_values c). \<exists>j < length (vs @ us). rmap r ! i = int j \<and> (vs @ us) ! j = local_values c ! i) \<and>
      (is_identity r \<longrightarrow> rmap r = map int [0..<length (local_values c)])" if c: "c \<in> set cs" for c
  proof -
    obtain codes t where d: "c = CB_Dictionary codes t" using assms(5) c by (cases c) auto
    have "dict_ok t" "local_values c = dict_values t" using assms(3) c d by (auto simp: locals_ok_def local_values_def)
    then show ?thesis using remap_column_ok [OF g(2) [unfolded us], of t ?n codes] covered [OF c] d by auto
  qed
  then obtain f where f: "\<And>c. c \<in> set cs \<Longrightarrow> remap_column ?n (gindex g) c = Some (f c) \<and>
      (\<forall>i < length (local_values c). \<exists>j < length (vs @ us). rmap (f c) ! i = int j \<and> (vs @ us) ! j = local_values c ! i) \<and>
      (is_identity (f c) \<longrightarrow> rmap (f c) = map int [0..<length (local_values c)])" by metis
  have "those (map (remap_column ?n (gindex g)) cs) = Some (map f cs)"
    by (rule those_map_ok) (use f in blast)
  then have "unify_dictionaries ?seed cs = Some (\<lparr>udata = gdata g, uoffsets = goffsets g\<rparr>, map f cs)"
    using g(1) by (simp add: unify_dictionaries_def n)
  moreover have "dict_repr (as_table g) (vs @ us)" using g(2) us by (simp add: globals_repr_def)
  ultimately show ?thesis using f by (intro exI conjI) (auto simp: dict_repr_def as_table_def)
qed

text \<open>Dictionaries for the examples.\<close>

definition dict_codes_of :: "string list \<Rightarrow> int nullable_column \<times> dict_table" where
  "dict_codes_of vs = dict_encode (map Some vs) null_empty dict_new"

lemma dict_codes_sample:
  "dict_col_ok (fst (dict_codes_of [''x'', ''y''])) (snd (dict_codes_of [''x'', ''y'']))"
  "dict_col_ok (fst (dict_codes_of [''y'', ''x''])) (snd (dict_codes_of [''y'', ''x'']))"
  "ddata (snd (dict_codes_of [''x'', ''y''])) = ''xy''" "ddata (snd (dict_codes_of [''y'', ''x''])) = ''yx''"
  "dict_size (snd (dict_codes_of [''x'', ''y''])) = 2" "dict_size (snd (dict_codes_of [''y'', ''x''])) = 2"
  "dict_values (snd (dict_codes_of [''x'', ''y''])) = [''x'', ''y'']" "dict_values (snd (dict_codes_of [''y'', ''x''])) = [''y'', ''x'']"
  "null_iter (fst (dict_codes_of [''y'', ''x''])) = [Some 0, Some 1]"
proof -
  have ok: "dict_col_ok null_empty dict_new" by (simp add: dict_col_ok_def)
  have utf8: "utf8_valid ''x''" "utf8_valid ''y''" by code_simp+
  have room: "dict_room dict_new (map Some [''x'', ''y''])" "dict_room dict_new (map Some [''y'', ''x''])"
    using utf8 by (auto simp: dict_room_def dict_new_def cell_bytes_def)
  show "dict_col_ok (fst (dict_codes_of [''x'', ''y''])) (snd (dict_codes_of [''x'', ''y'']))"
    "dict_col_ok (fst (dict_codes_of [''y'', ''x''])) (snd (dict_codes_of [''y'', ''x'']))"
    using dict_encode_ok [OF ok room(1)] dict_encode_ok [OF ok room(2)] by (simp_all add: dict_codes_of_def)
  show "ddata (snd (dict_codes_of [''x'', ''y''])) = ''xy''" "ddata (snd (dict_codes_of [''y'', ''x''])) = ''yx''"
    by code_simp+
  show "dict_size (snd (dict_codes_of [''x'', ''y''])) = 2" "dict_size (snd (dict_codes_of [''y'', ''x''])) = 2" by code_simp+
  show "dict_values (snd (dict_codes_of [''x'', ''y''])) = [''x'', ''y'']" "dict_values (snd (dict_codes_of [''y'', ''x''])) = [''y'', ''x'']"
    by code_simp+
  show "null_iter (fst (dict_codes_of [''y'', ''x''])) = [Some 0, Some 1]" by code_simp
qed

theorem unified_codes_keep_values_witness:
  "\<exists>u rs us. unify_dictionaries (seed_new [''x'']) [case_prod CB_Dictionary (dict_codes_of [''x'', ''y''])] = Some (u, rs) \<and>
     uoffsets u = offs ([''x''] @ us) \<and> (\<exists>j < length ([''x''] @ us). rmap (rs ! 0) ! 1 = int j \<and> ([''x''] @ us) ! j = ''y'')"
proof -
  obtain codes t where ct: "dict_codes_of [''x'', ''y''] = (codes, t)" by fastforce
  let ?c = "CB_Dictionary codes t"
  note s = dict_codes_sample
  have t: "dict_ok t" "dict_values t = [''x'', ''y'']" using s by (simp_all add: ct dict_col_ok_def)
  have lv: "local_values ?c = [''x'', ''y'']" by (simp add: local_values_def t)
  have utf8: "utf8_valid ''x''" by code_simp
  have "\<exists>u rs us. unify_dictionaries (seed_new [''x'']) [?c] = Some (u, rs) \<and>
    udata u = concat ([''x''] @ us) \<and> uoffsets u = offs ([''x''] @ us) \<and> distinct ([''x''] @ us) \<and> length rs = length [?c] \<and>
    (\<forall>k < length [?c]. \<forall>i < length (local_values ([?c] ! k)). \<exists>j < length ([''x''] @ us).
       rmap (rs ! k) ! i = int j \<and> ([''x''] @ us) ! j = local_values ([?c] ! k) ! i) \<and>
    (\<forall>k < length [?c]. is_identity (rs ! k) \<longrightarrow> rmap (rs ! k) = map int [0..<length (local_values ([?c] ! k))])"
    by (rule unified_codes_keep_values) (simp_all add: utf8 lv locals_ok_def t room_for_def)
  then show ?thesis by (fastforce simp: lv ct)
qed

end
