(* ===== verification/Parallel.thy ===== *)
theory Parallel
  imports Dict_Unify Decoder
begin

text \<open>
  The parallel executor (\<open>parallel.rs\<close>): split the input, parse every chunk into a builder of its
  own, export the chunks as batches, unify the dictionary of one column under \<open>auto_dict\<close>, or
  merge the builders. The record parser is a parameter; a panic in a worker is caught and becomes
  an error. Timing counters are left out.
\<close>

section \<open>Workers\<close>

record chunk_parser =
  validate :: "string \<Rightarrow> unit result option"
  parse_chunk :: "string \<Rightarrow> table_builder \<Rightarrow> (unit result \<times> table_builder) option"

definition estimated_chunk_rows :: "nat \<Rightarrow> nat \<Rightarrow> nat" where
  "estimated_chunk_rows est_row len = (if 0 < len then max (len div est_row) 64 else 64)"

definition worker_panic :: error where
  "worker_panic = Parser_error ''worker panicked during parallel parse''"

definition run_worker :: "chunk_parser \<Rightarrow> execution_plan \<Rightarrow> nat \<Rightarrow> string \<Rightarrow> table_builder result" where
  "run_worker P p est chunk =
     (case validate P chunk of
        None \<Rightarrow> Inl worker_panic
      | Some (Inl err) \<Rightarrow> Inl err
      | Some (Inr _) \<Rightarrow>
         (case parse_chunk P chunk (tb_with_plan est p) of
            None \<Rightarrow> Inl worker_panic
          | Some (Inl err, _) \<Rightarrow> Inl err
          | Some (Inr _, sink) \<Rightarrow> Inr sink))"

fun collect_results :: "'a result list \<Rightarrow> 'a list result" where
  "collect_results [] = Inr []"
| "collect_results (r # rs) = bind_result r (\<lambda>x. bind_result (collect_results rs) (\<lambda>xs. Inr (x # xs)))"

section \<open>Schemas that agree\<close>

text \<open>The storage variants of a builder; \<open>None\<close> is the panic of an index out of range.\<close>

definition column_keys :: "table_builder \<Rightarrow> (string, string) hmap option" where
  "column_keys e =
     those (map (\<lambda>(name, i). map_option (\<lambda>b. (name, variant_key b)) (idx (columns e) i)) (AList.clearjunk (field_index e)))"

definition schemas_consistent :: "table_builder list \<Rightarrow> bool option" where
  "schemas_consistent engines =
     (case engines of [] \<Rightarrow> Some True
      | first # rest \<Rightarrow> do {
          base \<leftarrow> column_keys first;
          keys \<leftarrow> those (map column_keys rest);
          Some (list_all (list_all (\<lambda>(name, k). case map_of base name of Some k' \<Rightarrow> k' = k | None \<Rightarrow> True)) keys)
        })"

section \<open>One dictionary for all chunks\<close>

text \<open>The first dictionary column of the first chunk that another chunk holds with other values.\<close>

definition differs_from :: "dict_table \<Rightarrow> string \<Rightarrow> table_builder \<Rightarrow> bool option" where
  "differs_from t name e =
     (case column_of name e of None \<Rightarrow> None
      | Some (Some (CB_Dictionary _ u)) \<Rightarrow> Some (ddata u \<noteq> ddata t \<or> doffsets u \<noteq> doffsets t)
      | Some _ \<Rightarrow> Some False)"

fun any_differs :: "dict_table \<Rightarrow> string \<Rightarrow> table_builder list \<Rightarrow> bool option" where
  "any_differs t name [] = Some False"
| "any_differs t name (e # es) = Option.bind (differs_from t name e) (\<lambda>d. if d then Some True else any_differs t name es)"

fun find_unify_col :: "table_builder \<Rightarrow> table_builder list \<Rightarrow> string list \<Rightarrow> string option option" where
  "find_unify_col first rest [] = Some None"
| "find_unify_col first rest (name # names) =
     (case column_of name first of
        None \<Rightarrow> None
      | Some (Some (CB_Dictionary _ t)) \<Rightarrow>
          Option.bind (any_differs t name rest) (\<lambda>d. if d then Some (Some name) else find_unify_col first rest names)
      | Some _ \<Rightarrow> find_unify_col first rest names)"

text \<open>The seed made from the first chunk's dictionary. Its index stays empty.\<close>

fun copy_entries :: "dict_table \<Rightarrow> nat list \<Rightarrow> seed_dict \<Rightarrow> seed_dict option" where
  "copy_entries t [] d = Some d"
| "copy_entries t (i # is) d = do {
     bytes \<leftarrow> dict_entry t (int i);
     let data = seed_values d @ bytes;
     copy_entries t is (d\<lparr>seed_values := data, seed_offsets := seed_offsets d @ [as_i32 (int (length data))]\<rparr>)
   }"

definition seed_of :: "dict_table \<Rightarrow> seed_dict option" where
  "seed_of t = copy_entries t [0..<dict_size t] \<lparr>seed_values = [], seed_offsets = [0], seed_index = []\<rparr>"

fun index_entries :: "dict_table \<Rightarrow> nat list \<Rightarrow> (string, int) hmap \<Rightarrow> (string, int) hmap option" where
  "index_entries t [] ix = Some ix"
| "index_entries t (i # is) ix = do {
     bytes \<leftarrow> dict_entry t (int i);
     index_entries t is (AList.update (utf8_lossy bytes) (as_i32 (int i)) ix)
   }"

text \<open>The unified dictionary with its index, as every chunk gets it.\<close>

definition table_of_unified :: "unified_dict \<Rightarrow> dict_table option" where
  "table_of_unified u =
     (let t = \<lparr>ddata = udata u, doffsets = uoffsets u, dindex = []\<rparr>
      in map_option (\<lambda>ix. t\<lparr>dindex := ix\<rparr>) (index_entries t [0..<dict_size t] []))"

definition remap_and_replace :: "int list \<Rightarrow> dict_table \<Rightarrow> column_builder \<Rightarrow> column_builder" where
  "remap_and_replace m t c =
     cb_replace_dict t (case c of CB_Dictionary codes d \<Rightarrow> CB_Dictionary (remap_codes m codes) d | _ \<Rightarrow> c)"

definition remap_engine :: "string \<Rightarrow> dict_table \<Rightarrow> table_builder \<Rightarrow> remap_table \<Rightarrow> table_builder option" where
  "remap_engine name t e r =
     (case map_of (field_index e) name of
        None \<Rightarrow> Some e
      | Some i \<Rightarrow> map_option (\<lambda>b. e\<lparr>columns := (columns e)[i := remap_and_replace (rmap r) t b]\<rparr>) (idx (columns e) i))"

text \<open>Builders beyond the last remap table are left alone, as \<open>zip\<close> leaves them.\<close>

fun remap_engines :: "string \<Rightarrow> dict_table \<Rightarrow> table_builder list \<Rightarrow> remap_table list \<Rightarrow> table_builder list option" where
  "remap_engines name t (e # es) (r # rs) = do {
     e' \<leftarrow> remap_engine name t e r;
     es' \<leftarrow> remap_engines name t es rs;
     Some (e' # es')
   }"
| "remap_engines name t es rs = Some es"

definition unify_engine_dicts :: "table_builder list \<Rightarrow> table_builder list option" where
  "unify_engine_dicts engines =
     (case engines of [] \<Rightarrow> Some []
      | first # rest \<Rightarrow> do {
          found \<leftarrow> find_unify_col first rest (column_order first);
          (case found of
             None \<Rightarrow> Some engines
           | Some name \<Rightarrow>
               (case column_of name first of
                  Some (Some (CB_Dictionary _ t)) \<Rightarrow> do {
                    seed \<leftarrow> seed_of t;
                    cols \<leftarrow> those (map (column_of name) engines);
                    (u, remaps) \<leftarrow> unify_dictionaries seed (List.map_filter id cols);
                    t' \<leftarrow> table_of_unified u;
                    remap_engines name t' engines remaps
                  }
                | _ \<Rightarrow> Some engines))
        })"

section \<open>The executor\<close>

text \<open>The merge path: one builder takes all chunks, then is finished.\<close>

fun extend_all :: "env \<Rightarrow> table_builder list \<Rightarrow> table_builder \<Rightarrow> (unit result \<times> table_builder) option" where
  "extend_all E [] t = Some (Inr (), t)"
| "extend_all E (e # es) t =
     (case tb_extend E e t of None \<Rightarrow> None | Some (Inl err, u) \<Rightarrow> Some (Inl err, u) | Some (Inr _, u) \<Rightarrow> extend_all E es u)"

definition merge_engines :: "env \<Rightarrow> arrow_kernels \<Rightarrow> table_builder list \<Rightarrow> execution_plan \<Rightarrow> record_batch list result option" where
  "merge_engines E K engines p =
     (case extend_all E engines (tb_with_plan (max (length engines) 64 * 512) p) of
        None \<Rightarrow> None
      | Some (Inl err, _) \<Rightarrow> Some (Inl err)
      | Some (Inr _, merged) \<Rightarrow>
         (case finish E merged of
            None \<Rightarrow> None
          | Some (Inl err, _) \<Rightarrow> Some (Inl err)
          | Some (Inr batch, _) \<Rightarrow>
             (case plan_filter p of
                None \<Rightarrow> Some (Inr [batch])
              | Some f \<Rightarrow> Some (bind_result (apply_compare_filter K batch f) (\<lambda>b. Inr [b])))))"

definition export_engines :: "env \<Rightarrow> arrow_kernels \<Rightarrow> table_builder list \<Rightarrow> execution_plan \<Rightarrow> record_batch list result option" where
  "export_engines E K engines p = do {
     consistent \<leftarrow> schemas_consistent engines;
     if \<not> auto_dict p \<and> consistent then engines_to_record_batches E K engines p
     else if auto_dict p then do {
       let upgraded = map auto_dict_upgrade engines;
       consistent \<leftarrow> schemas_consistent upgraded;
       if consistent then Option.bind (unify_engine_dicts upgraded) (\<lambda>es. engines_to_record_batches E K es p)
       else merge_engines E K upgraded p
     }
     else merge_engines E K engines p
   }"

definition chunk_ranges :: "splitter \<Rightarrow> string \<Rightarrow> execution_plan \<Rightarrow> nat \<Rightarrow> (nat \<times> nat) list" where
  "chunk_ranges S bytes p num_chunks =
     (let floor_bytes = (case min_chunk_bytes p of Some n \<Rightarrow> n | None \<Rightarrow> MIN_CHUNK_BYTES);
          ranges = split_points_to_ranges (find_split_points_with S bytes num_chunks floor_bytes) (length bytes)
      in if ranges = [] then [(0, length bytes)] else ranges)"

definition parallel_parse ::
    "env \<Rightarrow> arrow_kernels \<Rightarrow> splitter \<Rightarrow> chunk_parser \<Rightarrow> string \<Rightarrow> execution_plan \<Rightarrow> nat \<Rightarrow> record_batch list result option" where
  "parallel_parse E K S P bytes p num_chunks =
     (let est_row = max (estimate_bytes_per_row S (take 65536 bytes)) 512
      in case collect_results (map (\<lambda>(a, b). run_worker P p (estimated_chunk_rows est_row (b - a)) (sub_bytes a b bytes))
                (chunk_ranges S bytes p num_chunks)) of
        Inl err \<Rightarrow> Some (Inl err)
      | Inr [] \<Rightarrow> Some (Inr [])
      | Inr (e # es) \<Rightarrow> export_engines E K (e # es) (plan e))"

end
