(* ===== verification/Stream_Executor.thy ===== *)
theory Stream_Executor
  imports Coordinator Parallel
begin

text \<open>
  The parallel streaming executor around its coordinator (\<open>ParallelStreamingExecutor\<close> of
  \<open>parallel_stream.rs\<close>): the slots its budget is shared among, the chunks, the checks before the
  workers start and what a worker does with a chunk. The schema is an argument (the discovery has a
  theory of its own); a chunk's bytes are the same in memory and read from the file.
\<close>

section \<open>Sizes\<close>

record stream_executor =
  exec_budget :: memory_budget
  max_in_flight :: nat

definition executor_new :: "memory_budget \<Rightarrow> nat \<Rightarrow> stream_executor" where
  "executor_new b n = \<lparr>exec_budget = b, max_in_flight = max n 1\<rparr>"

record stream_opts =
  opt_threads :: nat
  opt_ordered :: bool
  opt_max_reorder :: nat

definition thread_count :: "stream_opts \<Rightarrow> nat" where
  "thread_count opts = max (opt_threads opts) 1"

definition max_reorder :: "stream_opts \<Rightarrow> nat" where
  "max_reorder opts = (if 0 < opt_max_reorder opts then opt_max_reorder opts else thread_count opts)"

definition memory_slots :: "stream_executor \<Rightarrow> stream_opts \<Rightarrow> nat" where
  "memory_slots x opts = sat_add (sat_add (sat_add (sat_mul (thread_count opts) 3) (sat_mul (max_in_flight x) 2)) (max_reorder opts)) 1"

definition stream_allowance :: "stream_executor \<Rightarrow> stream_opts \<Rightarrow> memory_budget" where
  "stream_allowance x opts = budget_share (exec_budget x) (memory_slots x opts)"

definition stream_chunk_size :: "stream_executor \<Rightarrow> stream_opts \<Rightarrow> nat \<Rightarrow> nat" where
  "stream_chunk_size x opts bytes_per_row =
     max (max (budget_bytes (exec_budget x) div sat_mul (thread_count opts) 32) (sat_mul bytes_per_row 10))
       (if is_strict (exec_budget x) then 1 else 65536)"

definition stream_num_chunks :: "stream_executor \<Rightarrow> stream_opts \<Rightarrow> nat \<Rightarrow> nat \<Rightarrow> nat" where
  "stream_num_chunks x opts bytes_per_row len =
     min (max (div_ceil len (stream_chunk_size x opts bytes_per_row)) (thread_count opts)) 10000"

definition stream_ranges :: "stream_executor \<Rightarrow> stream_opts \<Rightarrow> splitter \<Rightarrow> execution_plan \<Rightarrow> string \<Rightarrow> (nat \<times> nat) list" where
  "stream_ranges x opts S p bytes =
     (let bytes_per_row = max (estimate_bytes_per_row S (take 65536 bytes)) 1
      in chunk_ranges S bytes p (stream_num_chunks x opts bytes_per_row (length bytes)))"

section \<open>A worker's chunk\<close>

text \<open>
  The closure a worker runs under \<open>catch_unwind\<close>; \<open>None\<close> inside is a panic, which becomes an error. The chunk is
  a slice of the input in memory. When the input is a file the worker reads the range first, and can
  fail there: with an error of the file system, or by the check of the capacity of its read buffer, which
  grows to the largest chunk the worker has had. That path is left out.
\<close>

definition worker_parse ::
    "env \<Rightarrow> chunk_parser \<Rightarrow> execution_plan \<Rightarrow> frozen_schema option \<Rightarrow> memory_budget \<Rightarrow> nat \<Rightarrow> string \<Rightarrow> table_builder result option" where
  "worker_parse E P p schema a est_row chunk =
     (let t = tb_with_plan (max (length chunk div est_row) 64) p
      in case set_memory_budget E (budget_bytes a) (is_strict a) t of
           (Inl err, _) \<Rightarrow> Some (Inl err)
         | (Inr _, t) \<Rightarrow>
             (let t = (case schema of Some s \<Rightarrow> ensure_schema s t | None \<Rightarrow> t)
              in case (if schema = None then Inr () else check_memory_budget E t) of
                   Inl err \<Rightarrow> Some (Inl err)
                 | Inr _ \<Rightarrow>
                     (case validate P chunk of
                        None \<Rightarrow> None
                      | Some (Inl err) \<Rightarrow> Some (Inl err)
                      | Some (Inr _) \<Rightarrow> map_option (\<lambda>(r, t). bind_result r (\<lambda>_. Inr t)) (parse_chunk P chunk t))))"

definition worker_batch ::
    "env \<Rightarrow> chunk_parser \<Rightarrow> execution_plan \<Rightarrow> frozen_schema option \<Rightarrow> memory_budget \<Rightarrow> nat \<Rightarrow> (record_batch \<Rightarrow> nat) \<Rightarrow>
     string \<Rightarrow> record_batch result" where
  "worker_batch E P p schema a est_row array_bytes chunk =
     bind_result (budget_check a (length chunk)) (\<lambda>_.
       (case worker_parse E P p schema a est_row chunk of
          None \<Rightarrow> Inl worker_panic
        | Some (Inl err) \<Rightarrow> Inl err
        | Some (Inr t) \<Rightarrow>
            (case finish E t of
               None \<Rightarrow> Inl worker_panic
             | Some (Inl err, _) \<Rightarrow> Inl err
             | Some (Inr b, _) \<Rightarrow> bind_result (budget_check a (array_bytes b)) (\<lambda>_. Inr b))))"

section \<open>The run\<close>

text \<open>The checks of the planned chunks (24 bytes each) and, when the bytes are copied, of the copy.\<close>

definition stream_checks :: "stream_executor \<Rightarrow> stream_opts \<Rightarrow> (nat \<times> nat) list \<Rightarrow> bool \<Rightarrow> nat \<Rightarrow> unit result" where
  "stream_checks x opts ranges shared len =
     bind_result (budget_check (stream_allowance x opts) (length ranges * 24))
       (\<lambda>_. if shared then Inr () else budget_check (stream_allowance x opts) len)"

definition stream_of ::
    "env \<Rightarrow> chunk_parser \<Rightarrow> execution_plan \<Rightarrow> frozen_schema option \<Rightarrow> splitter \<Rightarrow> stream_executor \<Rightarrow> stream_opts \<Rightarrow>
     (record_batch \<Rightarrow> nat) \<Rightarrow> (record_batch list \<Rightarrow> record_batch \<Rightarrow> unit result) \<Rightarrow> string \<Rightarrow> stream_setup" where
  "stream_of E P p schema S x opts array_bytes eat bytes =
     (let ranges = stream_ranges x opts S p bytes;
          est_row = max (estimate_bytes_per_row S (take 65536 bytes)) 512;
          a = stream_allowance x opts
      in \<lparr>chunk_count = length ranges, channel_cap = max_in_flight x, dispatch_window = sat_add (max_reorder opts) 1,
          max_reorder_bytes = sat_mul (max_reorder opts) (budget_bytes a), ordered = opt_ordered opts,
          strict_budget = is_strict (exec_budget x),
          chunk_result = (\<lambda>n. let (from, to) = ranges ! n in worker_batch E P p schema a est_row array_bytes (sub_bytes from to bytes)),
          array_size = array_bytes, consume = eat\<rparr>)"

end
