(* ===== verification/Stream_Properties.thy ===== *)
theory Stream_Properties
  imports Stream_Runs Stream_Executor Table_Properties
begin

text \<open>
  The properties of the parallel streaming executor: delivery in order and in full, the causes of
  failure, the memory of the batches alive between the workers and the consumer, and progress.
\<close>

section \<open>Sample runs\<close>

text \<open>A stream of one chunk, which parses to a given result.\<close>

definition single :: "record_batch result \<Rightarrow> stream_setup \<Rightarrow> bool" where
  "single r C \<longleftrightarrow> chunk_count C = 1 \<and> 0 < channel_cap C \<and> 0 < dispatch_window C \<and> ordered C \<and> chunk_result C 0 = r"

definition one_chunk :: "record_batch result \<Rightarrow> stream_setup" where
  "one_chunk r = \<lparr>chunk_count = 1, channel_cap = 1, dispatch_window = 2, max_reorder_bytes = 0, ordered = True,
     strict_budget = True, chunk_result = (\<lambda>_. r), array_size = (\<lambda>_. 0), consume = (\<lambda>_ _. Inr ())\<rparr>"

lemma single_one_chunk: "single r (one_chunk r)"
  by (simp add: single_def one_chunk_def)

definition sample_state :: "worker \<Rightarrow> (nat \<times> record_batch result) list \<Rightarrow> coord" where
  "sample_state w ch = \<lparr>queue = [], workers = [w], channel = ch, dispatch = Some 0, pending = [], next_seq = 0,
     reorder_bytes = 0, delivered = [], outcome = None\<rparr>"

lemma sample_waiting: "single r C \<Longrightarrow> stream_step C (stream_start C 1) (sample_state (Waiting 0) [])"
  using stream_step.pop [of 0 "stream_start C 1" "[]" 0 C] by (simp add: single_def stream_start_def sample_state_def)

lemma sample_sending:
  assumes "single r C"
  shows "stream_reaches C (stream_start C 1) (sample_state (Sending 0 r) [])"
proof -
  note sample_waiting [OF assms]
  moreover have "stream_step C (sample_state (Waiting 0) []) (sample_state (Running 0) [])"
    using stream_step.dispatched [of 0 "sample_state (Waiting 0) []" 0 0 C] assms
    by (simp add: single_def sample_state_def sat_add_def usize_max_def)
  moreover have "stream_step C (sample_state (Running 0) []) (sample_state (Sending 0 r) [])"
    using stream_step.parsed [of 0 "sample_state (Running 0) []" 0 C] assms by (simp add: single_def sample_state_def)
  ultimately show ?thesis by (meson stream_reaches.intros)
qed

lemma sample_sent:
  assumes "single r C"
  shows "stream_reaches C (stream_start C 1) (sample_state (if is_err r then Exited else Ready) [(0, r)])"
proof -
  have "stream_step C (sample_state (Sending 0 r) []) (sample_state (if is_err r then Exited else Ready) [(0, r)])"
    using stream_step.sent [of 0 "sample_state (Sending 0 r) []" 0 r C] assms by (simp add: single_def sample_state_def)
  then show ?thesis using sample_sending [OF assms] by (meson stream_reaches.intros)
qed

definition sample_done :: "record_batch \<Rightarrow> coord" where
  "sample_done b = \<lparr>queue = [], workers = [Exited], channel = [], dispatch = Some 1, pending = [], next_seq = 1,
     reorder_bytes = 0, delivered = [(0, b)], outcome = Some (Inr ())\<rparr>"

lemma sample_success: "stream_reaches (one_chunk (Inr b)) (stream_start (one_chunk (Inr b)) 1) (sample_done b)"
proof -
  let ?C = "one_chunk (Inr b)"
  let ?t = "(sample_done b)\<lparr>workers := [Ready], outcome := None\<rparr>"
  let ?u = "(sample_done b)\<lparr>outcome := None\<rparr>"
  have "receive ?C (0, Inr b) (sample_state Ready []) = (Inr (), ?t)"
    by (simp add: receive_def deliver_def one_chunk_def sample_state_def sample_done_def drain.simps)
  then have "stream_step ?C (sample_state Ready [(0, Inr b)]) ?t"
    using stream_step.received [of "sample_state Ready [(0, Inr b)]" "(0, Inr b)" "[]" ?C ?t] by (simp add: sample_state_def)
  moreover have "stream_step ?C ?t ?u"
    using stream_step.no_chunk [of 0 ?t ?C] by (simp add: sample_done_def)
  moreover have "stream_step ?C ?u (sample_done b)"
    using stream_step.closed [of ?u ?C] by (simp add: sample_done_def)
  ultimately show ?thesis
    using sample_sent [OF single_one_chunk, of "Inr b"] by (simp add: is_err_def) (meson stream_reaches.intros)
qed

lemma sample_failure:
  assumes "single (Inl err) C"
  shows "stream_reaches C (stream_start C 1) ((sample_state Exited [])\<lparr>outcome := Some (Inl err)\<rparr>)"
proof -
  have "receive C (0, Inl err) (sample_state Exited []) = (Inl err, sample_state Exited [])" by (simp add: receive_def)
  then have "stream_step C (sample_state Exited [(0, Inl err)]) ((sample_state Exited [])\<lparr>outcome := Some (Inl err)\<rparr>)"
    using stream_step.failed [of "sample_state Exited [(0, Inl err)]" "(0, Inl err)" "[]" C err] by (simp add: sample_state_def)
  then show ?thesis using sample_sent [OF assms] by (simp add: is_err_def) (meson stream_reaches.intros)
qed

text \<open>An executor whose stream is of that kind: one thread, a strict budget, a parser that leaves the table alone.\<close>

definition strict_executor :: stream_executor where
  "strict_executor = executor_new (with_strict True (budget_new 1000)) 1"

definition one_thread :: stream_opts where
  "one_thread = \<lparr>opt_threads = 1, opt_ordered = True, opt_max_reorder = 0\<rparr>"

definition idle_parser :: "unit result \<Rightarrow> chunk_parser" where
  "idle_parser r = \<lparr>validate = (\<lambda>_. Some r), parse_chunk = (\<lambda>_ t. Some (Inr (), t))\<rparr>"

abbreviation sample_stream :: "unit result \<Rightarrow> stream_setup" where
  "sample_stream r \<equiv> stream_of sample_env (idle_parser r) declared_plan None line_splitter strict_executor one_thread (\<lambda>_. 10) (\<lambda>_ _. Inr ()) ''a''"

lemma sample_sizes: "thread_count one_thread = 1" "memory_slots strict_executor one_thread = 7" "max_reorder one_thread = 1"
    "budget_bytes (stream_allowance strict_executor one_thread) = 142" "is_strict (stream_allowance strict_executor one_thread)"
    "budget_bytes (exec_budget strict_executor) = 1000" "is_strict (exec_budget strict_executor)" "max_in_flight strict_executor = 1" "opt_ordered one_thread"
  by (simp_all add: one_thread_def strict_executor_def executor_new_def with_strict_def budget_new_def thread_count_def
      max_reorder_def memory_slots_def stream_allowance_def budget_share_def sat_add_def sat_mul_def usize_max_def)

lemma sample_ranges: "stream_ranges strict_executor one_thread line_splitter declared_plan ''a'' = [(0, 1)]"
proof -
  have "div_ceil 1 c \<le> 1" for c by (cases "c \<le> 1") (auto simp: div_ceil_def le_Suc_eq)
  then have n: "stream_num_chunks strict_executor one_thread n 1 = 1" for n
    by (simp add: stream_num_chunks_def sample_sizes max_absorb2)
  have "find_split_points_with line_splitter ''a'' 1 MIN_CHUNK_BYTES = [0, 1]"
    by (simp add: find_split_points_with_def find_split_points_def default_find_split_points_def line_splitter_def)
  then show ?thesis
    using n by (simp add: stream_ranges_def Let_def chunk_ranges_def split_points_to_ranges_def declared_plan_def plan_new_def)
qed

lemma sample_allowance: "stream_allowance strict_executor one_thread = \<lparr>budget_bytes = 142, is_strict = True\<rparr>"
  by (rule memory_budget.equality) (simp_all add: sample_sizes)

lemma sample_stream_single:
  assumes "worker_batch sample_env (idle_parser r) declared_plan None \<lparr>budget_bytes = 142, is_strict = True\<rparr> 512 (\<lambda>_. 10) ''a'' = res"
  shows "single res (sample_stream r)"
proof -
  have "max (estimate_bytes_per_row line_splitter (take 65536 ''a'')) 512 = 512" by (simp add: line_splitter_def)
  then show ?thesis
    using assms by (simp add: single_def stream_of_def Let_def sample_ranges sample_allowance sample_sizes sat_add_def usize_max_def sub_bytes_def)
qed

definition sample_batch :: record_batch where
  "sample_batch = [(''b'', \<lparr>atype = DT_Int64, acells = []\<rparr>)]"

lemma sample_stream_batch: "single (Inr sample_batch) (sample_stream (Inr ()))"
  by (rule sample_stream_single) (unfold sample_env_def sample_externals_def declared_plan_def idle_parser_def sample_batch_def, code_simp)

lemma sample_stream_error: "single (Inl (Parser_error ''bad'')) (sample_stream (Inl (Parser_error ''bad'')))"
  by (rule sample_stream_single) (unfold sample_env_def sample_externals_def declared_plan_def idle_parser_def, code_simp)

section \<open>Delivery\<close>

text \<open>
  C5. In every reachable state of a parallel stream, whatever the interleaving, the consumer has
  been given the batches of distinct chunks, each the one its chunk parses to; when order is asked
  for, they are those of the first chunks, in the order of the input.
\<close>

theorem stream_delivers_in_order:
  assumes "stream_reaches C (stream_start C threads) s" "0 < threads"
  shows "(\<forall>(n, b) \<in> set (delivered s). n < chunk_count C \<and> chunk_result C n = Inr b) \<and> distinct (map fst (delivered s)) \<and>
    (ordered C \<longrightarrow> map fst (delivered s) = [0..<length (delivered s)])"
  using reach_ok [OF assms] by (fastforce simp: stream_ok_def delivered_ok_def keys_def)

theorem stream_delivers_in_order_witness:
  "distinct (map fst (delivered (sample_done []))) \<and> map fst (delivered (sample_done [])) = [0..<1]"
  using stream_delivers_in_order [OF sample_success [of "[]"]] by (simp add: one_chunk_def sample_done_def)

lemma delivered_results:
  assumes "delivered_ok C s"
  shows "map (Inr \<circ> snd) (delivered s) = map (chunk_result C) (map fst (delivered s))"
  using assms by (auto simp: delivered_ok_def)

text \<open>
  C4. A stream that reports success has delivered every chunk once; in order, the consumer's batches are
  exactly the chunks' results, from the first to the last.
\<close>

theorem stream_success_is_complete:
  assumes "stream_reaches C (stream_start C threads) s" "0 < threads" "outcome s = Some (Inr ())"
  shows "mset (map (Inr \<circ> snd) (delivered s)) = mset (map (chunk_result C) [0..<chunk_count C]) \<and>
    (ordered C \<longrightarrow> map (Inr \<circ> snd) (delivered s) = map (chunk_result C) [0..<chunk_count C])"
proof -
  have ok: "delivered_ok C s" and all: "mset (keys (delivered s)) = mset [0..<chunk_count C]"
    using reach_ok [OF assms(1,2)] assms(3) by (simp_all add: stream_ok_def)
  note res = delivered_results [OF ok]
  have "mset (map (Inr \<circ> snd) (delivered s)) = image_mset (chunk_result C) (mset (keys (delivered s)))"
    unfolding res keys_def by (rule mset_map)
  then have "mset (map (Inr \<circ> snd) (delivered s)) = mset (map (chunk_result C) [0..<chunk_count C])"
    unfolding all by (simp only: mset_map)
  moreover have "length (delivered s) = chunk_count C" using arg_cong [OF all, of size] by (simp add: keys_def)
  ultimately show ?thesis using ok unfolding res by (simp add: delivered_ok_def keys_def)
qed

theorem stream_success_is_complete_witness:
  "map (Inr \<circ> snd) (delivered (sample_done [])) = [Inr [] :: record_batch result]"
  using stream_success_is_complete [OF sample_success [of "[]"]] by (simp add: one_chunk_def sample_done_def)

section \<open>Progress\<close>

lemma reaches_more: "stream_reaches C s t \<Longrightarrow> stream_step C r s \<Longrightarrow> stream_reaches C r t"
  by (induction rule: stream_reaches.induct) (meson stream_reaches.intros)+

lemma ok_can_step:
  assumes "stream_ok C s" "\<not> finished s" "0 < channel_cap C" "0 < dispatch_window C" "chunk_count C \<le> usize_max"
  shows "can_step C s"
  using assms running_can_step [of C s] over_can_step [of s C] by (cases "outcome s = None") (simp_all add: stream_ok_run)

text \<open>
  C8. No deadlock: as long as the channel has room for one batch and the window for one chunk, every
  reachable state of a stream that is not finished has a next step, and from every reachable state
  the stream can be brought to its end, with all workers gone.
\<close>

theorem stream_never_stuck:
  assumes "stream_reaches C (stream_start C threads) s" "0 < threads"
    and caps: "0 < channel_cap C" "0 < dispatch_window C" "chunk_count C \<le> usize_max"
  shows "(finished s \<or> (\<exists>t. stream_step C s t)) \<and> (\<exists>t. stream_reaches C s t \<and> finished t)"
proof
  show "finished s \<or> (\<exists>t. stream_step C s t)"
    using ok_can_step [OF reach_ok [OF assms(1,2)] _ caps] by (auto simp: can_step_def)
  have "stream_ok C s \<Longrightarrow> \<exists>t. stream_reaches C s t \<and> finished t"
  proof (induction "work s" arbitrary: s rule: less_induct)
    case less
    show ?case
    proof (cases "finished s")
      case False
      then obtain t where "stream_step C s t" using ok_can_step [OF less.prems _ caps] by (auto simp: can_step_def)
      then show ?thesis using less.hyps [OF step_works step_ok] less.prems reaches_more by blast
    qed (use stream_reaches.here in blast)
  qed
  then show "\<exists>t. stream_reaches C s t \<and> finished t" using reach_ok [OF assms(1,2)] by blast
qed

theorem stream_never_stuck_witness:
  "\<exists>t. stream_reaches (one_chunk (Inr [])) (stream_start (one_chunk (Inr [])) 3) t \<and> finished t"
  using stream_never_stuck [OF stream_reaches.here [of "one_chunk (Inr [])" "stream_start (one_chunk (Inr [])) 3"]]
  by (simp add: one_chunk_def usize_max_def)

text \<open>
  C17. Every run ends: however the threads interleave and whatever the chunks and the consumer return, a
  run has at most six steps for each chunk, one for each thread and two more.
\<close>

theorem stream_terminates:
  assumes "(stream_step C ^^ k) (stream_start C threads) s"
  shows "k \<le> 6 * chunk_count C + threads + 2"
  using steps_work [OF assms] work_start [of C threads] by simp

theorem stream_terminates_witness:
  "(stream_step (one_chunk (Inr [])) ^^ 1) (stream_start (one_chunk (Inr [])) 1) (sample_state (Waiting 0) []) \<and>
   (1::nat) \<le> 6 * chunk_count (one_chunk (Inr [])) + 1 + 2"
proof -
  have "(stream_step (one_chunk (Inr [])) ^^ 1) (stream_start (one_chunk (Inr [])) 1) (sample_state (Waiting 0) [])"
    using sample_waiting [OF single_one_chunk] by (simp only: relpowp_1)
  with stream_terminates [OF this] show ?thesis by blast
qed

section \<open>Failures and memory\<close>

lemma slots_bound:
  assumes "memory_slots x opts < usize_max"
  shows "thread_count opts + max_in_flight x + max_reorder opts \<le> memory_slots x opts"
  using assms by (auto simp: memory_slots_def sat_add_def sat_mul_def min_def split: if_splits)

lemma batch_within_allowance:
  assumes "worker_batch E P p schema a est f chunk = Inr b"
  shows "budget_check a (f b) = Inr ()"
  using assms
  by (auto simp: worker_batch_def bind_result_Inr split: sum.splits option.splits prod.splits if_splits)

lemma executor_fits:
  assumes "memory_slots x opts < usize_max" "budget_bytes (exec_budget x) \<le> usize_max" "is_strict (exec_budget x)"
  shows "batches_fit (stream_of E P p schema S x opts f eat bytes)"
proof -
  let ?a = "budget_bytes (stream_allowance x opts)"
  have strict: "is_strict (stream_allowance x opts)" using assms(3) by (simp add: stream_allowance_def budget_share_def)
  have "f b \<le> ?a" if "worker_batch E P p schema (stream_allowance x opts) est f chunk = Inr b" for b est chunk
    using batch_within_allowance [OF that] strict by (simp add: budget_check_def split: if_splits)
  then have each: "chunk_result (stream_of E P p schema S x opts f eat bytes) n = Inr b \<Longrightarrow> f b \<le> ?a" for n b
    by (simp add: stream_of_def Let_def split: prod.splits)
  have slots: "max_reorder opts \<le> memory_slots x opts" "0 < memory_slots x opts"
    using slots_bound [OF assms(1)] by (simp_all add: thread_count_def)
  have "max_reorder opts * ?a \<le> memory_slots x opts * ?a" using slots(1) by simp
  also have "\<dots> \<le> usize_max" using share_sum [OF slots(2), of "exec_budget x"] assms(2) by (simp add: stream_allowance_def)
  finally have "sat_mul (max_reorder opts) ?a = max_reorder opts * ?a" by (simp add: sat_mul_def)
  moreover have "sat_add (max_reorder opts) 1 - 1 \<le> max_reorder opts" by (simp add: sat_add_def)
  ultimately show ?thesis using each unfolding batches_fit_def by (intro exI [of _ ?a]) (auto simp: stream_of_def Let_def)
qed

text \<open>
  C16. With a strict budget (of a machine's size) the reorder buffer never overflows: whatever fails an
  executor's stream is the error of one of its chunks or of the consumer.
\<close>

theorem stream_error_has_cause:
  assumes "stream_reaches (stream_of E P p schema S x opts f eat bytes) (stream_start (stream_of E P p schema S x opts f eat bytes) (thread_count opts)) s"
    and "outcome s = Some (Inl err)" "memory_slots x opts < usize_max" "budget_bytes (exec_budget x) \<le> usize_max"
  shows "(\<exists>(from, to) \<in> set (stream_ranges x opts S p bytes).
      worker_batch E P p schema (stream_allowance x opts) (max (estimate_bytes_per_row S (take 65536 bytes)) 512) f
        (sub_bytes from to bytes) = Inl err) \<or> (\<exists>bs b. eat bs b = Inl err)"
proof -
  let ?C = "stream_of E P p schema S x opts f eat bytes"
  have "error_from ?C err" using reach_ok [OF assms(1)] assms(2) by (simp add: stream_ok_def thread_count_def)
  moreover have "strict_budget ?C \<longrightarrow> batches_fit ?C"
    using executor_fits [OF assms(3,4)] by (simp add: stream_of_def Let_def)
  ultimately have "(\<exists>n < chunk_count ?C. chunk_result ?C n = Inl err) \<or> consumer_fails ?C err"
    by (auto simp: error_from_def)
  then show ?thesis
    by (fastforce simp: stream_of_def Let_def consumer_fails_def in_set_conv_nth split: prod.splits)
qed

theorem stream_error_has_cause_witness:
  "worker_batch sample_env (idle_parser (Inl (Parser_error ''bad''))) declared_plan None (stream_allowance strict_executor one_thread)
     (max (estimate_bytes_per_row line_splitter (take 65536 ''a'')) 512) (\<lambda>_. 10) ''a'' = Inl (Parser_error ''bad'')"
  using stream_error_has_cause [OF _ _ , of sample_env "idle_parser (Inl (Parser_error ''bad''))" declared_plan None line_splitter
      strict_executor one_thread "\<lambda>_. 10" "\<lambda>_ _. Inr ()" "''a''" _ "Parser_error ''bad''"]
    sample_failure [OF sample_stream_error]
  by (force simp: sample_sizes sample_ranges sub_bytes_def usize_max_def)

text \<open>The batches that live between the workers and the consumer.\<close>

fun batches_of :: "record_batch result \<Rightarrow> record_batch list" where
  "batches_of (Inr b) = [b]"
| "batches_of (Inl err) = []"

fun sending :: "worker \<Rightarrow> record_batch list" where
  "sending (Sending n r) = batches_of r"
| "sending _ = []"

definition live_batches :: "coord \<Rightarrow> record_batch list" where
  "live_batches s = concat (map sending (workers s)) @ concat (map (batches_of \<circ> snd) (channel s)) @ map snd (pending s)"

lemma workers_count:
  assumes "stream_reaches C (stream_start C threads) s"
  shows "length (workers s) = threads"
proof -
  have step: "stream_step C s t \<Longrightarrow> length (workers t) = length (workers s)" for s t
    by (induction rule: stream_step.induct) (auto dest!: receive_same simp: rest_same_def)
  have "stream_reaches C r s \<Longrightarrow> length (workers s) = length (workers r)" for r
    by (induction rule: stream_reaches.induct) (auto dest: step)
  then show ?thesis using assms by (simp add: stream_start_def)
qed

lemma short_concat: "(\<And>x. x \<in> set xs \<Longrightarrow> length (f x) \<le> Suc 0) \<Longrightarrow> length (concat (map f xs)) \<le> length xs"
  by (induction xs) fastforce+

lemma pending_short:
  assumes "run_ok C s"
  shows "length (pending s) \<le> dispatch_window C - 1"
proof (cases "ordered C")
  case True
  note old = run_okD [OF assms]
  have "next_seq s < n \<and> n < next_seq s + dispatch_window C \<and> (1::nat) \<le> 1" if "(n, b) \<in> set (pending s)" for n b
  proof -
    have n: "n \<in> set (keys (pending s))" using that by (force simp: keys_def)
    then have "n < sat_add (next_seq s) (dispatch_window C)" using old(5) [OF True, of n] by (auto simp: active_def)
    moreover have "n \<notin> set (keys (delivered s))"
      using n in_play_facts(5) assms unfolding run_ok_def by blast
    moreover have "n \<noteq> next_seq s" using n old(10) [OF True] unfolding map_of_eq_None_iff keys_def set_map by blast
    moreover have "keys (delivered s) = [0..<next_seq s]" using old(8) True by (simp add: coord_ok_def)
    ultimately show ?thesis by (simp add: sat_add_def)
  qed
  then have "sum_list (map ((\<lambda>_. 1) \<circ> snd) (pending s)) \<le> (dispatch_window C - 1) * 1"
    using old(8) by (intro window_sum [of _ "next_seq s"]) (auto simp: coord_ok_def)
  then show ?thesis by (simp add: comp_def sum_list_triv)
next
  case False
  then show ?thesis using run_okD(8) [OF assms] by (simp add: coord_ok_def)
qed

lemma live_count:
  assumes "run_ok C s"
  shows "length (live_batches s) \<le> length (workers s) + channel_cap C + (dispatch_window C - 1)"
proof -
  have one: "length (batches_of r) \<le> Suc 0" for r by (cases r) simp_all
  then have "length (sending w) \<le> Suc 0" for w by (cases w) simp_all
  then have "length (concat (map sending (workers s))) \<le> length (workers s)" by (intro short_concat)
  moreover have "length (concat (map (batches_of \<circ> snd) (channel s))) \<le> length (channel s)"
    by (intro short_concat) (use one in simp)
  moreover have "length (channel s) \<le> channel_cap C" by (rule run_okD(7) [OF assms])
  ultimately show ?thesis using pending_short [OF assms] by (simp add: live_batches_def)
qed

lemma live_results:
  assumes "run_ok C s" "b \<in> set (live_batches s)"
  shows "\<exists>n. chunk_result C n = Inr b"
proof -
  note old = run_okD [OF assms(1)]
  have one: "b \<in> set (batches_of r) \<Longrightarrow> r = Inr b" for r by (cases r) simp_all
  have send: "b \<in> set (sending w) \<Longrightarrow> \<exists>n. w = Sending n (Inr b)" for w using one by (cases w) auto
  consider w where "w \<in> set (workers s)" "b \<in> set (sending w)" | n r where "(n, r) \<in> set (channel s)" "b \<in> set (batches_of r)"
    | n where "(n, b) \<in> set (pending s)"
    using assms(2) by (auto simp: live_batches_def)
  then show ?thesis
  proof cases
    case 1
    then show ?thesis using send [of w] old(1) by metis
  next
    case 2
    then show ?thesis using one old(2) by metis
  next
    case 3
    then show ?thesis using old(8) by (auto simp: coord_ok_def)
  qed
qed

text \<open>
  C9. With a strict budget, while the coordinator runs, the batches between the workers and the consumer
  (those being sent, in the channel and waiting for their turn) take no more memory together
  than the budget, in every interleaving.
\<close>

theorem stream_memory_within_budget:
  assumes "stream_reaches (stream_of E P p schema S x opts f eat bytes) (stream_start (stream_of E P p schema S x opts f eat bytes) (thread_count opts)) s"
    and "outcome s = None" "is_strict (exec_budget x)" "memory_slots x opts < usize_max"
  shows "sum_list (map f (live_batches s)) \<le> budget_bytes (exec_budget x)"
proof -
  let ?C = "stream_of E P p schema S x opts f eat bytes"
  have ok: "run_ok ?C s" using reach_ok [OF assms(1)] assms(2) by (simp add: stream_ok_run thread_count_def)
  have "budget_check (stream_allowance x opts) (f b) = Inr ()" if "chunk_result ?C n = Inr b" for n b
    using that by (auto simp: stream_of_def Let_def intro: batch_within_allowance split: prod.splits)
  then have checked: "\<forall>u \<in> set (map f (live_batches s)). budget_check (stream_allowance x opts) u = Inr ()"
    using live_results [OF ok] by fastforce
  have "channel_cap ?C = max_in_flight x" "dispatch_window ?C - 1 \<le> max_reorder opts"
    by (simp_all add: stream_of_def Let_def sat_add_def)
  then have "length (map f (live_batches s)) \<le> memory_slots x opts"
    using live_count [OF ok] workers_count [OF assms(1)] slots_bound [OF assms(4)] by simp
  then show ?thesis using share_check_all [OF assms(3)] checked unfolding stream_allowance_def by blast
qed

theorem stream_memory_within_budget_witness:
  "live_batches (sample_state (Sending 0 (Inr sample_batch)) []) = [sample_batch] \<and>
   sum_list (map (\<lambda>_. 10) (live_batches (sample_state (Sending 0 (Inr sample_batch)) []))) \<le> (1000 :: nat)"
  using stream_memory_within_budget [OF sample_sending [OF sample_stream_batch, folded sample_sizes(1)]]
  by (simp add: sample_sizes usize_max_def sample_state_def live_batches_def)

end
