(* ===== verification/Spill.thy ===== *)
theory Spill
  imports Budget Parallel
begin

text \<open>
  Bounded-memory reading in one pass (\<open>bounded.rs\<close>, \<open>spill.rs\<close>): the sizes a budget gives, the sink
  that splits a batch off whenever the builder holds enough and hands it to the consumer, and the
  run over an input. The consumer is a function of the batches it already has; the sizes of exported
  batches are a parameter.
\<close>

section \<open>Sizes\<close>

definition BOUNDED_SPLIT_CHUNKS :: nat where "BOUNDED_SPLIT_CHUNKS = 100000"
definition MIN_ROWS_OVERSIZE_BATCH :: nat where "MIN_ROWS_OVERSIZE_BATCH = 64"

definition batch_target_bytes :: "memory_budget \<Rightarrow> nat" where
  "batch_target_bytes b = max (budget_bytes b div 64) 1"

definition oversize_rows :: "memory_budget \<Rightarrow> nat \<Rightarrow> bool" where
  "oversize_rows b bytes_per_row \<longleftrightarrow> batch_target_bytes b < bytes_per_row"

definition batch_rows :: "memory_budget \<Rightarrow> nat \<Rightarrow> nat \<Rightarrow> nat" where
  "batch_rows b bytes_per_row len =
     min (max (batch_target_bytes b div bytes_per_row) (if oversize_rows b bytes_per_row then MIN_ROWS_OVERSIZE_BATCH else 1))
       (max (len div bytes_per_row) 1)"

text \<open>The planning utility: ranges, rows of a batch, bytes of a row, and whether every batch is oversize.\<close>

definition plan_chunks :: "memory_budget \<Rightarrow> nat \<Rightarrow> splitter \<Rightarrow> string \<Rightarrow> nat \<Rightarrow> (nat \<times> nat) list \<times> nat \<times> nat \<times> bool" where
  "plan_chunks b split_cap S bytes min_chunk =
     (let bytes_per_row = max (estimate_bytes_per_row S (take 65536 bytes)) 1;
          capped = min (max (div_ceil (length bytes) (batch_target_bytes b)) 1) split_cap;
          points = find_split_points_with S bytes capped min_chunk
      in (split_points_to_ranges points (length bytes), batch_rows b bytes_per_row (length bytes), bytes_per_row,
          oversize_rows b bytes_per_row))"

section \<open>The sink\<close>

record stream_stats =
  st_batches :: nat
  st_rows :: nat
  oversize_batches :: nat
  peak_tracked_bytes :: nat

definition no_stats :: stream_stats where
  "no_stats = \<lparr>st_batches = 0, st_rows = 0, oversize_batches = 0, peak_tracked_bytes = 0\<rparr>"

text \<open>What the sink is made with, and what changes in it; \<open>taken\<close> are the batches the consumer accepted.\<close>

record spill_setup =
  rows_per_batch :: nat
  target_bytes :: nat
  soft_cap_bytes :: nat
  sp_oversize :: bool
  sp_budget :: memory_budget
  batch_bytes :: "record_batch \<Rightarrow> nat"
  take_batch :: "record_batch list \<Rightarrow> record_batch \<Rightarrow> unit result"

record spill_sink =
  engine :: table_builder
  account :: ledger
  stats :: stream_stats
  sp_error :: "error option"
  taken :: "record_batch list"

definition should_spill :: "env \<Rightarrow> spill_setup \<Rightarrow> spill_sink \<Rightarrow> bool" where
  "should_spill E Z s \<longleftrightarrow> sp_error s = None \<and>
     (rows_per_batch Z \<le> row_count (engine s) \<or> (\<not> sp_oversize Z \<and> soft_cap_bytes Z \<le> capacity_bytes E (engine s)))"

text \<open>The batch's way to the consumer: checked against a quarter of the budget, charged, given away.\<close>

definition hand_over :: "spill_setup \<Rightarrow> nat \<Rightarrow> record_batch \<Rightarrow> spill_sink \<Rightarrow> unit result \<times> spill_sink" where
  "hand_over Z rows b s =
     (let size = batch_bytes Z b
      in case budget_check (budget_share (sp_budget Z) 4) size of
           Inl err \<Rightarrow> (Inl err, s)
         | Inr _ \<Rightarrow>
             (let st = (if rows = 1 \<and> target_bytes Z < size then (stats s)\<lparr>oversize_batches := oversize_batches (stats s) + 1\<rparr> else stats s);
                  s = s\<lparr>stats := st, account := release_in_flight size (charge_in_flight size (account s))\<rparr>
              in case take_batch Z (taken s) b of
                   Inl err \<Rightarrow> (Inl err, s)
                 | Inr _ \<Rightarrow> (Inr (), s\<lparr>taken := taken s @ [b],
                     stats := st\<lparr>st_batches := st_batches st + 1, st_rows := st_rows st + rows\<rparr>\<rparr>)))"

definition spill_inner :: "env \<Rightarrow> spill_setup \<Rightarrow> spill_sink \<Rightarrow> (unit result \<times> spill_sink) option" where
  "spill_inner E Z s = do {
     let rows = row_count (engine s);
     (part, rest) \<leftarrow> tb_split_off rows (engine s);
     (r, _) \<leftarrow> finish E part;
     let s = s\<lparr>engine := rest\<rparr>;
     Some (case r of
             Inl err \<Rightarrow> (Inl err, s)
           | Inr b \<Rightarrow> hand_over Z rows b (s\<lparr>account := set_builders (capacity_bytes E rest) (account s)\<rparr>))
   }"

definition spill :: "env \<Rightarrow> spill_setup \<Rightarrow> spill_sink \<Rightarrow> spill_sink option" where
  "spill E Z s =
     (if sp_error s \<noteq> None \<or> row_count (engine s) = 0 then Some s
      else map_option (\<lambda>(r, s). case r of Inl err \<Rightarrow> s\<lparr>sp_error := Some err\<rparr> | Inr _ \<Rightarrow> s) (spill_inner E Z s))"

definition finish_run :: "env \<Rightarrow> spill_setup \<Rightarrow> spill_sink \<Rightarrow> (unit result \<times> spill_sink) option" where
  "finish_run E Z s = do {
     s \<leftarrow> spill E Z s;
     Some (case sp_error s of
       Some err \<Rightarrow> (Inl err, s\<lparr>sp_error := None\<rparr>)
     | None \<Rightarrow>
         (case unknown_error (engine s) of
            Some err \<Rightarrow> (Inl (Merge_error err), s\<lparr>engine := (engine s)\<lparr>unknown_error := None\<rparr>\<rparr>)
          | None \<Rightarrow>
              (case strict_error (engine s) of
                 Some err \<Rightarrow> (Inl err, s\<lparr>engine := (engine s)\<lparr>strict_error := None\<rparr>\<rparr>)
               | None \<Rightarrow>
                   (case check_memory_budget E (engine s) of
                      Inl err \<Rightarrow> (Inl err, s)
                    | Inr _ \<Rightarrow> (Inr (), s\<lparr>account := set_builders (capacity_bytes E (engine s)) (account s)\<rparr>)))))
   }"

text \<open>The sink's methods: the builder's, except that a row may end a batch.\<close>

definition on_engine :: "(table_builder \<Rightarrow> table_builder option) \<Rightarrow> spill_sink \<Rightarrow> spill_sink option" where
  "on_engine f s = map_option (\<lambda>t. s\<lparr>engine := t\<rparr>) (f (engine s))"

definition sink_begin_row :: "env \<Rightarrow> spill_sink \<Rightarrow> spill_sink" where
  "sink_begin_row E s = s\<lparr>engine := begin_row E (engine s)\<rparr>"

definition sink_put_field :: "env \<Rightarrow> string \<Rightarrow> field_value \<Rightarrow> spill_sink \<Rightarrow> spill_sink option" where
  "sink_put_field E name v = on_engine (put_field E name v)"

definition sink_put_field_resolved :: "env \<Rightarrow> string \<Rightarrow> field_value \<Rightarrow> spill_sink \<Rightarrow> spill_sink option" where
  "sink_put_field_resolved E name v = on_engine (put_field_resolved E name v)"

definition sink_put_field_at :: "env \<Rightarrow> nat \<Rightarrow> field_value \<Rightarrow> spill_sink \<Rightarrow> spill_sink option" where
  "sink_put_field_at E slot v = on_engine (put_field_at E slot v)"

definition sink_put_str_at :: "env \<Rightarrow> nat \<Rightarrow> string \<Rightarrow> spill_sink \<Rightarrow> spill_sink option" where
  "sink_put_str_at E slot v = on_engine (put_str_at E slot v)"

definition sink_resolve_and_put :: "env \<Rightarrow> string \<Rightarrow> field_value \<Rightarrow> spill_sink \<Rightarrow> spill_sink option" where
  "sink_resolve_and_put E name v = on_engine (resolve_and_put E name v)"

definition sink_end_row :: "env \<Rightarrow> spill_setup \<Rightarrow> spill_sink \<Rightarrow> spill_sink option" where
  "sink_end_row E Z s = do {
     s \<leftarrow> on_engine (end_row E) s;
     if should_spill E Z s then spill E Z s else Some s
   }"

definition should_stop :: "spill_sink \<Rightarrow> bool" where
  "should_stop s \<longleftrightarrow> sp_error s \<noteq> None"

section \<open>The run\<close>

record sink_parser =
  sink_validate :: "string \<Rightarrow> unit result option"
  sink_parse :: "string \<Rightarrow> spill_sink \<Rightarrow> (unit result \<times> spill_sink) option"

definition bounded_panic :: error where
  "bounded_panic = Parser_error ''worker panicked during bounded parse''"

definition spill_setup_of ::
    "memory_budget \<Rightarrow> splitter \<Rightarrow> (record_batch \<Rightarrow> nat) \<Rightarrow> (record_batch list \<Rightarrow> record_batch \<Rightarrow> unit result) \<Rightarrow> string \<Rightarrow> spill_setup" where
  "spill_setup_of b S f eat bytes =
     (let bytes_per_row = max (estimate_bytes_per_row S (take 65536 bytes)) 1
      in \<lparr>rows_per_batch = batch_rows b bytes_per_row (length bytes), target_bytes = batch_target_bytes b,
          soft_cap_bytes = max (budget_bytes b div 4) 1, sp_oversize = oversize_rows b bytes_per_row, sp_budget = b,
          batch_bytes = f, take_batch = eat\<rparr>)"

definition spill_start :: "env \<Rightarrow> execution_plan \<Rightarrow> spill_setup \<Rightarrow> ledger \<Rightarrow> stream_stats \<Rightarrow> unit result \<times> spill_sink" where
  "spill_start E p Z l st =
     (let share = budget_share (sp_budget Z) 4;
          (r, t) = set_memory_budget E (budget_bytes share) (is_strict share) (tb_with_plan (max (rows_per_batch Z) 64) p)
      in (r, \<lparr>engine = t, account = set_builders (capacity_bytes E t) l, stats = st, sp_error = None, taken = []\<rparr>))"

definition run_slice_spill ::
    "env \<Rightarrow> sink_parser \<Rightarrow> execution_plan \<Rightarrow> memory_budget \<Rightarrow> splitter \<Rightarrow> (record_batch \<Rightarrow> nat) \<Rightarrow>
     (record_batch list \<Rightarrow> record_batch \<Rightarrow> unit result) \<Rightarrow> string \<Rightarrow> ledger \<Rightarrow> stream_stats \<Rightarrow>
     (unit result \<times> spill_sink option) option" where
  "run_slice_spill E P p b S f eat bytes l st =
     (if bytes = [] then Some (Inr (), None)
      else
        (let Z = spill_setup_of b S f eat bytes
         in case spill_start E p Z l st of
              (Inl err, _) \<Rightarrow> Some (Inl err, None)
            | (Inr _, s) \<Rightarrow>
                (case sink_validate P bytes of
                   None \<Rightarrow> Some (Inl bounded_panic, Some s)
                 | Some (Inl err) \<Rightarrow> Some (Inl err, Some s)
                 | Some (Inr _) \<Rightarrow>
                     (case sink_parse P bytes s of
                        None \<Rightarrow> Some (Inl bounded_panic, None)
                      | Some (Inl err, s) \<Rightarrow> Some (Inl err, Some s)
                      | Some (Inr _, s) \<Rightarrow> map_option (\<lambda>(r, s). (r, Some s)) (finish_run E Z s)))))"

text \<open>The entry points: statistics of a run over bytes, and of a file read into memory (its bytes are charged first).\<close>

definition run_bytes_stream_with_stats ::
    "env \<Rightarrow> sink_parser \<Rightarrow> execution_plan \<Rightarrow> memory_budget \<Rightarrow> splitter \<Rightarrow> (record_batch \<Rightarrow> nat) \<Rightarrow>
     (record_batch list \<Rightarrow> record_batch \<Rightarrow> unit result) \<Rightarrow> string \<Rightarrow> stream_stats result option" where
  "run_bytes_stream_with_stats E P p b S f eat bytes =
     map_option (\<lambda>(r, s). bind_result r (\<lambda>_. Inr (case s of None \<Rightarrow> no_stats
        | Some s \<Rightarrow> (stats s)\<lparr>peak_tracked_bytes := peak (account s)\<rparr>)))
      (run_slice_spill E P p b S f eat bytes (ledger_new b) no_stats)"

definition run_stream_in_memory ::
    "env \<Rightarrow> sink_parser \<Rightarrow> execution_plan \<Rightarrow> memory_budget \<Rightarrow> splitter \<Rightarrow> (record_batch \<Rightarrow> nat) \<Rightarrow>
     (record_batch list \<Rightarrow> record_batch \<Rightarrow> unit result) \<Rightarrow> string \<Rightarrow> stream_stats result option" where
  "run_stream_in_memory E P p b S f eat bytes =
     (case budget_check (budget_share b 4) (length bytes) of
        Inl err \<Rightarrow> Some (Inl err)
      | Inr _ \<Rightarrow>
         (let l = set_input (length bytes) (ledger_new b)
          in map_option (\<lambda>(r, s). bind_result r (\<lambda>_. Inr (case s of None \<Rightarrow> no_stats\<lparr>peak_tracked_bytes := peak l\<rparr>
               | Some s \<Rightarrow> (stats s)\<lparr>peak_tracked_bytes := peak (account s)\<rparr>)))
             (run_slice_spill E P p b S f eat bytes l no_stats)))"

end
