(* ===== verification/Parallel_Laws.thy ===== *)
theory Parallel_Laws
  imports Parallel
begin

text \<open>
  What the parallel executor promises: for a format of lines, splitting changes nothing, so the
  batches hold what one builder would have; a failing chunk fails the parse. And where it breaks
  its promise: the dictionary path with a seed whose index is empty.
\<close>

section \<open>Workers and schemas\<close>

lemma collect_results_ok:
  assumes "\<forall>x \<in> set xs. \<exists>t. F x = Inr t \<and> Q x t"
  shows "\<exists>ts. collect_results (map F xs) = Inr ts \<and> list_all2 Q xs ts"
  using assms
proof (induction xs)
  case (Cons x xs)
  then obtain t ts where "F x = Inr t" "Q x t" "collect_results (map F xs) = Inr ts" "list_all2 Q xs ts" by auto
  then show ?case by auto
qed simp

text \<open>A parser of lines: every line gives some records, put into the sink in order.\<close>

definition lines_records :: "(string \<Rightarrow> (string \<times> field_value) list list) \<Rightarrow> string \<Rightarrow> (string \<times> field_value) list list" where
  "lines_records f bytes = concat (map f (lines_of bytes))"

definition parses_lines :: "env \<Rightarrow> (string \<Rightarrow> (string \<times> field_value) list list) \<Rightarrow> chunk_parser \<Rightarrow> bool" where
  "parses_lines E f P \<longleftrightarrow> (\<forall>bytes. validate P bytes = Some (Inr ()) \<and>
     (\<forall>t. parse_chunk P bytes t = map_option (Pair (Inr ())) (parse_rows E (lines_records f bytes) t)))"

definition rows_of :: "env \<Rightarrow> execution_plan \<Rightarrow> (string \<times> field_value) list list \<Rightarrow> row list" where
  "rows_of E p recs = map (\<lambda>kvs. written (ext E) p kvs no_cells) recs"

lemma run_worker_ok:
  assumes P: "parses_lines E f P" and p: "plan_filter p = None" "\<not> strict_types p"
    and fits: "rows_fit E (lines_records f chunk) (tb_with_plan est p)"
  shows "\<exists>t. run_worker P p est chunk = Inr t \<and> chunk_ok p t \<and> tb_rows t = rows_of E p (lines_records f chunk)"
proof -
  let ?t = "tb_with_plan est p"
  have t: "tb_wf ?t" "tb_rows ?t = []" "cur_row ?t = no_cells" "plan ?t = p" "unbudgeted ?t" "direct_path ?t"
    "\<not> is_exact_frozen ?t" "errors ?t = (None, None)"
    using tb_with_plan_ok [of est p] p(1)
    by (auto simp: setup_of_def unbudgeted_def direct_path_def is_exact_frozen_def errors_def)
  have all: "filter (accepts (ext E) p) xs = xs" for xs using p(1) by (simp add: accepts_def)
  obtain u where u: "parse_rows E (lines_records f chunk) ?t = Some u" "tb_wf u" "plan u = p"
      "tb_rows u = rows_of E p (lines_records f chunk)"
    using parse_rows_direct [OF t(1,5,6,7,3) fits] t(2,4) all by (auto simp: rows_of_def)
  have "errors u = (None, None)" "unbudgeted u"
    using errors_parse_rows [OF t(1,5,6,7,3) _ fits u(1)] t(4,8) p(2) by simp_all
  with u P show ?thesis by (auto simp: run_worker_def parses_lines_def chunk_ok_def errors_def)
qed

lemma column_keys_ok:
  assumes "tb_wf e" "plan e = p"
  shows "\<exists>ks. column_keys e = Some ks \<and> (\<forall>(n, k) \<in> set ks. k = key_of p n)"
proof -
  let ?f = "\<lambda>(name, i). map_option (\<lambda>b. (name, variant_key b)) (idx (columns e) i)"
  have one: "?f (n, i) = Some (n, key_of p n)" if "(n, i) \<in> set (AList.clearjunk (field_index e))" for n i
  proof -
    have "map_of (field_index e) n = Some i"
      using map_of_is_SomeI [OF distinct_clearjunk that] by (simp add: map_of_clearjunk)
    then have "i < length (columns e)" "cb_kind (columns e ! i) = column_type p n"
      using assms by (simp_all add: tb_wf_def index_ok_def kinds_ok_def)
    then show ?thesis using kind_key(1) by (simp add: idx_def)
  qed
  have "those (map ?f (AList.clearjunk (field_index e))) =
      Some (map (\<lambda>(n, i). (n, key_of p n)) (AList.clearjunk (field_index e)))"
    by (rule those_map_ok) (use one in \<open>fastforce split: prod.splits\<close>)
  then show ?thesis unfolding column_keys_def by (intro exI conjI) (assumption, auto)
qed

lemma schemas_of_plan:
  assumes "\<forall>e \<in> set es. tb_wf e \<and> plan e = p"
  shows "schemas_consistent es = Some True"
proof (cases es)
  case (Cons e rest)
  obtain base where base: "column_keys e = Some base" "\<forall>(n, k) \<in> set base. k = key_of p n"
    using column_keys_ok [of e p] assms Cons by auto
  define ks where "ks e = the (column_keys e)" for e
  have ks: "column_keys e = Some (ks e)" "\<forall>(n, k) \<in> set (ks e). k = key_of p n" if "e \<in> set rest" for e
    using column_keys_ok [of e p] assms Cons that by (auto simp: ks_def)
  have kss: "those (map column_keys rest) = Some (map ks rest)" by (rule those_map_ok) (rule ks)
  have "map_of base n = Some k \<Longrightarrow> k = key_of p n" for n k using base(2) map_of_SomeD by fastforce
  then have "list_all (\<lambda>(name, k). case map_of base name of Some k' \<Rightarrow> k' = k | None \<Rightarrow> True) (ks e)" if "e \<in> set rest" for e
    using ks(2) [OF that] by (auto simp: list_all_iff split: option.splits)
  then have "list_all (list_all (\<lambda>(name, k). case map_of base name of Some k' \<Rightarrow> k' = k | None \<Rightarrow> True)) (map ks rest)"
    by (simp add: list_all_iff)
  then show ?thesis using base(1) kss by (simp add: schemas_consistent_def Cons)
qed (simp add: schemas_consistent_def)

text \<open>Chunks without any column give no batch.\<close>

lemma nameless: "all_names xs = [] \<Longrightarrow> e \<in> set xs \<Longrightarrow> column_order e = []"
  by (auto simp: all_names_def)

lemma nameless_chunks:
  assumes "\<forall>e \<in> set es. chunk_ok p e" "all_names (kept es) = []"
  shows "engines_to_record_batches E K es p = Some (Inr [])"
proof -
  note prep = prepared_all [OF assms(1), of E]
  have "\<forall>e \<in> set (map (prepared_chunk E) (kept es)). column_order e = []"
    using nameless [of "map (prepared_chunk E) (kept es)"] prep(3) assms(2) by metis
  then have "unify_engines (map (prepared_chunk E) (kept es)) = Some (Inr ([], []))"
    unfolding unify_engines_def by (intro try_fold_unchanged) auto
  then show ?thesis by (simp add: engines_to_record_batches_def prep(1,2))
qed

lemma cell_has_name:
  assumes "tb_wf e" "r \<in> set (tb_rows e)" "r n \<noteq> None"
  shows "0 < row_count e" "n \<in> set (column_order e)"
proof -
  obtain i where i: "i < row_count e" "r = row_at e i" using assms(2) by (auto simp: tb_rows_def)
  then show "0 < row_count e" by simp
  have "map_of (field_index e) n \<noteq> None" using assms(3) i(2) by (cases "map_of (field_index e) n") (simp_all add: row_at_def)
  then show "n \<in> set (column_order e)" using assms(1) unfolding tb_wf_def index_ok_def by blast
qed

lemma export_chunks_ok:
  assumes "\<forall>e \<in> set es. chunk_ok p e" "\<forall>n. \<not> is_decimal (column_type p n)" "plan_filter p = None" "\<not> auto_dict p"
  shows "\<exists>bs. export_engines E K es p = Some (Inr bs) \<and>
    (\<forall>n. (\<exists>r \<in> set (concat (map tb_rows es)). r n \<noteq> None) \<longrightarrow>
       concat (map (\<lambda>b. acells (the (map_of b n))) bs) = map (\<lambda>r. r n) (concat (map tb_rows es)))"
proof -
  have "schemas_consistent es = Some True" using assms(1) by (intro schemas_of_plan [where p = p]) (simp add: chunk_ok_def)
  then have ex: "export_engines E K es p = engines_to_record_batches E K es p"
    using assms(4) by (simp add: export_engines_def)
  have named: "n \<in> set (all_names (kept es))" if r: "r \<in> set (concat (map tb_rows es))" "r n \<noteq> None" for r n
  proof -
    obtain e where e: "e \<in> set es" "r \<in> set (tb_rows e)" using r(1) by auto
    then have "0 < row_count e" "n \<in> set (column_order e)"
      using cell_has_name [OF _ e(2) r(2)] assms(1) by (auto simp: chunk_ok_def)
    with e(1) show ?thesis by (auto simp: all_names_def)
  qed
  show ?thesis
  proof (cases "all_names (kept es) = []")
    case True
    then have "\<not> (\<exists>r \<in> set (concat (map tb_rows es)). r n \<noteq> None)" for n using named by (metis empty_iff list.set(1))
    moreover have "export_engines E K es p = Some (Inr [])" using nameless_chunks [OF assms(1) True] ex by simp
    ultimately show ?thesis by blast
  next
    case False
    obtain bs where "engines_to_record_batches E K es p = Some (Inr bs)"
        "\<forall>n \<in> set (all_names (kept es)). concat (map (\<lambda>b. acells (the (map_of b n))) bs) = map (\<lambda>r. r n) (concat (map tb_rows es))"
      using chunks_export_rows [OF assms(1) _ False assms(3)] assms(2) by blast
    then show ?thesis using ex named by metis
  qed
qed

section \<open>Parallel and sequential parsing\<close>

lemma lines_records_chunks:
  assumes "concat (map lines_of chunks) = lines_of bytes"
  shows "concat (map (lines_records f) chunks) = lines_records f bytes"
proof -
  have "concat (map (lines_records f) chunks) = concat (map f (concat (map lines_of chunks)))"
    by (induction chunks) (simp_all add: lines_records_def)
  then show ?thesis by (simp add: assms lines_records_def)
qed

lemma rows_of_ranges:
  "concat (map (\<lambda>(a, b). rows_of E p (lines_records f (sub_bytes a b bytes))) rs) =
   rows_of E p (concat (map (lines_records f) (map (\<lambda>(a, b). sub_bytes a b bytes) rs)))"
  by (induction rs) (auto simp: rows_of_def)

lemma lines_of_ranges:
  "concat (map lines_of (map (\<lambda>(a, b). sub_bytes a b bytes) rs)) = concat (map (\<lambda>(a, b). lines_of (sub_bytes a b bytes)) rs)"
  by (induction rs) auto

lemma chunk_ranges_ok:
  assumes "next_record_start S = (\<lambda>bytes from_pos. find_next_record_boundary bytes from_pos continuation prefixes blank)"
    and "split_override S = None"
  shows "concat (map (\<lambda>(a, b). lines_of (sub_bytes a b bytes)) (chunk_ranges S bytes p n)) = lines_of bytes"
    "chunk_ranges S bytes p n \<noteq> []"
proof -
  obtain fl where fl: "chunk_ranges S bytes p n =
      (let ranges = split_points_to_ranges (find_split_points_with S bytes n fl) (length bytes)
       in if ranges = [] then [(0, length bytes)] else ranges)"
    by (cases "min_chunk_bytes p") (auto simp: chunk_ranges_def)
  note c = chunks_cover [OF assms refl, where bytes = bytes and max_chunks = n and floor_bytes = fl]
  show "concat (map (\<lambda>(a, b). lines_of (sub_bytes a b bytes)) (chunk_ranges S bytes p n)) = lines_of bytes"
    using c by (auto simp: fl Let_def sub_bytes_def)
  show "chunk_ranges S bytes p n \<noteq> []" by (simp add: fl Let_def)
qed

lemma parallel_rows_ok:
  assumes S: "next_record_start S = (\<lambda>bytes from_pos. find_next_record_boundary bytes from_pos continuation prefixes blank)"
      "split_override S = None"
    and P: "parses_lines E f P"
    and p: "plan_filter p = None" "\<not> strict_types p" "\<not> auto_dict p" "\<forall>n. \<not> is_decimal (column_type p n)"
    and fits: "\<forall>(a, b) \<in> set (chunk_ranges S bytes p num_chunks). \<forall>est.
      rows_fit E (lines_records f (sub_bytes a b bytes)) (tb_with_plan est p)"
  shows "\<exists>bs. parallel_parse E K S P bytes p num_chunks = Some (Inr bs) \<and>
    (\<forall>n. (\<exists>r \<in> set (rows_of E p (lines_records f bytes)). r n \<noteq> None) \<longrightarrow>
       concat (map (\<lambda>b. acells (the (map_of b n))) bs) = map (\<lambda>r. r n) (rows_of E p (lines_records f bytes)))"
proof -
  let ?ranges = "chunk_ranges S bytes p num_chunks"
  define est_row where "est_row = max (estimate_bytes_per_row S (take 65536 bytes)) 512"
  define Q where "Q = (\<lambda>(a, b) t. chunk_ok p t \<and> tb_rows t = rows_of E p (lines_records f (sub_bytes a b bytes)))"
  let ?F = "\<lambda>(a, b). run_worker P p (estimated_chunk_rows est_row (b - a)) (sub_bytes a b bytes)"
  have "\<forall>x \<in> set ?ranges. \<exists>t. ?F x = Inr t \<and> Q x t"
    using run_worker_ok [OF P p(1,2)] fits by (fastforce simp: Q_def)
  from collect_results_ok [OF this] obtain ts where ts: "collect_results (map ?F ?ranges) = Inr ts" "list_all2 Q ?ranges ts"
    by blast
  have ok: "\<forall>e \<in> set ts. chunk_ok p e"
    using ts(2) by (induction rule: list_all2_induct) (auto simp: Q_def)
  have "ts \<noteq> []" using ts(2) chunk_ranges_ok(2) [OF S] by auto
  then obtain e es where e: "ts = e # es" by (cases ts) auto
  have run: "parallel_parse E K S P bytes p num_chunks = export_engines E K ts p"
    using ts(1) e ok by (simp add: parallel_parse_def est_row_def chunk_ok_def)
  have "concat (map tb_rows ts) = concat (map (\<lambda>(a, b). rows_of E p (lines_records f (sub_bytes a b bytes))) ?ranges)"
    using ts(2) by (induction rule: list_all2_induct) (auto simp: Q_def)
  also have "\<dots> = rows_of E p (concat (map (lines_records f) (map (\<lambda>(a, b). sub_bytes a b bytes) ?ranges)))"
    by (rule rows_of_ranges)
  also have "concat (map (lines_records f) (map (\<lambda>(a, b). sub_bytes a b bytes) ?ranges)) = lines_records f bytes"
    using chunk_ranges_ok(1) [OF S, of bytes p num_chunks]
    by (intro lines_records_chunks) (simp only: lines_of_ranges)
  finally have rows: "concat (map tb_rows ts) = rows_of E p (lines_records f bytes)" .
  show ?thesis using export_chunks_ok [OF ok p(4,1,3), of E K] unfolding run rows by blast
qed

text \<open>
  C2. For a parser of lines and a splitter that cuts at record boundaries, the parallel parse (without
  filter, strict types, automatic dictionaries and decimals) succeeds for every number of chunks,
  and the batches in order hold, under every name that has a cell, exactly the rows that the
  records of the whole input stand for, in the order of the input.
\<close>

theorem parallel_parse_is_sequential:
  assumes "next_record_start S = (\<lambda>bytes from_pos. find_next_record_boundary bytes from_pos continuation prefixes blank)"
    and "split_override S = None" "parses_lines E f P"
    and "plan_filter p = None" "\<not> strict_types p" "\<not> auto_dict p" "\<forall>n. \<not> is_decimal (column_type p n)"
    and "\<forall>(a, b) \<in> set (chunk_ranges S bytes p num_chunks). \<forall>est.
      rows_fit E (lines_records f (sub_bytes a b bytes)) (tb_with_plan est p)"
  shows "\<exists>bs. parallel_parse E K S P bytes p num_chunks = Some (Inr bs) \<and>
    (\<forall>n. (\<exists>r \<in> set (rows_of E p (lines_records f bytes)). r n \<noteq> None) \<longrightarrow>
       concat (map (\<lambda>b. acells (the (map_of b n))) bs) = map (\<lambda>r. r n) (rows_of E p (lines_records f bytes)))"
  using parallel_rows_ok [OF assms] .

text \<open>A format for the examples: every line is a record of one field, the line's length.\<close>

definition length_line :: "string \<Rightarrow> (string \<times> field_value) list list" where
  "length_line l = [[(''a'', Int64 (int (length l)))]]"

definition line_parser :: "env \<Rightarrow> (string \<Rightarrow> (string \<times> field_value) list list) \<Rightarrow> chunk_parser" where
  "line_parser E f = \<lparr>validate = (\<lambda>_. Some (Inr ())),
     parse_chunk = (\<lambda>bytes t. map_option (Pair (Inr ())) (parse_rows E (lines_records f bytes) t))\<rparr>"

definition chunked_plan :: execution_plan where
  "chunked_plan = sample_plan\<lparr>min_chunk_bytes := Some 1\<rparr>"

lemma chunked_plan_simps:
  "plan_filter chunked_plan = None" "\<not> strict_types chunked_plan" "\<not> auto_dict chunked_plan"
  "resolve_field chunked_plan ''a'' = Some ''b''" "column_type chunked_plan ''b'' = FT_Int64"
  "\<not> is_decimal (column_type chunked_plan n)"
  by (simp_all add: chunked_plan_def sample_plan_def plan_new_def resolve_field_def column_type_def contains_key_def renamed_def)

theorem parallel_parse_is_sequential_witness:
  "\<exists>bs. parallel_parse sample_env idle_kernels line_splitter (line_parser sample_env length_line) [newline, newline] chunked_plan 2 = Some (Inr bs) \<and>
     concat (map (\<lambda>b. acells (the (map_of b ''b''))) bs) = [Some (TV_Int64 1), Some (TV_Int64 1)]"
proof -
  let ?bytes = "[newline, newline]"
  have P: "parses_lines sample_env length_line (line_parser sample_env length_line)"
    by (simp add: parses_lines_def line_parser_def)
  have fits: "rows_fit sample_env (lines_records length_line bytes) (tb_with_plan est chunked_plan)" for bytes est
  proof (rule rows_fit_inline)
    show "list_all (inline_record (plan (tb_with_plan est chunked_plan))) (lines_records length_line bytes)"
      using tb_with_plan_ok [of est chunked_plan]
      by (auto simp: lines_records_def length_line_def list_all_iff inline_record_def chunked_plan_simps inline_type_def)
  qed (use tb_with_plan_ok [of est chunked_plan] chunked_plan_simps(1) in
      \<open>auto simp: setup_of_def unbudgeted_def direct_path_def is_exact_frozen_def\<close>)
  have lines: "lines_of ?bytes = [[newline], [newline]]" by simp
  have rows: "rows_of sample_env chunked_plan (lines_records length_line ?bytes) =
      [no_cells(''b'' := Some (TV_Int64 1)), no_cells(''b'' := Some (TV_Int64 1))]"
    unfolding lines_records_def lines
    by (simp add: rows_of_def length_line_def chunked_plan_simps convert_def sample_env_def)
  obtain bs where "parallel_parse sample_env idle_kernels line_splitter (line_parser sample_env length_line) ?bytes chunked_plan 2 = Some (Inr bs)"
    "\<And>n. (\<exists>r \<in> set (rows_of sample_env chunked_plan (lines_records length_line ?bytes)). r n \<noteq> None) \<Longrightarrow>
       concat (map (\<lambda>b. acells (the (map_of b n))) bs) = map (\<lambda>r. r n) (rows_of sample_env chunked_plan (lines_records length_line ?bytes))"
    using parallel_parse_is_sequential [OF line_splitter_simps P chunked_plan_simps(1-3), of ?bytes 2 idle_kernels] fits
    by (auto simp: chunked_plan_simps)
  from this(1) this(2) [of "''b''"] show ?thesis unfolding rows by (intro exI [of _ bs]) simp
qed

text \<open>
  What can happen to a chunk under the code of the user's parser: it is parsed, or it fails with the
  error of the check, with the error of the parse, or by a panic of either (\<open>None\<close>), which is
  caught and becomes an error of its own.
\<close>

definition chunk_parses :: "chunk_parser \<Rightarrow> execution_plan \<Rightarrow> nat \<Rightarrow> string \<Rightarrow> bool" where
  "chunk_parses P p est chunk \<longleftrightarrow>
     validate P chunk = Some (Inr ()) \<and> (\<exists>t. parse_chunk P chunk (tb_with_plan est p) = Some (Inr (), t))"

definition chunk_fails :: "chunk_parser \<Rightarrow> execution_plan \<Rightarrow> nat \<Rightarrow> string \<Rightarrow> error \<Rightarrow> bool" where
  "chunk_fails P p est chunk err \<longleftrightarrow>
     validate P chunk = Some (Inl err) \<or>
     validate P chunk = None \<and> err = Parser_error ''worker panicked during parallel parse'' \<or>
     validate P chunk = Some (Inr ()) \<and>
       ((\<exists>t. parse_chunk P chunk (tb_with_plan est p) = Some (Inl err, t)) \<or>
        parse_chunk P chunk (tb_with_plan est p) = None \<and> err = Parser_error ''worker panicked during parallel parse'')"

lemma run_worker_outcome:
  "chunk_parses P p est chunk \<Longrightarrow> \<exists>t. run_worker P p est chunk = Inr t"
  "chunk_fails P p est chunk err \<Longrightarrow> run_worker P p est chunk = Inl err"
  by (auto simp: chunk_parses_def chunk_fails_def run_worker_def worker_panic_def)

lemma collect_first_failure:
  assumes "\<forall>x \<in> set before. \<exists>t. F x = Inr t" "F y = Inl err"
  shows "collect_results (map F (before @ y # after)) = Inl err"
  using assms by (induction before) auto

text \<open>
  C18. If the parser gets through every chunk before some chunk and fails on that one (its check or its
  parse returns an error, or either panics), the parallel parse returns that chunk's error, whatever
  the later chunks do: the first failure in the order of the input wins, and a panic of the parser
  in a worker is an error, not a panic of the caller.
\<close>

theorem first_failure_is_reported:
  assumes "est_row = max (estimate_bytes_per_row S (take 65536 bytes)) 512"
    and "chunk_ranges S bytes p num_chunks = before @ (a, b) # after"
    and "\<forall>(c, d) \<in> set before. chunk_parses P p (estimated_chunk_rows est_row (d - c)) (sub_bytes c d bytes)"
    and "chunk_fails P p (estimated_chunk_rows est_row (b - a)) (sub_bytes a b bytes) err"
  shows "parallel_parse E K S P bytes p num_chunks = Some (Inl err)"
proof -
  let ?F = "\<lambda>(a, b). run_worker P p (estimated_chunk_rows est_row (b - a)) (sub_bytes a b bytes)"
  have "\<forall>x \<in> set before. \<exists>t. ?F x = Inr t" "?F (a, b) = Inl err"
    using assms(3,4) run_worker_outcome by fast+
  then have "collect_results (map ?F (before @ (a, b) # after)) = Inl err" by (rule collect_first_failure)
  then show ?thesis unfolding parallel_parse_def Let_def assms(1) [symmetric] assms(2) by simp
qed

text \<open>A parser that gets through the first line and panics on the second.\<close>

definition panicking_parser :: chunk_parser where
  "panicking_parser = \<lparr>validate = (\<lambda>_. Some (Inr ())),
     parse_chunk = (\<lambda>bytes t. if bytes = ''x'' @ [newline] then Some (Inr (), t) else None)\<rparr>"

theorem first_failure_is_reported_witness:
  "parallel_parse sample_env idle_kernels line_splitter panicking_parser (''x'' @ [newline, newline]) chunked_plan 2 =
     Some (Inl (Parser_error ''worker panicked during parallel parse''))"
proof -
  let ?bytes = "''x'' @ [newline, newline]"
  have n: "plan_chunk_count_with 3 2 Parallel 1 = 3"
    by (simp add: plan_chunk_count_with_def sat_mul_def usize_max_def MAX_SPLIT_CHUNKS_def)
  have c: "candidate line_splitter ?bytes (Suc 0) = Some 2" "candidate line_splitter ?bytes 2 = Some 3"
    by (simp_all add: candidate_def line_splitter_def find_next_record_boundary_def memchr_def)
  have three: "Suc (Suc (Suc 0)) = 3" by simp
  have u: "[Suc 0..<3] = [Suc 0, 2]" by (simp add: numeral_3_eq_3 numeral_2_eq_2)
  have d: "default_find_split_points line_splitter ?bytes 2 1 = [0, 2, 3]"
    using n c by (simp add: default_find_split_points_def map_filter_def u Let_def three)
  have "min_chunk_bytes chunked_plan = Some 1" by (simp add: chunked_plan_def)
  then have r: "chunk_ranges line_splitter ?bytes chunked_plan 2 = [(0, 2)] @ (2, 3) # []"
    using d by (simp add: chunk_ranges_def find_split_points_with_def MIN_CHUNK_BYTES_def split_points_to_ranges_def three)
  show ?thesis
    by (rule first_failure_is_reported [OF refl r])
      (simp_all add: chunk_parses_def chunk_fails_def panicking_parser_def sub_bytes_def)
qed

section \<open>The seed of the dictionary path\<close>

lemma copy_entries_ok:
  assumes "dict_ok t" "\<forall>i \<in> set is. i < length (dict_values t)" "length (concat (us @ map ((!) (dict_values t)) is)) < 2 ^ 31"
  shows "copy_entries t is \<lparr>seed_values = concat us, seed_offsets = offs us, seed_index = []\<rparr> =
    Some \<lparr>seed_values = concat (us @ map ((!) (dict_values t)) is), seed_offsets = offs (us @ map ((!) (dict_values t)) is),
      seed_index = []\<rparr>"
  using assms(2,3)
proof (induction "is" arbitrary: us)
  case (Cons i "is")
  let ?w = "dict_values t ! i"
  have w: "dict_entry t (int i) = Some ?w" using dict_ok_str(2) [OF assms(1)] Cons.prems(1) by simp
  have "as_i32 (int (length (concat us) + length ?w)) = int (length (concat us)) + int (length ?w)"
    using Cons.prems(2) by (simp add: i32_range_def)
  then have "offs us @ [as_i32 (int (length (concat us @ ?w)))] = offs (us @ [?w])" by (simp add: offs_snoc)
  then show ?case using Cons.IH [of "us @ [?w]"] Cons.prems w by (simp add: Let_def)
qed simp

lemma seed_of_ok:
  assumes "dict_ok t"
  shows "seed_of t = Some \<lparr>seed_values = ddata t, seed_offsets = doffsets t, seed_index = []\<rparr>"
proof -
  have r: "dict_repr t (dict_values t)" using assms by (simp add: dict_ok_def)
  have "seed_of t = Some \<lparr>seed_values = concat (dict_values t), seed_offsets = offs (dict_values t), seed_index = []\<rparr>"
    using copy_entries_ok [OF assms, of "[0..<dict_size t]" "[]"] r
    by (simp add: seed_of_def dict_size_values drop_as_map [of _ 0, simplified] dict_repr_def)
  then show ?thesis using r by (simp add: dict_repr_def)
qed

lemma empty_index_remap:
  assumes "dict_ok t"
  shows "\<exists>b. remap_column n [] (CB_Dictionary codes t) = Some \<lparr>rmap = map int [0..<dict_size t], is_identity = b\<rparr>"
proof -
  have "those (map (remap_entry [] t) [0..<dict_size t]) = Some (map (\<lambda>i. (int i, True)) [0..<dict_size t])"
    by (rule those_map_ok) (use dict_ok_str(2) [OF assms] in \<open>simp add: remap_entry_def dict_size_values\<close>)
  then show ?thesis by (simp add: remap_column_def Let_def comp_def)
qed

lemma remap_code_identity: "0 \<le> v \<Longrightarrow> v < 2 ^ 31 \<Longrightarrow> remap_code (map int [0..<n]) v = v"
  by (simp add: remap_code_def idx_def i32_as_usize_nonneg)

lemma index_entries_some:
  assumes "\<forall>i \<in> set is. dict_entry t (int i) \<noteq> None"
  shows "index_entries t is ix \<noteq> None"
  using assms by (induction "is" arbitrary: ix) auto

text \<open>What the codes of a dictionary column stand for.\<close>

lemma dict_cells:
  assumes "dict_ok t" "list_all (coded t) codes" "ddata u = ddata t" "doffsets u = doffsets t"
  shows "map (\<lambda>c. Option.bind c (dict_str u)) codes = map (map_option (\<lambda>k. dict_values t ! nat k)) codes"
proof -
  have same: "dict_str u = dict_str t" by (intro ext) (simp add: dict_str_def dict_entry_def assms(3,4))
  have "Option.bind c (dict_str t) = map_option (\<lambda>k. dict_values t ! nat k) c" if "coded t c" for c
    using coded_str [OF assms(1)] that by (cases c) auto
  then show ?thesis using assms(2) by (simp add: same list_all_iff)
qed

text \<open>
  C22. Under \<open>auto_dict\<close>, when the second chunk's dictionary has other values than the first's but
  no more of them, unifying gives the second chunk the first chunk's dictionary and leaves its
  codes as they are (the seed's index is empty, so no code is remapped): its cells silently
  become the first chunk's values with the same codes.
\<close>

theorem unified_dictionary_swaps_values:
  assumes a: "column_order a = [n]" "map_of (field_index a) n = Some i" "i < length (columns a)" "columns a ! i = CB_Dictionary ca ta"
    and b: "map_of (field_index b) n = Some j" "j < length (columns b)" "columns b ! j = CB_Dictionary cb tb"
    and ok: "dict_ok ta" "dict_col_ok cb tb" and differ: "ddata tb \<noteq> ddata ta" and size: "dict_size tb \<le> dict_size ta"
  shows "cb_rows (CB_Dictionary cb tb) = map (map_option (\<lambda>k. TV_Str (dict_values tb ! nat k))) (null_iter cb) \<and>
    (\<exists>a' b' d. unify_engine_dicts [a, b] = Some [a', b'] \<and> column_of n b' = Some (Some d) \<and>
       cb_rows d = map (map_option (\<lambda>k. TV_Str (dict_values ta ! nat k))) (null_iter cb))"
proof -
  have tb: "dict_ok tb" "null_ok cb" "list_all (coded tb) (null_iter cb)" using ok(2) by (simp_all add: dict_col_ok_def)
  have col: "column_of n a = Some (Some (CB_Dictionary ca ta))" "column_of n b = Some (Some (CB_Dictionary cb tb))"
    using a b by (simp_all add: column_of_def idx_def)
  let ?seed = "\<lparr>seed_values = ddata ta, seed_offsets = doffsets ta, seed_index = []\<rparr>"
  have n: "seed_len ?seed = dict_size ta" by (simp add: seed_len_def dict_size_def)
  have "collect_columns (dict_size ta) [CB_Dictionary ca ta, CB_Dictionary cb tb] g = Some g" for g
    using size by simp
  moreover obtain r1 r2 where "remap_column (dict_size ta) [] (CB_Dictionary ca ta) = Some r1"
      and r2: "remap_column (dict_size ta) [] (CB_Dictionary cb tb) = Some r2" "rmap r2 = map int [0..<dict_size tb]"
    using empty_index_remap [OF ok(1)] empty_index_remap [OF tb(1)] by (metis remap_table.select_convs(1))
  ultimately have uni: "unify_dictionaries ?seed [CB_Dictionary ca ta, CB_Dictionary cb tb] =
      Some (\<lparr>udata = ddata ta, uoffsets = doffsets ta\<rparr>, [r1, r2])"
    by (simp add: unify_dictionaries_def n)
  let ?t = "\<lparr>ddata = ddata ta, doffsets = doffsets ta, dindex = []\<rparr>"
  have "dict_entry ?t (int k) = dict_entry ta (int k)" "dict_size ?t = dict_size ta" for k
    by (simp_all add: dict_entry_def dict_size_def)
  then have "index_entries ?t [0..<dict_size ?t] [] \<noteq> None"
    using dict_ok_str(2) [OF ok(1)] by (intro index_entries_some) (auto simp: dict_size_values)
  then obtain ix where t': "table_of_unified \<lparr>udata = ddata ta, uoffsets = doffsets ta\<rparr> = Some (?t\<lparr>dindex := ix\<rparr>)"
    by (auto simp: table_of_unified_def Let_def)
  let ?d = "CB_Dictionary (remap_codes (rmap r2) cb) (?t\<lparr>dindex := ix\<rparr>)"
  let ?b = "b\<lparr>columns := (columns b)[j := ?d]\<rparr>"
  have "unify_engine_dicts [a, b] = Some [a\<lparr>columns := (columns a)[i := remap_and_replace (rmap r1) (?t\<lparr>dindex := ix\<rparr>) (CB_Dictionary ca ta)]\<rparr>, ?b]"
    using a b differ
    by (simp add: unify_engine_dicts_def col differs_from_def seed_of_ok [OF ok(1)] List.map_filter_def uni t' remap_engine_def
        idx_def remap_and_replace_def cb_replace_dict_def)
  moreover have "column_of n ?b = Some (Some ?d)" using b by (simp add: column_of_def idx_def)
  moreover have "cb_rows ?d = map (map_option (\<lambda>k. TV_Str (dict_values ta ! nat k))) (null_iter cb)"
  proof -
    have repr: "dict_repr tb (dict_values tb)" using tb(1) by (simp add: dict_ok_def)
    then have small: "length (dict_values tb) < 2 ^ 31" by (simp add: dict_repr_def)
    have "map_option (remap_code (rmap r2)) c = c" if "c \<in> set (null_iter cb)" for c
    proof (cases c)
      case (Some k)
      then have "0 \<le> k \<and> nat k < length (dict_values tb)" using tb(3) that by (force simp: list_all_iff coded_def)
      then have "0 \<le> k" "nat k < 2 ^ 31" using small by (blast, linarith)
      then have "0 \<le> k" "k < 2 ^ 31" by (simp_all add: nat_less_iff)
      then show ?thesis using Some by (simp add: r2(2) remap_code_identity)
    qed simp
    then have codes: "null_iter (remap_codes (rmap r2) cb) = null_iter cb"
      using remap_codes_rows [OF tb(2), of "rmap r2"] by (simp add: map_idI)
    have "list_all (coded ta) (null_iter cb)"
      using tb(3) size by (auto simp: list_all_iff coded_def dict_size_values split: option.splits)
    from dict_cells [OF ok(1) this, of "?t\<lparr>dindex := ix\<rparr>"] show ?thesis
      by (simp add: rows_simps dict_rows_def codes comp_def option.map_comp)
  qed
  moreover have "cb_rows (CB_Dictionary cb tb) = map (map_option (\<lambda>k. TV_Str (dict_values tb ! nat k))) (null_iter cb)"
    using dict_cells [OF tb(1,3), of tb] by (simp add: rows_simps dict_rows_def comp_def option.map_comp)
  ultimately show ?thesis by blast
qed

definition dict_chunk :: "string list \<Rightarrow> table_builder" where
  "dict_chunk vs = tb_new\<lparr>columns := [case_prod CB_Dictionary (dict_codes_of vs)], field_index := [(''c'', 0)],
     column_order := [''c''], row_count := length vs, row_dirty := [0]\<rparr>"

theorem unified_dictionary_swaps_values_witness:
  "\<exists>a' b' d. unify_engine_dicts [dict_chunk [''x'', ''y''], dict_chunk [''y'', ''x'']] = Some [a', b'] \<and>
     tb_rows (dict_chunk [''y'', ''x'']) = [no_cells(''c'' := Some (TV_Str ''y'')), no_cells(''c'' := Some (TV_Str ''x''))] \<and>
     column_of ''c'' b' = Some (Some d) \<and> cb_rows d = [Some (TV_Str ''x''), Some (TV_Str ''y'')]"
proof -
  note s = dict_codes_sample
  obtain ca ta cb tb where ab: "dict_codes_of [''x'', ''y''] = (ca, ta)" "dict_codes_of [''y'', ''x''] = (cb, tb)" by fastforce
  have a: "column_order (dict_chunk [''x'', ''y'']) = [''c'']" "map_of (field_index (dict_chunk [''x'', ''y''])) ''c'' = Some 0"
      "0 < length (columns (dict_chunk [''x'', ''y'']))" "columns (dict_chunk [''x'', ''y'']) ! 0 = CB_Dictionary ca ta"
    and b: "map_of (field_index (dict_chunk [''y'', ''x''])) ''c'' = Some 0"
      "0 < length (columns (dict_chunk [''y'', ''x'']))" "columns (dict_chunk [''y'', ''x'']) ! 0 = CB_Dictionary cb tb"
    by (simp_all add: dict_chunk_def ab)
  have ok: "dict_ok ta" "dict_col_ok cb tb" "ddata tb \<noteq> ddata ta" "dict_size tb \<le> dict_size ta"
    using s by (simp_all add: ab dict_col_ok_def)
  note t = unified_dictionary_swaps_values [OF a b ok]
  have rows: "cb_rows (CB_Dictionary cb tb) = [Some (TV_Str ''y''), Some (TV_Str ''x'')]"
    using t s by (simp add: ab)
  then have "cb_len (CB_Dictionary cb tb) = 2" using length_cb_rows [of "CB_Dictionary cb tb"] by simp
  then have "row_at (dict_chunk [''y'', ''x'']) r = no_cells(''c'' := cb_rows (CB_Dictionary cb tb) ! r)" if "r < 2" for r
    using that by (intro ext) (simp add: row_at_def dict_chunk_def ab get_typed_value_rows)
  moreover have "tb_rows (dict_chunk [''y'', ''x'']) = map (row_at (dict_chunk [''y'', ''x''])) [0, 1]"
    unfolding tb_rows_def by (rule arg_cong [of _ _ "map _"]) (simp add: dict_chunk_def)
  ultimately have r: "tb_rows (dict_chunk [''y'', ''x'']) = [no_cells(''c'' := Some (TV_Str ''y'')), no_cells(''c'' := Some (TV_Str ''x''))]"
    by (simp add: rows)
  show ?thesis using t s r by (fastforce simp: ab)
qed

end
