(* ===== verification/Spill_Laws.thy ===== *)
theory Spill_Laws
  imports Spill Parallel_Laws
begin

text \<open>
  What the bounded stream promises: the batches it hands over, put one after the other, are the
  table a single builder would have made, none longer than planned; and the first failure is final.
\<close>

section \<open>Rows through the sink\<close>

fun sink_puts :: "env \<Rightarrow> (string \<times> field_value) list \<Rightarrow> spill_sink \<Rightarrow> spill_sink option" where
  "sink_puts E [] s = Some s"
| "sink_puts E ((name, v) # kvs) s = Option.bind (sink_put_field E name v s) (sink_puts E kvs)"

definition sink_row :: "env \<Rightarrow> spill_setup \<Rightarrow> (string \<times> field_value) list \<Rightarrow> spill_sink \<Rightarrow> spill_sink option" where
  "sink_row E Z kvs s = Option.bind (sink_puts E kvs (sink_begin_row E s)) (sink_end_row E Z)"

text \<open>A parser that puts its records in order and asks before each whether to stop.\<close>

fun sink_rows :: "env \<Rightarrow> spill_setup \<Rightarrow> (string \<times> field_value) list list \<Rightarrow> spill_sink \<Rightarrow> spill_sink option" where
  "sink_rows E Z [] s = Some s"
| "sink_rows E Z (kvs # recs) s = (if should_stop s then Some s else Option.bind (sink_row E Z kvs s) (sink_rows E Z recs))"

definition after_row :: "env \<Rightarrow> spill_setup \<Rightarrow> spill_sink \<Rightarrow> spill_sink option" where
  "after_row E Z s = (if should_spill E Z s then spill E Z s else Some s)"

lemma sink_puts_engine: "sink_puts E kvs s = map_option (\<lambda>t. s\<lparr>engine := t\<rparr>) (put_all E kvs (engine s))"
proof (induction kvs arbitrary: s)
  case (Cons kv kvs)
  then show ?case
    by (cases kv; cases "put_field E (fst kv) (snd kv) (engine s)") (simp_all add: sink_put_field_def on_engine_def)
qed simp

lemma sink_row_engine: "sink_row E Z kvs s = Option.bind (parse_row E kvs (engine s)) (\<lambda>t. after_row E Z (s\<lparr>engine := t\<rparr>))"
proof (cases "put_all E kvs (begin_row E (engine s))")
  case (Some t)
  then show ?thesis
    by (cases "end_row E t")
      (simp_all add: sink_row_def sink_puts_engine sink_begin_row_def sink_end_row_def on_engine_def parse_row_def after_row_def)
qed (simp add: sink_row_def sink_puts_engine sink_begin_row_def parse_row_def)

fun spill_fits :: "env \<Rightarrow> spill_setup \<Rightarrow> (string \<times> field_value) list list \<Rightarrow> spill_sink \<Rightarrow> bool" where
  "spill_fits E Z [] s = True"
| "spill_fits E Z (kvs # recs) s =
     (puts_fit E kvs (begin_row E (engine s)) \<and> (case sink_row E Z kvs s of Some u \<Rightarrow> spill_fits E Z recs u | None \<Rightarrow> True))"

section \<open>A builder between rows\<close>

definition row_ready :: "execution_plan \<Rightarrow> table_builder \<Rightarrow> bool" where
  "row_ready p t \<longleftrightarrow> tb_wf t \<and> unbudgeted t \<and> cur_row t = no_cells \<and> plan t = p \<and> \<not> is_exact_frozen t \<and>
     errors t = (None, None) \<and> (\<forall>i. \<not> mask_test i (row_dirty t))"

lemma row_ready_new: "plan_filter p = None \<Longrightarrow> row_ready p (tb_with_plan n p)"
  using tb_with_plan_ok [of n p] by (auto simp: row_ready_def setup_of_def unbudgeted_def is_exact_frozen_def errors_def)

lemma row_ready_row:
  assumes "row_ready p t" "plan_filter p = None" "\<not> strict_types p" "puts_fit E kvs (begin_row E t)"
  shows "\<exists>u. parse_row E kvs t = Some u \<and> row_ready p u \<and> tb_rows u = tb_rows t @ [written (ext E) p kvs no_cells]"
proof -
  have t: "tb_wf t" "unbudgeted t" "cur_row t = no_cells" "plan t = p" "\<not> is_exact_frozen t" "errors t = (None, None)"
    "direct_path t" using assms(1,2) by (auto simp: row_ready_def direct_path_def)
  note b = begin_row_core [OF t(2)]
  have acc: "accepts (ext E) p r" for r using assms(2) by (simp add: accepts_def)
  obtain u where u: "parse_row E kvs t = Some u" "tb_wf u" "cur_row u = no_cells" "plan u = p" "unbudgeted u" "\<not> is_exact_frozen u"
    "tb_rows u = tb_rows t @ [written (ext E) p kvs no_cells]"
    using parse_row_direct [OF t(1,2) b(11) [OF t(7)] t(5,3) assms(4)] t(4,5) acc by auto
  have "errors u = errors t"
    using errors_parse_rows [OF t(1,2,7,5,3), of E "[kvs]" u] assms(3,4) t(4) u(1) by simp
  moreover obtain w where w: "put_all E kvs (begin_row E t) = Some w" "stays (begin_row E t) w"
    using put_all_ok [of "begin_row E t" E kvs] t b assms(4) by auto
  have "unbudgeted w" "direct_path w" using stays_path [OF w(2)] b(5,11) t(7) by simp_all
  then have "finish_row E w = Some u" using w(1) u(1) by (simp add: parse_row_def end_row_def direct_path_def)
  then have "\<forall>i. \<not> mask_test i (row_dirty u)" using finish_row_clean by blast
  ultimately show ?thesis using u t(6) by (auto simp: row_ready_def)
qed

lemma row_ready_empty_row:
  assumes "tb_wf t" "\<forall>i. \<not> mask_test i (row_dirty t)"
  shows "cur_row t = no_cells"
proof -
  have "cb_len (columns t ! i) \<le> row_count t" if "map_of (field_index t) n = Some i" for n i
    using assms that by (auto simp: tb_wf_def index_ok_def aligned_def)
  then show ?thesis unfolding cur_row_def by (rule row_at_beyond)
qed

text \<open>Splitting everything off leaves the schema and no row.\<close>

lemma row_ready_split:
  assumes "row_ready p t" "0 < row_count t"
  shows "\<exists>a b. tb_split_off (row_count t) t = Some (a, b) \<and> tb_wf a \<and> unbudgeted a \<and> errors a = (None, None) \<and> plan a = p \<and>
    row_count a = row_count t \<and> tb_rows a = tb_rows t \<and> row_ready p b \<and> tb_rows b = []"
proof -
  have wf: "tb_wf t" and clean: "\<forall>i. \<not> mask_test i (row_dirty t)" using assms(1) by (simp_all add: row_ready_def)
  obtain a b where ab: "tb_split_off (row_count t) t = Some (a, b)" "tb_wf a" "tb_wf b" "tb_rows a = take (row_count t) (tb_rows t)"
      "tb_rows b = drop (row_count t) (tb_rows t)" "split_frame (row_count t) t a b"
    using split_ok [OF wf assms(2) order_refl clean] by blast
  have "\<forall>i. \<not> mask_test i (row_dirty b)" using ab(6) by (simp add: split_frame_def)
  with ab(3) have "cur_row b = no_cells" "\<forall>i. \<not> mask_test i (row_dirty b)" by (simp_all add: row_ready_empty_row)
  moreover have "length (tb_rows t) = row_count t" by (simp add: tb_rows_def)
  ultimately show ?thesis
    using ab assms(1) by (auto simp: row_ready_def split_frame_def unbudgeted_def is_exact_frozen_def errors_def)
qed

section \<open>One batch\<close>

text \<open>The cells of a batch are those of a list of rows.\<close>

definition batch_holds :: "execution_plan \<Rightarrow> record_batch \<Rightarrow> row list \<Rightarrow> bool" where
  "batch_holds p b rs \<longleftrightarrow> b \<noteq> [] \<and> distinct (map fst b) \<and> (\<forall>(n, a) \<in> set b. acells a = map (\<lambda>r. r n) rs) \<and>
     (schema_order p = [] \<longrightarrow> (\<forall>n. (\<exists>r \<in> set rs. r n \<noteq> None) \<longrightarrow> n \<in> fst ` set b)) \<and>
     (\<not> auto_dict p \<longrightarrow> (\<forall>(n, a) \<in> set b. atype a = type_of p n))"

text \<open>Without the dictionary upgrade, an exported column has the type its plan declares.\<close>

definition typed_columns :: "table_builder \<Rightarrow> bool" where
  "typed_columns t \<longleftrightarrow> (\<forall>n i. map_of (field_index t) n = Some i \<longrightarrow>
     i < length (columns t) \<and> cb_kind (columns t ! i) = column_type (plan t) n)"

lemma export_at_typed:
  assumes "typed_columns t" "map_of (field_index t) n = Some i" "export_at i t = Some (r, u)"
  shows "snd (field_at i n t) = type_of (plan t) n \<and> typed_columns u \<and> plan u = plan t \<and> field_index u = field_index t"
proof -
  have i: "i < length (columns t)" "cb_kind (columns t ! i) = column_type (plan t) n" using assms by (auto simp: typed_columns_def)
  have "typed_columns (t\<lparr>columns := (columns t)[i := snd (to_arrow_array (columns t ! i))]\<rparr>)"
    using assms(1) i by (fastforce simp: typed_columns_def nth_list_update exported_kind)
  then show ?thesis using assms(3) kind_key(2) [OF i(2)] by (auto simp: export_at_ok [OF i(1)] field_at_def)
qed

text \<open>Every announced type is the one of the plan.\<close>

definition announced :: "execution_plan \<Rightarrow> exported \<Rightarrow> bool" where
  "announced p cols \<longleftrightarrow> (\<forall>((n, ty), a) \<in> set cols. ty = type_of p n)"

lemma announced_simps [simp]:
  "announced p []" "announced p ((f, a) # cols) \<longleftrightarrow> snd f = type_of p (fst f) \<and> announced p cols"
  by (auto simp: announced_def)

lemma export_ordered_typed:
  "typed_columns t \<Longrightarrow> export_ordered names t = Some (Inr cols, u) \<Longrightarrow> announced (plan t) cols"
proof (induction names arbitrary: t cols u)
  case (Cons n names)
  show ?case
  proof (cases "map_of (field_index t) n")
    case None
    with Cons show ?thesis by simp
  next
    case (Some i)
    from Cons.prems(2) Some obtain a w v r where
      w: "export_at i t = Some (Inr a, w)" "export_ordered names w = Some (Inr r, v)" "cols = (field_at i n t, a) # r"
      by (auto split: option.splits sum.splits simp: bind_result_Inr)
    note x = export_at_typed [OF Cons.prems(1) Some w(1)]
    then have "announced (plan w) r" using Cons.IH w(2) by blast
    with x w(3) show ?thesis by (simp add: field_at_def)
  qed
qed simp

lemma declared_slot_typed:
  assumes "typed_columns t" "declared_slot E n t = (i, u)"
  shows "typed_columns u \<and> plan u = plan t \<and> map_of (field_index u) n = Some i"
proof (cases "map_of (field_index t) n")
  case None
  have "cb_kind (backfilled E (row_count t) (column_type (plan t) n)) = column_type (plan t) n"
    using backfilled_ok [of E "row_count t" "column_type (plan t) n"] by simp
  moreover have "u = add_column n (backfilled E (row_count t) (column_type (plan t) n)) t" "i = length (columns t)"
    using None assms(2) by (simp_all add: declared_slot_def backfilled_def)
  ultimately show ?thesis using assms(1) by (auto simp: typed_columns_def add_column_def nth_append less_Suc_eq)
qed (use assms in \<open>simp add: declared_slot_def\<close>)

lemma export_declared_typed:
  "typed_columns t \<Longrightarrow> export_declared E names t = Some (Inr cols, u) \<Longrightarrow> announced (plan t) cols"
proof (induction names arbitrary: t cols u)
  case (Cons n names)
  show ?case
  proof (cases "n \<in> set (drop_fields (plan t))")
    case True
    with Cons show ?thesis by simp
  next
    case False
    obtain i s where d: "declared_slot E n t = (i, s)" by fastforce
    from declared_slot_typed [OF Cons.prems(1) d] have s: "typed_columns s" "plan s = plan t" "map_of (field_index s) n = Some i" by auto
    from Cons.prems(2) False d obtain a w v r where
      w: "export_at i s = Some (Inr a, w)" "export_declared E names w = Some (Inr r, v)" "cols = (field_at i n s, a) # r"
      by (auto split: option.splits sum.splits simp: bind_result_Inr)
    note x = export_at_typed [OF s(1,3) w(1)]
    then have "announced (plan w) r" using Cons.IH w(2) by blast
    with x w(3) s(2) show ?thesis by (simp add: field_at_def)
  qed
qed simp

lemma exported_batch_typed:
  assumes "exported_batch r = Inr b" "\<And>cols. r = Inr cols \<Longrightarrow> announced p cols"
  shows "b \<noteq> [] \<and> (\<forall>(n, a) \<in> set b. atype a = type_of p n)"
proof -
  obtain cols where r: "r = Inr cols" using assms(1) by (cases r) (simp_all add: exported_batch_def)
  have "make_batch b = Inr b" "b = zip (map fst (map fst cols)) (map snd cols)" "map atype (map snd cols) = map snd (map fst cols)"
    using assms(1) by (auto simp: r exported_batch_def batch_of_def make_batch_def split: sum.splits list.splits if_splits)
  then show ?thesis using assms(2) [OF r]
    by (auto simp: announced_def make_batch_def zip_map_map zip_same_conv_map split_def)
qed

lemma finish_typed:
  assumes "tb_wf t" "\<not> auto_dict (plan t)" "finish E t = Some (Inr b, u)" "column_order t \<noteq> []"
  shows "b \<noteq> [] \<and> (\<forall>(n, a) \<in> set b. atype a = type_of (plan t) n)"
proof -
  define s where "s = notify (On_chunk_finished (rows_accepted t + rows_rejected t) (rows_accepted t) (rows_rejected t)) t"
  have s: "same_core t s" by (simp add: s_def)
  have prep: "prepare_finish E t = (Inr (), normalize s)"
    using assms(3) by (auto simp: finish_def prepare_finish_def s_def Let_def split: option.splits sum.splits)
  have n: "tb_wf (normalize s)" "column_order (normalize s) = column_order t" "plan (normalize s) = plan t"
    using normalize_ok [of s] same_core_wf(1) [OF s] assms(1) s by (simp_all add: normalize_def same_core_def)
  have typed: "typed_columns (normalize s)"
    using n(1) by (auto simp: typed_columns_def tb_wf_def index_ok_def kinds_ok_def)
  have sorted: "typed_columns (sort_columns (normalize s))" "plan (sort_columns (normalize s)) = plan t"
    using typed n(3) by (auto simp: typed_columns_def sort_columns_def Let_def)
  obtain r names where r: "exported_batch r = Inr b"
      "export_ordered names (sort_columns (normalize s)) = Some (r, u) \<or> export_declared E names (normalize s) = Some (r, u)"
    using assms(2,3,4) prep n(2,3) by (auto simp: finish_def auto_dict_upgrade_def Let_def split: if_splits)
  then have "announced (plan t) cols" if "r = Inr cols" for cols
    using export_ordered_typed [OF sorted(1)] export_declared_typed [OF typed] sorted(2) n(3) that by auto
  then show ?thesis by (rule exported_batch_typed [OF r(1)])
qed

definition has_columns :: "execution_plan \<Rightarrow> bool" where
  "has_columns p \<longleftrightarrow> distinct (schema_order p) \<and> (schema_order p = [] \<or> (\<exists>n \<in> set (schema_order p). n \<notin> set (drop_fields p)))"

definition some_cell :: "row \<Rightarrow> bool" where
  "some_cell r \<longleftrightarrow> (\<exists>n. r n \<noteq> None)"

lemma finish_batch:
  assumes "tb_wf a" "unbudgeted a" "errors a = (None, None)" "plan a = p" "row_count a + 2 < 2 ^ 31" "tb_rows a \<noteq> []"
    "\<forall>r \<in> set (tb_rows a). some_cell r" "has_columns p"
  shows "\<exists>b u. finish E a = Some (Inr b, u) \<and> batch_holds p b (tb_rows a)"
proof -
  obtain r n where r: "r \<in> set (tb_rows a)" "r n \<noteq> None"
    using assms(6,7) unfolding some_cell_def by (meson last_in_set)
  have named: "n \<in> set (column_order a)" if "r \<in> set (tb_rows a)" "r n \<noteq> None" for r n
    using cell_has_name(2) [OF assms(1)] that by blast
  then have ne: "column_order a \<noteq> []" using r by (metis empty_iff list.set(1))
  have bn: "batch_names a \<noteq> []"
    using ne assms(4,8) by (auto simp: batch_names_def has_columns_def filter_empty_conv)
  have errs: "unknown_error a = None" "strict_error a = None" using assms(3) by (simp_all add: errors_def)
  have rows: "0 < row_count a \<or> scales_fit (plan a)" using assms(6) by (auto simp: tb_rows_def)
  obtain b u where b: "finish E a = Some (Inr b, u)" "map fst b = batch_names a"
      "\<forall>(n, x) \<in> set b. acells x = map (\<lambda>r. r n) (tb_rows a)"
    using finish_ok [OF assms(1,2) errs assms(5) ne bn _ rows] assms(4,8) unfolding has_columns_def by blast
  have "n \<in> fst ` set b" if "schema_order p = []" "r \<in> set (tb_rows a)" "r n \<noteq> None" for r n
    using named [OF that(2,3)] that(1) arg_cong [OF b(2), of set] assms(4) by (simp add: batch_names_def)
  moreover have "distinct (batch_names a)"
    using assms(1,4,8) by (simp add: batch_names_def tb_wf_def index_ok_def has_columns_def)
  moreover have "b \<noteq> []" using b(2) bn by auto
  moreover have "\<forall>(n, x) \<in> set b. atype x = type_of p n" if "\<not> auto_dict p"
    using finish_typed [OF assms(1) _ b(1) ne] that assms(4) by simp
  ultimately show ?thesis using b by (auto simp: batch_holds_def)
qed

text \<open>A setup that never refuses a batch.\<close>

definition lenient :: "spill_setup \<Rightarrow> bool" where
  "lenient Z \<longleftrightarrow> \<not> is_strict (sp_budget Z) \<and> (\<forall>bs b. take_batch Z bs b = Inr ()) \<and> 0 < rows_per_batch Z \<and>
     rows_per_batch Z + 2 < 2 ^ 31"

text \<open>The batches so far hold segments of the rows; at most a batch of rows is still in the builder.\<close>

definition spilled :: "execution_plan \<Rightarrow> spill_setup \<Rightarrow> row list list \<Rightarrow> spill_sink \<Rightarrow> bool" where
  "spilled p Z segs s \<longleftrightarrow> row_ready p (engine s) \<and> sp_error s = None \<and> list_all2 (batch_holds p) (taken s) segs \<and>
     st_batches (stats s) = length segs \<and> st_rows (stats s) = length (concat segs) \<and>
     (\<forall>seg \<in> set segs. seg \<noteq> [] \<and> length seg \<le> rows_per_batch Z) \<and> (\<forall>r \<in> set (tb_rows (engine s)). some_cell r)"

lemma spill_ok:
  assumes "spilled p Z segs s" "lenient Z" "has_columns p" "row_count (engine s) \<le> rows_per_batch Z"
  shows "\<exists>u segs'. spill E Z s = Some u \<and> spilled p Z segs' u \<and> row_count (engine u) = 0 \<and>
    concat segs' = concat segs @ tb_rows (engine s)"
proof (cases "row_count (engine s) = 0")
  case True
  then have "tb_rows (engine s) = []" by (simp add: tb_rows_def)
  then show ?thesis using True assms(1) by (intro exI [of _ s] exI [of _ segs]) (simp add: spill_def)
next
  case False
  let ?t = "engine s"
  have ready: "row_ready p ?t" and err: "sp_error s = None" using assms(1) by (simp_all add: spilled_def)
  obtain a b where ab: "tb_split_off (row_count ?t) ?t = Some (a, b)" "tb_wf a" "unbudgeted a" "errors a = (None, None)" "plan a = p"
      "row_count a = row_count ?t" "tb_rows a = tb_rows ?t" "row_ready p b" "tb_rows b = []"
    using row_ready_split [OF ready] False by blast
  have len: "length (tb_rows ?t) = row_count ?t" "length (tb_rows b) = row_count b" by (simp_all add: tb_rows_def)
  then have "tb_rows a \<noteq> []" using False ab(7) by auto
  then obtain x u where x: "finish E a = Some (Inr x, u)" "batch_holds p x (tb_rows ?t)"
    using finish_batch [OF ab(2-5), of E] assms ab(6,7) by (auto simp: lenient_def spilled_def)
  have "budget_check (budget_share (sp_budget Z) 4) n = Inr ()" for n
    using assms(2) by (simp add: lenient_def budget_check_def budget_share_def)
  then obtain w where w: "spill E Z s = Some w" "engine w = b" "sp_error w = None" "taken w = taken s @ [x]"
      "st_batches (stats w) = st_batches (stats s) + 1" "st_rows (stats w) = st_rows (stats s) + row_count ?t"
    using ab(1) x(1) err False assms(2) by (auto simp: spill_def spill_inner_def hand_over_def Let_def lenient_def)
  have "spilled p Z (segs @ [tb_rows ?t]) w"
    using assms(1,4) w ab(8,9) x(2) len False by (auto simp: spilled_def list_all2_appendI)
  moreover have "row_count (engine w) = 0" using w(2) ab(9) len by simp
  ultimately show ?thesis using w(1) by (intro exI [of _ w] exI [of _ "segs @ [tb_rows ?t]"]) simp
qed

lemma after_row_ok:
  assumes "spilled p Z segs s" "lenient Z" "has_columns p" "row_count (engine s) \<le> rows_per_batch Z"
  shows "\<exists>u segs'. after_row E Z s = Some u \<and> spilled p Z segs' u \<and> row_count (engine u) < rows_per_batch Z \<and>
    concat segs' @ tb_rows (engine u) = concat segs @ tb_rows (engine s)"
proof (cases "should_spill E Z s")
  case True
  obtain u segs' where u: "spill E Z s = Some u" "spilled p Z segs' u" "row_count (engine u) = 0"
      "concat segs' = concat segs @ tb_rows (engine s)"
    using spill_ok [OF assms] by blast
  moreover have "tb_rows (engine u) = []" using u(3) by (simp add: tb_rows_def)
  ultimately show ?thesis using True assms(2) by (auto simp: after_row_def lenient_def)
next
  case False
  then have "row_count (engine s) < rows_per_batch Z" using assms(1) by (auto simp: should_spill_def spilled_def)
  then show ?thesis using False assms(1) by (auto simp: after_row_def)
qed

section \<open>The whole stream\<close>

lemma sink_rows_ok:
  assumes "spilled p Z segs s" "lenient Z" "has_columns p" "row_count (engine s) < rows_per_batch Z"
    and p: "plan_filter p = None" "\<not> strict_types p"
    and "spill_fits E Z recs s" "\<forall>r \<in> set (rows_of E p recs). some_cell r"
  shows "\<exists>u segs'. sink_rows E Z recs s = Some u \<and> spilled p Z segs' u \<and> row_count (engine u) < rows_per_batch Z \<and>
    concat segs' @ tb_rows (engine u) = concat segs @ tb_rows (engine s) @ rows_of E p recs"
  using assms(1,4,7,8)
proof (induction recs arbitrary: s segs)
  case Nil
  then show ?case by (intro exI [of _ s] exI [of _ segs]) (simp add: rows_of_def)
next
  case (Cons kvs recs)
  let ?r = "written (ext E) p kvs no_cells"
  have ready: "row_ready p (engine s)" and go: "\<not> should_stop s" using Cons.prems(1) by (simp_all add: spilled_def should_stop_def)
  obtain t where t: "parse_row E kvs (engine s) = Some t" "row_ready p t" "tb_rows t = tb_rows (engine s) @ [?r]"
    using row_ready_row [OF ready p] Cons.prems(3) by auto
  let ?s = "s\<lparr>engine := t\<rparr>"
  have "some_cell ?r" using Cons.prems(4) by (simp add: rows_of_def)
  then have s: "spilled p Z segs ?s" using Cons.prems(1) t by (auto simp: spilled_def)
  have "row_count t = Suc (row_count (engine s))" using arg_cong [OF t(3), of length] by (simp add: tb_rows_def)
  then have "row_count (engine ?s) \<le> rows_per_batch Z" using Cons.prems(2) by simp
  from after_row_ok [OF s assms(2,3) this, of E] obtain u segs' where
    u: "after_row E Z ?s = Some u" "spilled p Z segs' u" "row_count (engine u) < rows_per_batch Z"
      "concat segs' @ tb_rows (engine u) = concat segs @ tb_rows t" by auto
  have row: "sink_row E Z kvs s = Some u" using t(1) u(1) by (simp add: sink_row_engine)
  have "spill_fits E Z recs u" using Cons.prems(3) row by simp
  moreover have "\<forall>r \<in> set (rows_of E p recs). some_cell r" using Cons.prems(4) by (simp add: rows_of_def)
  ultimately obtain w segs'' where "sink_rows E Z recs u = Some w" "spilled p Z segs'' w" "row_count (engine w) < rows_per_batch Z"
      "concat segs'' @ tb_rows (engine w) = concat segs' @ tb_rows (engine u) @ rows_of E p recs"
    using Cons.IH [OF u(2,3)] by blast
  then show ?case using row go u(4) t(3) by (auto simp: rows_of_def)
qed

lemma finish_run_ok:
  assumes "spilled p Z segs s" "lenient Z" "has_columns p" "row_count (engine s) \<le> rows_per_batch Z"
  shows "\<exists>u segs'. finish_run E Z s = Some (Inr (), u) \<and> list_all2 (batch_holds p) (taken u) segs' \<and>
    concat segs' = concat segs @ tb_rows (engine s) \<and> (\<forall>seg \<in> set segs'. seg \<noteq> [] \<and> length seg \<le> rows_per_batch Z) \<and>
    st_batches (stats u) = length segs' \<and> st_rows (stats u) = length (concat segs')"
proof -
  obtain u segs' where u: "spill E Z s = Some u" "spilled p Z segs' u" "concat segs' = concat segs @ tb_rows (engine s)"
    using spill_ok [OF assms] by blast
  have "unknown_error (engine u) = None" "strict_error (engine u) = None" "check_memory_budget E (engine u) = Inr ()" "sp_error u = None"
    using u(2) by (auto simp: spilled_def row_ready_def errors_def unbudgeted_def check_memory_budget_def)
  then show ?thesis using u by (auto simp: finish_run_def spilled_def)
qed

lemma batch_rows_bound:
  assumes "0 < len"
  shows "0 < batch_rows b n len" "batch_rows b n len \<le> len"
proof -
  show "0 < batch_rows b n len" by (simp add: batch_rows_def MIN_ROWS_OVERSIZE_BATCH_def less_max_iff_disj)
  have "max (len div n) 1 \<le> len" using assms by (simp add: Suc_le_eq)
  then show "batch_rows b n len \<le> len" unfolding batch_rows_def by (rule min.coboundedI2)
qed

lemma spill_start_ok:
  assumes "plan_filter p = None" "lenient Z"
  shows "\<exists>s. spill_start E p Z l no_stats = (Inr (), s) \<and> spilled p Z [] s \<and> row_count (engine s) < rows_per_batch Z \<and>
    tb_rows (engine s) = []"
proof -
  let ?t = "tb_with_plan (max (rows_per_batch Z) 64) p"
  have ready: "row_ready p ?t" by (rule row_ready_new [OF assms(1)])
  then have lim: "memory_limit ?t = None" "strict_error ?t = None" by (simp_all add: row_ready_def unbudgeted_def errors_def)
  then have "?t\<lparr>memory_limit := None\<rparr> = ?t" by (intro table_builder.equality) simp_all
  then have "set_memory_budget E n False ?t = (Inr (), ?t)" for n
    using lim by (simp add: set_memory_budget_def check_memory_budget_def)
  moreover have rows: "tb_rows ?t = []" using tb_with_plan_ok by blast
  moreover have "row_count ?t = 0" using arg_cong [OF rows, of length] by (simp add: tb_rows_def)
  ultimately show ?thesis
    using ready assms(2) by (auto simp: spill_start_def Let_def budget_share_def lenient_def spilled_def no_stats_def)
qed

definition parses_into :: "env \<Rightarrow> (string \<Rightarrow> (string \<times> field_value) list list) \<Rightarrow> spill_setup \<Rightarrow> sink_parser \<Rightarrow> bool" where
  "parses_into E f Z P \<longleftrightarrow> (\<forall>bytes. sink_validate P bytes = Some (Inr ()) \<and>
     (\<forall>s. sink_parse P bytes s = map_option (Pair (Inr ())) (sink_rows E Z (lines_records f bytes) s)))"

lemma spilled_segments:
  fixes eat :: "record_batch list \<Rightarrow> record_batch \<Rightarrow> unit result"
  assumes "bytes \<noteq> []" "plan_filter p = None" "\<not> strict_types p" "has_columns p" "\<not> is_strict b"
    and "\<forall>bs x. eat bs x = Inr ()" "parses_into E f (spill_setup_of b S g eat bytes) P"
    and "spill_fits E (spill_setup_of b S g eat bytes) (lines_records f bytes)
           (snd (spill_start E p (spill_setup_of b S g eat bytes) l no_stats))"
    and "\<forall>r \<in> set (rows_of E p (lines_records f bytes)). some_cell r" "length bytes + 2 < 2 ^ 31"
  shows "\<exists>s segs. run_slice_spill E P p b S g eat bytes l no_stats = Some (Inr (), Some s) \<and>
    concat segs = rows_of E p (lines_records f bytes) \<and> list_all2 (batch_holds p) (taken s) segs \<and>
    (\<forall>seg \<in> set segs. seg \<noteq> [] \<and> length seg \<le> rows_per_batch (spill_setup_of b S g eat bytes)) \<and>
    st_batches (stats s) = length (taken s) \<and> st_rows (stats s) = length (lines_records f bytes)"
proof -
  let ?Z = "spill_setup_of b S g eat bytes"
  let ?recs = "lines_records f bytes"
  have Z: "lenient ?Z"
    using assms(1,5,6,10) batch_rows_bound [of "length bytes" b "max (estimate_bytes_per_row S (take 65536 bytes)) 1"]
    by (auto simp: lenient_def spill_setup_of_def Let_def)
  obtain s0 where s0: "spill_start E p ?Z l no_stats = (Inr (), s0)" "spilled p ?Z [] s0" "row_count (engine s0) < rows_per_batch ?Z"
      "tb_rows (engine s0) = []" using spill_start_ok [OF assms(2) Z] by blast
  obtain u segs where u: "sink_rows E ?Z ?recs s0 = Some u" "spilled p ?Z segs u" "row_count (engine u) < rows_per_batch ?Z"
      "concat segs @ tb_rows (engine u) = rows_of E p ?recs"
    using sink_rows_ok [OF s0(2) Z assms(4) s0(3) assms(2,3), of E ?recs] assms(8,9) s0(1,4) by auto
  from finish_run_ok [OF u(2) Z assms(4) less_imp_le [OF u(3)], of E] obtain w segs' where
    w: "finish_run E ?Z u = Some (Inr (), w)" "list_all2 (batch_holds p) (taken w) segs'" "concat segs' = rows_of E p ?recs"
      "\<forall>seg \<in> set segs'. seg \<noteq> [] \<and> length seg \<le> rows_per_batch ?Z" "st_batches (stats w) = length segs'"
      "st_rows (stats w) = length (concat segs')" using u(4) by auto
  have "run_slice_spill E P p b S g eat bytes l no_stats = Some (Inr (), Some w)"
    using assms(1,7) s0(1) u(1) w(1) by (simp add: run_slice_spill_def Let_def parses_into_def)
  moreover have "length (concat segs') = length ?recs" by (simp add: w(3) rows_of_def)
  ultimately show ?thesis using w list_all2_lengthD [OF w(2)] by auto
qed

text \<open>
  C6. The bounded stream is the sequential parse: for an input of lines whose records all have a cell, with no
  filter and no strict limits, the run succeeds, the batches given to the consumer hold
  consecutive segments of exactly the records' rows, none empty and none longer than planned, and the
  statistics count them.
\<close>

theorem bounded_stream_is_sequential:
  fixes eat :: "record_batch list \<Rightarrow> record_batch \<Rightarrow> unit result"
  assumes "bytes \<noteq> []" "plan_filter p = None" "\<not> strict_types p" "has_columns p" "\<not> is_strict b"
    and "\<forall>bs x. eat bs x = Inr ()" "parses_into E f (spill_setup_of b S g eat bytes) P"
    and "spill_fits E (spill_setup_of b S g eat bytes) (lines_records f bytes)
           (snd (spill_start E p (spill_setup_of b S g eat bytes) l no_stats))"
    and "\<forall>r \<in> set (rows_of E p (lines_records f bytes)). some_cell r" "length bytes + 2 < 2 ^ 31"
  shows "\<exists>s segs. run_slice_spill E P p b S g eat bytes l no_stats = Some (Inr (), Some s) \<and>
    concat segs = rows_of E p (lines_records f bytes) \<and> list_all2 (batch_holds p) (taken s) segs \<and>
    (\<forall>seg \<in> set segs. seg \<noteq> [] \<and> length seg \<le> rows_per_batch (spill_setup_of b S g eat bytes)) \<and>
    st_batches (stats s) = length (taken s) \<and> st_rows (stats s) = length (lines_records f bytes)"
  using spilled_segments [OF assms] .

text \<open>
  A sink that has recorded an error: the parser is told to stop, records it still gives reach neither
  the consumer nor the error, and the end of the run reports it.
\<close>

lemma failed_sink:
  assumes "sp_error s = Some err"
  shows "should_stop s" "sink_rows E Z recs s = Some s"
    "sink_row E Z kvs s = Some u \<Longrightarrow> taken u = taken s \<and> sp_error u = Some err"
    "\<exists>u. finish_run E Z s = Some (Inl err, u) \<and> taken u = taken s"
proof -
  show "should_stop s" using assms by (simp add: should_stop_def)
  show "sink_rows E Z recs s = Some s" using assms by (cases recs) (simp_all add: should_stop_def)
  show "taken u = taken s \<and> sp_error u = Some err" if "sink_row E Z kvs s = Some u"
    using that assms by (auto simp: sink_row_engine after_row_def should_spill_def split: bind_splits)
  show "\<exists>u. finish_run E Z s = Some (Inl err, u) \<and> taken u = taken s"
    using assms by (simp add: finish_run_def spill_def)
qed

lemma sink_rows_append:
  "sink_rows E Z (xs @ ys) s = Option.bind (sink_rows E Z xs s) (sink_rows E Z ys)"
proof (induction xs arbitrary: s)
  case (Cons kvs xs)
  show ?case
  proof (cases "should_stop s")
    case True
    then show ?thesis by (cases ys) simp_all
  qed (auto simp: Cons split: bind_splits)
qed simp

lemma refused_keeps: "hand_over Z rows b s = (Inl err, u) \<Longrightarrow> taken u = taken s \<and> sp_error u = sp_error s"
  by (auto simp: hand_over_def Let_def split: sum.splits if_splits)

lemma failed_spill_keeps: "spill_inner E Z s = Some (Inl err, u) \<Longrightarrow> taken u = taken s \<and> sp_error u = sp_error s"
  by (auto simp: spill_inner_def Let_def split: bind_splits sum.splits dest!: refused_keeps)

text \<open>
  C19. The first failure of a spill is final. If no spill failed on the records before, the row of a record
  makes a batch due, and that batch fails (its finish, its charge to the budget or its consumer returns an
  error), then the whole run returns exactly that error, the consumer has the batches accepted
  before and no other, and the sink in that state asks the parser to stop and gives the consumer nothing for
  a record that still comes.
\<close>

theorem spill_error_is_final:
  assumes "bytes \<noteq> []" "parses_into E f Z P" "Z = spill_setup_of b S g eat bytes"
    and "spill_start E p Z l st = (Inr (), s0)" "lines_records f bytes = before @ kvs # after"
    and "sink_rows E Z before s0 = Some s" "sp_error s = None" "parse_row E kvs (engine s) = Some t"
    and "should_spill E Z (s\<lparr>engine := t\<rparr>)" "row_count t \<noteq> 0" "spill_inner E Z (s\<lparr>engine := t\<rparr>) = Some (Inl err, u)"
  shows "\<exists>v w. sink_rows E Z (lines_records f bytes) s0 = Some v \<and> should_stop v \<and> taken v = taken s \<and>
    (\<forall>kvs' v'. sink_row E Z kvs' v = Some v' \<longrightarrow> taken v' = taken s \<and> should_stop v') \<and>
    run_slice_spill E P p b S g eat bytes l st = Some (Inl err, Some w) \<and> taken w = taken s"
proof -
  define v where "v = u\<lparr>sp_error := Some err\<rparr>"
  have u: "taken u = taken s" "sp_error u = None" using failed_spill_keeps [OF assms(11)] assms(7) by simp_all
  have v: "sp_error v = Some err" "taken v = taken s" by (simp_all add: v_def u)
  have "spill E Z (s\<lparr>engine := t\<rparr>) = Some v" using assms(7,10,11) by (simp add: spill_def v_def)
  then have "sink_row E Z kvs s = Some v" using assms(8,9) by (simp add: sink_row_engine after_row_def)
  then have rows: "sink_rows E Z (lines_records f bytes) s0 = Some v"
    using assms(6,7) failed_sink(2) [OF v(1)] by (simp add: assms(5) sink_rows_append should_stop_def)
  obtain w where w: "finish_run E Z v = Some (Inl err, w)" "taken w = taken v" using failed_sink(4) [OF v(1)] by blast
  have "run_slice_spill E P p b S g eat bytes l st = Some (Inl err, Some w)"
    using assms(1,2,4) rows w(1) unfolding assms(3) by (simp add: run_slice_spill_def Let_def parses_into_def)
  moreover have "taken v' = taken s \<and> should_stop v'" if "sink_row E Z kvs' v = Some v'" for kvs' v'
    using failed_sink(3) [OF v(1) that] v(2) by (simp add: should_stop_def)
  ultimately show ?thesis using rows failed_sink(1) [OF v(1)] w(2) v(2) by auto
qed

lemma refused_spill:
  assumes "spilled p Z segs s" "\<not> is_strict (sp_budget Z)" "has_columns p" "row_count (engine s) \<noteq> 0"
    and "row_count (engine s) + 2 < 2 ^ 31" "\<And>b. take_batch Z (taken s) b = Inl err"
  shows "\<exists>u. spill_inner E Z s = Some (Inl err, u)"
proof -
  let ?t = "engine s"
  have ready: "row_ready p ?t" using assms(1) by (simp add: spilled_def)
  obtain a b where ab: "tb_split_off (row_count ?t) ?t = Some (a, b)" "tb_wf a" "unbudgeted a" "errors a = (None, None)" "plan a = p"
      "row_count a = row_count ?t" "tb_rows a = tb_rows ?t"
    using row_ready_split [OF ready] assms(4) by blast
  then have "tb_rows a \<noteq> []" using assms(4) by (auto simp: tb_rows_def)
  then obtain x u where x: "finish E a = Some (Inr x, u)"
    using finish_batch [OF ab(2-5), of E] assms(1,3,5) ab(6,7) by (auto simp: spilled_def)
  have "budget_check (budget_share (sp_budget Z) 4) n = Inr ()" for n
    using assms(2) by (simp add: budget_check_def budget_share_def)
  then show ?thesis using ab(1) x assms(6) by (auto simp: spill_inner_def hand_over_def Let_def)
qed

section \<open>Examples\<close>

definition line_sink_parser :: "env \<Rightarrow> spill_setup \<Rightarrow> sink_parser" where
  "line_sink_parser E Z = \<lparr>sink_validate = (\<lambda>_. Some (Inr ())),
     sink_parse = (\<lambda>bytes s. map_option (Pair (Inr ())) (sink_rows E Z (lines_records length_line bytes) s))\<rparr>"

lemma spill_fits_inline:
  assumes "spilled p Z segs s" "lenient Z" "has_columns p" "row_count (engine s) < rows_per_batch Z"
    and p: "plan_filter p = None" "\<not> strict_types p"
    and "list_all (inline_record p) recs" "\<forall>r \<in> set (rows_of E p recs). some_cell r"
  shows "spill_fits E Z recs s"
  using assms(1,4,7,8)
proof (induction recs arbitrary: s segs)
  case (Cons kvs recs)
  have t: "tb_wf (engine s)" "unbudgeted (engine s)" "plan (engine s) = p" "\<not> is_exact_frozen (engine s)" "direct_path (engine s)"
    using Cons.prems(1) p(1) by (auto simp: spilled_def row_ready_def direct_path_def)
  note b = begin_row_core [OF t(2)]
  have fits: "puts_fit E kvs (begin_row E (engine s))"
    using t b Cons.prems(3) by (intro puts_fit_inline) simp_all
  have "\<exists>u segs'. sink_rows E Z [kvs] s = Some u \<and> spilled p Z segs' u \<and> row_count (engine u) < rows_per_batch Z \<and>
    concat segs' @ tb_rows (engine u) = concat segs @ tb_rows (engine s) @ rows_of E p [kvs]"
  proof (rule sink_rows_ok [OF Cons.prems(1) assms(2,3) Cons.prems(2) p])
    show "spill_fits E Z [kvs] s" using fits by (simp split: option.splits)
  qed (use Cons.prems(4) in \<open>simp add: rows_of_def\<close>)
  then obtain u segs' where u: "sink_row E Z kvs s = Some u" "spilled p Z segs' u" "row_count (engine u) < rows_per_batch Z"
    using Cons.prems(1) by (auto simp: spilled_def should_stop_def split: if_splits bind_splits)
  then have "spill_fits E Z recs u" using Cons.IH [OF u(2,3)] Cons.prems(3,4) by (simp add: rows_of_def)
  then show ?case using fits u(1) by simp
qed simp

text \<open>The example: two empty lines, one row each, in a stream with a budget of 128 bytes.\<close>

definition sample_setup :: spill_setup where
  "sample_setup = spill_setup_of (budget_new 128) line_splitter (\<lambda>_. 0) (\<lambda>_ _. Inr ()) [newline, newline]"

lemma sample_rows:
  "rows_of sample_env chunked_plan (lines_records length_line [newline, newline]) =
     [no_cells(''b'' := Some (TV_Int64 1)), no_cells(''b'' := Some (TV_Int64 1))]"
  "lines_records length_line [newline, newline] = [[(''a'', Int64 1)], [(''a'', Int64 1)]]"
proof -
  have lines: "lines_of [newline, newline] = [[newline], [newline]]" by simp
  show "lines_records length_line [newline, newline] = [[(''a'', Int64 1)], [(''a'', Int64 1)]]"
    unfolding lines_records_def lines by (simp add: length_line_def)
  then show "rows_of sample_env chunked_plan (lines_records length_line [newline, newline]) =
     [no_cells(''b'' := Some (TV_Int64 1)), no_cells(''b'' := Some (TV_Int64 1))]"
    by (simp add: rows_of_def chunked_plan_simps convert_def sample_env_def)
qed

lemma sample_cells: "\<forall>r \<in> set (rows_of sample_env chunked_plan (lines_records length_line [newline, newline])). some_cell r"
  by (auto simp: sample_rows(1) some_cell_def)

lemma sample_columns: "has_columns chunked_plan"
  by (simp add: has_columns_def chunked_plan_def sample_plan_def plan_new_def)

lemma sample_fits:
  "spill_fits sample_env sample_setup (lines_records length_line [newline, newline])
     (snd (spill_start sample_env chunked_plan sample_setup l no_stats))"
proof -
  have Z: "lenient sample_setup"
    using batch_rows_bound [of "length [newline, newline]" "budget_new 128" "max (estimate_bytes_per_row line_splitter (take 65536 [newline, newline])) 1"]
    by (auto simp: lenient_def sample_setup_def spill_setup_of_def Let_def budget_new_def)
  let ?s0 = "snd (spill_start sample_env chunked_plan sample_setup l no_stats)"
  have start: "spilled chunked_plan sample_setup [] ?s0" "row_count (engine ?s0) < rows_per_batch sample_setup"
    using spill_start_ok [OF chunked_plan_simps(1) Z, of sample_env l] by auto
  show ?thesis
    by (rule spill_fits_inline [OF start(1) Z sample_columns start(2) chunked_plan_simps(1,2) _ sample_cells])
      (auto simp: sample_rows(2) inline_record_def chunked_plan_simps inline_type_def)
qed

lemma sample_parses: "parses_into sample_env length_line Z (line_sink_parser sample_env Z)"
  by (simp add: parses_into_def line_sink_parser_def)

theorem bounded_stream_is_sequential_witness:
  "\<exists>s segs. run_slice_spill sample_env (line_sink_parser sample_env sample_setup)
      chunked_plan (budget_new 128) line_splitter (\<lambda>_. 0) (\<lambda>_ _. Inr ()) [newline, newline] (ledger_new (budget_new 128)) no_stats = Some (Inr (), Some s) \<and>
    concat segs = [no_cells(''b'' := Some (TV_Int64 1)), no_cells(''b'' := Some (TV_Int64 1))] \<and>
    list_all2 (batch_holds chunked_plan) (taken s) segs"
  using bounded_stream_is_sequential [OF _ chunked_plan_simps(1,2) sample_columns _ _ sample_parses sample_fits [where l = "ledger_new (budget_new 128)", unfolded sample_setup_def] sample_cells]
  unfolding sample_rows(1) by (auto simp: budget_new_def sample_setup_def)

text \<open>The same input with a consumer that refuses every batch.\<close>

definition full :: error where
  "full = Parser_error ''full''"

definition refusing_setup :: spill_setup where
  "refusing_setup = spill_setup_of (budget_new 128) line_splitter (\<lambda>_. 0) (\<lambda>_ _. Inl full) [newline, newline]"

lemma refusing_setup_same: "refusing_setup = sample_setup\<lparr>take_batch := \<lambda>_ _. Inl full\<rparr>"
  by (simp add: refusing_setup_def sample_setup_def spill_setup_of_def Let_def)

lemma sample_lenient: "lenient sample_setup"
  using batch_rows_bound [of "length [newline, newline]" "budget_new 128" "max (estimate_bytes_per_row line_splitter (take 65536 [newline, newline])) 1"]
  by (auto simp: lenient_def sample_setup_def spill_setup_of_def Let_def budget_new_def)

lemma sample_one_row: "rows_per_batch sample_setup = 1"
  by (simp add: sample_setup_def spill_setup_of_def Let_def batch_rows_def oversize_rows_def batch_target_bytes_def
      budget_new_def line_splitter_def)

theorem spill_error_is_final_witness:
  "\<exists>w. run_slice_spill sample_env (line_sink_parser sample_env refusing_setup) chunked_plan (budget_new 128) line_splitter
     (\<lambda>_. 0) (\<lambda>_ _. Inl full) [newline, newline] (ledger_new (budget_new 128)) no_stats = Some (Inl full, Some w) \<and> taken w = []"
proof -
  let ?Z = refusing_setup and ?l = "ledger_new (budget_new 128)" and ?kvs = "[(''a'', Int64 1)]"
  obtain s0 where s0: "spill_start sample_env chunked_plan sample_setup ?l no_stats = (Inr (), s0)" "spilled chunked_plan sample_setup [] s0"
      "tb_rows (engine s0) = []" using spill_start_ok [OF chunked_plan_simps(1) sample_lenient] by blast
  have start: "spill_start sample_env chunked_plan ?Z ?l no_stats = (Inr (), s0)"
    using s0(1) by (simp add: refusing_setup_same spill_start_def)
  have s: "row_ready chunked_plan (engine s0)" "sp_error s0 = None" "taken s0 = []" using s0(2) by (simp_all add: spilled_def)
  have "puts_fit sample_env ?kvs (begin_row sample_env (engine s0))"
    using sample_fits [of ?l] s0(1) by (simp add: sample_rows(2))
  then obtain t where t: "parse_row sample_env ?kvs (engine s0) = Some t" "row_ready chunked_plan t"
      "tb_rows t = tb_rows (engine s0) @ [written (ext sample_env) chunked_plan ?kvs no_cells]"
    using row_ready_row [OF s(1) chunked_plan_simps(1,2)] by blast
  have one: "row_count t = 1" using arg_cong [OF t(3), of length] s0(3) by (simp add: tb_rows_def)
  have "some_cell (written (ext sample_env) chunked_plan ?kvs no_cells)"
    using sample_cells by (simp add: sample_rows(2) rows_of_def)
  then have "spilled chunked_plan ?Z [] (s0\<lparr>engine := t\<rparr>)"
    using s0(2,3) t(2,3) by (simp add: spilled_def refusing_setup_same)
  then obtain u where u: "spill_inner sample_env ?Z (s0\<lparr>engine := t\<rparr>) = Some (Inl full, u)"
    using refused_spill [of chunked_plan ?Z "[]" "s0\<lparr>engine := t\<rparr>" full sample_env] sample_columns one sample_lenient
    by (auto simp: refusing_setup_same lenient_def)
  have due: "should_spill sample_env ?Z (s0\<lparr>engine := t\<rparr>)"
    using s(2) one sample_one_row by (simp add: should_spill_def refusing_setup_same)
  have recs: "lines_records length_line [newline, newline] = [] @ ?kvs # [?kvs]" by (simp add: sample_rows(2))
  show ?thesis
    using spill_error_is_final [OF _ sample_parses refusing_setup_def start recs _ s(2) t(1) due _ u] one s(3) by auto
qed

end
