(* ===== verification/Scan.thy ===== *)
theory Scan
  imports Decoder
begin

text \<open>
  The portable scan primitives adapters call (\<open>scan/mod.rs\<close>): a byte, one of two bytes, a literal,
  and the end of a delimited field with quoted regions. \<open>None\<close> outside is the panic of a slice
  that starts behind the end. The searches of the memchr crate stand for the first position.
\<close>

section \<open>Searching from a position\<close>

definition memchr2 :: "char \<Rightarrow> char \<Rightarrow> string \<Rightarrow> nat option" where
  "memchr2 a b s = position (\<lambda>x. x = a \<or> x = b) s"

definition find_byte :: "string \<Rightarrow> nat \<Rightarrow> char \<Rightarrow> nat option option" where
  "find_byte hay start b =
     (if start < length hay \<and> hay ! start = b then Some (Some start)
      else if start \<le> length hay then Some (map_option (\<lambda>p. start + p) (memchr b (drop start hay)))
      else None)"

definition find2 :: "string \<Rightarrow> nat \<Rightarrow> char \<Rightarrow> char \<Rightarrow> (nat \<times> char) option option" where
  "find2 hay start a b =
     (if start < length hay \<and> hay ! start = a then Some (Some (start, a))
      else if start < length hay \<and> hay ! start = b then Some (Some (start, b))
      else if start \<le> length hay
      then Some (map_option (\<lambda>p. (start + p, hay ! (start + p))) (memchr2 a b (drop start hay)))
      else None)"

definition starts_with_at :: "string \<Rightarrow> nat \<Rightarrow> string \<Rightarrow> bool" where
  "starts_with_at hay at lit \<longleftrightarrow> at + length lit \<le> length hay \<and> sub_bytes at (at + length lit) hay = lit"

definition find_literal :: "string \<Rightarrow> nat \<Rightarrow> string \<Rightarrow> nat option" where
  "find_literal hay at lit =
     (if length hay \<le> at then None else map_option (\<lambda>p. at + p) (find_bytes lit (drop at hay)))"

definition find_delimiter_or_quote :: "string \<Rightarrow> nat \<Rightarrow> char \<Rightarrow> char \<Rightarrow> (nat \<times> char) option option" where
  "find_delimiter_or_quote hay start delimiter quote = find2 hay start delimiter quote"

section \<open>The end of a delimited field\<close>

text \<open>The loop behind an opening quote: past the closing quote, a doubled quote skipped.\<close>

function close_quote :: "string \<Rightarrow> char \<Rightarrow> nat \<Rightarrow> nat option" where
  "close_quote bytes quote pos =
     (if length bytes < pos then None
      else case memchr quote (drop pos bytes) of
          None \<Rightarrow> Some (length bytes)
        | Some q \<Rightarrow>
            if pos + q + 1 < length bytes \<and> bytes ! (pos + q + 1) = quote then close_quote bytes quote (pos + q + 2)
            else Some (pos + q + 1))"
  by pat_completeness auto
termination
  by (relation "measure (\<lambda>(bytes, quote, pos). Suc (length bytes) - pos)") auto

declare close_quote.simps [simp del]

definition scan_delimited_field :: "string \<Rightarrow> nat \<Rightarrow> char \<Rightarrow> char \<Rightarrow> nat option" where
  "scan_delimited_field bytes start delimiter quote =
     (if length bytes \<le> start then Some (length bytes)
      else case find2 bytes start delimiter quote of
          None \<Rightarrow> None
        | Some (Some (p, b)) \<Rightarrow> if b = quote then close_quote bytes quote (p + 1) else Some (p + 1)
        | Some None \<Rightarrow> Some (length bytes))"

section \<open>The searches find the first position\<close>

lemma position_drop:
  assumes "k \<le> length xs"
  shows "map_option (\<lambda>p. k + p) (position P (drop k xs)) = List.find (\<lambda>i. P (xs ! i)) [k..<length xs]"
proof -
  have "map_option (\<lambda>p. k + p) (position P ys) = List.find (\<lambda>i. P (ys ! (i - k))) [k..<k + length ys]" for ys :: "'a list"
  proof (induction ys rule: rev_induct)
    case (snoc y ys)
    have pos: "position P (ys @ [y]) =
        (case position P ys of Some p \<Rightarrow> Some p | None \<Rightarrow> if P y then Some (length ys) else None)"
      by (induction ys) (auto split: option.splits)
    have "List.find Q (as @ bs) = (case List.find Q as of None \<Rightarrow> List.find Q bs | Some x \<Rightarrow> Some x)" for Q and as bs :: "nat list"
      by (induction as) auto
    moreover have "List.find (\<lambda>i. P ((ys @ [y]) ! (i - k))) [k..<k + length ys] = List.find (\<lambda>i. P (ys ! (i - k))) [k..<k + length ys]"
      by (rule find_cong) (auto simp: nth_append)
    ultimately show ?case using snoc by (auto simp: pos nth_append split: option.splits)
  qed simp
  from this [of "drop k xs"] assms
  have "map_option (\<lambda>p. k + p) (position P (drop k xs)) = List.find (\<lambda>i. P (drop k xs ! (i - k))) [k..<length xs]"
    by simp
  also have "\<dots> = List.find (\<lambda>i. P (xs ! i)) [k..<length xs]"
    by (rule find_cong) (use assms in auto)
  finally show ?thesis .
qed

lemma find_first: "start < length hay \<Longrightarrow> P (hay ! start) \<Longrightarrow> List.find (\<lambda>i. P (hay ! i)) [start..<length hay] = Some start"
  by (simp add: upt_conv_Cons)

theorem find_byte_first:
  assumes "start \<le> length hay"
  shows "find_byte hay start b = Some (List.find (\<lambda>i. hay ! i = b) [start..<length hay])"
  using position_drop [OF assms, of "\<lambda>x. x = b"] find_first [of start hay "\<lambda>x. x = b"] assms
  by (auto simp: find_byte_def memchr_def)

theorem find2_first:
  assumes "start \<le> length hay"
  shows "find2 hay start a b =
    Some (map_option (\<lambda>i. (i, hay ! i)) (List.find (\<lambda>i. hay ! i = a \<or> hay ! i = b) [start..<length hay]))"
proof -
  have "map_option (\<lambda>p. (start + p, hay ! (start + p))) (memchr2 a b (drop start hay)) =
      map_option (\<lambda>i. (i, hay ! i)) (List.find (\<lambda>i. hay ! i = a \<or> hay ! i = b) [start..<length hay])"
    by (simp add: memchr2_def position_drop [OF assms, of "\<lambda>x. x = a \<or> x = b", symmetric] option.map_comp comp_def)
  then show ?thesis
    using find_first [of start hay "\<lambda>x. x = a \<or> x = b"] assms by (auto simp: find2_def)
qed

section \<open>Reading a field byte by byte\<close>

text \<open>
  The length of the field the code finds: behind an opening quote it ends with the next quote that is
  not doubled, or with the input.
\<close>

fun quoted_end :: "char \<Rightarrow> string \<Rightarrow> nat" where
  "quoted_end quote [] = 0"
| "quoted_end quote [c] = 1"
| "quoted_end quote (c # c' # cs) =
     (if c = quote then if c' = quote then 2 + quoted_end quote cs else 1 else 1 + quoted_end quote (c' # cs))"

fun field_end :: "char \<Rightarrow> char \<Rightarrow> string \<Rightarrow> nat" where
  "field_end delimiter quote [] = 0"
| "field_end delimiter quote (c # cs) =
     (if c = quote then 1 + quoted_end quote cs else if c = delimiter then 1 else 1 + field_end delimiter quote cs)"

lemma quoted_end_skip: "quote \<notin> set pre \<Longrightarrow> quoted_end quote (pre @ cs) = length pre + quoted_end quote cs"
proof (induction pre)
  case (Cons c pre)
  then show ?case by (cases "pre @ cs") auto
qed simp

lemma quoted_end_Nil_of: "quote \<notin> set cs \<Longrightarrow> quoted_end quote cs = length cs"
  using quoted_end_skip [of quote cs "[]"] by simp

lemma close_quote_reads: "pos \<le> length bytes \<Longrightarrow> close_quote bytes quote pos = Some (pos + quoted_end quote (drop pos bytes))"
proof (induction bytes quote pos rule: close_quote.induct)
  case (1 bytes quote pos)
  show ?case
  proof (cases "memchr quote (drop pos bytes)")
    case None
    then have "quoted_end quote (drop pos bytes) = length bytes - pos"
      by (simp add: memchr_None quoted_end_Nil_of)
    with None 1(2) show ?thesis by (simp add: close_quote.simps)
  next
    case (Some q)
    note q = memchr_Some [OF Some]
    have free: "quote \<notin> set (take q (drop pos bytes))"
      using q by (auto simp: in_set_conv_nth)
    have split: "drop pos bytes = take q (drop pos bytes) @ quote # drop (pos + q + 1) bytes"
      using q id_take_nth_drop [of q "drop pos bytes"] by (simp add: add.commute)
    have qe: "quoted_end quote (drop pos bytes) = q + quoted_end quote (quote # drop (pos + q + 1) bytes)"
      by (subst split, subst quoted_end_skip [OF free]) (use q in simp)
    show ?thesis
    proof (cases "pos + q + 1 < length bytes")
      case True
      then have d: "drop (pos + q + 1) bytes = bytes ! (pos + q + 1) # drop (pos + q + 2) bytes"
        by (simp add: Cons_nth_drop_Suc)
      show ?thesis
      proof (cases "bytes ! (pos + q + 1) = quote")
        case dbl: True
        with 1(1) [OF _ Some] 1(2) True
        have "close_quote bytes quote (pos + q + 2) = Some (pos + q + 2 + quoted_end quote (drop (pos + q + 2) bytes))"
          by simp
        with Some True dbl 1(2) d show ?thesis by (simp add: qe close_quote.simps [of bytes quote pos])
      qed (use Some True 1(2) d in \<open>simp add: qe close_quote.simps [of bytes quote pos]\<close>)
    qed (use Some q 1(2) in \<open>simp add: qe close_quote.simps [of bytes quote pos]\<close>)
  qed
qed

lemma field_end_skip:
  "set pre \<inter> {delimiter, quote} = {} \<Longrightarrow> field_end delimiter quote (pre @ cs) = length pre + field_end delimiter quote cs"
  by (induction pre) auto

text \<open>The scan in one equation over the remaining bytes; a quote takes precedence over an equal delimiter.\<close>

lemma scan_field_reads:
  "scan_delimited_field bytes start delimiter quote =
     Some (if length bytes \<le> start then length bytes else start + field_end delimiter quote (drop start bytes))"
proof (cases "length bytes \<le> start")
  case False
  let ?P = "\<lambda>x. x = delimiter \<or> x = quote"
  have f2: "find2 bytes start delimiter quote =
      Some (map_option (\<lambda>p. (start + p, bytes ! (start + p))) (position ?P (drop start bytes)))"
    using False find2_first [of start bytes delimiter quote] position_drop [of start bytes ?P, symmetric]
    by (simp add: option.map_comp comp_def)
  show ?thesis
  proof (cases "position ?P (drop start bytes)")
    case None
    then have "set (drop start bytes) \<inter> {delimiter, quote} = {}" by (auto simp: position_None)
    from field_end_skip [OF this, of "[]"] None False f2 show ?thesis by (simp add: scan_delimited_field_def)
  next
    case (Some p)
    from position_Some [OF this] have p: "p < length bytes - start" "?P (bytes ! (start + p))"
      "\<forall>j<p. \<not> ?P (drop start bytes ! j)" using False by auto
    then have free: "set (take p (drop start bytes)) \<inter> {delimiter, quote} = {}"
      by (fastforce simp: in_set_conv_nth)
    have "drop start bytes = take p (drop start bytes) @ bytes ! (start + p) # drop (start + p + 1) bytes"
      using p id_take_nth_drop [of p "drop start bytes"] by (simp add: add.commute)
    then have "field_end delimiter quote (drop start bytes) =
        p + field_end delimiter quote (bytes ! (start + p) # drop (start + p + 1) bytes)"
      using field_end_skip [OF free, of "bytes ! (start + p) # drop (start + p + 1) bytes"] p(1) by simp
    then show ?thesis
      using p Some False f2 close_quote_reads [of "start + p + 1" bytes quote]
      by (auto simp: scan_delimited_field_def)
  qed
qed (simp add: scan_delimited_field_def)

section \<open>The documented end of a field\<close>

text \<open>
  The doc comment of the function: the end is the byte after the delimiter or the end of the input, and
  behind a quoted region the search for the delimiter is resumed. The two functions count the bytes
  outside and inside quotes.
\<close>

fun documented_end :: "char \<Rightarrow> char \<Rightarrow> string \<Rightarrow> nat" and documented_quoted :: "char \<Rightarrow> char \<Rightarrow> string \<Rightarrow> nat" where
  "documented_end delimiter quote [] = 0"
| "documented_end delimiter quote (c # cs) =
     (if c = quote then 1 + documented_quoted delimiter quote cs
      else if c = delimiter then 1 else 1 + documented_end delimiter quote cs)"
| "documented_quoted delimiter quote [] = 0"
| "documented_quoted delimiter quote [c] = 1"
| "documented_quoted delimiter quote (c # c' # cs) =
     (if c = quote
      then if c' = quote then 2 + documented_quoted delimiter quote cs else 1 + documented_end delimiter quote (c' # cs)
      else 1 + documented_quoted delimiter quote (c' # cs))"

lemma documented_quoted_rest:
  "documented_quoted delimiter quote cs =
     quoted_end quote cs + documented_end delimiter quote (drop (quoted_end quote cs) cs)"
  by (induction quote cs rule: quoted_end.induct) auto

lemma quoted_end_le: "quoted_end quote cs \<le> length cs"
  by (induction quote cs rule: quoted_end.induct) auto

lemma documented_end_le:
  "documented_end delimiter quote cs \<le> length cs" "documented_quoted delimiter quote cs \<le> length cs"
  by (induction delimiter quote cs and delimiter quote cs rule: documented_end_documented_quoted.induct) auto

lemma documented_end_0: "documented_end delimiter quote cs = 0 \<longleftrightarrow> cs = []"
  by (cases cs) auto

lemma field_end_documented:
  assumes "delimiter \<noteq> quote"
  shows "field_end delimiter quote cs \<le> documented_end delimiter quote cs \<and>
    (field_end delimiter quote cs = documented_end delimiter quote cs \<longleftrightarrow>
      quote \<notin> set (takeWhile (\<lambda>c. c \<noteq> delimiter) cs) \<or> field_end delimiter quote cs = length cs)"
proof (induction cs)
  case (Cons c cs)
  show ?case
  proof (cases "c = quote")
    case True
    have "documented_quoted delimiter quote cs = quoted_end quote cs \<longleftrightarrow> quoted_end quote cs = length cs"
      using quoted_end_le [of quote cs] by (auto simp: documented_quoted_rest [of delimiter] documented_end_0)
    then show ?thesis using True assms by (auto simp: documented_quoted_rest [of delimiter])
  next
    case False
    with Cons show ?thesis by auto
  qed
qed simp



text \<open>
  Behind the closing quote the search for the delimiter is not resumed: the end returned is the
  byte after the quote, whatever follows it.
\<close>

theorem scan_field_stops_at_quote:
  assumes "quote \<notin> set body" "rest = [] \<or> hd rest \<noteq> quote" "delimiter \<noteq> quote"
  shows "scan_delimited_field (quote # body @ quote # rest) 0 delimiter quote = Some (length body + 2)"
proof -
  have "quoted_end quote (quote # rest) = 1" using assms(2) by (cases rest) auto
  then show ?thesis by (simp add: scan_field_reads quoted_end_skip [OF assms(1)])
qed

lemma scan_field_stops_at_quote_witness:
  "scan_delimited_field (CHR 0x22 # ''a,b'' @ CHR 0x22 # '',c'') 0 (CHR 0x2C) (CHR 0x22) = Some 5"
  using scan_field_stops_at_quote [of "CHR 0x22" "''a,b''" "'',c''" "CHR 0x2C"] by simp

end
