(* ===== verification/Feeds.thy ===== *)
theory Feeds
  imports Rust_Std
begin

text \<open>
  Input that arrives piece by piece: \<open>RecordStream\<close> around an incremental parser
  (\<open>streaming_parser.rs\<close>) and \<open>LimitReader\<close>, which caps decompressed input (\<open>input.rs\<close>). The
  adapter's \<open>StreamingRecordParser\<close> is an argument: \<open>validate\<close> of its state and a chunk, and
  \<open>parse_available\<close>, which gives the emitted records, the state afterwards and the bytes
  consumed or the error. Diagnostics only watch and are left out.
\<close>

section \<open>Record streams\<close>

datatype stream_state = Rows | NeedMore | Eof

record 'p record_stream =
  rs_parser :: 'p
  rs_buffer :: string
  rs_start :: nat
  rs_eof :: bool

type_synonym ('p, 'r) avail = "'p \<Rightarrow> string \<Rightarrow> bool \<Rightarrow> 'r list \<times> 'p \<times> nat result"
type_synonym ('p, 'r) parse_outcome = "'r list \<times> stream_state result \<times> 'p record_stream"

definition COMPACT_AFTER :: nat where "COMPACT_AFTER = 64 * 1024"

definition stream_new :: "'p \<Rightarrow> 'p record_stream" where
  "stream_new p = \<lparr>rs_parser = p, rs_buffer = [], rs_start = 0, rs_eof = False\<rparr>"

definition feed :: "('p \<Rightarrow> string \<Rightarrow> unit result) \<Rightarrow> string \<Rightarrow> 'p record_stream \<Rightarrow> unit result \<times> 'p record_stream" where
  "feed V chunk s =
     (case V (rs_parser s) chunk of Inl e \<Rightarrow> (Inl e, s) | Inr _ \<Rightarrow> (Inr (), s\<lparr>rs_buffer := rs_buffer s @ chunk\<rparr>))"

definition finish_stream :: "'p record_stream \<Rightarrow> 'p record_stream" where
  "finish_stream s = s\<lparr>rs_eof := True\<rparr>"

definition stream_pending :: "'p record_stream \<Rightarrow> nat" where
  "stream_pending s = length (rs_buffer s) - rs_start s"

text \<open>The part behind the parser's call; \<open>None\<close> is the panic of \<open>drain\<close> behind the end.\<close>

definition consume_bytes :: "nat \<Rightarrow> 'p record_stream \<Rightarrow> (stream_state \<times> 'p record_stream) option" where
  "consume_bytes n s =
     (let start = rs_start s + n;
          state = (if rs_eof s then Eof else if n = 0 then NeedMore else Rows)
      in if length (rs_buffer s) \<le> start \<or> COMPACT_AFTER \<le> start
         then (if start \<le> length (rs_buffer s) then Some (state, s\<lparr>rs_buffer := drop start (rs_buffer s), rs_start := 0\<rparr>)
               else None)
         else Some (state, s\<lparr>rs_start := start\<rparr>))"

definition parse_stream :: "('p, 'r) avail \<Rightarrow> 'p record_stream \<Rightarrow> ('p, 'r) parse_outcome option" where
  "parse_stream A s =
     (if rs_start s \<le> length (rs_buffer s)
      then (case A (rs_parser s) (drop (rs_start s) (rs_buffer s)) (rs_eof s) of
          (rs, p, Inl e) \<Rightarrow> Some (rs, Inl e, s\<lparr>rs_parser := p\<rparr>)
        | (rs, p, Inr n) \<Rightarrow> map_option (\<lambda>(state, s'). (rs, Inr state, s')) (consume_bytes n (s\<lparr>rs_parser := p\<rparr>)))
      else None)"

text \<open>A client's session: chunks fed, drains in between, stopped by the first error.\<close>

datatype feed_op = Feed string | Parse

fun session :: "('p \<Rightarrow> string \<Rightarrow> unit result) \<Rightarrow> ('p, 'r) avail \<Rightarrow> feed_op list \<Rightarrow> 'p record_stream \<Rightarrow>
    ('r list \<times> unit result \<times> 'p record_stream) option" where
  "session V A [] s = Some ([], Inr (), s)"
| "session V A (Feed c # ops) s = (case feed V c s of (Inl e, s') \<Rightarrow> Some ([], Inl e, s') | (Inr _, s') \<Rightarrow> session V A ops s')"
| "session V A (Parse # ops) s =
     (case parse_stream A s of
        None \<Rightarrow> None
      | Some (rs, Inl e, s') \<Rightarrow> Some (rs, Inl e, s')
      | Some (rs, Inr _, s') \<Rightarrow> map_option (\<lambda>(rs', r, s''). (rs @ rs', r, s'')) (session V A ops s'))"

fun fed :: "feed_op list \<Rightarrow> string" where
  "fed [] = []"
| "fed (Feed c # ops) = c @ fed ops"
| "fed (Parse # ops) = fed ops"

text \<open>The session and its end: \<open>finish()\<close>, then one last \<open>parse\<close>.\<close>

definition whole_session :: "('p \<Rightarrow> string \<Rightarrow> unit result) \<Rightarrow> ('p, 'r) avail \<Rightarrow> feed_op list \<Rightarrow> 'p \<Rightarrow>
    ('r list \<times> unit result \<times> 'p) option" where
  "whole_session V A ops p =
     (case session V A ops (stream_new p) of
        None \<Rightarrow> None
      | Some (rs, Inl e, s) \<Rightarrow> Some (rs, Inl e, rs_parser s)
      | Some (rs, Inr _, s) \<Rightarrow>
          map_option (\<lambda>(rs', r, s'). (rs @ rs', bind_result r (\<lambda>_. Inr ()), rs_parser s')) (parse_stream A (finish_stream s)))"

section \<open>The abstract stream\<close>

text \<open>Without a buffer position and without compaction: the bytes not yet consumed.\<close>

definition unread :: "'p record_stream \<Rightarrow> string" where
  "unread s = drop (rs_start s) (rs_buffer s)"

definition resting :: "'p record_stream \<Rightarrow> bool" where
  "resting s \<longleftrightarrow> rs_start s \<le> length (rs_buffer s) \<and> rs_start s < COMPACT_AFTER"

lemma stream_new_ok [simp]: "resting (stream_new p)" "unread (stream_new p) = []"
  "rs_parser (stream_new p) = p" "rs_eof (stream_new p) = False"
  by (simp_all add: resting_def stream_new_def COMPACT_AFTER_def unread_def)

lemma feed_ok:
  assumes "feed V c s = (r, s')" "resting s"
  shows "resting s' \<and> rs_parser s' = rs_parser s \<and> rs_eof s' = rs_eof s \<and>
    r = V (rs_parser s) c \<and> unread s' = (if r = Inr () then unread s @ c else unread s)"
  using assms by (auto simp: feed_def resting_def unread_def split: sum.splits)

lemma consume_bytes_ok:
  assumes "resting s" "n \<le> length (unread s)"
  shows "\<exists>s'. consume_bytes n s = Some (if rs_eof s then Eof else if n = 0 then NeedMore else Rows, s') \<and> resting s' \<and>
    unread s' = drop n (unread s) \<and> rs_parser s' = rs_parser s \<and> rs_eof s' = rs_eof s"
  using assms by (auto simp: consume_bytes_def resting_def unread_def Let_def COMPACT_AFTER_def add.commute)

text \<open>What \<open>parse\<close> answers to the parser's result, and the bytes it leaves.\<close>

definition answer :: "bool \<Rightarrow> nat result \<Rightarrow> stream_state result" where
  "answer eof r = bind_result r (\<lambda>n. Inr (if eof then Eof else if n = 0 then NeedMore else Rows))"

definition left_over :: "nat result \<Rightarrow> string \<Rightarrow> string" where
  "left_over r bytes = (case r of Inl _ \<Rightarrow> bytes | Inr n \<Rightarrow> drop n bytes)"

lemma answer_simps [simp]: "answer eof (Inl e) = Inl e" "left_over (Inl e) bytes = bytes" "left_over (Inr n) bytes = drop n bytes"
  "bind_result (answer eof r) (\<lambda>_. Inr ()) = bind_result r (\<lambda>_. Inr ())"
  "answer eof (Inr n) = Inr (if eof then Eof else if n = 0 then NeedMore else Rows)"
  by (simp_all add: answer_def left_over_def, cases r, simp_all)

lemma parse_stream_ok:
  assumes "resting s" "A (rs_parser s) (unread s) (rs_eof s) = (rs, p, r)"
    and "\<And>n. r = Inr n \<Longrightarrow> n \<le> length (unread s)"
  shows "\<exists>s'. parse_stream A s = Some (rs, answer (rs_eof s) r, s') \<and> resting s' \<and> rs_parser s' = p \<and>
    rs_eof s' = rs_eof s \<and> unread s' = left_over r (unread s)"
proof (cases r)
  case (Inl e)
  with assms(1,2) show ?thesis by (auto simp: parse_stream_def resting_def unread_def)
next
  case (Inr n)
  let ?s = "s\<lparr>rs_parser := p\<rparr>"
  have "resting ?s" "n \<le> length (unread ?s)" using assms(1,3) Inr by (auto simp: resting_def unread_def)
  from consume_bytes_ok [OF this] Inr assms(1,2) show ?thesis
    by (auto simp: parse_stream_def resting_def unread_def)
qed

section \<open>Incremental parsers\<close>

text \<open>
  What the trait asks of a parser: it consumes a prefix of the bytes, and what it does with a
  longer buffer is what it did with the prefix, then what it does with the bytes it had left
  and the new ones.
\<close>

definition then_avail :: "'r list \<times> 'p \<times> nat result \<Rightarrow> ('p \<Rightarrow> nat \<Rightarrow> 'r list \<times> 'p \<times> nat result) \<Rightarrow> 'r list \<times> 'p \<times> nat result" where
  "then_avail x f =
     (case x of (rs, p, Inl e) \<Rightarrow> (rs, p, Inl e)
      | (rs, p, Inr n) \<Rightarrow> (case f p n of (rs', q, r) \<Rightarrow> (rs @ rs', q, bind_result r (\<lambda>m. Inr (n + m)))))"

locale incremental_parser =
  fixes A :: "('p, 'r) avail"
  assumes consumes: "A p bytes eof = (rs, q, Inr n) \<Longrightarrow> n \<le> length bytes"
    and resumes: "A p (bytes @ extra) eof = then_avail (A p bytes False) (\<lambda>q n. A q (drop n bytes @ extra) eof)"
begin

lemma parse_step:
  assumes "resting s" "A (rs_parser s) (unread s) (rs_eof s) = (rs, p, r)"
  shows "\<exists>s'. parse_stream A s = Some (rs, answer (rs_eof s) r, s') \<and> resting s' \<and> rs_parser s' = p \<and>
    rs_eof s' = rs_eof s \<and> unread s' = left_over r (unread s)"
  using assms consumes by (intro parse_stream_ok) auto

lemma resume_Inr:
  assumes "A p bytes False = (rs, q, Inr n)" "A q (drop n bytes @ extra) eof = (rs', q', r)"
  shows "A p (bytes @ extra) eof = (rs @ rs', q', bind_result r (\<lambda>m. Inr (n + m)))"
  by (subst resumes) (simp add: then_avail_def assms)

lemma resume_Inl: "A p bytes False = (rs, q, Inl e) \<Longrightarrow> A p (bytes @ extra) eof = (rs, q, Inl e)"
  by (subst resumes) (simp add: then_avail_def)

text \<open>A session in which no chunk is refused does what the parser does with all bytes at once.\<close>

lemma session_parses:
  assumes "resting s" "\<not> rs_eof s" "\<forall>p c. Feed c \<in> set ops \<longrightarrow> V p c = Inr ()"
    and "A (rs_parser s) (unread s @ fed ops @ extra) eof = (rs, p, r)"
  shows "\<exists>rs' res s'. session V A ops s = Some (rs', res, s') \<and> resting s' \<and> \<not> rs_eof s' \<and>
    (case res of Inl e \<Rightarrow> rs' = rs \<and> rs_parser s' = p \<and> r = Inl e
     | Inr _ \<Rightarrow> (\<exists>rs'' r'. A (rs_parser s') (unread s' @ extra) eof = (rs'', p, r') \<and> rs = rs' @ rs'' \<and>
         bind_result r (\<lambda>_. Inr ()) = bind_result r' (\<lambda>_. Inr ())))"
  using assms
proof (induction ops arbitrary: s rs r)
  case Nil
  then show ?case by simp
next
  case (Cons op ops)
  show ?case
  proof (cases op)
    case (Feed c)
    obtain x s1 where f: "feed V c s = (x, s1)" by force
    from feed_ok [OF f Cons.prems(1)] Cons.prems(3) Feed
    have s1: "resting s1" "rs_parser s1 = rs_parser s" "rs_eof s1 = rs_eof s" "x = Inr ()" "unread s1 = unread s @ c"
      by auto
    have "\<exists>rs' res s'. session V A ops s1 = Some (rs', res, s') \<and> resting s' \<and> \<not> rs_eof s' \<and>
      (case res of Inl e \<Rightarrow> rs' = rs \<and> rs_parser s' = p \<and> r = Inl e
       | Inr _ \<Rightarrow> (\<exists>rs'' r'. A (rs_parser s') (unread s' @ extra) eof = (rs'', p, r') \<and> rs = rs' @ rs'' \<and>
           bind_result r (\<lambda>_. Inr ()) = bind_result r' (\<lambda>_. Inr ())))"
      by (rule Cons.IH) (use s1 Cons.prems Feed in auto)
    then show ?thesis using Feed f s1(4) by simp
  next
    case Parse
    obtain rs1 p1 r1 where a: "A (rs_parser s) (unread s) False = (rs1, p1, r1)" by (metis prod_cases3)
    have "A (rs_parser s) (unread s) (rs_eof s) = (rs1, p1, r1)" using a Cons.prems(2) by simp
    from parse_step [OF Cons.prems(1) this] Cons.prems(2) obtain s1 where
      ps: "parse_stream A s = Some (rs1, answer False r1, s1)" "resting s1" "rs_parser s1 = p1" "\<not> rs_eof s1"
        "unread s1 = left_over r1 (unread s)"
      by auto
    show ?thesis
    proof (cases r1)
      case (Inl e)
      then show ?thesis using ps a resume_Inl [of "rs_parser s" "unread s"] Cons.prems(4) Parse by simp
    next
      case (Inr n)
      obtain rs2 p2 r2 where a2: "A p1 (drop n (unread s) @ fed ops @ extra) eof = (rs2, p2, r2)" by (metis prod_cases3)
      from resume_Inr [OF a [unfolded Inr] a2] Cons.prems(4) Parse
      have eq: "rs = rs1 @ rs2" "p2 = p" "r = bind_result r2 (\<lambda>m. Inr (n + m))" by simp_all
      have "\<exists>rs' res s'. session V A ops s1 = Some (rs', res, s') \<and> resting s' \<and> \<not> rs_eof s' \<and>
        (case res of Inl e \<Rightarrow> rs' = rs2 \<and> rs_parser s' = p \<and> r2 = Inl e
         | Inr _ \<Rightarrow> (\<exists>rs'' r'. A (rs_parser s') (unread s' @ extra) eof = (rs'', p, r') \<and> rs2 = rs' @ rs'' \<and>
             bind_result r2 (\<lambda>_. Inr ()) = bind_result r' (\<lambda>_. Inr ())))"
        by (rule Cons.IH) (use ps Inr a2 eq(2) Cons.prems(3) in auto)
      moreover have "bind_result r (\<lambda>_. Inr ()) = bind_result r2 (\<lambda>_. Inr ())" using eq(3) by (cases r2) simp_all
      moreover have "r2 = Inl e \<Longrightarrow> r = Inl e" for e using eq(3) by simp
      ultimately show ?thesis using Parse ps Inr eq(1) by (fastforce split: sum.splits)
    qed
  qed
qed

lemma whole_session_parses:
  assumes "\<forall>p c. Feed c \<in> set ops \<longrightarrow> V p c = Inr ()" "A p (fed ops) True = (rs, q, r)"
  shows "whole_session V A ops p = Some (rs, bind_result r (\<lambda>_. Inr ()), q)"
proof -
  have "A (rs_parser (stream_new p)) (unread (stream_new p) @ fed ops @ []) True = (rs, q, r)" using assms(2) by simp
  from session_parses [OF stream_new_ok(1) _ assms(1) this] obtain rs' res s' where
    s: "session V A ops (stream_new p) = Some (rs', res, s')" "resting s'" "\<not> rs_eof s'"
      "case res of Inl e \<Rightarrow> rs' = rs \<and> rs_parser s' = q \<and> r = Inl e
       | Inr _ \<Rightarrow> (\<exists>rs'' r'. A (rs_parser s') (unread s' @ []) True = (rs'', q, r') \<and> rs = rs' @ rs'' \<and>
           bind_result r (\<lambda>_. Inr ()) = bind_result r' (\<lambda>_. Inr ()))"
    by auto
  show ?thesis
  proof (cases res)
    case (Inl e)
    with s show ?thesis by (simp add: whole_session_def)
  next
    case (Inr u)
    with s obtain rs'' r' where a: "A (rs_parser s') (unread s') True = (rs'', q, r')" "rs = rs' @ rs''"
      "bind_result r (\<lambda>_. Inr ()) = bind_result r' (\<lambda>_. Inr ())" by auto
    have "resting (finish_stream s')" "A (rs_parser (finish_stream s')) (unread (finish_stream s')) (rs_eof (finish_stream s')) = (rs'', q, r')"
      using s(2) a(1) by (simp_all add: finish_stream_def resting_def unread_def)
    from parse_step [OF this] a(2,3) s(1) Inr show ?thesis
      by (auto simp: whole_session_def)
  qed
qed

end

text \<open>
  C30. Chunks, their sizes and the moments of draining do not matter: for a parser that resumes
  where it stopped, any session in which no chunk is refused emits the records and ends with
  the state and the error that one call over all bytes would give.
\<close>

theorem feeding_is_chunk_independent:
  assumes "\<And>p bytes eof rs q n. A p bytes eof = (rs, q, Inr n) \<Longrightarrow> n \<le> length bytes"
    and "\<And>p bytes extra eof. A p (bytes @ extra) eof = then_avail (A p bytes False) (\<lambda>q n. A q (drop n bytes @ extra) eof)"
    and "\<forall>p c. Feed c \<in> set ops \<longrightarrow> V p c = Inr ()" "A p (fed ops) True = (rs, q, r)"
  shows "whole_session V A ops p = Some (rs, bind_result r (\<lambda>_. Inr ()), q)"
  by (rule incremental_parser.whole_session_parses [where A = A, OF incremental_parser.intro [where A = A, OF assms(1,2)] assms(3,4)])

section \<open>The line parser\<close>

text \<open>The parser of the crate's own tests: one record for each line that is not empty.\<close>

definition line_validate :: "unit \<Rightarrow> string \<Rightarrow> unit result" where
  "line_validate u bytes = (if utf8_valid bytes then Inr () else Inl (Utf8_error bytes))"

abbreviation line_break :: char where "line_break \<equiv> CHR 0x0A"

definition line_record :: "string \<Rightarrow> string list" where
  "line_record line = (let text = (if utf8_valid line then line else []) in if text = [] then [] else [text])"

fun line_loop :: "string \<Rightarrow> nat \<Rightarrow> nat \<Rightarrow> string \<Rightarrow> string list \<times> nat" where
  "line_loop bytes consumed i [] = ([], consumed)"
| "line_loop bytes consumed i (b # bs) =
     (if b = line_break
      then (case line_loop bytes (i + 1) (i + 1) bs of
          (rs, n) \<Rightarrow> (line_record (take (i - consumed) (drop consumed bytes)) @ rs, n))
      else line_loop bytes consumed (i + 1) bs)"

definition line_available :: "(unit, string) avail" where
  "line_available p bytes eof = (case line_loop bytes 0 0 bytes of (rs, n) \<Rightarrow> (rs, p, Inr n))"

text \<open>The same, with the line read so far in hand.\<close>

fun line_scan :: "string \<Rightarrow> string \<Rightarrow> string list \<times> nat" where
  "line_scan cur [] = ([], 0)"
| "line_scan cur (b # bs) =
     (if b = line_break then (case line_scan [] bs of (rs, n) \<Rightarrow> (line_record cur @ rs, length cur + 1 + n))
      else line_scan (cur @ [b]) bs)"

lemma line_loop_scan:
  "line_loop (pre @ cur @ bs) (length pre) (length pre + length cur) bs = (case line_scan cur bs of (rs, n) \<Rightarrow> (rs, length pre + n))"
proof (induction bs arbitrary: pre cur)
  case (Cons b bs)
  from Cons [of "pre @ cur @ [b]" "[]"] Cons [of pre "cur @ [b]"] show ?case
    by (auto split: prod.splits)
qed simp

lemma line_available_scan: "line_available p bytes eof = (case line_scan [] bytes of (rs, n) \<Rightarrow> (rs, p, Inr n))"
  using line_loop_scan [of "[]" "[]" bytes] by (simp add: line_available_def)

lemma line_scan_le: "snd (line_scan cur bs) \<le> length cur + length bs"
proof (induction bs arbitrary: cur)
  case (Cons b bs)
  from Cons [of "[]"] Cons [of "cur @ [b]"] show ?case by (auto split: prod.splits)
qed simp

lemma line_scan_append:
  "line_scan cur (bs @ extra) = (case line_scan cur bs of (rs, n) \<Rightarrow>
     (case line_scan [] (drop n (cur @ bs) @ extra) of (rs', m) \<Rightarrow> (rs @ rs', n + m)))"
  if "line_break \<notin> set cur"
  using that
proof (induction bs arbitrary: cur)
  case Nil
  have "line_scan pre (cur @ extra) = line_scan (pre @ cur) extra" if "line_break \<notin> set cur" for pre
    using that by (induction cur arbitrary: pre) auto
  from this [of "[]"] Nil show ?case by (simp split: prod.splits)
next
  case (Cons b bs)
  show ?case
  proof (cases "b = line_break")
    case True
    with Cons.IH [of "[]"] show ?thesis by (simp split: prod.splits)
  next
    case False
    with Cons.IH [of "cur @ [b]"] Cons.prems show ?thesis by simp
  qed
qed

interpretation line: incremental_parser line_available
proof
  show "n \<le> length bytes" if "line_available p bytes eof = (rs, q, Inr n)" for p bytes eof rs q n
    using that line_scan_le [of "[]" bytes] by (auto simp: line_available_scan split: prod.splits)
  show "line_available p (bytes @ extra) eof = then_avail (line_available p bytes False) (\<lambda>q n. line_available q (drop n bytes @ extra) eof)"
    for p bytes extra eof
    using line_scan_append [of "[]" bytes extra] by (auto simp: line_available_scan then_avail_def split: prod.splits)
qed

theorem feeding_is_chunk_independent_witness:
  "whole_session line_validate line_available [Feed ''ab'', Parse, Feed (''c'' @ line_break # ''d''), Parse] () =
     Some ([''abc''], Inr (), ())"
proof -
  have "line_available () (fed [Feed ''ab'', Parse, Feed (''c'' @ line_break # ''d''), Parse]) True = ([''abc''], (), Inr 4)"
    by (simp add: line_available_scan line_record_def utf8_valid_def byte_of_def)
  have "\<forall>p c. Feed c \<in> set [Feed ''ab'', Parse, Feed (''c'' @ line_break # ''d''), Parse] \<longrightarrow> line_validate p c = Inr ()"
    by (simp add: line_validate_def utf8_valid_def byte_of_def)
  from feeding_is_chunk_independent [OF line.consumes line.resumes this \<open>line_available () _ True = _\<close>]
  show ?thesis by simp
qed

text \<open>
  The chunks are validated one by one, so a character cut by a chunk border is refused although
  the bytes seen so far are a prefix of valid text.
\<close>

theorem split_character_is_refused:
  "utf8_valid [CHR 0xC3, CHR 0xA9] \<and>
   whole_session line_validate line_available [Feed [CHR 0xC3, CHR 0xA9]] () = Some ([], Inr (), ()) \<and>
   whole_session line_validate line_available [Feed [CHR 0xC3], Feed [CHR 0xA9]] () = Some ([], Inl (Utf8_error [CHR 0xC3]), ())"
  by (simp add: whole_session_def session.simps feed_def stream_new_def line_validate_def utf8_valid_def byte_of_def
      parse_stream_def finish_stream_def line_available_scan consume_bytes_def COMPACT_AFTER_def cont_def)

text \<open>\<open>parse\<close> answers \<open>Rows\<close> as soon as bytes were consumed, although no record was emitted.\<close>

lemma rows_without_record:
  "map_option (\<lambda>(rs, r, s). (rs, r)) (parse_stream line_available (snd (feed line_validate [line_break] (stream_new ())))) =
     Some ([], Inr Rows)"
  by (simp add: feed_def stream_new_def line_validate_def utf8_valid_def byte_of_def parse_stream_def line_available_scan
      consume_bytes_def COMPACT_AFTER_def line_record_def)

text \<open>The buffer never keeps 64 KiB of consumed bytes, and \<open>parse\<close> on a parser that keeps to its buffer never panics.\<close>

theorem parse_stream_refines:
  assumes "resting s" "A (rs_parser s) (unread s) (rs_eof s) = (rs, p, r)"
    and "\<And>n. r = Inr n \<Longrightarrow> n \<le> length (unread s)"
  shows "\<exists>s'. parse_stream A s = Some (rs, answer (rs_eof s) r, s') \<and> rs_start s' < COMPACT_AFTER \<and> rs_parser s' = p \<and>
    unread s' = left_over r (unread s)"
  using parse_stream_ok [where A = A, OF assms] by (auto simp: resting_def)

end
