(* ===== verification/Inputs.thy ===== *)
theory Inputs
  imports Prelude
begin

text \<open>
  Opening an input (\<open>input.rs\<close>): the detection of compressed files by their first bytes, and the
  reader that stops decompression behind a limit. The decompressors, the file and the choice of
  buffer sizes by the standard library's \<open>read_to_end\<close> are arguments; a mapping is its bytes.
\<close>

section \<open>The limiting reader\<close>

definition MAX_DECOMPRESSED_BYTES :: nat where "MAX_DECOMPRESSED_BYTES = 2 ^ 30"

text \<open>A reader takes a buffer size and gives the bytes it wrote.\<close>

type_synonym 'r reader = "'r \<Rightarrow> nat \<Rightarrow> string result \<times> 'r"

record 'r limit_reader =
  lr_inner :: 'r
  remaining :: nat
  lr_limit :: nat

definition limit_new :: "'r \<Rightarrow> nat \<Rightarrow> 'r limit_reader" where
  "limit_new inner limit = \<lparr>lr_inner = inner, remaining = limit, lr_limit = limit\<rparr>"

definition limit_read :: "'r reader \<Rightarrow> 'r limit_reader reader" where
  "limit_read R lr n =
     (if n = 0 then (Inr [], lr)
      else (case R (lr_inner lr) (min (sat_add (min (remaining lr) usize_max) 1) n) of
          (Inl e, r) \<Rightarrow> (Inl e, lr\<lparr>lr_inner := r\<rparr>)
        | (Inr bytes, r) \<Rightarrow>
            if remaining lr < length bytes
            then (Inl (Io_error ''decompressed output exceeds byte limit''), lr\<lparr>lr_inner := r, remaining := 0\<rparr>)
            else (Inr bytes, lr\<lparr>lr_inner := r, remaining := remaining lr - length bytes\<rparr>)))"

lemma limit_read_uses: "(Inr bytes, lr') = limit_read R lr n \<Longrightarrow> bytes \<noteq> [] \<Longrightarrow> remaining lr' < remaining lr"
  by (cases bytes) (auto simp: limit_read_def split: if_splits prod.splits sum.splits)

text \<open>\<open>read_to_end\<close> of the limited reader: every read that is not empty uses up some of the limit.\<close>

function read_to_end :: "'r reader \<Rightarrow> (nat \<Rightarrow> nat) \<Rightarrow> 'r limit_reader \<Rightarrow> string \<Rightarrow> string result" where
  "read_to_end R bufs lr out =
     (case limit_read R lr (bufs (length out)) of
        (Inl e, lr') \<Rightarrow> Inl e
      | (Inr bytes, lr') \<Rightarrow> if bytes = [] then Inr out else read_to_end R bufs lr' (out @ bytes))"
  by pat_completeness auto
termination
  by (relation "measure (\<lambda>(R, bufs, lr, out). remaining lr)") (simp, use limit_read_uses in fastforce)

declare read_to_end.simps [simp del]

section \<open>Opening\<close>

datatype compression = Gzip | Zstd | Lz4

record features =
  gzip_on :: bool
  zstd_on :: bool
  lz4_on :: bool
  mmap_on :: bool

text \<open>The bytes the first read gave, at most four.\<close>

definition detect_compression :: "features \<Rightarrow> string \<Rightarrow> compression option" where
  "detect_compression F magic =
     (if gzip_on F \<and> take 2 magic = [CHR 0x1F, CHR 0x8B] then Some Gzip
      else if zstd_on F \<and> magic = [CHR 0x28, CHR 0xB5, CHR 0x2F, CHR 0xFD] then Some Zstd
      else if lz4_on F \<and> magic = [CHR 0x04, CHR 0x22, CHR 0x4D, CHR 0x18] then Some Lz4
      else None)"

record 'r decoders =
  decoder_new :: "compression \<Rightarrow> string \<Rightarrow> 'r result"
  decoder_read :: "'r reader"

definition codec_on :: "features \<Rightarrow> compression \<Rightarrow> bool" where
  "codec_on F c = (case c of Gzip \<Rightarrow> gzip_on F | Zstd \<Rightarrow> zstd_on F | Lz4 \<Rightarrow> lz4_on F)"

definition decompress :: "features \<Rightarrow> 'r decoders \<Rightarrow> (nat \<Rightarrow> nat) \<Rightarrow> string \<Rightarrow> compression \<Rightarrow> string result" where
  "decompress F D bufs file codec =
     (if codec_on F codec
      then bind_result (decoder_new D codec file) (\<lambda>r. read_to_end (decoder_read D) bufs (limit_new r MAX_DECOMPRESSED_BYTES) [])
      else Inl (Io_error ''input detected but its cargo feature is not enabled''))"

datatype input_buffer = Mmap string | Owned string

definition open_input :: "features \<Rightarrow> 'r decoders \<Rightarrow> (nat \<Rightarrow> nat) \<Rightarrow> string result \<Rightarrow> bool \<Rightarrow> input_buffer result" where
  "open_input F D bufs file use_mmap =
     bind_result file (\<lambda>bytes.
       case detect_compression F (take 4 bytes) of
         Some codec \<Rightarrow> bind_result (decompress F D bufs bytes codec) (\<lambda>out. Inr (Owned out))
       | None \<Rightarrow> Inr (if mmap_on F \<and> use_mmap then Mmap bytes else Owned bytes))"

fun as_slice :: "input_buffer \<Rightarrow> string" where
  "as_slice (Mmap bytes) = bytes"
| "as_slice (Owned bytes) = bytes"

definition input_len :: "input_buffer \<Rightarrow> nat" where
  "input_len b = length (as_slice b)"

definition input_is_empty :: "input_buffer \<Rightarrow> bool" where
  "input_is_empty b \<longleftrightarrow> input_len b = 0"

section \<open>The limit holds\<close>

text \<open>Whatever the inner reader does, delivered bytes and the rest of the limit stay within the limit.\<close>

lemma limit_read_spends:
  assumes "limit_read R lr n = (res, lr')"
  shows "(case res of Inr bytes \<Rightarrow> length bytes | Inl _ \<Rightarrow> 0) + remaining lr' \<le> remaining lr \<and> lr_limit lr' = lr_limit lr"
  using assms by (auto simp: limit_read_def split: if_splits prod.splits sum.splits)

lemma read_to_end_bounded: "read_to_end R bufs lr out = Inr data \<Longrightarrow> length data \<le> length out + remaining lr"
proof (induction R bufs lr out rule: read_to_end.induct)
  case (1 R bufs lr out)
  obtain res lr' where r: "limit_read R lr (bufs (length out)) = (res, lr')" by force
  show ?case
  proof (cases res)
    case (Inl e)
    with 1(2) r show ?thesis by (simp add: read_to_end.simps [of R bufs lr])
  next
    case (Inr bytes)
    show ?thesis
    proof (cases "bytes = []")
      case True
      with 1(2) r Inr show ?thesis by (simp add: read_to_end.simps [of R bufs lr])
    next
      case False
      with 1(2) r Inr have "read_to_end R bufs lr' (out @ bytes) = Inr data"
        by (simp add: read_to_end.simps [of R bufs lr])
      from 1(1) [OF r [symmetric] Inr False this] limit_read_spends [OF r] Inr show ?thesis by simp
    qed
  qed
qed

text \<open>
  What \<open>Read\<close> documents for a source without faults: it writes a prefix of the bytes to come, of
  at most the buffer's size, and nothing only at the end or into an empty buffer.
\<close>

locale byte_source =
  fixes R :: "'r reader" and content :: "'r \<Rightarrow> string"
  assumes reads: "\<exists>bytes r'. R r n = (Inr bytes, r') \<and> content r = bytes @ content r' \<and> length bytes \<le> n \<and>
    (bytes = [] \<longrightarrow> n = 0 \<or> content r = [])"
begin

lemma limit_read_source:
  assumes "0 < n"
  shows "\<exists>bytes r'. content (lr_inner lr) = bytes @ content r' \<and> (bytes = [] \<longrightarrow> content (lr_inner lr) = []) \<and>
    limit_read R lr n =
      (if remaining lr < length bytes
       then (Inl (Io_error ''decompressed output exceeds byte limit''), lr\<lparr>lr_inner := r', remaining := 0\<rparr>)
       else (Inr bytes, lr\<lparr>lr_inner := r', remaining := remaining lr - length bytes\<rparr>))"
proof -
  have "0 < min (sat_add (min (remaining lr) usize_max) 1) n" using assms by (simp add: sat_add_def usize_max_def)
  with reads [of "lr_inner lr" "min (sat_add (min (remaining lr) usize_max) 1) n"] obtain bytes r' where
    "R (lr_inner lr) (min (sat_add (min (remaining lr) usize_max) 1) n) = (Inr bytes, r')"
    "content (lr_inner lr) = bytes @ content r'" "bytes = [] \<longrightarrow> content (lr_inner lr) = []"
    by (metis less_numeral_extra(3))
  then show ?thesis using assms by (intro exI [of _ bytes] exI [of _ r']) (simp add: limit_read_def)
qed

lemma read_to_end_source:
  assumes "\<And>k. 0 < bufs k"
  shows "read_to_end R bufs lr out =
    (if length (content (lr_inner lr)) \<le> remaining lr then Inr (out @ content (lr_inner lr))
     else Inl (Io_error ''decompressed output exceeds byte limit''))"
proof (induction "remaining lr" arbitrary: lr out rule: less_induct)
  case less
  obtain bytes r' where
    c: "content (lr_inner lr) = bytes @ content r'" "bytes = [] \<longrightarrow> content (lr_inner lr) = []" and
    r: "limit_read R lr (bufs (length out)) =
      (if remaining lr < length bytes
       then (Inl (Io_error ''decompressed output exceeds byte limit''), lr\<lparr>lr_inner := r', remaining := 0\<rparr>)
       else (Inr bytes, lr\<lparr>lr_inner := r', remaining := remaining lr - length bytes\<rparr>))"
    using limit_read_source [of "bufs (length out)" lr, OF assms] by (elim exE conjE) (rule that)
  consider (over) "remaining lr < length bytes" | (ended) "bytes = []" | (rest) "bytes \<noteq> []" "length bytes \<le> remaining lr"
    by linarith
  then show ?case
  proof cases
    case over
    with c r show ?thesis by (simp add: read_to_end.simps [of R bufs lr])
  next
    case ended
    with c r show ?thesis by (simp add: read_to_end.simps [of R bufs lr])
  next
    case rest
    let ?lr = "lr\<lparr>lr_inner := r', remaining := remaining lr - length bytes\<rparr>"
    have "remaining ?lr < remaining lr" using rest by (cases bytes) auto
    from less [OF this, of "out @ bytes"] rest c r show ?thesis
      by (auto simp: read_to_end.simps [of R bufs lr])
  qed
qed

end

text \<open>\<open>Read\<close> for \<open>&[u8]\<close>, the standard library's reader over bytes in memory.\<close>

definition slice_read :: "string reader" where
  "slice_read r n = (Inr (take n r), drop n r)"

interpretation slices: byte_source slice_read "\<lambda>r. r"
  by unfold_locales (auto simp: slice_read_def)

lemma slices_to_end:
  assumes "\<And>k. 0 < bufs k"
  shows "read_to_end slice_read bufs (limit_new bytes limit) [] =
    (if length bytes \<le> limit then Inr bytes else Inl (Io_error ''decompressed output exceeds byte limit''))"
  using slices.read_to_end_source [of bufs "limit_new bytes limit" "[]"] assms by (simp add: limit_new_def)

lemma detected_codec_on: "detect_compression F magic = Some codec \<Longrightarrow> codec_on F codec"
  by (auto simp: detect_compression_def codec_on_def split: if_splits)

text \<open>
  C33. A compressed file opens as the bytes its decoder gives, however they arrive, when these are at
  most 1 GiB, and as an error otherwise; a file that no enabled codec recognises opens as it is.
\<close>

theorem open_input_limits:
  assumes "\<And>r n. \<exists>bytes r'. decoder_read D r n = (Inr bytes, r') \<and> content r = bytes @ content r' \<and>
      length bytes \<le> n \<and> (bytes = [] \<longrightarrow> n = 0 \<or> content r = [])"
    and "\<And>k. 0 < bufs k" "\<And>codec. decoder_new D codec file = Inr (start codec)"
  shows "open_input F D bufs (Inr file) use_mmap =
    (case detect_compression F (take 4 file) of
       Some codec \<Rightarrow>
         if length (content (start codec)) \<le> 2 ^ 30 then Inr (Owned (content (start codec)))
         else Inl (Io_error ''decompressed output exceeds byte limit'')
     | None \<Rightarrow> Inr (if mmap_on F \<and> use_mmap then Mmap file else Owned file))"
proof (cases "detect_compression F (take 4 file)")
  case (Some codec)
  have src: "byte_source (decoder_read D) content" by (rule byte_source.intro) (rule assms(1))
  have "read_to_end (decoder_read D) bufs (limit_new (start codec) MAX_DECOMPRESSED_BYTES) [] =
      (if length (content (start codec)) \<le> MAX_DECOMPRESSED_BYTES then Inr (content (start codec))
       else Inl (Io_error ''decompressed output exceeds byte limit''))"
    using byte_source.read_to_end_source [OF src, of bufs "limit_new (start codec) MAX_DECOMPRESSED_BYTES" "[]"] assms(2)
    by (simp add: limit_new_def)
  then show ?thesis
    using Some detected_codec_on [OF Some] assms(3)
    by (simp add: open_input_def decompress_def MAX_DECOMPRESSED_BYTES_def)
qed (simp add: open_input_def)

definition gzip_only :: features where
  "gzip_only = \<lparr>gzip_on = True, zstd_on = False, lz4_on = False, mmap_on = True\<rparr>"

text \<open>A stored block as the decoder: the bytes behind the two magic ones.\<close>

theorem open_input_limits_witness:
  "open_input gzip_only \<lparr>decoder_new = \<lambda>codec file. Inr (drop 2 file), decoder_read = slice_read\<rparr> (\<lambda>k. 32)
     (Inr (CHR 0x1F # CHR 0x8B # ''ab'')) True = Inr (Owned ''ab'')"
  using open_input_limits [of "\<lparr>decoder_new = \<lambda>codec file. Inr (drop 2 file), decoder_read = slice_read\<rparr>" "\<lambda>r. r" "\<lambda>k. 32"
      "CHR 0x1F # CHR 0x8B # ''ab''" "\<lambda>codec. ''ab''" gzip_only True]
  by (simp add: slice_read_def detect_compression_def gzip_only_def)

end
