(* ===== verification/Filter_Specs.thy ===== *)
theory Filter_Specs
  imports Plan
begin

text \<open>
  The plan a Python caller describes (\<open>plan_kwargs.rs\<close>, \<open>py_observer.rs\<close> of rypipe-python): filter
  specs, nested dictionaries and lists, become predicate trees, and the keyword arguments an
  execution plan. Python objects are a datatype of the values the code tells apart; dictionaries
  keep their insertion order, and \<open>PySeq\<close> is any sequence but a list or a string (a tuple). Error messages are shortened to their fixed part.
\<close>

section \<open>Python objects\<close>

datatype py =
    PyNone
  | PyBool bool
  | PyInt int
  | PyFloat f64
  | PyStr string
  | PyList "py list"
  | PySeq "py list"
  | PyDict "(string \<times> py) list"
  | PyCallable nat
  | PyOther

datatype py_error =
    Plan_err string | Type_err string | Overflow_err string | Value_err string | Parse_err string | Memory_err
  | Merge_err string | Parser_err string | Io_err string | Exception_err string

type_synonym 'a py_result = "py_error + 'a"

fun and_then :: "'a py_result \<Rightarrow> ('a \<Rightarrow> 'b py_result) \<Rightarrow> 'b py_result" where
  "and_then (Inl e) f = Inl e"
| "and_then (Inr x) f = f x"

lemma and_then_Inr: "and_then r f = Inr y \<longleftrightarrow> (\<exists>x. r = Inr x \<and> f x = Inr y)"
  by (cases r) auto

text \<open>PyO3's \<open>extract\<close> for the types the parser asks for.\<close>

definition extract_string :: "py \<Rightarrow> string py_result" where
  "extract_string v = (case v of PyStr s \<Rightarrow> Inr s | _ \<Rightarrow> Inl (Type_err ''expected str''))"

definition extract_bool :: "py \<Rightarrow> bool py_result" where
  "extract_bool v = (case v of PyBool b \<Rightarrow> Inr b | _ \<Rightarrow> Inl (Type_err ''expected bool''))"

definition extract_f64 :: "py \<Rightarrow> f64 py_result" where
  "extract_f64 v =
     (case v of
        PyFloat x \<Rightarrow> Inr x
      | PyBool b \<Rightarrow> Inr (f64_of_int (if b then 1 else 0))
      | PyInt n \<Rightarrow> (case f64_of_int n of Infinity _ \<Rightarrow> Inl (Overflow_err ''int too large to convert to float'') | x \<Rightarrow> Inr x)
      | _ \<Rightarrow> Inl (Type_err ''must be real number''))"

fun extract_all :: "(py \<Rightarrow> 'a py_result) \<Rightarrow> py list \<Rightarrow> 'a list py_result" where
  "extract_all f [] = Inr []"
| "extract_all f (v # vs) = and_then (f v) (\<lambda>x. and_then (extract_all f vs) (\<lambda>xs. Inr (x # xs)))"

text \<open>A \<open>Vec\<close> is extracted from any sequence but a string.\<close>

definition sequence_items :: "py \<Rightarrow> py list option" where
  "sequence_items v = (case v of PyList vs \<Rightarrow> Some vs | PySeq vs \<Rightarrow> Some vs | _ \<Rightarrow> None)"

definition extract_strings :: "py \<Rightarrow> string list py_result" where
  "extract_strings v =
     (case sequence_items v of Some vs \<Rightarrow> extract_all extract_string vs | None \<Rightarrow> Inl (Type_err ''expected a sequence''))"

type_synonym pydict = "(string \<times> py) list"

definition required :: "pydict \<Rightarrow> string \<Rightarrow> string \<Rightarrow> py py_result" where
  "required d key msg = (case map_of d key of None \<Rightarrow> Inl (Plan_err msg) | Some v \<Rightarrow> Inr v)"

definition required_str :: "pydict \<Rightarrow> string \<Rightarrow> string \<Rightarrow> string py_result" where
  "required_str d key msg = and_then (required d key msg) extract_string"

definition has_key :: "pydict \<Rightarrow> string \<Rightarrow> bool" where
  "has_key d key \<longleftrightarrow> map_of d key \<noteq> None"

definition or_plan_err :: "'a option \<Rightarrow> string \<Rightarrow> 'a py_result" where
  "or_plan_err r msg = (case r of None \<Rightarrow> Inl (Plan_err msg) | Some x \<Rightarrow> Inr x)"

definition field_key :: string where "field_key = ''field''"

section \<open>Leaves\<close>

definition leaf_arith :: "pydict \<Rightarrow> string \<Rightarrow> py \<Rightarrow> filter_predicate py_result" where
  "leaf_arith d op item =
     and_then (extract_string item) (\<lambda>a.
     and_then (or_plan_err (arith_op_from_str a) ''unsupported arithmetic op'') (\<lambda>arith.
     and_then (required_str d field_key ''arithmetic filter requires field'') (\<lambda>field.
     and_then (and_then (required d ''arith_value'' ''arithmetic filter requires arith_value'') extract_f64) (\<lambda>av.
     and_then (required_str d ''value'' ''arithmetic filter requires value'') (\<lambda>cmp_value.
     and_then (or_plan_err (compare_op_from_str op) ''unsupported compare op'') (\<lambda>cmp.
       Inr (ArithmeticCompare field arith av cmp cmp_value)))))))"

definition leaf_compare :: "pydict \<Rightarrow> string \<Rightarrow> filter_predicate py_result" where
  "leaf_compare d op =
     and_then (required_str d ''field_a'' ''filter field_a key missing'') (\<lambda>a.
     and_then (required_str d ''field_b'' ''filter field_b key missing'') (\<lambda>b.
     and_then (or_plan_err (compare_op_from_str op) ''unsupported compare op'') (\<lambda>cop. Inr (Compare a cop b))))"

text \<open>\<open>cmp_op\<close> of the dictionary, or a default.\<close>

definition cmp_op_or :: "pydict \<Rightarrow> string \<Rightarrow> compare_op py_result" where
  "cmp_op_or d fallback =
     and_then (case map_of d ''cmp_op'' of Some cmp \<Rightarrow> extract_string cmp | None \<Rightarrow> Inr fallback) (\<lambda>s.
       or_plan_err (compare_op_from_str s) ''unsupported compare op'')"

definition leaf_replace :: "pydict \<Rightarrow> string \<Rightarrow> filter_predicate py_result" where
  "leaf_replace d op =
     and_then (required_str d field_key ''replace filter field key missing'') (\<lambda>field.
     and_then (required_str d ''old'' ''replace filter old key missing'') (\<lambda>old.
     and_then (required_str d ''new'' ''replace filter new key missing'') (\<lambda>new.
       if old = [] then Inl (Plan_err ''replace filter old must not be empty'')
       else
         and_then (required_str d ''value'' ''replace filter must include value key'') (\<lambda>value.
         and_then (cmp_op_or d op) (\<lambda>cop. Inr (Replace field old new cop value))))))"

definition leaf_values :: "pydict \<Rightarrow> string \<Rightarrow> filter_predicate py_result" where
  "leaf_values d op =
     and_then (required_str d field_key ''filter field key missing'') (\<lambda>field.
     and_then (and_then (required d ''values'' ''filter values key missing'') extract_strings) (\<lambda>values.
       if 100000 < length values then Inl (Plan_err ''values list too large'')
       else if op = ''in'' then Inr (In field values)
       else if op = ''not_in'' then Inr (NotIn field values)
       else Inl (Plan_err ''unsupported collection op'')))"

definition leaf_null :: "pydict \<Rightarrow> filter_predicate py_result" where
  "leaf_null d = and_then (required_str d field_key ''is_null filter must include field key'') (\<lambda>field. Inr (IsNull field))"

text \<open>Whether a pattern compiles within its size limit is the regex crate's answer, a parameter.\<close>

definition leaf_regex :: "(string \<Rightarrow> bool) \<Rightarrow> pydict \<Rightarrow> filter_predicate py_result" where
  "leaf_regex compiles d =
     and_then (required_str d field_key ''regex filter must include field key'') (\<lambda>field.
     and_then (required_str d ''value'' ''regex filter must include value key'') (\<lambda>pattern.
       if compiles pattern then Inr (Regex field pattern) else Inl (Plan_err ''invalid regex in filter'')))"

definition leaf_is_type :: "pydict \<Rightarrow> filter_predicate py_result" where
  "leaf_is_type d =
     and_then (required_str d field_key ''is_type filter must include field key'') (\<lambda>field.
     and_then (required_str d ''value'' ''is_type filter must include value key'') (\<lambda>t.
       case field_type_from_str t of
         Inl _ \<Rightarrow> Inl (Plan_err ''unknown field type in is_type filter'')
       | Inr ft \<Rightarrow> Inr (IsType field ft)))"

definition leaf_constant :: "pydict \<Rightarrow> string \<Rightarrow> filter_predicate py_result" where
  "leaf_constant d op =
     and_then (required_str d field_key ''filter must include field key'') (\<lambda>field.
     and_then (required_str d ''value'' ''filter must include value key'') (\<lambda>value.
       if op = ''starts_with'' then Inr (StartsWith field value)
       else if op = ''ends_with'' then Inr (EndsWith field value)
       else if op = ''contains'' then Inr (Contains field value)
       else if op \<in> {''strip'', ''lstrip'', ''rstrip'', ''lower'', ''upper''} then
         and_then (cmp_op_or d ''=='') (\<lambda>cop.
           Inr (if op = ''strip'' then Strip field cop value Both
                else if op = ''lstrip'' then Strip field cop value Start
                else if op = ''rstrip'' then Strip field cop value End
                else if op = ''lower'' then Lower field cop value
                else Upper field cop value))
       else if op = ''length'' then and_then (cmp_op_or d ''>'') (\<lambda>cop. Inr (Length field cop value))
       else and_then (or_plan_err (compare_op_from_str op) ''unsupported filter op'') (\<lambda>cop. Inr (CompareLiteral field cop value))))"

definition parse_leaf_spec :: "(string \<Rightarrow> bool) \<Rightarrow> pydict \<Rightarrow> filter_predicate py_result" where
  "parse_leaf_spec compiles d =
     (if has_key d ''always''
      then and_then (and_then (required d ''always'' ''filter always key missing'') extract_bool) (\<lambda>b. Inr (Always b))
      else if has_key d ''not_field''
      then and_then (required_str d ''not_field'' ''filter not_field key missing'') (\<lambda>field. Inr (NotField field))
      else
        and_then (required_str d ''op'' ''filter must include op key'') (\<lambda>op.
          case map_of d ''arith_op'' of
            Some item \<Rightarrow> leaf_arith d op item
          | None \<Rightarrow>
              if has_key d ''field_a'' \<and> has_key d ''field_b'' then leaf_compare d op
              else if has_key d ''old'' \<and> has_key d ''new'' then leaf_replace d op
              else if has_key d ''values'' then leaf_values d op
              else if op = ''is_null'' then leaf_null d
              else if op = ''regex'' then leaf_regex compiles d
              else if op = ''is_type'' then leaf_is_type d
              else leaf_constant d op))"

section \<open>Trees\<close>

definition MAX_PREDICATE_DEPTH :: nat where "MAX_PREDICATE_DEPTH = 128"

fun combine_rest :: "(filter_predicate \<Rightarrow> filter_predicate \<Rightarrow> filter_predicate) \<Rightarrow> (py \<Rightarrow> filter_predicate py_result) \<Rightarrow>
    filter_predicate \<Rightarrow> py list \<Rightarrow> filter_predicate py_result" where
  "combine_rest combiner parse acc [] = Inr acc"
| "combine_rest combiner parse acc (spec # specs) = and_then (parse spec) (\<lambda>p. combine_rest combiner parse (combiner acc p) specs)"

definition combine_list :: "(py \<Rightarrow> filter_predicate py_result) \<Rightarrow> py \<Rightarrow>
    (filter_predicate \<Rightarrow> filter_predicate \<Rightarrow> filter_predicate) \<Rightarrow> filter_predicate py_result" where
  "combine_list parse item combiner =
     (case sequence_items item of
        Some [] \<Rightarrow> Inl (Plan_err ''filter requires at least one sub-filter'')
      | Some (first # specs) \<Rightarrow> and_then (parse first) (\<lambda>acc. combine_rest combiner parse acc specs)
      | None \<Rightarrow> Inl (Plan_err ''filter expects a list of filter specs''))"

text \<open>The first number is how many levels are left: the limit less the source's \<open>depth\<close>.\<close>

primrec parse_filter_spec_depth :: "(string \<Rightarrow> bool) \<Rightarrow> nat \<Rightarrow> py \<Rightarrow> filter_predicate py_result" where
  "parse_filter_spec_depth compiles 0 = (\<lambda>spec. Inl (Plan_err ''filter spec nesting exceeds maximum depth''))"
| "parse_filter_spec_depth compiles (Suc n) = (\<lambda>spec.
     case spec of
       PyDict d \<Rightarrow>
         (case map_of d ''and'' of
            Some item \<Rightarrow> combine_list (parse_filter_spec_depth compiles n) item And
          | None \<Rightarrow>
         (case map_of d ''or'' of
            Some item \<Rightarrow> combine_list (parse_filter_spec_depth compiles n) item Or
          | None \<Rightarrow>
         (case map_of d ''not'' of
            Some item \<Rightarrow> and_then (parse_filter_spec_depth compiles n item) (\<lambda>p. Inr (Not p))
          | None \<Rightarrow> parse_leaf_spec compiles d)))
     | _ \<Rightarrow> Inl (Plan_err ''filter spec must be a dict''))"

definition parse_filter_spec :: "(string \<Rightarrow> bool) \<Rightarrow> py \<Rightarrow> filter_predicate py_result" where
  "parse_filter_spec compiles spec = parse_filter_spec_depth compiles MAX_PREDICATE_DEPTH spec"

section \<open>Observers\<close>

record py_observer =
  on_begin_row :: "py option"
  on_put_field :: "py option"
  on_row_accepted :: "py option"
  on_row_rejected :: "py option"
  on_chunk_finished :: "py option"

definition is_callable :: "py \<Rightarrow> bool" where
  "is_callable v = (case v of PyCallable _ \<Rightarrow> True | _ \<Rightarrow> False)"

fun observer_hooks :: "pydict \<Rightarrow> py_observer \<Rightarrow> py_observer py_result" where
  "observer_hooks [] obs = Inr obs"
| "observer_hooks ((key, v) # d) obs =
     (if \<not> is_callable v then Inl (Plan_err ''observer hook must be callable'')
      else if key = ''on_begin_row'' then observer_hooks d (obs\<lparr>on_begin_row := Some v\<rparr>)
      else if key = ''on_put_field'' then observer_hooks d (obs\<lparr>on_put_field := Some v\<rparr>)
      else if key = ''on_row_accepted'' then observer_hooks d (obs\<lparr>on_row_accepted := Some v\<rparr>)
      else if key = ''on_row_rejected'' then observer_hooks d (obs\<lparr>on_row_rejected := Some v\<rparr>)
      else if key = ''on_chunk_finished'' then observer_hooks d (obs\<lparr>on_chunk_finished := Some v\<rparr>)
      else Inl (Plan_err ''unknown observer hook''))"

definition observer_from_dict :: "pydict \<Rightarrow> py_observer py_result" where
  "observer_from_dict d = observer_hooks d
     \<lparr>on_begin_row = None, on_put_field = None, on_row_accepted = None, on_row_rejected = None, on_chunk_finished = None\<rparr>"

section \<open>Keyword arguments\<close>

record plan_kwargs =
  kw_field_mapping :: "(string \<times> string) list option"
  kw_drop_fields :: "string list option"
  kw_filter :: "py option"
  kw_field_types :: "(string \<times> string) list option"
  kw_dictionary_columns :: "string list option"
  kw_schema :: "string list option"
  kw_auto_dict :: bool
  kw_auto_dict_threshold :: "f64 option"
  kw_auto_dict_max_size :: "nat option"
  kw_strict_types :: bool
  kw_max_split_chunks :: "nat option"
  kw_min_chunk_bytes :: "nat option"
  kw_observer :: "py option"

text \<open>\<open>(0.0..=1.0).contains(&t)\<close>: false for NaN.\<close>

definition unit_interval :: "f64 \<Rightarrow> bool" where
  "unit_interval t \<longleftrightarrow> f64_le (f64_of_int 0) t \<and> f64_le t (f64_of_int 1)"

definition guard_plan :: "bool \<Rightarrow> string \<Rightarrow> unit py_result" where
  "guard_plan ok msg = (if ok then Inr () else Inl (Plan_err msg))"

fun insert_types :: "(string \<times> string) list \<Rightarrow> execution_plan \<Rightarrow> execution_plan py_result" where
  "insert_types [] p = Inr p"
| "insert_types ((name, t) # ts) p =
     (case field_type_from_str t of
        Inl _ \<Rightarrow> Inl (Plan_err ''unknown field type'')
      | Inr ft \<Rightarrow> insert_types ts (p\<lparr>field_types := AList.update name ft (field_types p)\<rparr>))"

definition get_or :: "'a option \<Rightarrow> 'a \<Rightarrow> 'a" where
  "get_or x fallback = (case x of None \<Rightarrow> fallback | Some y \<Rightarrow> y)"

definition check_observer :: "py option \<Rightarrow> bool py_result" where
  "check_observer obs =
     (case obs of
        None \<Rightarrow> Inr False
      | Some (PyDict d) \<Rightarrow> and_then (observer_from_dict d) (\<lambda>_. Inr True)
      | Some _ \<Rightarrow> Inl (Plan_err ''observer must be a dict''))"

definition kwargs_base :: "plan_kwargs \<Rightarrow> execution_plan" where
  "kwargs_base k =
     plan_new\<lparr>field_map := fold (\<lambda>(raw, out). AList.update raw out) (get_or (kw_field_mapping k) []) [],
       drop_fields := remdups (get_or (kw_drop_fields k) []), schema_order := get_or (kw_schema k) [],
       auto_dict := kw_auto_dict k, dict_threshold := kw_auto_dict_threshold k, dict_max_size := kw_auto_dict_max_size k,
       strict_types := kw_strict_types k, max_split_chunks := kw_max_split_chunks k, min_chunk_bytes := kw_min_chunk_bytes k\<rparr>"

definition execution_plan_from_kwargs :: "(string \<Rightarrow> bool) \<Rightarrow> plan_kwargs \<Rightarrow> execution_plan py_result" where
  "execution_plan_from_kwargs compiles k =
     and_then (guard_plan (case kw_auto_dict_threshold k of None \<Rightarrow> True | Some t \<Rightarrow> unit_interval t)
            ''auto_dict_threshold must be between 0.0 and 1.0'') (\<lambda>_.
     and_then (guard_plan (kw_auto_dict_max_size k \<noteq> Some 0) ''auto_dict_max_size must be >= 1'') (\<lambda>_.
     and_then (guard_plan (kw_max_split_chunks k \<noteq> Some 0) ''max_split_chunks must be >= 1'') (\<lambda>_.
     and_then (guard_plan (kw_min_chunk_bytes k \<noteq> Some 0) ''min_chunk_bytes must be >= 1'') (\<lambda>_.
     and_then (check_observer (kw_observer k)) (\<lambda>obs.
     and_then (insert_types (get_or (kw_field_types k) []) ((kwargs_base k)\<lparr>observer := obs\<rparr>)) (\<lambda>p.
     and_then (case kw_filter k of None \<Rightarrow> Inr None | Some spec \<Rightarrow> and_then (parse_filter_spec compiles spec) (\<lambda>f. Inr (Some f))) (\<lambda>f.
       Inr (p\<lparr>dictionary_columns := remdups (get_or (kw_dictionary_columns k) []), plan_filter := f\<rparr>))))))))"

end
