(* ===== verification/Filter_Spec_Laws.thy ===== *)
theory Filter_Spec_Laws
  imports Filter_Specs
begin

text \<open>
  What the parsing of filter specs and keyword arguments promises: a predicate written as a spec
  parses back to itself, every accepted predicate and plan keeps the bounds the checks stand for,
  and the limit on nesting does not limit the depth of the tree.
\<close>

section \<open>Type names\<close>

fun unit_text :: "time_unit \<Rightarrow> string" where
  "unit_text Second = ''s''" | "unit_text Millisecond = ''ms''" | "unit_text Microsecond = ''us''" | "unit_text Nanosecond = ''ns''"

fun type_text :: "field_type \<Rightarrow> string" where
  "type_text FT_String = ''string''"
| "type_text FT_Int64 = ''int64''"
| "type_text FT_Float64 = ''float64''"
| "type_text FT_Boolean = ''bool''"
| "type_text FT_Dictionary = ''dictionary''"
| "type_text FT_Date32 = ''date32''"
| "type_text (FT_Timestamp u None) = ''timestamp['' @ unit_text u @ '']''"
| "type_text (FT_Timestamp u (Some fmt)) = ''timestamp['' @ unit_text u @ '',format='' @ fmt @ '']''"
| "type_text (FT_Decimal128 n) = ''decimal128('' @ nat_to_string n @ '')''"

definition type_ok :: "field_type \<Rightarrow> bool" where
  "type_ok t = (case t of FT_Timestamp _ (Some fmt) \<Rightarrow> fmt \<noteq> [] | FT_Decimal128 n \<Rightarrow> n \<le> 38 | _ \<Rightarrow> True)"

lemma strip_prefix_Cons [simp]: "strip_prefix (c # p) (d # s) = (if c = d then strip_prefix p s else None)"
  "strip_prefix [] s = Some s"
  by (auto simp: strip_prefix_def starts_with_def)

lemma starts_with_Cons [simp]: "starts_with (d # s) (c # p) \<longleftrightarrow> d = c \<and> starts_with s p" "starts_with s []"
  by (auto simp: starts_with_def)

lemma strip_suffix_snoc: "strip_suffix [c] (s @ [c]) = Some s"
  by (simp add: strip_suffix_Some)

lemma split_once_free: "c \<notin> set a \<Longrightarrow> split_once c (a @ c # b) = Some (a, b)" "c \<notin> set a \<Longrightarrow> split_once c a = None"
  by (simp_all add: split_once_None)

lemma parse_u8_text: "n \<le> 38 \<Longrightarrow> parse_u8 (nat_to_string n) = Some n"
proof -
  assume n: "n \<le> 38"
  obtain c r where s: "nat_to_string n = c # r" using nat_to_string_nonempty [of n] by (cases "nat_to_string n") auto
  then have "c \<noteq> CHR ''+''" using nat_to_string_digits [of n] by auto
  with s n digits_val_nat_to_string [of n] nat_to_string_digits [of n] show ?thesis by (simp add: parse_u8_def)
qed

lemma unit_text_free: "CHR '','' \<notin> set (unit_text u)" "parse_unit (unit_text u) = Some u"
  "strip_prefix ''format='' (unit_text u @ s) = None"
  by (cases u; simp add: parse_unit_def micro_us_def)+

lemma decimal_text: "field_type_from_str (''decimal128('' @ s @ '')'') =
    (case parse_u8 s of None \<Rightarrow> Inl (''invalid decimal128 scale: '' @ s)
     | Some scale \<Rightarrow> if 38 < scale then Inl (''decimal128 scale exceeds 38: '' @ nat_to_string scale) else Inr (FT_Decimal128 scale))"
  by (simp add: field_type_from_str_def strip_suffix_snoc)

lemma timestamp_text: "parse_timestamp_spec (''timestamp['' @ s) = Some t \<Longrightarrow> field_type_from_str (''timestamp['' @ s) = Inr t"
  by (simp add: field_type_from_str_def)

lemma type_text_parses: "type_ok t \<Longrightarrow> field_type_from_str (type_text t) = Inr t"
proof (cases t)
  case (FT_Timestamp u fmt)
  assume ok: "type_ok t"
  show ?thesis
  proof (cases fmt)
    case None
    have "strip_prefix ''format='' (unit_text u) = None" using unit_text_free(3) [of u "[]"] by simp
    with FT_Timestamp None show ?thesis
      using timestamp_text [of "unit_text u @ '']''" t] unit_text_free [of u]
      by (simp add: parse_timestamp_spec_def strip_suffix_snoc split_once_free)
  next
    case (Some f)
    have "type_text t = ''timestamp['' @ (unit_text u @ CHR '','' # ''format='' @ f) @ '']''" using FT_Timestamp Some by simp
    moreover have "strip_suffix '']'' ((unit_text u @ CHR '','' # ''format='' @ f) @ '']'') = Some (unit_text u @ CHR '','' # ''format='' @ f)"
      by (rule strip_suffix_snoc)
    ultimately show ?thesis
      using timestamp_text [of "(unit_text u @ CHR '','' # ''format='' @ f) @ '']''" t] unit_text_free [of u] FT_Timestamp Some ok
      by (simp add: parse_timestamp_spec_def split_once_free type_ok_def)
  qed
next
  case (FT_Decimal128 n)
  moreover assume "type_ok t"
  ultimately show ?thesis using decimal_text [of "nat_to_string n"] parse_u8_text [of n] by (simp add: type_ok_def)
qed (simp_all add: field_type_from_str_def)

lemma parsed_type_ok: "field_type_from_str s = Inr t \<Longrightarrow> type_ok t"
  by (auto simp: field_type_from_str_def type_ok_def parse_timestamp_spec_def
      split: if_splits option.splits prod.splits)

section \<open>Writing a spec\<close>

fun op_text :: "compare_op \<Rightarrow> string" where
  "op_text Gt = ''>''" | "op_text Lt = ''<''" | "op_text Ge = ''>=''" | "op_text Le = ''<=''" | "op_text Eq = ''==''" | "op_text Ne = ''!=''"

fun arith_text :: "arith_op \<Rightarrow> string" where
  "arith_text Add = ''+''" | "arith_text Sub = ''-''" | "arith_text Mul = ''*''" | "arith_text Div = ''/''"

fun trim_text :: "trim_mode \<Rightarrow> string" where
  "trim_text Both = ''strip''" | "trim_text Start = ''lstrip''" | "trim_text End = ''rstrip''"

lemma op_text_parses [simp]: "compare_op_from_str (op_text op) = Some op"
  by (cases op) (simp_all add: compare_op_from_str_def)

lemma arith_text_parses [simp]: "arith_op_from_str (arith_text op) = Some op"
  by (cases op) (simp_all add: arith_op_from_str_def)

definition leaf :: "string \<Rightarrow> string \<Rightarrow> (string \<times> py) list \<Rightarrow> py" where
  "leaf f op rest = PyDict ((field_key, PyStr f) # (''op'', PyStr op) # rest)"

fun spec_of :: "filter_predicate \<Rightarrow> py" where
  "spec_of (Compare a op b) = PyDict [(''field_a'', PyStr a), (''op'', PyStr (op_text op)), (''field_b'', PyStr b)]"
| "spec_of (CompareLiteral f op v) = leaf f (op_text op) [(''value'', PyStr v)]"
| "spec_of (StartsWith f v) = leaf f ''starts_with'' [(''value'', PyStr v)]"
| "spec_of (EndsWith f v) = leaf f ''ends_with'' [(''value'', PyStr v)]"
| "spec_of (Contains f v) = leaf f ''contains'' [(''value'', PyStr v)]"
| "spec_of (In f vs) = leaf f ''in'' [(''values'', PyList (map PyStr vs))]"
| "spec_of (NotIn f vs) = leaf f ''not_in'' [(''values'', PyList (map PyStr vs))]"
| "spec_of (Always b) = PyDict [(''always'', PyBool b)]"
| "spec_of (NotField f) = PyDict [(''not_field'', PyStr f)]"
| "spec_of (ArithmeticCompare f a x op v) =
     leaf f (op_text op) [(''arith_op'', PyStr (arith_text a)), (''arith_value'', PyFloat x), (''value'', PyStr v)]"
| "spec_of (Strip f op v m) = leaf f (trim_text m) [(''cmp_op'', PyStr (op_text op)), (''value'', PyStr v)]"
| "spec_of (Lower f op v) = leaf f ''lower'' [(''cmp_op'', PyStr (op_text op)), (''value'', PyStr v)]"
| "spec_of (Upper f op v) = leaf f ''upper'' [(''cmp_op'', PyStr (op_text op)), (''value'', PyStr v)]"
| "spec_of (Replace f old new op v) = leaf f (op_text op) [(''old'', PyStr old), (''new'', PyStr new), (''value'', PyStr v)]"
| "spec_of (Length f op v) = leaf f ''length'' [(''cmp_op'', PyStr (op_text op)), (''value'', PyStr v)]"
| "spec_of (IsNull f) = leaf f ''is_null'' []"
| "spec_of (IsType f t) = leaf f ''is_type'' [(''value'', PyStr (type_text t))]"
| "spec_of (Regex f p) = leaf f ''regex'' [(''value'', PyStr p)]"
| "spec_of (And p q) = PyDict [(''and'', PyList [spec_of p, spec_of q])]"
| "spec_of (Or p q) = PyDict [(''or'', PyList [spec_of p, spec_of q])]"
| "spec_of (Not p) = PyDict [(''not'', spec_of p)]"
| "spec_of _ = PyNone"

text \<open>What a predicate must be to come out of the parser.\<close>

fun spec_ok :: "(string \<Rightarrow> bool) \<Rightarrow> filter_predicate \<Rightarrow> bool" where
  "spec_ok R (Equal _ _) = False"
| "spec_ok R (NotEqual _ _) = False"
| "spec_ok R (In _ vs) = (length vs \<le> 100000)"
| "spec_ok R (NotIn _ vs) = (length vs \<le> 100000)"
| "spec_ok R (Replace _ old _ _ _) = (old \<noteq> [])"
| "spec_ok R (IsType _ t) = type_ok t"
| "spec_ok R (Regex _ p) = R p"
| "spec_ok R (And p q) = (spec_ok R p \<and> spec_ok R q)"
| "spec_ok R (Or p q) = (spec_ok R p \<and> spec_ok R q)"
| "spec_ok R (Not p) = spec_ok R p"
| "spec_ok R _ = True"

fun pred_depth :: "filter_predicate \<Rightarrow> nat" where
  "pred_depth (And p q) = Suc (max (pred_depth p) (pred_depth q))"
| "pred_depth (Or p q) = Suc (max (pred_depth p) (pred_depth q))"
| "pred_depth (Not p) = Suc (pred_depth p)"
| "pred_depth _ = 1"

lemma pred_depth_pos: "0 < pred_depth p"
  by (cases p) simp_all

lemma extract_strings_map [simp]: "extract_strings (PyList (map PyStr vs)) = Inr vs"
proof -
  have "extract_all extract_string (map PyStr vs) = Inr vs" by (induction vs) (simp_all add: extract_string_def)
  then show ?thesis by (simp add: extract_strings_def sequence_items_def)
qed

lemmas spec_defs = parse_leaf_spec_def leaf_def leaf_constant_def leaf_null_def leaf_values_def leaf_regex_def leaf_is_type_def
  leaf_replace_def leaf_compare_def leaf_arith_def required_def required_str_def has_key_def or_plan_err_def cmp_op_or_def
  field_key_def extract_string_def extract_bool_def extract_f64_def

lemma spec_of_parses: "spec_ok R p \<Longrightarrow> pred_depth p \<le> n \<Longrightarrow> parse_filter_spec_depth R n (spec_of p) = Inr p"
proof (induction p arbitrary: n)
  case (And p q)
  then obtain m where n: "n = Suc m" by (cases n) auto
  have "parse_filter_spec_depth R m (spec_of p) = Inr p" "parse_filter_spec_depth R m (spec_of q) = Inr q"
    using And n by auto
  with n show ?case by (simp add: combine_list_def sequence_items_def)
next
  case (Or p q)
  then obtain m where n: "n = Suc m" by (cases n) auto
  have "parse_filter_spec_depth R m (spec_of p) = Inr p" "parse_filter_spec_depth R m (spec_of q) = Inr q"
    using Or n by auto
  with n show ?case by (simp add: combine_list_def sequence_items_def)
next
  case (Not p)
  then obtain m where n: "n = Suc m" by (cases n) auto
  have "parse_filter_spec_depth R m (spec_of p) = Inr p" using Not n by auto
  with n show ?case by simp
next
  case (CompareLiteral f op v)
  then show ?case by (cases n; cases op) (simp_all add: spec_defs compare_op_from_str_def)
next
  case (Strip f op v m)
  then show ?case by (cases n; cases m) (simp_all add: spec_defs)
qed (case_tac n; simp add: spec_defs type_text_parses)+

text \<open>
  C31. A predicate written as a filter spec parses back to the same predicate, for every predicate the
  keyword arguments can describe and every nesting up to the limit of 128 levels.
\<close>

theorem filter_spec_roundtrip:
  assumes "spec_ok compiles p" "pred_depth p \<le> 128"
  shows "parse_filter_spec compiles (spec_of p) = Inr p"
  using spec_of_parses [OF assms] by (simp add: parse_filter_spec_def MAX_PREDICATE_DEPTH_def)

theorem filter_spec_roundtrip_witness:
  "parse_filter_spec (\<lambda>_. True) (spec_of (And (CompareLiteral ''a'' Ge ''1'') (Not (IsType ''b'' (FT_Decimal128 2))))) =
     Inr (And (CompareLiteral ''a'' Ge ''1'') (Not (IsType ''b'' (FT_Decimal128 2))))"
  using filter_spec_roundtrip [of "\<lambda>_. True" "And (CompareLiteral ''a'' Ge ''1'') (Not (IsType ''b'' (FT_Decimal128 2)))"]
  by (simp add: type_ok_def)

section \<open>What is accepted\<close>

lemma guarded: "guard_plan ok msg = Inr u \<longleftrightarrow> ok"
  by (simp add: guard_plan_def)

lemma cmp_or_err: "or_plan_err r msg = Inr x \<longleftrightarrow> r = Some x"
  by (auto simp: or_plan_err_def split: option.splits)

lemma leaves_ok:
  "leaf_arith d op item = Inr p \<Longrightarrow> spec_ok R p" "leaf_compare d op = Inr p \<Longrightarrow> spec_ok R p"
  "leaf_replace d op = Inr p \<Longrightarrow> spec_ok R p" "leaf_values d op = Inr p \<Longrightarrow> spec_ok R p"
  "leaf_null d = Inr p \<Longrightarrow> spec_ok R p" "leaf_regex R d = Inr p \<Longrightarrow> spec_ok R p"
  by (auto simp: leaf_arith_def leaf_compare_def leaf_replace_def leaf_values_def leaf_null_def leaf_regex_def
      and_then_Inr split: if_splits)

lemma leaf_is_type_ok: "leaf_is_type d = Inr p \<Longrightarrow> spec_ok R p"
proof -
  assume "leaf_is_type d = Inr p"
  then obtain f t where "(case field_type_from_str t of Inl _ \<Rightarrow> Inl (Plan_err ''unknown field type in is_type filter'')
       | Inr ft \<Rightarrow> Inr (IsType f ft)) = Inr p" by (auto simp: leaf_is_type_def and_then_Inr)
  then show ?thesis using parsed_type_ok by (cases "field_type_from_str t") auto
qed

lemma branch: "(if b then x else y) = Inr p \<Longrightarrow> (x = Inr p \<Longrightarrow> P) \<Longrightarrow> (y = Inr p \<Longrightarrow> P) \<Longrightarrow> P"
  by (cases b) auto

lemma spec_ok_if: "spec_ok R (if b then x else y) = (if b then spec_ok R x else spec_ok R y)"
  by simp

lemma leaf_constant_ok: "leaf_constant d op = Inr p \<Longrightarrow> spec_ok R p"
  unfolding leaf_constant_def and_then_Inr
  by (elim exE conjE branch) (simp only: sum.inject and_then_Inr; clarify?; simp only: spec_ok_if spec_ok.simps if_cancel)+

lemma leaf_spec_ok: "parse_leaf_spec R d = Inr p \<Longrightarrow> spec_ok R p"
proof -
  assume p: "parse_leaf_spec R d = Inr p"
  show ?thesis
  proof (cases "has_key d ''always'' \<or> has_key d ''not_field''")
    case True
    then show ?thesis using p by (auto simp: parse_leaf_spec_def and_then_Inr split: if_splits)
  next
    case False
    with p obtain op where "(case map_of d ''arith_op'' of
        Some item \<Rightarrow> leaf_arith d op item
      | None \<Rightarrow>
          if has_key d ''field_a'' \<and> has_key d ''field_b'' then leaf_compare d op
          else if has_key d ''old'' \<and> has_key d ''new'' then leaf_replace d op
          else if has_key d ''values'' then leaf_values d op
          else if op = ''is_null'' then leaf_null d
          else if op = ''regex'' then leaf_regex R d
          else if op = ''is_type'' then leaf_is_type d
          else leaf_constant d op) = Inr p"
      by (simp add: parse_leaf_spec_def and_then_Inr) (elim exE conjE, rule that)
    then show ?thesis
      by (simp split: option.splits if_splits) (auto dest: leaves_ok leaf_is_type_ok leaf_constant_ok)
  qed
qed

lemma combine_rest_ok:
  "(\<And>x q. P x = Inr q \<Longrightarrow> Q q) \<Longrightarrow> (\<And>a b. Q a \<Longrightarrow> Q b \<Longrightarrow> Q (C a b)) \<Longrightarrow> Q acc \<Longrightarrow> combine_rest C P acc specs = Inr p \<Longrightarrow> Q p"
proof (induction specs arbitrary: acc)
  case (Cons x specs)
  then obtain q where "P x = Inr q" "combine_rest C P (C acc q) specs = Inr p" by (auto simp: and_then_Inr)
  with Cons show ?case by blast
qed simp

lemma combine_list_ok:
  "(\<And>x q. P x = Inr q \<Longrightarrow> Q q) \<Longrightarrow> (\<And>a b. Q a \<Longrightarrow> Q b \<Longrightarrow> Q (C a b)) \<Longrightarrow> combine_list P item C = Inr p \<Longrightarrow> Q p"
proof -
  assume P: "\<And>x q. P x = Inr q \<Longrightarrow> Q q" and C: "\<And>a b. Q a \<Longrightarrow> Q b \<Longrightarrow> Q (C a b)" and r: "combine_list P item C = Inr p"
  from r obtain x xs acc where "P x = Inr acc" "combine_rest C P acc xs = Inr p"
    by (auto simp: combine_list_def and_then_Inr split: option.splits list.splits)
  with combine_rest_ok [of P Q C acc xs p] P C show ?thesis by blast
qed

lemma parsed_spec_ok: "parse_filter_spec_depth R n spec = Inr p \<Longrightarrow> spec_ok R p"
proof (induction n arbitrary: spec p)
  case (Suc n)
  have "spec_ok R p" if "combine_list (parse_filter_spec_depth R n) item And = Inr p" for item
    by (rule combine_list_ok [OF Suc.IH _ that]) simp_all
  moreover have "spec_ok R p" if "combine_list (parse_filter_spec_depth R n) item Or = Inr p" for item
    by (rule combine_list_ok [OF Suc.IH _ that]) simp_all
  ultimately show ?case using Suc
    by (auto simp: and_then_Inr leaf_spec_ok split: py.splits option.splits)
qed simp

lemma insert_types_ok:
  "insert_types ts p = Inr q \<Longrightarrow> \<forall>(n, t) \<in> set (field_types p). type_ok t \<Longrightarrow>
     (\<forall>(n, t) \<in> set (field_types q). type_ok t) \<and> q = p\<lparr>field_types := field_types q\<rparr>"
proof (induction ts arbitrary: p)
  case (Cons nt ts)
  obtain n t where nt: "nt = (n, t)" by force
  with Cons.prems(1) obtain ft where ft: "field_type_from_str t = Inr ft"
    "insert_types ts (p\<lparr>field_types := AList.update n ft (field_types p)\<rparr>) = Inr q" by (auto split: sum.splits)
  have "set (AList.update n ft m) \<subseteq> insert (n, ft) (set m)" for m :: "(string \<times> field_type) list"
    by (induction m) auto
  then have "\<forall>(n, t) \<in> set (AList.update n ft (field_types p)). type_ok t"
    using Cons.prems(2) parsed_type_ok [OF ft(1)] by fastforce
  with Cons.IH [OF ft(2)] show ?case by (metis (no_types, lifting) execution_plan.surjective execution_plan.update_convs(3) execution_plan.select_convs(3))
qed simp

lemma accepted_steps:
  "and_then (guard_plan a m) (\<lambda>_. and_then (guard_plan b m') (\<lambda>_. and_then (guard_plan c n) (\<lambda>_. and_then (guard_plan d n') (\<lambda>_.
     and_then r (\<lambda>obs. and_then (F obs) (\<lambda>q. and_then g (\<lambda>f. Inr (G q f)))))))) = Inr p \<Longrightarrow>
   a \<and> b \<and> c \<and> d \<and> (\<exists>obs q f. F obs = Inr q \<and> g = Inr f \<and> p = G q f)"
  by (auto simp: and_then_Inr guarded)

text \<open>The bounds a plan from the keyword arguments keeps.\<close>

definition plan_bounded :: "(string \<Rightarrow> bool) \<Rightarrow> execution_plan \<Rightarrow> bool" where
  "plan_bounded R p \<longleftrightarrow>
     (case dict_threshold p of None \<Rightarrow> True | Some t \<Rightarrow> t \<noteq> NaN \<and> unit_interval t) \<and>
     dict_max_size p \<noteq> Some 0 \<and> max_split_chunks p \<noteq> Some 0 \<and> min_chunk_bytes p \<noteq> Some 0 \<and>
     (\<forall>(n, t) \<in> set (field_types p). type_ok t) \<and> distinct (drop_fields p) \<and> distinct (dictionary_columns p) \<and>
     (case plan_filter p of None \<Rightarrow> True | Some f \<Rightarrow> spec_ok R f)"

text \<open>
  C32. Every plan the keyword arguments give is well formed: the threshold is a number between 0 and 1, no
  size is zero, decimals have at most 38 digits after the point, and the filter's leaves keep
  their bounds (patterns compile, nothing empty is replaced, lists of values are at most 100000 long).
\<close>

theorem accepted_plan_is_bounded:
  assumes "execution_plan_from_kwargs compiles k = Inr p"
  shows "plan_bounded compiles p"
proof -
  obtain obs q f where k:
    "(case kw_auto_dict_threshold k of None \<Rightarrow> True | Some t \<Rightarrow> unit_interval t)" "kw_auto_dict_max_size k \<noteq> Some 0"
    "kw_max_split_chunks k \<noteq> Some 0" "kw_min_chunk_bytes k \<noteq> Some 0"
    "insert_types (get_or (kw_field_types k) []) ((kwargs_base k)\<lparr>observer := obs\<rparr>) = Inr q"
    "(case kw_filter k of None \<Rightarrow> Inr None | Some spec \<Rightarrow> and_then (parse_filter_spec compiles spec) (\<lambda>f. Inr (Some f))) = Inr f"
    "p = q\<lparr>dictionary_columns := remdups (get_or (kw_dictionary_columns k) []), plan_filter := f\<rparr>"
    using accepted_steps [OF assms [unfolded execution_plan_from_kwargs_def]] by (elim conjE exE) (rule that)
  have q: "\<forall>(n, t) \<in> set (field_types q). type_ok t" "q = ((kwargs_base k)\<lparr>observer := obs\<rparr>)\<lparr>field_types := field_types q\<rparr>"
    using insert_types_ok [OF k(5)] by (auto simp: kwargs_base_def plan_new_def)
  have "dict_threshold q = kw_auto_dict_threshold k" "dict_max_size q = kw_auto_dict_max_size k"
    "max_split_chunks q = kw_max_split_chunks k" "min_chunk_bytes q = kw_min_chunk_bytes k" "distinct (drop_fields q)"
    by (subst q(2), simp add: kwargs_base_def)+
  moreover have "case f of None \<Rightarrow> True | Some g \<Rightarrow> spec_ok compiles g"
    using k(6) by (auto simp: and_then_Inr parse_filter_spec_def parsed_spec_ok split: option.splits)
  moreover have "unit_interval t \<Longrightarrow> t \<noteq> NaN" for t
    by (auto simp: unit_interval_def f64_le_def f64_ge_def f64_partial_cmp_None)
  ultimately show ?thesis using k q(1) by (auto simp: plan_bounded_def split: option.splits)
qed

theorem accepted_plan_is_bounded_witness:
  "\<exists>p. execution_plan_from_kwargs (\<lambda>_. True)
     \<lparr>kw_field_mapping = None, kw_drop_fields = Some [''x'', ''x''], kw_filter = Some (spec_of (IsNull ''a'')), kw_field_types = Some [(''a'', ''int64'')],
       kw_dictionary_columns = None, kw_schema = None, kw_auto_dict = True, kw_auto_dict_threshold = None,
       kw_auto_dict_max_size = Some 7, kw_strict_types = True, kw_max_split_chunks = Some 4, kw_min_chunk_bytes = None, kw_observer = None\<rparr> = Inr p \<and>
     plan_bounded (\<lambda>_. True) p \<and> drop_fields p = [''x'']"
proof -
  let ?k = "\<lparr>kw_field_mapping = None, kw_drop_fields = Some [''x'', ''x''], kw_filter = Some (spec_of (IsNull ''a'')), kw_field_types = Some [(''a'', ''int64'')],
       kw_dictionary_columns = None, kw_schema = None, kw_auto_dict = True, kw_auto_dict_threshold = None,
       kw_auto_dict_max_size = Some 7, kw_strict_types = True, kw_max_split_chunks = Some 4, kw_min_chunk_bytes = None, kw_observer = None\<rparr>"
  have "parse_filter_spec (\<lambda>_. True) (spec_of (IsNull ''a'')) = Inr (IsNull ''a'')"
    unfolding parse_filter_spec_def by (rule spec_of_parses) (simp_all add: MAX_PREDICATE_DEPTH_def)
  then obtain p where p: "execution_plan_from_kwargs (\<lambda>_. True) ?k = Inr p" "drop_fields p = [''x'']"
    by (auto simp: execution_plan_from_kwargs_def guard_plan_def check_observer_def get_or_def kwargs_base_def plan_new_def
        field_type_from_str_def simp del: spec_of.simps)
  with accepted_plan_is_bounded [OF p(1)] show ?thesis by blast
qed

text \<open>
  The limit on nesting bounds the recursion of the parser only: a list of \<open>n + 1\<close> leaves under one
  \<open>and\<close>, two levels of nesting, is accepted and becomes a tree of depth \<open>n + 1\<close>, for every \<open>n\<close>.
\<close>

theorem filter_depth_is_unbounded:
  "parse_filter_spec compiles (PyDict [(''and'', PyList (replicate (Suc n) (spec_of (IsNull f))))]) =
     Inr (((\<lambda>p. And p (IsNull f)) ^^ n) (IsNull f)) \<and>
   pred_depth (((\<lambda>p. And p (IsNull f)) ^^ n) (IsNull f)) = Suc n"
proof
  let ?P = "parse_filter_spec_depth compiles 127"
  have leaf: "?P (spec_of (IsNull f)) = Inr (IsNull f)" by (intro spec_of_parses) simp_all
  have "combine_rest And ?P acc (replicate n (spec_of (IsNull f))) = Inr (((\<lambda>p. And p (IsNull f)) ^^ n) acc)" for acc n
    using leaf by (induction n arbitrary: acc) (simp_all add: funpow_Suc_right del: spec_of.simps funpow.simps(2))
  moreover have "parse_filter_spec compiles (PyDict [(''and'', PyList xs)]) = combine_list ?P (PyList xs) And" for xs
  proof -
    have "MAX_PREDICATE_DEPTH = Suc 127" by (simp add: MAX_PREDICATE_DEPTH_def)
    from parse_filter_spec_depth.simps(2) [of compiles 127] this show ?thesis by (simp add: parse_filter_spec_def)
  qed
  ultimately show "parse_filter_spec compiles (PyDict [(''and'', PyList (replicate (Suc n) (spec_of (IsNull f))))]) =
     Inr (((\<lambda>p. And p (IsNull f)) ^^ n) (IsNull f))"
    using leaf by (simp add: combine_list_def sequence_items_def del: spec_of.simps)
  have "pred_depth (((\<lambda>p. And p (IsNull f)) ^^ n) acc) = n + pred_depth acc" for acc
    using pred_depth_pos [of acc] by (induction n) (auto simp: max_def)
  then show "pred_depth (((\<lambda>p. And p (IsNull f)) ^^ n) (IsNull f)) = Suc n" by simp
qed

end
