(* ===== verification/Consumers.thy ===== *)
theory Consumers
  imports Parallel_Laws
begin

text \<open>
  The consumer that collects the batches of a stream (\<open>consumer.rs\<close>): it takes every batch, and at
  the end gives all of them one schema, filling columns a batch lacks with nulls and decoding
  dictionaries where another batch has plain text. The merge of schemas and the casts of the
  arrow crate are parameters.
\<close>

section \<open>Collecting\<close>

type_synonym fields = "(string \<times> data_type) list"

definition batch_schema :: "record_batch \<Rightarrow> fields" where
  "batch_schema b = map (\<lambda>(n, a). (n, atype a)) b"

definition num_rows :: "record_batch \<Rightarrow> nat" where
  "num_rows b = (case b of [] \<Rightarrow> 0 | (_, a) # _ \<Rightarrow> length (acells a))"

definition collect_batch :: "record_batch list \<Rightarrow> record_batch \<Rightarrow> unit result" where
  "collect_batch taken b = Inr ()"

text \<open>One bit for plain text, one for dictionaries.\<close>

definition encoding_bit :: "data_type \<Rightarrow> nat" where
  "encoding_bit ty = (case ty of DT_Utf8 \<Rightarrow> 1 | DT_Dictionary \<Rightarrow> 2 | _ \<Rightarrow> 0)"

definition note_encoding :: "string \<times> data_type \<Rightarrow> (string, nat) hmap \<Rightarrow> (string, nat) hmap" where
  "note_encoding field m =
     (let (n, ty) = field; e = encoding_bit ty
      in if e = 0 then m else AList.update n ((case map_of m n of None \<Rightarrow> 0 | Some x \<Rightarrow> x) OR e) m)"

definition encodings :: "record_batch list \<Rightarrow> (string, nat) hmap" where
  "encodings bs = fold (\<lambda>b. fold note_encoding (batch_schema b)) bs []"

definition text_schema :: "(string, nat) hmap \<Rightarrow> record_batch \<Rightarrow> fields" where
  "text_schema enc b = map (\<lambda>(n, ty). (n, if map_of enc n = Some 3 then DT_Utf8 else ty)) (batch_schema b)"

text \<open>\<open>RecordBatch::try_new_with_options\<close> with a row count.\<close>

definition batch_with_rows :: "fields \<Rightarrow> arrow_array list \<Rightarrow> nat \<Rightarrow> record_batch result" where
  "batch_with_rows schema arrays rows =
     (if length arrays \<noteq> length schema then Inl (Arrow_error ''number of columns must match number of fields in schema'')
      else if \<not> list_all (\<lambda>a. length (acells a) = rows) arrays then Inl (Arrow_error ''all columns must have the specified row count'')
      else if map atype arrays \<noteq> map snd schema then Inl (Arrow_error ''column types must match schema types'')
      else Inr (zip (map fst schema) arrays))"

definition align_column :: "arrow_kernels \<Rightarrow> record_batch \<Rightarrow> string \<times> data_type \<Rightarrow> arrow_array result" where
  "align_column K b field =
     (let (n, ty) = field
      in case map_of b n of
           Some a \<Rightarrow> if atype a \<noteq> ty then cast_to K ty a else Inr a
         | None \<Rightarrow> Inr (null_array ty (num_rows b)))"

definition align_batch :: "arrow_kernels \<Rightarrow> fields \<Rightarrow> record_batch \<Rightarrow> record_batch result" where
  "align_batch K schema b =
     bind_result (collect_results (map (align_column K b) schema)) (\<lambda>columns. batch_with_rows schema columns (num_rows b))"

definition finish_collected :: "arrow_kernels \<Rightarrow> (fields list \<Rightarrow> fields result) \<Rightarrow> record_batch list \<Rightarrow> record_batch list result" where
  "finish_collected K M bs =
     (case bs of
        [] \<Rightarrow> Inr []
      | first # _ \<Rightarrow>
          if list_all (\<lambda>b. batch_schema b = batch_schema first) bs then Inr bs
          else bind_result (M (map (text_schema (encodings bs)) bs)) (\<lambda>schema. collect_results (map (align_batch K schema) bs)))"

section \<open>What the parameters promise\<close>

text \<open>Types that one column may have in different batches.\<close>

definition compatible :: "data_type \<Rightarrow> data_type \<Rightarrow> bool" where
  "compatible s t \<longleftrightarrow> s = t \<or> {s, t} \<subseteq> {DT_Utf8, DT_Dictionary}"

definition field_list :: "fields list \<Rightarrow> fields" where
  "field_list ss = concat ss"

text \<open>\<open>Schema::try_merge\<close>: fields of one name and one type are one field, in the order first seen.\<close>

definition merges_schemas :: "(fields list \<Rightarrow> fields result) \<Rightarrow> bool" where
  "merges_schemas M \<longleftrightarrow> (\<forall>ss t. (\<forall>(n, ty) \<in> set (concat ss). ty = t n) \<longrightarrow>
     M ss = Inr (map (\<lambda>n. (n, t n)) (first_seen (map fst (concat ss)))))"

text \<open>The cast of a dictionary to plain text keeps the cells.\<close>

definition decodes :: "arrow_kernels \<Rightarrow> bool" where
  "decodes K \<longleftrightarrow> (\<forall>a. atype a = DT_Dictionary \<longrightarrow> (\<exists>c. cast_to K DT_Utf8 a = Inr c \<and> atype c = DT_Utf8 \<and> acells c = acells a))"

definition batch_ok :: "record_batch \<Rightarrow> bool" where
  "batch_ok b \<longleftrightarrow> b \<noteq> [] \<and> distinct (map fst b) \<and> (\<forall>(n, a) \<in> set b. length (acells a) = num_rows b)"

text \<open>A column of a batch, null where the batch lacks it.\<close>

definition batch_column :: "string \<Rightarrow> record_batch \<Rightarrow> typed_value option list" where
  "batch_column n b = (case map_of b n of Some a \<Rightarrow> acells a | None \<Rightarrow> replicate (num_rows b) None)"

section \<open>The encodings seen\<close>

definition bits_of :: "data_type set \<Rightarrow> nat" where
  "bits_of T = (if DT_Utf8 \<in> T then 1 else 0) + (if DT_Dictionary \<in> T then 2 else 0)"

lemma bits_step: "bits_of T OR encoding_bit ty = bits_of (insert ty T)"
proof -
  have n: "(2::nat) OR 2 = 2" "(3::nat) OR 1 = 3" "(3::nat) OR 2 = 3" "(2::nat) OR 1 = 3" "(1::nat) OR 2 = 3" "(1::nat) OR 1 = 1"
    by (simp_all add: or_nat_def)
  show ?thesis
    by (cases ty) (use n in \<open>auto simp: bits_of_def encoding_bit_def numeral_2_eq_2 numeral_3_eq_3\<close>)
qed

lemma bits_of_3: "bits_of T = 3 \<longleftrightarrow> DT_Utf8 \<in> T \<and> DT_Dictionary \<in> T"
  by (auto simp: bits_of_def)

lemma note_encodings:
  "(case map_of (fold note_encoding fs m) n of None \<Rightarrow> 0 | Some x \<Rightarrow> x) =
     (case map_of m n of None \<Rightarrow> 0 | Some x \<Rightarrow> x) OR bits_of {ty. (n, ty) \<in> set fs}"
proof (induction fs arbitrary: m)
  case Nil
  then show ?case by (simp add: bits_of_def)
next
  case (Cons f fs)
  obtain k ty where f: "f = (k, ty)" by force
  have step: "(case map_of (note_encoding f m) n of None \<Rightarrow> 0 | Some x \<Rightarrow> x) =
      (case map_of m n of None \<Rightarrow> 0 | Some x \<Rightarrow> x) OR (if k = n then encoding_bit ty else 0)"
    by (simp add: note_encoding_def f Let_def)
  show ?case
  proof (cases "k = n")
    case True
    have "{t. (n, t) \<in> set (f # fs)} = insert ty {t. (n, t) \<in> set fs}" by (auto simp: f True)
    then have "bits_of {t. (n, t) \<in> set (f # fs)} = bits_of {t. (n, t) \<in> set fs} OR encoding_bit ty"
      by (simp only: bits_step)
    moreover have "(case map_of (note_encoding f m) n of None \<Rightarrow> 0 | Some x \<Rightarrow> x) =
        (case map_of m n of None \<Rightarrow> 0 | Some x \<Rightarrow> x) OR encoding_bit ty" using step True by simp
    ultimately show ?thesis by (simp only: fold_simps Cons or.assoc or.commute or.left_commute)
  next
    case False
    then have "{t. (n, t) \<in> set (f # fs)} = {t. (n, t) \<in> set fs}" by (auto simp: f)
    then show ?thesis using Cons [of "note_encoding f m"] step False by simp
  qed
qed

lemma fold_concat_map: "fold (\<lambda>b. fold f (g b)) bs m = fold f (concat (map g bs)) m"
  by (induction bs arbitrary: m) simp_all

definition types_in :: "record_batch list \<Rightarrow> string \<Rightarrow> data_type set" where
  "types_in bs n = {ty. (n, ty) \<in> set (concat (map batch_schema bs))}"

lemma encodings_3: "map_of (encodings bs) n = Some 3 \<longleftrightarrow> DT_Utf8 \<in> types_in bs n \<and> DT_Dictionary \<in> types_in bs n"
proof -
  have e: "(case map_of (encodings bs) n of None \<Rightarrow> 0 | Some x \<Rightarrow> x) = bits_of (types_in bs n)"
    using note_encodings [of "concat (map batch_schema bs)" "[]" n] by (simp add: encodings_def fold_concat_map types_in_def)
  show ?thesis unfolding bits_of_3 [symmetric] e [symmetric] by (auto split: option.splits)
qed

text \<open>The type a column gets.\<close>

definition aligned_type :: "record_batch list \<Rightarrow> string \<Rightarrow> data_type" where
  "aligned_type bs n =
     (if DT_Utf8 \<in> types_in bs n \<and> DT_Dictionary \<in> types_in bs n then DT_Utf8 else (THE ty. ty \<in> types_in bs n))"

lemma types_in_mem: "b \<in> set bs \<Longrightarrow> (n, a) \<in> set b \<Longrightarrow> atype a \<in> types_in bs n"
  by (force simp: types_in_def batch_schema_def)

definition batches_compatible :: "record_batch list \<Rightarrow> bool" where
  "batches_compatible bs \<longleftrightarrow> (\<forall>n. \<forall>s \<in> types_in bs n. \<forall>t \<in> types_in bs n. compatible s t)"

lemma aligned_type_cases:
  assumes "batches_compatible bs" "ty \<in> types_in bs n"
  shows "aligned_type bs n = ty \<or> ty = DT_Dictionary \<and> aligned_type bs n = DT_Utf8"
    "aligned_type bs n = (if map_of (encodings bs) n = Some 3 then DT_Utf8 else ty)"
proof -
  have eq: "aligned_type bs n = ty" if "\<not> (DT_Utf8 \<in> types_in bs n \<and> DT_Dictionary \<in> types_in bs n)"
  proof -
    have "types_in bs n = {ty}"
    proof (intro equalityI subsetI)
      fix s assume "s \<in> types_in bs n"
      with assms have "compatible s ty" by (simp add: batches_compatible_def)
      with that \<open>s \<in> types_in bs n\<close> assms(2) show "s \<in> {ty}" by (auto simp: compatible_def)
    qed (use assms(2) in simp)
    then show ?thesis using that by (auto simp: aligned_type_def)
  qed
  show "aligned_type bs n = (if map_of (encodings bs) n = Some 3 then DT_Utf8 else ty)"
    using eq by (auto simp: encodings_3 aligned_type_def)
  show "aligned_type bs n = ty \<or> ty = DT_Dictionary \<and> aligned_type bs n = DT_Utf8"
  proof (cases "DT_Utf8 \<in> types_in bs n \<and> DT_Dictionary \<in> types_in bs n")
    case True
    then have "ty \<in> {DT_Utf8, DT_Dictionary}"
      using assms unfolding batches_compatible_def compatible_def by auto
    with True show ?thesis by (auto simp: aligned_type_def)
  qed (use eq in blast)
qed

section \<open>One schema for all batches\<close>

lemma align_column_ok:
  assumes "batches_compatible bs" "decodes K" "b \<in> set bs" "batch_ok b"
  shows "\<exists>a. align_column K b (n, aligned_type bs n) = Inr a \<and> atype a = aligned_type bs n \<and> acells a = batch_column n b"
proof (cases "map_of b n")
  case (Some a)
  then have a: "(n, a) \<in> set b" by (rule map_of_SomeD)
  from aligned_type_cases(1) [OF assms(1) types_in_mem [OF assms(3) a]]
  show ?thesis
  proof
    assume "aligned_type bs n = atype a"
    with Some show ?thesis by (simp add: align_column_def batch_column_def)
  next
    assume d: "atype a = DT_Dictionary \<and> aligned_type bs n = DT_Utf8"
    with assms(2) obtain c where "cast_to K DT_Utf8 a = Inr c" "atype c = DT_Utf8" "acells c = acells a"
      unfolding decodes_def by blast
    with Some d show ?thesis by (simp add: align_column_def batch_column_def)
  qed
qed (simp add: align_column_def batch_column_def null_array_def)

lemma batch_column_length: "batch_ok b \<Longrightarrow> length (batch_column n b) = num_rows b"
  by (auto simp: batch_ok_def batch_column_def split: option.splits dest!: map_of_SomeD)

lemma align_batch_ok:
  assumes "batches_compatible bs" "decodes K" "b \<in> set bs" "batch_ok b" "distinct names"
  shows "\<exists>c. align_batch K (map (\<lambda>n. (n, aligned_type bs n)) names) b = Inr c \<and>
    batch_schema c = map (\<lambda>n. (n, aligned_type bs n)) names \<and>
    (\<forall>n \<in> set names. acells (the (map_of c n)) = batch_column n b)"
proof -
  obtain g where g: "align_column K b (n, aligned_type bs n) = Inr (g n) \<and> atype (g n) = aligned_type bs n \<and> acells (g n) = batch_column n b" for n
    using align_column_ok [OF assms(1-4)] by metis
  let ?fields = "map (\<lambda>n. (n, aligned_type bs n)) names"
  have "collect_results (map (align_column K b) ?fields) = Inr (map g names)"
    using g by (induction names) simp_all
  moreover have "zip names (map g names) = map (\<lambda>n. (n, g n)) names" by (induction names) simp_all
  then have "batch_with_rows ?fields (map g names) (num_rows b) = Inr (map (\<lambda>n. (n, g n)) names)"
    using g batch_column_length [OF assms(4)]
    by (auto simp: batch_with_rows_def list_all_iff comp_def zip_map_map zip_same_conv_map)
  moreover have "map_of (map (\<lambda>n. (n, g n)) names) n = Some (g n)" if "n \<in> set names" for n
    using that by (induction names) auto
  ultimately show ?thesis using g by (simp add: align_batch_def batch_schema_def comp_def)
qed

lemma same_schema_column:
  assumes "batch_schema b = batch_schema c" "n \<in> fst ` set c"
  shows "acells (the (map_of b n)) = batch_column n b"
proof -
  have "fst ` set b = fst ` set c"
    using arg_cong [OF assms(1), of "\<lambda>s. fst ` set s"] by (simp add: batch_schema_def image_image case_prod_unfold)
  then have "map_of b n \<noteq> None" using assms(2) by (simp add: map_of_eq_None_iff)
  then show ?thesis by (auto simp: batch_column_def)
qed

lemma finish_collected_ok:
  assumes "\<forall>b \<in> set bs. batch_ok b" "batches_compatible bs" "merges_schemas M" "decodes K"
  shows "\<exists>cs. finish_collected K M bs = Inr cs \<and> (\<forall>c \<in> set cs. \<forall>d \<in> set cs. batch_schema c = batch_schema d) \<and>
    list_all2 (\<lambda>b c. \<forall>n. (\<exists>d \<in> set bs. n \<in> fst ` set d) \<longrightarrow> acells (the (map_of c n)) = batch_column n b) bs cs"
proof (cases bs)
  case (Cons first rest)
  show ?thesis
  proof (cases "list_all (\<lambda>b. batch_schema b = batch_schema first) bs")
    case True
    then have "list_all2 (\<lambda>b c. \<forall>n. (\<exists>d \<in> set bs. n \<in> fst ` set d) \<longrightarrow> acells (the (map_of c n)) = batch_column n b) bs bs"
      by (intro list.rel_refl_strong allI impI, elim bexE, elim same_schema_column [rotated]) (simp add: list_all_iff)
    with True Cons show ?thesis by (auto simp: finish_collected_def list_all_iff)
  next
    case False
    define names where "names = first_seen (map fst (concat (map (text_schema (encodings bs)) bs)))"
    have "\<forall>(n, ty) \<in> set (concat (map (text_schema (encodings bs)) bs)). ty = aligned_type bs n"
      using aligned_type_cases(2) [OF assms(2) types_in_mem] by (fastforce simp: text_schema_def batch_schema_def)
    then have M: "M (map (text_schema (encodings bs)) bs) = Inr (map (\<lambda>n. (n, aligned_type bs n)) names)"
      using assms(3) unfolding merges_schemas_def names_def by blast
    have "distinct names" by (simp add: names_def)
    then have "\<forall>b \<in> set bs. \<exists>c. align_batch K (map (\<lambda>n. (n, aligned_type bs n)) names) b = Inr c \<and>
        batch_schema c = map (\<lambda>n. (n, aligned_type bs n)) names \<and> (\<forall>n \<in> set names. acells (the (map_of c n)) = batch_column n b)"
      using align_batch_ok [OF assms(2,4)] assms(1) by simp
    from collect_results_ok [OF this] obtain cs where cs:
      "collect_results (map (align_batch K (map (\<lambda>n. (n, aligned_type bs n)) names)) bs) = Inr cs"
      "list_all2 (\<lambda>b c. batch_schema c = map (\<lambda>n. (n, aligned_type bs n)) names \<and>
         (\<forall>n \<in> set names. acells (the (map_of c n)) = batch_column n b)) bs cs" by (elim exE conjE) (rule that)
    have fin: "finish_collected K M bs = Inr cs" using False M cs(1) Cons by (simp add: finish_collected_def)
    have "set names = (\<Union>d \<in> set bs. fst ` set d)"
      by (force simp: names_def text_schema_def batch_schema_def)
    then have "list_all2 (\<lambda>b c. \<forall>n. (\<exists>d \<in> set bs. n \<in> fst ` set d) \<longrightarrow> acells (the (map_of c n)) = batch_column n b) bs cs"
      using cs(2) by (auto elim!: list_all2_mono)
    moreover have "batch_schema c = map (\<lambda>n. (n, aligned_type bs n)) names" if "c \<in> set cs" for c
      using cs(2) that by (auto simp: list_all2_conv_all_nth in_set_conv_nth)
    ultimately show ?thesis using fin by auto
  qed
qed (simp add: finish_collected_def)

text \<open>
  C29. Collected batches end up with one schema and lose nothing: if columns of one name have one type,
  or are plain text here and a dictionary there, every batch keeps its rows, each column it had
  keeps its cells, and a column it lacked is null in all its rows.
\<close>

theorem collected_batches_align:
  assumes "\<forall>b \<in> set bs. batch_ok b" "batches_compatible bs" "merges_schemas M" "decodes K"
  shows "\<exists>cs. finish_collected K M bs = Inr cs \<and> (\<forall>c \<in> set cs. \<forall>d \<in> set cs. batch_schema c = batch_schema d) \<and>
    list_all2 (\<lambda>b c. \<forall>n. (\<exists>d \<in> set bs. n \<in> fst ` set d) \<longrightarrow> acells (the (map_of c n)) = batch_column n b) bs cs"
  using finish_collected_ok [OF assms] .

text \<open>Parameters for the examples.\<close>

definition first_fields :: "fields list \<Rightarrow> fields result" where
  "first_fields ss = Inr (map (\<lambda>n. (n, the (map_of (concat ss) n))) (first_seen (map fst (concat ss))))"

lemma first_fields_merges: "merges_schemas first_fields"
proof -
  have "the (map_of fs n) = t n" if "\<forall>(n, ty) \<in> set fs. ty = t n" "n \<in> fst ` set fs" for fs t and n :: string
    using that by (induction fs) auto
  then have "the (map_of (concat ss) n) = t n" if "\<forall>(n, ty) \<in> set (concat ss). ty = t n" "n \<in> fst ` set (concat ss)"
    for ss t and n :: string using that by blast
  then show ?thesis unfolding merges_schemas_def first_fields_def
    by (intro allI impI arg_cong [where f = Inr] list.map_cong0) (simp del: set_concat)
qed

definition decoding_kernels :: arrow_kernels where
  "decoding_kernels = idle_kernels\<lparr>cast_to := (\<lambda>ty a. Inr (a\<lparr>atype := ty\<rparr>))\<rparr>"

lemma decoding_kernels_decodes: "decodes decoding_kernels"
  by (simp add: decodes_def decoding_kernels_def)

theorem collected_batches_align_witness:
  "\<exists>c d. finish_collected decoding_kernels first_fields
       [[(''a'', \<lparr>atype = DT_Utf8, acells = [Some (TV_Str ''x'')]\<rparr>)],
        [(''a'', \<lparr>atype = DT_Dictionary, acells = [Some (TV_Str ''y'')]\<rparr>), (''b'', \<lparr>atype = DT_Int64, acells = [Some (TV_Int64 1)]\<rparr>)]] =
       Inr [c, d] \<and>
     acells (the (map_of c ''b'')) = [None] \<and> acells (the (map_of d ''a'')) = [Some (TV_Str ''y'')]"
proof -
  let ?bs = "[[(''a'', \<lparr>atype = DT_Utf8, acells = [Some (TV_Str ''x'')]\<rparr>)],
        [(''a'', \<lparr>atype = DT_Dictionary, acells = [Some (TV_Str ''y'')]\<rparr>), (''b'', \<lparr>atype = DT_Int64, acells = [Some (TV_Int64 1)]\<rparr>)]]"
  have "\<forall>b \<in> set ?bs. batch_ok b" by (simp add: batch_ok_def num_rows_def)
  moreover have "batches_compatible ?bs" by (auto simp: batches_compatible_def types_in_def batch_schema_def compatible_def)
  ultimately obtain cs where "finish_collected decoding_kernels first_fields ?bs = Inr cs"
    "list_all2 (\<lambda>b c. \<forall>n. (\<exists>d \<in> set ?bs. n \<in> fst ` set d) \<longrightarrow> acells (the (map_of c n)) = batch_column n b) ?bs cs"
    using collected_batches_align [OF _ _ first_fields_merges decoding_kernels_decodes] by blast
  then show ?thesis by (auto simp: list_all2_Cons1 batch_column_def num_rows_def)
qed

end
