(* ===== verification/Pipeline.thy ===== *)
theory Pipeline
  imports Consumers Spill_Laws
begin

text \<open>
  The entry points for bytes in memory (\<open>pipeline.rs\<close>, \<open>run_bytes\<close> of \<open>bounded.rs\<close>): one batch from
  one builder, one batch per parallel chunk, or the collected batches of a bounded stream. The
  last theorem states that the three give the same columns.
\<close>

section \<open>Entry points\<close>

definition read_bytes :: "env \<Rightarrow> splitter \<Rightarrow> chunk_parser \<Rightarrow> execution_plan \<Rightarrow> string \<Rightarrow> record_batch result option" where
  "read_bytes E S P p bytes =
     (let est = max (estimate_bytes_per_row S (take 65536 bytes)) 512
      in case validate P bytes of
           None \<Rightarrow> None
         | Some (Inl err) \<Rightarrow> Some (Inl err)
         | Some (Inr _) \<Rightarrow>
             (case parse_chunk P bytes (tb_with_plan (max (length bytes div est) 64) p) of
                None \<Rightarrow> None
              | Some (Inl err, _) \<Rightarrow> Some (Inl err)
              | Some (Inr _, t) \<Rightarrow> map_option fst (finish E t)))"

definition read_bytes_par ::
    "env \<Rightarrow> arrow_kernels \<Rightarrow> splitter \<Rightarrow> chunk_parser \<Rightarrow> execution_plan \<Rightarrow> string \<Rightarrow> nat \<Rightarrow> record_batch list result option" where
  "read_bytes_par E K S P p bytes num_chunks = parallel_parse E K S P bytes p num_chunks"

text \<open>\<open>BoundedExecutor::run_bytes\<close>: stream into the collecting consumer, then align what it has.\<close>

definition run_bytes ::
    "env \<Rightarrow> arrow_kernels \<Rightarrow> (fields list \<Rightarrow> fields result) \<Rightarrow> splitter \<Rightarrow> sink_parser \<Rightarrow> execution_plan \<Rightarrow> (record_batch \<Rightarrow> nat) \<Rightarrow>
     string \<Rightarrow> memory_budget \<Rightarrow> record_batch list result option" where
  "run_bytes E K M S P p sizes bytes b =
     (case run_slice_spill E P p b S sizes collect_batch bytes (ledger_new b) no_stats of
        None \<Rightarrow> None
      | Some (Inl err, _) \<Rightarrow> Some (Inl err)
      | Some (Inr _, s) \<Rightarrow> Some (finish_collected K M (case s of None \<Rightarrow> [] | Some s \<Rightarrow> taken s)))"

text \<open>The split cap of the executor is set and not used on this path.\<close>

definition read_bytes_stream ::
    "env \<Rightarrow> arrow_kernels \<Rightarrow> (fields list \<Rightarrow> fields result) \<Rightarrow> splitter \<Rightarrow> sink_parser \<Rightarrow> execution_plan \<Rightarrow> (record_batch \<Rightarrow> nat) \<Rightarrow>
     string \<Rightarrow> memory_budget \<Rightarrow> record_batch list result option" where
  "read_bytes_stream E K M S P p sizes bytes b = run_bytes E K M S P p sizes bytes b"

section \<open>One batch\<close>

text \<open>What a column of a batch holds.\<close>

definition column_cells_of :: "string \<Rightarrow> record_batch \<Rightarrow> typed_value option list" where
  "column_cells_of n b = acells (the (map_of b n))"

lemma batch_holds_named:
  "batch_holds p b rs \<Longrightarrow> schema_order p = [] \<Longrightarrow> r \<in> set rs \<Longrightarrow> r n \<noteq> None \<Longrightarrow> n \<in> fst ` set b"
  unfolding batch_holds_def by blast

lemma batch_holds_column:
  assumes "batch_holds p b rs" "n \<in> fst ` set b"
  shows "column_cells_of n b = map (\<lambda>r. r n) rs"
proof -
  obtain a where a: "map_of b n = Some a" using assms(2) by (metis map_of_eq_None_iff not_None_eq)
  then show ?thesis using assms(1) map_of_SomeD [OF a] by (auto simp: batch_holds_def column_cells_of_def)
qed

lemma read_bytes_ok:
  assumes P: "parses_lines E f P" and p: "plan_filter p = None" "\<not> strict_types p" "has_columns p"
    and fits: "\<forall>est. rows_fit E (lines_records f bytes) (tb_with_plan est p)"
    and rows: "lines_records f bytes \<noteq> []" "\<forall>r \<in> set (rows_of E p (lines_records f bytes)). some_cell r"
      "length (lines_records f bytes) + 2 < 2 ^ 31"
  shows "\<exists>b. read_bytes E S P p bytes = Some (Inr b) \<and> batch_holds p b (rows_of E p (lines_records f bytes))"
proof -
  define cap where "cap = max (length bytes div max (estimate_bytes_per_row S (take 65536 bytes)) 512) 64"
  from run_worker_ok [OF P p(1,2)] fits obtain t where
    t: "run_worker P p cap bytes = Inr t" "chunk_ok p t" "tb_rows t = rows_of E p (lines_records f bytes)" by blast
  have "row_count t = length (lines_records f bytes)"
    using arg_cong [OF t(3), of length] by (simp add: tb_rows_def rows_of_def)
  moreover have "tb_rows t \<noteq> []" using rows(1) t(3) by (simp add: rows_of_def)
  ultimately obtain b u where b: "finish E t = Some (Inr b, u)" "batch_holds p b (tb_rows t)"
    using finish_batch [of t p E] t(2,3) rows(2,3) p(3) by (auto simp: chunk_ok_def errors_def)
  have "parse_chunk P bytes (tb_with_plan cap p) = Some (Inr (), t)"
    using t(1) P by (auto simp: run_worker_def parses_lines_def split: option.splits)
  then have "read_bytes E S P p bytes = Some (Inr b)"
    using P b(1) by (simp add: read_bytes_def cap_def parses_lines_def)
  with b(2) t(3) show ?thesis by simp
qed

section \<open>Collected streams\<close>

lemma batch_holds_ok:
  assumes "batch_holds p b rs"
  shows "batch_ok b \<and> num_rows b = length rs"
proof -
  have len: "length (acells a) = length rs" if "(n, a) \<in> set b" for n a
    using assms that by (auto simp: batch_holds_def)
  moreover obtain n a c where "b = (n, a) # c" using assms by (cases b) (auto simp: batch_holds_def)
  moreover from this have "length (acells a) = length rs" using len [of n a] by simp
  ultimately have "num_rows b = length rs" by (simp add: num_rows_def)
  then show ?thesis using assms len by (auto simp: batch_ok_def batch_holds_def)
qed

lemma batch_holds_null_column:
  assumes "batch_holds p b rs" "schema_order p = []"
  shows "batch_column n b = map (\<lambda>r. r n) rs"
proof (cases "n \<in> fst ` set b")
  case True
  then obtain a where "map_of b n = Some a" by (metis map_of_eq_None_iff not_None_eq)
  with batch_holds_column [OF assms(1) True] show ?thesis by (simp add: batch_column_def column_cells_of_def)
next
  case False
  then have "map_of b n = None" by (simp add: map_of_eq_None_iff)
  moreover have "\<forall>r \<in> set rs. r n = None" using False batch_holds_named [OF assms] by blast
  then have "map (\<lambda>r. r n) rs = replicate (length rs) None" by (induction rs) auto
  ultimately show ?thesis using batch_holds_ok [OF assms(1)] by (simp add: batch_column_def)
qed

lemma held_compatible:
  assumes "list_all2 (batch_holds p) bs segs" "\<not> auto_dict p"
  shows "batches_compatible bs"
proof -
  have "ty = type_of p n" if "ty \<in> types_in bs n" for ty n
  proof -
    from that obtain b a where "b \<in> set bs" "(n, a) \<in> set b" "ty = atype a"
      by (auto simp: types_in_def batch_schema_def)
    moreover from this(1) assms(1) obtain seg where "batch_holds p b seg" by (metis in_set_conv_nth list_all2_conv_all_nth)
    ultimately show ?thesis using assms(2) by (auto simp: batch_holds_def)
  qed
  then show ?thesis unfolding batches_compatible_def compatible_def by metis
qed

lemma aligned_columns:
  assumes "list_all2 (\<lambda>b c. \<forall>n. (\<exists>d \<in> set ds. n \<in> fst ` set d) \<longrightarrow> acells (the (map_of c n)) = batch_column n b) bs cs"
    and "list_all2 (batch_holds p) bs segs" "schema_order p = []" "\<exists>d \<in> set ds. n \<in> fst ` set d"
  shows "concat (map (column_cells_of n) cs) = map (\<lambda>r. r n) (concat segs)"
  using assms
proof (induction bs arbitrary: cs segs)
  case (Cons b bs)
  then obtain c cs' seg segs' where "cs = c # cs'" "segs = seg # segs'" by (auto simp: list_all2_Cons1)
  moreover from this Cons.prems have "column_cells_of n c = map (\<lambda>r. r n) seg"
    using batch_holds_null_column [of p b seg n] by (simp add: column_cells_of_def)
  ultimately show ?case using Cons by simp
qed simp

lemma run_bytes_ok:
  assumes "bytes \<noteq> []" "plan_filter p = None" "\<not> strict_types p" "has_columns p" "\<not> is_strict b" "schema_order p = []" "\<not> auto_dict p"
    and "parses_into E f (spill_setup_of b S sizes collect_batch bytes) P"
    and "spill_fits E (spill_setup_of b S sizes collect_batch bytes) (lines_records f bytes)
           (snd (spill_start E p (spill_setup_of b S sizes collect_batch bytes) (ledger_new b) no_stats))"
    and "\<forall>r \<in> set (rows_of E p (lines_records f bytes)). some_cell r" "length bytes + 2 < 2 ^ 31"
    and "merges_schemas M" "decodes K"
  shows "\<exists>cs. run_bytes E K M S P p sizes bytes b = Some (Inr cs) \<and> (\<forall>c \<in> set cs. \<forall>d \<in> set cs. batch_schema c = batch_schema d) \<and>
    (\<forall>n. (\<exists>r \<in> set (rows_of E p (lines_records f bytes)). r n \<noteq> None) \<longrightarrow>
       concat (map (column_cells_of n) cs) = map (\<lambda>r. r n) (rows_of E p (lines_records f bytes)))"
proof -
  obtain s segs where s: "run_slice_spill E P p b S sizes collect_batch bytes (ledger_new b) no_stats = Some (Inr (), Some s)"
    "concat segs = rows_of E p (lines_records f bytes)" "list_all2 (batch_holds p) (taken s) segs"
    using spilled_segments [OF assms(1-5) _ assms(8-11)] by (auto simp: collect_batch_def)
  have "\<forall>b \<in> set (taken s). batch_ok b"
    using s(3) batch_holds_ok by (metis in_set_conv_nth list_all2_conv_all_nth)
  from finish_collected_ok [OF this held_compatible [OF s(3) assms(7)] assms(12,13)] obtain cs where
    cs: "finish_collected K M (taken s) = Inr cs" "\<forall>c \<in> set cs. \<forall>d \<in> set cs. batch_schema c = batch_schema d"
      "list_all2 (\<lambda>b c. \<forall>n. (\<exists>d \<in> set (taken s). n \<in> fst ` set d) \<longrightarrow> acells (the (map_of c n)) = batch_column n b) (taken s) cs"
    by blast
  have "concat (map (column_cells_of n) cs) = map (\<lambda>r. r n) (rows_of E p (lines_records f bytes))"
    if "r \<in> set (rows_of E p (lines_records f bytes))" "r n \<noteq> None" for r n
  proof -
    from that(1) obtain seg where seg: "seg \<in> set segs" "r \<in> set seg" by (auto simp flip: s(2))
    then obtain d where "d \<in> set (taken s)" "batch_holds p d seg" using s(3) by (metis in_set_conv_nth list_all2_conv_all_nth)
    then have "\<exists>d \<in> set (taken s). n \<in> fst ` set d" using batch_holds_named [OF _ assms(6) seg(2) that(2)] by blast
    from aligned_columns [OF cs(3) s(3) assms(6) this] s(2) show ?thesis by simp
  qed
  then show ?thesis using cs(1,2) s(1) by (intro exI [of _ cs] conjI allI impI) (simp add: run_bytes_def, blast, blast)
qed

section \<open>The modes agree\<close>

text \<open>
  C1. The three ways to read bytes agree: the one batch of the direct read, the batches of the parallel
  read for any number of chunks, and the collected batches of the bounded stream all exist and hold, in
  every column that some record fills, the same cells, row by row in the order of the input.

  The conditions. The parser reads lines and the splitter cuts at record boundaries without an override. The plan
  has no filter, strict types, automatic dictionaries, decimals or schema order. There is a record, and
  every record fills a cell: the batch of a first record without a cell is lost when it is spilled
  alone, and the stream is then shorter. The budget of the stream may have any size and is not strict: a strict one
  can end the stream with a memory error. The input is shorter than \<open>2 ^ 31 - 2\<close> bytes, and the values fit in the
  builders of the whole, the chunks and the stream (\<open>rows_fit\<close>, \<open>spill_fits\<close>). Arrow's schema merge and dictionary
  decoding do what they promise.
\<close>

theorem pipeline_modes_agree:
  assumes "next_record_start S = (\<lambda>bytes from_pos. find_next_record_boundary bytes from_pos continuation prefixes blank)"
    and "split_override S = None" "parses_lines E f P" "parses_into E f (spill_setup_of b S sizes collect_batch bytes) Q"
    and "plan_filter p = None" "\<not> strict_types p" "\<not> auto_dict p" "\<forall>n. \<not> is_decimal (column_type p n)" "schema_order p = []"
    and "lines_records f bytes \<noteq> []" "\<forall>r \<in> set (rows_of E p (lines_records f bytes)). some_cell r"
    and "length (lines_records f bytes) + 2 < 2 ^ 31" "length bytes + 2 < 2 ^ 31" "\<not> is_strict b"
    and "\<forall>est. rows_fit E (lines_records f bytes) (tb_with_plan est p)"
    and "\<forall>(i, j) \<in> set (chunk_ranges S bytes p num_chunks). \<forall>est.
      rows_fit E (lines_records f (sub_bytes i j bytes)) (tb_with_plan est p)"
    and "spill_fits E (spill_setup_of b S sizes collect_batch bytes) (lines_records f bytes)
           (snd (spill_start E p (spill_setup_of b S sizes collect_batch bytes) (ledger_new b) no_stats))"
    and "merges_schemas M" "decodes K"
  shows "\<exists>one par stream. read_bytes E S P p bytes = Some (Inr one) \<and> read_bytes_par E K S P p bytes num_chunks = Some (Inr par) \<and>
    read_bytes_stream E K M S Q p sizes bytes b = Some (Inr stream) \<and>
    (\<forall>n. (\<exists>r \<in> set (rows_of E p (lines_records f bytes)). r n \<noteq> None) \<longrightarrow>
       column_cells_of n one = map (\<lambda>r. r n) (rows_of E p (lines_records f bytes)) \<and>
       concat (map (column_cells_of n) par) = column_cells_of n one \<and>
       concat (map (column_cells_of n) stream) = column_cells_of n one)"
proof -
  have hc: "has_columns p" using assms(9) by (simp add: has_columns_def)
  have ne: "bytes \<noteq> []" using assms(10) by (auto simp: lines_records_def)
  obtain one where one: "read_bytes E S P p bytes = Some (Inr one)" "batch_holds p one (rows_of E p (lines_records f bytes))"
    using read_bytes_ok [OF assms(3,5,6) hc assms(15,10,11,12)] by blast
  obtain par where par: "read_bytes_par E K S P p bytes num_chunks = Some (Inr par)"
    "\<forall>n. (\<exists>r \<in> set (rows_of E p (lines_records f bytes)). r n \<noteq> None) \<longrightarrow>
       concat (map (\<lambda>b. acells (the (map_of b n))) par) = map (\<lambda>r. r n) (rows_of E p (lines_records f bytes))"
    using parallel_rows_ok [OF assms(1-3,5-8,16), of K] by (auto simp: read_bytes_par_def)
  obtain stream where stream: "read_bytes_stream E K M S Q p sizes bytes b = Some (Inr stream)"
    "\<forall>n. (\<exists>r \<in> set (rows_of E p (lines_records f bytes)). r n \<noteq> None) \<longrightarrow>
       concat (map (column_cells_of n) stream) = map (\<lambda>r. r n) (rows_of E p (lines_records f bytes))"
    using run_bytes_ok [OF ne assms(5,6) hc assms(14,9,7,4,17,11,13,18,19)] by (auto simp: read_bytes_stream_def)
  have "column_cells_of n one = map (\<lambda>r. r n) (rows_of E p (lines_records f bytes))"
    if "\<exists>r \<in> set (rows_of E p (lines_records f bytes)). r n \<noteq> None" for n
    using batch_holds_column [OF one(2)] batch_holds_named [OF one(2) assms(9)] that by blast
  then show ?thesis using one(1) par stream unfolding column_cells_of_def [abs_def] by (intro exI [of _ one] exI [of _ par] exI [of _ stream] conjI allI impI) simp_all
qed

theorem pipeline_modes_agree_witness:
  "\<exists>one par stream.
     read_bytes sample_env line_splitter (line_parser sample_env length_line) chunked_plan [newline, newline] = Some (Inr one) \<and>
     read_bytes_par sample_env decoding_kernels line_splitter (line_parser sample_env length_line) chunked_plan [newline, newline] 2 = Some (Inr par) \<and>
     read_bytes_stream sample_env decoding_kernels first_fields line_splitter (line_sink_parser sample_env sample_setup) chunked_plan (\<lambda>_. 0)
       [newline, newline] (budget_new 128) = Some (Inr stream) \<and>
     column_cells_of ''b'' one = [Some (TV_Int64 1), Some (TV_Int64 1)] \<and>
     concat (map (column_cells_of ''b'') stream) = [Some (TV_Int64 1), Some (TV_Int64 1)]"
proof -
  have Z: "spill_setup_of (budget_new 128) line_splitter (\<lambda>_. 0) collect_batch [newline, newline] = sample_setup"
    by (simp add: sample_setup_def collect_batch_def [abs_def])
  have P: "parses_lines sample_env length_line (line_parser sample_env length_line)"
    by (simp add: parses_lines_def line_parser_def)
  have fits: "rows_fit sample_env (lines_records length_line bytes) (tb_with_plan est chunked_plan)" for bytes est
  proof (rule rows_fit_inline)
    show "list_all (inline_record (plan (tb_with_plan est chunked_plan))) (lines_records length_line bytes)"
      using tb_with_plan_ok [of est chunked_plan]
      by (auto simp: lines_records_def length_line_def list_all_iff inline_record_def chunked_plan_simps inline_type_def)
  qed (use tb_with_plan_ok [of est chunked_plan] chunked_plan_simps(1) in
      \<open>auto simp: setup_of_def unbudgeted_def direct_path_def is_exact_frozen_def\<close>)
  have schema: "schema_order chunked_plan = []" by (simp add: chunked_plan_def sample_plan_def plan_new_def)
  have Q: "parses_into sample_env length_line (spill_setup_of (budget_new 128) line_splitter (\<lambda>_. 0) collect_batch [newline, newline])
      (line_sink_parser sample_env sample_setup)"
    unfolding Z by (rule sample_parses)
  have F: "spill_fits sample_env (spill_setup_of (budget_new 128) line_splitter (\<lambda>_. 0) collect_batch [newline, newline])
      (lines_records length_line [newline, newline])
      (snd (spill_start sample_env chunked_plan (spill_setup_of (budget_new 128) line_splitter (\<lambda>_. 0) collect_batch [newline, newline])
        (ledger_new (budget_new 128)) no_stats))"
    unfolding Z by (rule sample_fits)
  have n: "lines_records length_line [newline, newline] \<noteq> []" "length (lines_records length_line [newline, newline]) + 2 < 2 ^ 31"
    "length [newline, newline] + 2 < 2 ^ 31" "\<not> is_strict (budget_new 128)"
    unfolding sample_rows(2) by (simp_all add: budget_new_def)
  have pl: "plan_filter chunked_plan = None" "\<not> strict_types chunked_plan" "\<not> auto_dict chunked_plan"
    "\<forall>n. \<not> is_decimal (column_type chunked_plan n)"
    using chunked_plan_simps by auto
  have fits1: "\<forall>est. rows_fit sample_env (lines_records length_line [newline, newline]) (tb_with_plan est chunked_plan)"
    by (intro allI fits)
  have fits2: "\<forall>(i, j) \<in> set (chunk_ranges line_splitter [newline, newline] chunked_plan 2). \<forall>est.
      rows_fit sample_env (lines_records length_line (sub_bytes i j [newline, newline])) (tb_with_plan est chunked_plan)"
    by (intro ballI, rename_tac x, case_tac x) (simp only: prod.case, intro allI fits)
  have b: "\<exists>r \<in> set (rows_of sample_env chunked_plan (lines_records length_line [newline, newline])). r ''b'' \<noteq> None"
    unfolding sample_rows(1) by simp
  have c: "map (\<lambda>r. r ''b'') (rows_of sample_env chunked_plan (lines_records length_line [newline, newline])) =
      [Some (TV_Int64 1), Some (TV_Int64 1)]"
    unfolding sample_rows(1) by simp
  show ?thesis
    using pipeline_modes_agree [OF line_splitter_simps(1,2) P Q pl schema n(1) sample_cells n(2,3,4) fits1 fits2 F
        first_fields_merges decoding_kernels_decodes]
    using b c by (elim exE conjE) metis
qed

end
