(* ===== verification/Discovery.thy ===== *)
theory Discovery
  imports Stream_Executor Parallel_Laws
begin

text \<open>
  Finding the columns before a parallel stream starts (\<open>parallel_stream/discovery.rs\<close>): a sink that
  only notes the names of fields, the scan of the input or of windows of it, and the cache of
  layouts found before. A parser meets this sink with the names it resolves, in order; values are
  never asked for and the sink never answers differently, so the parser is a parameter that gives
  these names, or nothing if it panics. The discovery timer and the hit counters are left out.
\<close>

section \<open>Sinks that look at names only\<close>

record discovery_sink =
  seen_names :: "string list"
  name_order :: "string list"

definition discovery_sink_new :: discovery_sink where
  "discovery_sink_new = \<lparr>seen_names = [], name_order = []\<rparr>"

text \<open>\<open>resolve\<close> and \<open>put_field\<close> note a name the first time it comes.\<close>

definition note_name :: "string \<Rightarrow> discovery_sink \<Rightarrow> discovery_sink" where
  "note_name name s =
     (if name \<in> set (seen_names s) then s
      else s\<lparr>seen_names := name # seen_names s, name_order := name_order s @ [name]\<rparr>)"

definition discovery_resolve :: "string \<Rightarrow> discovery_sink \<Rightarrow> string option \<times> discovery_sink" where
  "discovery_resolve name s = (Some name, note_name name s)"

text \<open>\<open>LocateOnly\<close> of \<open>engine/locate.rs\<close> counts rows and fields.\<close>

record locate_only =
  lo_rows :: nat
  lo_fields :: nat
  distinct_fields :: "string list"
  lo_plan :: execution_plan

definition locate_new :: "execution_plan \<Rightarrow> locate_only" where
  "locate_new p = \<lparr>lo_rows = 0, lo_fields = 0, distinct_fields = [], lo_plan = p\<rparr>"

definition locate_put :: "string \<Rightarrow> locate_only \<Rightarrow> locate_only" where
  "locate_put name s =
     (let s = s\<lparr>lo_fields := lo_fields s + 1\<rparr>
      in case resolve_field (lo_plan s) name of
           Some resolved \<Rightarrow> s\<lparr>distinct_fields := List.insert resolved (distinct_fields s)\<rparr>
         | None \<Rightarrow> s)"

definition locate_end_row :: "locate_only \<Rightarrow> locate_only" where
  "locate_end_row s = s\<lparr>lo_rows := lo_rows s + 1\<rparr>"

definition total_fields :: "locate_only \<Rightarrow> nat" where
  "total_fields s = lo_fields s"

definition num_distinct_fields :: "locate_only \<Rightarrow> nat" where
  "num_distinct_fields s = length (distinct_fields s)"

section \<open>Discovery in memory\<close>

type_synonym name_scan = "string \<Rightarrow> string list option"

definition scan_names :: "name_scan \<Rightarrow> string \<Rightarrow> string list option" where
  "scan_names D bytes = map_option (\<lambda>names. name_order (fold note_name names discovery_sink_new)) (D bytes)"

definition window_names :: "name_scan \<Rightarrow> string \<Rightarrow> nat \<Rightarrow> nat \<Rightarrow> nat \<Rightarrow> string list option" where
  "window_names D bytes n w i =
     (let from = length bytes * i div n; to = min (from + w) (length bytes)
      in if to \<le> from then Some [] else scan_names D (sub_bytes from to bytes))"

definition merge_names :: "string list \<Rightarrow> discovery_sink \<Rightarrow> discovery_sink" where
  "merge_names names s = fold note_name names s"

definition window_order :: "name_scan \<Rightarrow> string \<Rightarrow> nat \<Rightarrow> nat \<Rightarrow> string list option" where
  "window_order D bytes n w =
     Option.bind (those (map (window_names D bytes n w) [0..<n])) (\<lambda>per_window.
       let s = fold merge_names per_window discovery_sink_new
       in if always_scan_tail default_opts
          then map_option (\<lambda>tail. name_order (merge_names tail s)) (scan_names D (drop (length bytes - w) bytes))
          else Some (name_order s))"

definition discovered_order :: "name_scan \<Rightarrow> string \<Rightarrow> string list option" where
  "discovered_order D bytes =
     (let len = length bytes; n = dynamic_window_count len; w = dynamic_window_size len
      in if len < full_scan_threshold default_opts \<or> n = 0 then scan_names D bytes
         else Option.bind (window_order D bytes n w) (\<lambda>merged.
           if merged = [] \<and> bytes \<noteq> [] then scan_names D bytes else Some merged))"

definition discover_schema :: "name_scan \<Rightarrow> execution_plan \<Rightarrow> string \<Rightarrow> (frozen_schema \<times> string list) option" where
  "discover_schema D p bytes =
     map_option (\<lambda>names. (if names = [] then from_plan [] p else from_discovered names p, names)) (discovered_order D bytes)"

text \<open>The cached order is kept as it came from the input; the plan is applied to it on every use.\<close>

definition discover_schema_for_bytes ::
    "layout_hash \<Rightarrow> name_scan \<Rightarrow> execution_plan \<Rightarrow> string \<Rightarrow> schema_cache \<Rightarrow> (frozen_schema \<times> schema_cache) option" where
  "discover_schema_for_bytes H D p bytes cache =
     (if schema_order p \<noteq> [] then Some (from_partial_plan (schema_order p) p, cache)
      else Option.bind (layout_signature H bytes default_opts) (\<lambda>sig.
        case map_of cache sig of
          Some names \<Rightarrow> Some (from_discovered names p, cache)
        | None \<Rightarrow> map_option (\<lambda>(s, names). (s, if names = [] then cache else insert_schema_cache sig names cache))
                    (discover_schema D p bytes)))"

definition discovery_panic :: error where
  "discovery_panic = Parser_error ''parser panicked during schema discovery''"

text \<open>The parallel stream: a schema given wins; an order found in the cache is inserted again.\<close>

definition stream_schema ::
    "layout_hash \<Rightarrow> name_scan \<Rightarrow> frozen_schema option \<Rightarrow> execution_plan \<Rightarrow> string \<Rightarrow> schema_cache \<Rightarrow>
     (frozen_schema \<times> schema_cache) result option" where
  "stream_schema H D given p bytes cache =
     (case given of
        Some s \<Rightarrow> Some (Inr (s, cache))
      | None \<Rightarrow>
          if schema_order p \<noteq> [] then Some (Inr (from_partial_plan (schema_order p) p, cache))
          else map_option (\<lambda>sig.
            case (case map_of cache sig of
                    Some names \<Rightarrow> Some (from_discovered names p, names)
                  | None \<Rightarrow> discover_schema D p bytes) of
              None \<Rightarrow> Inl discovery_panic
            | Some (s, names) \<Rightarrow> Inr (s, if names = [] then cache else insert_schema_cache sig names cache))
            (layout_signature H bytes default_opts))"

section \<open>Discovery in a file\<close>

text \<open>What the allocator reserves: for a vector that has had these lengths, and for the names noted.\<close>

record allocator =
  vec_cap :: "nat list \<Rightarrow> nat"
  names_cap :: "string list \<Rightarrow> nat"

fun read_checks :: "memory_budget \<Rightarrow> allocator \<Rightarrow> nat list \<Rightarrow> nat list \<Rightarrow> nat list result" where
  "read_checks a A sizes [] = Inr sizes"
| "read_checks a A sizes (n # ns) =
     bind_result (budget_check a n) (\<lambda>_. bind_result (budget_check a (vec_cap A (sizes @ [n]))) (\<lambda>_.
       read_checks a A (sizes @ [n]) ns))"

definition discovery_points :: "splitter \<Rightarrow> execution_plan \<Rightarrow> memory_budget \<Rightarrow> string \<Rightarrow> nat list" where
  "discovery_points S p b bytes =
     (let chunk_size = max (budget_bytes b div 8) 1;
          n = min (max (div_ceil (length bytes) chunk_size) 1) MAX_SPLIT_CHUNKS
      in find_split_points_with S bytes n (case min_chunk_bytes p of Some m \<Rightarrow> m | None \<Rightarrow> MIN_CHUNK_BYTES))"

definition in_window :: "nat \<Rightarrow> nat \<Rightarrow> nat \<Rightarrow> nat \<times> nat \<Rightarrow> bool" where
  "in_window len n w chunk =
     (let (from, to) = chunk
      in \<not> (0 < n \<and> \<not> list_ex (\<lambda>i. let offset = len div n * i in from < sat_add offset w \<and> offset < to) [0..<n] \<and> to \<le> len - w))"

fun scan_ranges ::
    "memory_budget \<Rightarrow> allocator \<Rightarrow> name_scan \<Rightarrow> string \<Rightarrow> nat \<Rightarrow> nat list \<Rightarrow> discovery_sink \<Rightarrow> (nat \<times> nat) list \<Rightarrow> discovery_sink result" where
  "scan_ranges a A D bytes planning sizes s [] = Inr s"
| "scan_ranges a A D bytes planning sizes s ((from, to) # rs) =
     (if \<not> in_window (length bytes) (dynamic_window_count (length bytes)) (dynamic_window_size (length bytes)) (from, to)
      then scan_ranges a A D bytes planning sizes s rs
      else
        bind_result (budget_check a (sat_add (to - from) planning)) (\<lambda>_.
          let sizes = sizes @ [to - from]
          in case D (sub_bytes from to bytes) of
               None \<Rightarrow> Inl discovery_panic
             | Some names \<Rightarrow>
                 (let s = fold note_name names s
                  in bind_result (budget_check a (sat_add (sat_add (names_cap A (name_order s)) (vec_cap A sizes)) planning))
                       (\<lambda>_. scan_ranges a A D bytes planning sizes s rs))))"

definition discover_schema_for_file ::
    "layout_hash \<Rightarrow> allocator \<Rightarrow> name_scan \<Rightarrow> splitter \<Rightarrow> execution_plan \<Rightarrow> memory_budget \<Rightarrow> string \<Rightarrow> schema_cache \<Rightarrow>
     (frozen_schema \<times> schema_cache) result option" where
  "discover_schema_for_file H A D S p b bytes cache =
     map_option (\<lambda>sig.
       let a = budget_share b 4
       in bind_result (read_checks a A [] (map (\<lambda>(from, to). to - from) (signature_chunks (length bytes) default_opts))) (\<lambda>sizes.
            case map_of cache sig of
              Some names \<Rightarrow> Inr (from_discovered names p, cache)
            | None \<Rightarrow>
                (let points = discovery_points S p b bytes;
                     ranges = split_points_to_ranges points (length bytes);
                     planning = sat_add (sat_mul (vec_cap A [length points]) 8) (vec_cap A [length ranges] * 16)
                 in bind_result (budget_check a planning) (\<lambda>_.
                      bind_result (scan_ranges a A D bytes planning sizes discovery_sink_new ranges) (\<lambda>s.
                        Inr (from_discovered (name_order s) p,
                          if name_order s = [] then cache else insert_schema_cache sig (name_order s) cache))))))
       (layout_signature H bytes default_opts)"

section \<open>What the sinks hold\<close>

definition sink_ok :: "string list \<Rightarrow> discovery_sink \<Rightarrow> bool" where
  "sink_ok xs s \<longleftrightarrow> name_order s = first_seen xs \<and> set (seen_names s) = set xs"

lemma sink_new_ok: "sink_ok [] discovery_sink_new"
  by (simp add: sink_ok_def discovery_sink_new_def)

lemma note_names_ok: "sink_ok xs s \<Longrightarrow> sink_ok (xs @ names) (fold note_name names s)"
proof (induction names rule: rev_induct)
  case (snoc n names)
  then have "sink_ok (xs @ names) (fold note_name names s)" by simp
  moreover have "sink_ok ys t \<Longrightarrow> sink_ok (ys @ [n]) (note_name n t)" for ys t
    by (auto simp: sink_ok_def note_name_def)
  ultimately have "sink_ok ((xs @ names) @ [n]) (note_name n (fold note_name names s))" by blast
  then show ?case by simp
qed simp

lemma merge_ok: "sink_ok xs s \<Longrightarrow> sink_ok (xs @ concat per) (fold merge_names per s)"
proof (induction per arbitrary: xs s)
  case (Cons names per)
  then show ?case using note_names_ok [of xs s names] Cons.IH [of "xs @ names"] by (simp add: merge_names_def)
qed simp

lemma scan_names_order: "scan_names D bytes = map_option first_seen (D bytes)"
  using note_names_ok [OF sink_new_ok] by (cases "D bytes") (simp_all add: scan_names_def sink_ok_def)

text \<open>The counts of a parse that only locates: every field, every row, and the kept names once.\<close>

lemma locate_counts:
  "total_fields (fold locate_put names (locate_new p)) = length names \<and>
   num_distinct_fields (fold locate_put names (locate_new p)) = card (set (List.map_filter (resolve_field p) names))"
proof -
  have "lo_fields (fold locate_put names (locate_new p)) = length names \<and> lo_plan (fold locate_put names (locate_new p)) = p \<and>
      distinct (distinct_fields (fold locate_put names (locate_new p))) \<and>
      set (distinct_fields (fold locate_put names (locate_new p))) = set (List.map_filter (resolve_field p) names)"
    by (induction names rule: rev_induct)
      (auto simp: locate_new_def locate_put_def Let_def map_filter_def split: option.splits)
  then show ?thesis unfolding total_fields_def num_distinct_fields_def by (metis distinct_card)
qed

section \<open>The order found\<close>

text \<open>The parts of the input that are scanned.\<close>

definition scanned_parts :: "string \<Rightarrow> string list" where
  "scanned_parts bytes =
     (let len = length bytes; n = dynamic_window_count len; w = dynamic_window_size len
      in if len < full_scan_threshold default_opts then [bytes]
         else map (\<lambda>i. sub_bytes (len * i div n) (min (len * i div n + w) len) bytes) [0..<n] @ [drop (len - w) bytes])"

lemma window_count_pos: "\<not> len < full_scan_threshold default_opts \<Longrightarrow> 0 < dynamic_window_count len"
  by (simp add: default_opts_def dynamic_window_count_def)

lemma small_order: "length bytes < full_scan_threshold default_opts \<Longrightarrow> discovered_order D bytes = map_option first_seen (D bytes)"
  by (simp add: discovered_order_def Let_def scan_names_order)

lemma window_names_set:
  assumes "window_names D bytes n w i = Some names" "x \<in> set (the (D (sub_bytes (length bytes * i div n) (min (length bytes * i div n + w) (length bytes)) bytes)))"
    and "length bytes * i div n < min (length bytes * i div n + w) (length bytes)"
  shows "x \<in> set names"
  using assms by (auto simp: window_names_def Let_def scan_names_order)

lemma those_nth: "those (map f [0..<n]) = Some ys \<Longrightarrow> length ys = n \<and> (\<forall>i < n. f i = Some (ys ! i))"
proof -
  assume "those (map f [0..<n]) = Some ys"
  moreover have "those xs = Some ys \<Longrightarrow> xs = map Some ys" for xs
    by (induction xs arbitrary: ys) (auto split: option.splits)
  ultimately have "map f [0..<n] = map Some ys" by blast
  from arg_cong [OF this, of length] arg_cong [OF this, of "\<lambda>zs. zs ! i" for i] show ?thesis
    by (metis (no_types, lifting) add.left_neutral diff_zero length_map length_upt nth_map nth_upt)
qed

text \<open>Every name the parser gives for a part that is scanned is in the order, and the order has no name twice.\<close>

lemma order_covers:
  assumes "discovered_order D bytes = Some names"
  shows "distinct names \<and> (\<forall>part \<in> set (scanned_parts bytes). part \<noteq> [] \<longrightarrow> (\<forall>x \<in> set (the (D part)). x \<in> set names))"
proof (cases "length bytes < full_scan_threshold default_opts")
  case True
  then show ?thesis using assms by (auto simp: small_order scanned_parts_def Let_def)
next
  case False
  let ?n = "dynamic_window_count (length bytes)" and ?w = "dynamic_window_size (length bytes)"
  obtain merged where m: "window_order D bytes ?n ?w = Some merged"
      "(if merged = [] \<and> bytes \<noteq> [] then scan_names D bytes else Some merged) = Some names"
    using assms False window_count_pos [OF False] unfolding discovered_order_def Let_def
    by (auto simp: bind_eq_Some_conv simp del: option.inject split del: if_split)
  obtain per tail where per: "those (map (window_names D bytes ?n ?w) [0..<?n]) = Some per"
      "scan_names D (drop (length bytes - ?w) bytes) = Some tail"
      "merged = name_order (merge_names tail (fold merge_names per discovery_sink_new))"
    using m(1) by (auto simp: window_order_def Let_def bind_eq_Some_conv default_opts_def)
  have "sink_ok (concat per @ tail) (merge_names tail (fold merge_names per discovery_sink_new))"
    using note_names_ok [OF merge_ok [OF sink_new_ok, of per]] by (simp add: merge_names_def)
  then have merged: "merged = first_seen (concat per @ tail)" using per(3) by (simp add: sink_ok_def)
  have windows: "\<forall>i < ?n. window_names D bytes ?n ?w i = Some (per ! i)" "length per = ?n"
    using those_nth [OF per(1)] by simp_all
  have sub: "x \<in> set merged" if "part \<in> set (scanned_parts bytes)" "part \<noteq> []" "x \<in> set (the (D part))" for part x
  proof -
    have "part \<in> (\<lambda>i. sub_bytes (length bytes * i div ?n) (min (length bytes * i div ?n + ?w) (length bytes)) bytes) ` {0..<?n} \<or>
        part = drop (length bytes - ?w) bytes"
      using that(1) False unfolding scanned_parts_def Let_def by (simp add: disj_commute)
    then consider i where "i < ?n" "part = sub_bytes (length bytes * i div ?n) (min (length bytes * i div ?n + ?w) (length bytes)) bytes"
      | "part = drop (length bytes - ?w) bytes"
      by (elim disjE imageE) auto
    then show ?thesis
    proof cases
      case 1
      have "x \<in> set (per ! i)"
        by (rule window_names_set [where D = D and bytes = bytes and n = ?n and w = ?w and i = i])
          (use 1 windows(1) that(2,3) in \<open>auto simp: sub_bytes_def\<close>)
      then show ?thesis using 1(1) windows(2) by (auto simp: merged)
    next
      case 2
      then show ?thesis using that(3) per(2) by (auto simp: merged scan_names_order)
    qed
  qed
  show ?thesis
  proof (cases "merged = [] \<and> bytes \<noteq> []")
    case True
    then have "distinct names" using m(2) by (auto simp: scan_names_order)
    then show ?thesis using sub True by auto
  next
    case False
    then show ?thesis using sub m(2) merged by auto
  qed
qed

section \<open>Files and memory agree\<close>

lemma bound_budget: "\<not> is_strict a \<Longrightarrow> budget_check a n = Inr ()"
  by (simp add: budget_check_def)

lemma read_checks_ok: "\<not> is_strict a \<Longrightarrow> \<exists>sizes'. read_checks a A sizes ns = Inr sizes'"
  by (induction ns arbitrary: sizes) (simp_all add: bound_budget)

lemma scan_ranges_ok:
  assumes "\<not> is_strict a" "dynamic_window_count (length bytes) = 0" "\<forall>part. D part = Some (g part)" "sink_ok xs s"
  shows "\<exists>s'. scan_ranges a A D bytes planning sizes s rs = Inr s' \<and>
    sink_ok (xs @ concat (map (\<lambda>(i, j). g (sub_bytes i j bytes)) rs)) s'"
  using assms(4)
proof (induction rs arbitrary: xs s sizes)
  case (Cons r rs)
  obtain i j where r: "r = (i, j)" by force
  show ?case
    using Cons.IH [OF note_names_ok [OF Cons.prems, of "g (sub_bytes i j bytes)"]] assms(1-3)
    by (simp add: r bound_budget in_window_def)
qed simp

text \<open>A parser of lines, as the sink sees it.\<close>

definition names_by_line :: "(string \<Rightarrow> string list) \<Rightarrow> name_scan \<Rightarrow> bool" where
  "names_by_line g D \<longleftrightarrow> (\<forall>bytes. D bytes = Some (concat (map g (lines_of bytes))))"

lemma concat_lines: "concat (map (\<lambda>(a, b). concat (map g (h a b))) rs) = concat (map g (concat (map (\<lambda>(a, b). h a b) rs)))"
  by (induction rs) auto

lemma file_scan_order:
  assumes "names_by_line g D" "\<not> is_strict b" "length bytes < full_scan_threshold default_opts"
    and "next_record_start S = (\<lambda>bytes from_pos. find_next_record_boundary bytes from_pos continuation prefixes blank)"
    and "split_override S = None"
  shows "\<exists>s. scan_ranges (budget_share b 4) A D bytes planning sizes discovery_sink_new
      (split_points_to_ranges (discovery_points S p b bytes) (length bytes)) = Inr s \<and>
    name_order s = first_seen (concat (map g (lines_of bytes)))"
proof -
  let ?rs = "split_points_to_ranges (discovery_points S p b bytes) (length bytes)"
  have "concat (map (\<lambda>(i, j). lines_of (sub_bytes i j bytes)) ?rs) = lines_of bytes"
    using chunks_cover [OF assms(4,5) refl, of bytes] by (simp add: discovery_points_def Let_def)
  then have names: "concat (map (\<lambda>(i, j). concat (map g (lines_of (sub_bytes i j bytes)))) ?rs) = concat (map g (lines_of bytes))"
    unfolding concat_lines by simp
  have strict: "\<not> is_strict (budget_share b 4)" using assms(2) by (simp add: budget_share_def)
  have count: "dynamic_window_count (length bytes) = 0" using assms(3) by (simp add: default_opts_def dynamic_window_count_def)
  have lines: "\<forall>part. D part = Some (concat (map g (lines_of part)))" using assms(1) by (simp add: names_by_line_def)
  from scan_ranges_ok [OF strict count lines sink_new_ok, of A planning sizes ?rs] show ?thesis
    unfolding append_Nil names by (auto simp: sink_ok_def)
qed

lemma signature_Some:
  assumes "length bytes \<le> usize_max"
  shows "\<exists>n. layout_signature H bytes default_opts = Some (length bytes, n)"
proof -
  have "None \<notin> set (map (\<lambda>(a, b). slice bytes a b) (signature_chunks (length bytes) default_opts))"
    using signature_chunks_in_bounds [OF assms, of default_opts] by (auto simp: slice_def split: if_splits)
  then show ?thesis by (simp add: layout_signature_def)
qed

lemma small_fits: "length bytes < full_scan_threshold default_opts \<Longrightarrow> length bytes \<le> usize_max"
  by (simp add: default_opts_def usize_max_def)

text \<open>
  C35. For inputs that are scanned in full, discovery over bytes in memory and over the split file give
  the same columns in the same order and resolve every name alike, and leave the same cache behind:
  for a parser of lines, a splitter that cuts at record boundaries, and no strict budget.
\<close>

theorem file_discovery_agrees:
  assumes "names_by_line g D" "\<not> is_strict b" "length bytes < full_scan_threshold default_opts" "schema_order p = []"
    and "next_record_start S = (\<lambda>bytes from_pos. find_next_record_boundary bytes from_pos continuation prefixes blank)"
    and "split_override S = None"
  shows "\<exists>s t cache'. discover_schema_for_bytes H D p bytes cache = Some (s, cache') \<and>
    discover_schema_for_file H A D S p b bytes cache = Some (Inr (t, cache')) \<and>
    fs_names s = fs_names t \<and> fs_types s = fs_types t \<and> fs_resolve s = fs_resolve t"
proof -
  let ?names = "first_seen (concat (map g (lines_of bytes)))" and ?a = "budget_share b 4"
  let ?pieces = "map (\<lambda>(from, to). to - from) (signature_chunks (length bytes) default_opts)"
  have strict: "\<not> is_strict ?a" using assms(2) by (simp add: budget_share_def)
  obtain n where sig: "layout_signature H bytes default_opts = Some (length bytes, n)"
    using signature_Some [OF small_fits [OF assms(3)]] by blast
  obtain sizes where sizes: "read_checks ?a A [] ?pieces = Inr sizes" using read_checks_ok [OF strict] by blast
  have names: "discovered_order D bytes = Some ?names"
    using assms(1) by (simp add: small_order [OF assms(3)] names_by_line_def)
  show ?thesis
  proof (cases "map_of cache (length bytes, n)")
    case (Some names)
    then show ?thesis
      using sizes by (simp add: discover_schema_for_bytes_def discover_schema_for_file_def assms(4) sig Let_def)
  next
    case None
    let ?points = "discovery_points S p b bytes"
    let ?planning = "sat_add (sat_mul (vec_cap A [length ?points]) 8)
        (vec_cap A [length (split_points_to_ranges ?points (length bytes))] * 16)"
    obtain s where s: "scan_ranges ?a A D bytes ?planning sizes discovery_sink_new (split_points_to_ranges ?points (length bytes)) = Inr s"
      "name_order s = ?names" using file_scan_order [OF assms(1-3,5,6)] by blast
    have "fs_names (from_plan [] p) = fs_names (from_discovered [] p)" "fs_types (from_plan [] p) = fs_types (from_discovered [] p)"
      "fs_resolve (from_plan [] p) = fs_resolve (from_discovered [] p)"
      by (simp_all add: from_plan_def schema_of_names_def from_discovered_def fs_resolve_def [abs_def])
    then show ?thesis
      using None sizes s names
      by (auto simp: discover_schema_for_bytes_def discover_schema_for_file_def discover_schema_def assms(4) sig Let_def bound_budget [OF strict])
  qed
qed

theorem file_discovery_agrees_witness:
  "\<exists>s t cache'. discover_schema_for_bytes (\<lambda>_. 0) (\<lambda>bytes. Some (concat (map (\<lambda>l. [''a'']) (lines_of bytes)))) plan_new [newline] [] = Some (s, cache') \<and>
    discover_schema_for_file (\<lambda>_. 0) \<lparr>vec_cap = length, names_cap = length\<rparr> (\<lambda>bytes. Some (concat (map (\<lambda>l. [''a'']) (lines_of bytes)))) line_splitter plan_new
      (budget_new 128) [newline] [] = Some (Inr (t, cache')) \<and> fs_names s = fs_names t"
proof -
  have "names_by_line (\<lambda>l. [''a'']) (\<lambda>bytes. Some (concat (map (\<lambda>l. [''a'']) (lines_of bytes))))" by (simp add: names_by_line_def)
  moreover have "\<not> is_strict (budget_new 128)" "length [newline] < full_scan_threshold default_opts" "schema_order plan_new = []"
    by (simp_all add: budget_new_def default_opts_def plan_new_def)
  ultimately show ?thesis
    using file_discovery_agrees [OF _ _ _ _ line_splitter_simps,
        of "\<lambda>l. [''a'']" "\<lambda>bytes. Some (concat (map (\<lambda>l. [''a'']) (lines_of bytes)))" "budget_new 128" "[newline]" plan_new "\<lambda>_. 0" "[]"
          "\<lparr>vec_cap = length, names_cap = length\<rparr>"]
    by blast
qed

section \<open>The cache\<close>

text \<open>
  A request is the parser, as the names it gives, the input and the plan. The cache knows only the
  signature of the input: what it answers was found by the first request with that signature.
\<close>

type_synonym schema_request = "name_scan \<times> string \<times> execution_plan"

definition cache_sound :: "layout_hash \<Rightarrow> schema_request list \<Rightarrow> schema_cache \<Rightarrow> bool" where
  "cache_sound H rs c \<longleftrightarrow> (\<forall>sig names. map_of c sig = Some names \<longrightarrow> names \<noteq> [] \<and>
     (\<exists>(D, bytes, p) \<in> set rs. layout_signature H bytes default_opts = Some sig \<and> discovered_order D bytes = Some names))"

lemma cache_sound_insert:
  assumes "cache_sound H rs c" "names \<noteq> []" "(D, bytes, p) \<in> set rs"
    and "layout_signature H bytes default_opts = Some sig" "discovered_order D bytes = Some names"
  shows "cache_sound H rs (insert_schema_cache sig names c)"
proof -
  have entries: "k = sig \<and> v = names \<or> map_of c k = Some v" if "map_of (insert_schema_cache sig names c) k = Some v" for k v
    using that by (auto simp: insert_schema_cache_def Let_def map_of_update map_of_delete split: if_splits list.splits)
  show ?thesis
    unfolding cache_sound_def
  proof (intro allI impI)
    fix k v
    assume "map_of (insert_schema_cache sig names c) k = Some v"
    from entries [OF this] show "v \<noteq> [] \<and> (\<exists>(D, bytes, p) \<in> set rs.
        layout_signature H bytes default_opts = Some k \<and> discovered_order D bytes = Some v)"
      using assms unfolding cache_sound_def by blast
  qed
qed

text \<open>Requests one after the other over one cache, and a request without it.\<close>

fun discover_all :: "layout_hash \<Rightarrow> schema_request list \<Rightarrow> schema_cache \<Rightarrow> frozen_schema list option" where
  "discover_all H [] c = Some []"
| "discover_all H ((D, bytes, p) # rs) c =
     Option.bind (discover_schema_for_bytes H D p bytes c) (\<lambda>(s, c). map_option (Cons s) (discover_all H rs c))"

definition uncached_schema :: "schema_request \<Rightarrow> frozen_schema" where
  "uncached_schema request =
     (let (D, bytes, p) = request
      in if schema_order p \<noteq> [] then from_partial_plan (schema_order p) p
         else case discovered_order D bytes of Some (n # names) \<Rightarrow> from_discovered (n # names) p | _ \<Rightarrow> from_plan [] p)"

text \<open>
  What the signature has to tell apart: two requests that use the cache and have one signature
  also have one order of names. Different inputs do if the hash does not collide on them; one
  input under two parsers does if the parsers find the same names in it.
\<close>

definition signature_tells :: "layout_hash \<Rightarrow> schema_request list \<Rightarrow> bool" where
  "signature_tells H rs \<longleftrightarrow> (\<forall>(D, xs, p) \<in> set rs. \<forall>(D', ys, q) \<in> set rs.
     layout_signature H xs default_opts = layout_signature H ys default_opts \<longrightarrow> discovered_order D xs = discovered_order D' ys)"

lemma signature_tells_if:
  assumes "\<And>D xs p D' ys q. (D, xs, p) \<in> set rs \<Longrightarrow> (D', ys, q) \<in> set rs \<Longrightarrow>
      layout_signature H xs default_opts = layout_signature H ys default_opts \<Longrightarrow> xs = ys"
    and "\<And>D xs p D' q. (D, xs, p) \<in> set rs \<Longrightarrow> (D', xs, q) \<in> set rs \<Longrightarrow> discovered_order D xs = discovered_order D' xs"
  shows "signature_tells H rs"
  unfolding signature_tells_def using assms by blast

lemma discover_step_transparent:
  assumes tells: "signature_tells H rs" and sound: "cache_sound H rs c" and r: "(D, bytes, p) \<in> set rs"
    and fits: "length bytes \<le> usize_max" and names: "discovered_order D bytes = Some names"
  shows "\<exists>c'. discover_schema_for_bytes H D p bytes c = Some (uncached_schema (D, bytes, p), c') \<and> cache_sound H rs c'"
proof (cases "schema_order p = []")
  case True
  obtain n where sig: "layout_signature H bytes default_opts = Some (length bytes, n)"
    using signature_Some [OF fits] by blast
  show ?thesis
  proof (cases "map_of c (length bytes, n)")
    case None
    then show ?thesis
      using True sig names cache_sound_insert [OF sound _ r sig names] sound
      by (cases names) (auto simp: discover_schema_for_bytes_def discover_schema_def uncached_schema_def Let_def)
  next
    case (Some old)
    then obtain D' other q where o: "old \<noteq> []" "(D', other, q) \<in> set rs"
      "layout_signature H other default_opts = Some (length bytes, n)" "discovered_order D' other = Some old"
      using sound unfolding cache_sound_def by blast
    then have "old = names" using tells r sig names unfolding signature_tells_def by fastforce
    then show ?thesis using True sig Some o(1) names sound
      by (cases names) (simp_all add: discover_schema_for_bytes_def uncached_schema_def Let_def)
  qed
qed (use sound in \<open>simp add: discover_schema_for_bytes_def uncached_schema_def\<close>)

text \<open>
  C34. The cache of layouts is transparent as far as its key tells requests apart: whatever the order of
  the requests, their plans and what was evicted, every request is answered by the schema that a
  discovery without cache would give, if no parser panics, no two different inputs asked for have
  the same length and 64-bit hash, and the parsers asked to read one input find the same names in it (the
  key has neither parser nor splitter in it).
\<close>

theorem cached_discovery_is_transparent:
  assumes "\<forall>(D, bytes, p) \<in> set requests. length bytes \<le> usize_max \<and> discovered_order D bytes \<noteq> None"
    and "\<forall>(D, xs, p) \<in> set requests. \<forall>(D', ys, q) \<in> set requests.
      layout_signature H xs default_opts = layout_signature H ys default_opts \<longrightarrow> xs = ys"
    and "\<forall>(D, xs, p) \<in> set requests. \<forall>(D', ys, q) \<in> set requests. xs = ys \<longrightarrow> discovered_order D xs = discovered_order D' xs"
  shows "discover_all H requests [] = Some (map uncached_schema requests)"
proof -
  have tells: "signature_tells H requests" by (rule signature_tells_if) (use assms(2,3) in blast)+
  have "discover_all H rs c = Some (map uncached_schema rs)" if "cache_sound H requests c" "set rs \<subseteq> set requests" for rs c
    using that
  proof (induction rs arbitrary: c)
    case (Cons r rs)
    obtain D bytes p where r: "r = (D, bytes, p)" by (metis prod.exhaust)
    then have m: "(D, bytes, p) \<in> set requests" using Cons.prems by simp
    then obtain names where "length bytes \<le> usize_max" "discovered_order D bytes = Some names" using assms(1) by fastforce
    from discover_step_transparent [OF tells Cons.prems(1) m this] obtain c' where
      "discover_schema_for_bytes H D p bytes c = Some (uncached_schema (D, bytes, p), c')" "cache_sound H requests c'" by blast
    with Cons.IH [of c'] Cons.prems(2) r show ?case by simp
  qed simp
  then show ?thesis by (simp add: cache_sound_def)
qed

theorem cached_discovery_is_transparent_witness:
  "discover_all (\<lambda>_. 0) [(\<lambda>_. Some [''a'', ''b'', ''a''], [newline], plan_new),
       (\<lambda>_. Some [''a'', ''b''], [newline], plan_drop plan_new ''b''), (\<lambda>_. Some [''c''], [newline, newline], plan_new)] [] =
     Some [from_discovered [''a'', ''b''] plan_new, from_discovered [''a'', ''b''] (plan_drop plan_new ''b''),
       from_discovered [''c''] plan_new]"
proof -
  let ?rs = "[(\<lambda>_. Some [''a'', ''b'', ''a''], [newline], plan_new),
       (\<lambda>_. Some [''a'', ''b''], [newline], plan_drop plan_new ''b''), (\<lambda>_. Some [''c''], [newline, newline], plan_new)]"
  have fits: "length bytes \<le> usize_max" if "bytes = [newline] \<or> bytes = [newline, newline]" for bytes
    using that by (auto simp: usize_max_def)
  have sig: "map_option fst (layout_signature (\<lambda>_. 0) bytes default_opts) = Some (length bytes)"
    if "bytes = [newline] \<or> bytes = [newline, newline]" for bytes
    using signature_Some [OF fits [OF that], of "\<lambda>_. 0"] by auto
  have order: "discovered_order (\<lambda>_. Some ns) bytes = Some (first_seen ns)" if "bytes = [newline] \<or> bytes = [newline, newline]" for ns bytes
    using that by (auto simp: small_order default_opts_def)
  have seen: "first_seen [''a'', ''b'', ''a''] = [''a'', ''b'']" "first_seen [''a'', ''b''] = [''a'', ''b'']" "first_seen [''c''] = [''c'']"
    by (simp_all add: first_seen_def)
  have "layout_signature (\<lambda>_. 0) [newline] default_opts \<noteq> layout_signature (\<lambda>_. 0) [newline, newline] default_opts"
    using sig [of "[newline]"] sig [of "[newline, newline]"] by auto
  then have "discover_all (\<lambda>_. 0) ?rs [] = Some (map uncached_schema ?rs)"
    by (intro cached_discovery_is_transparent) (auto simp: fits order seen usize_max_def)
  then show ?thesis by (simp add: uncached_schema_def order seen) (simp add: plan_new_def plan_drop_def)
qed

text \<open>
  Without the last condition the answer is another parser's: on one input the second request is given
  the names the first one found, whatever its own parser would find.
\<close>

lemma cache_ignores_parser:
  assumes "discovered_order D bytes = Some (n # names)" "length bytes \<le> usize_max" "schema_order p = []" "schema_order q = []"
  shows "discover_all H [(D, bytes, p), (D', bytes, q)] [] =
    Some [from_discovered (n # names) p, from_discovered (n # names) q]"
proof -
  obtain k where "layout_signature H bytes default_opts = Some (length bytes, k)" using signature_Some [OF assms(2)] by blast
  with assms show ?thesis
    by (simp add: discover_schema_for_bytes_def discover_schema_def insert_schema_cache_def)
qed

text \<open>
  C36. Whatever the size of the input, a discovered schema has every name the parser gives for a part that is scanned:
  the whole input, or each window and the tail. A name the plan keeps resolves to a column of its
  output name and type, and no raw name makes two columns.
\<close>

theorem discovered_names_resolve:
  assumes "discover_schema D p bytes = Some (s, names)" "part \<in> set (scanned_parts bytes)" "part \<noteq> []"
    and "x \<in> set (the (D part))" "resolve_field p x = Some out"
  shows "distinct names \<and> (\<exists>slot < fs_num_columns s. fs_resolve s x = Some slot \<and> fs_names s ! slot = out \<and> fs_types s ! slot = column_type p out)"
proof -
  from assms(1) have order: "discovered_order D bytes = Some names" and s: "s = (if names = [] then from_plan [] p else from_discovered names p)"
    by (auto simp: discover_schema_def)
  have x: "distinct names" "x \<in> set names" using order_covers [OF order] assms(2-4) by blast+
  then have "s = from_discovered names p" using s by auto
  then have ok: "discovered_ok p names s" using from_discovered_ok by simp
  have types: "fs_types s = map (column_type p) (fs_names s)" using ok by (simp add: discovered_ok_def)
  have entry: "case fs_resolve s x of Some slot \<Rightarrow> slot < length (fs_names s) \<and> resolve_field p x = Some (fs_names s ! slot)
      | None \<Rightarrow> x \<notin> set names \<or> resolve_field p x = None"
    using ok unfolding discovered_ok_def by (auto split: option.splits)
  show ?thesis
  proof (cases "fs_resolve s x")
    case None
    then show ?thesis using entry x(2) assms(5) by simp
  next
    case (Some slot)
    then show ?thesis using entry x(1) assms(5) types by (simp add: fs_num_columns_def)
  qed
qed

theorem discovered_names_resolve_witness:
  "\<exists>s names slot. discover_schema (\<lambda>_. Some [''a'', ''b'', ''a'']) (plan_rename plan_new ''b'' ''c'') [newline] = Some (s, names) \<and>
     fs_resolve s ''b'' = Some slot \<and> fs_names s ! slot = ''c''"
proof -
  let ?D = "\<lambda>_. Some [''a'', ''b'', ''a'']" and ?p = "plan_rename plan_new ''b'' ''c''"
  have "[newline] \<in> set (scanned_parts [newline])" by (simp add: scanned_parts_def default_opts_def Let_def)
  moreover have "resolve_field ?p ''b'' = Some ''c''"
    by (simp add: resolve_field_def renamed_def plan_rename_def plan_new_def)
  moreover obtain s names where "discover_schema ?D ?p [newline] = Some (s, names)"
    by (simp add: discover_schema_def small_order default_opts_def)
  ultimately show ?thesis using discovered_names_resolve [of ?D ?p "[newline]" s names "[newline]" "''b''" "''c''"] by auto
qed

text \<open>A hit of the parallel stream in a full cache evicts another layout: it inserts the order again.\<close>

lemma stream_hit_evicts:
  assumes "length ((old, names) # c) = SCHEMA_CACHE_CAP" "map_of c sig = Some order'" "order' \<noteq> []" "old \<noteq> sig" "map_of c old = None"
    and "layout_signature H bytes default_opts = Some sig" "schema_order p = []"
  shows "\<exists>s cache. stream_schema H D None p bytes ((old, names) # c) = Some (Inr (s, cache)) \<and> map_of cache old = None"
proof -
  have "AList.delete old c = c" using assms(5) by (simp add: map_of_eq_None_iff)
  then show ?thesis
    using assms by (auto simp: stream_schema_def insert_schema_cache_def map_of_update)
qed

end
