(* ===== verification/Iterators.thy ===== *)
theory Iterators
  imports Spill_Laws
begin

text \<open>
  The pull iterators over a stream that runs in a thread of its own (\<open>streaming.rs\<close>, the end of
  \<open>parallel_stream.rs\<close>). The channel between them is first in, first out, and the consumer in the
  thread waits while it is full; what counts for the reader is the list of messages it will
  receive until the last sender is gone, and how the thread ended.
\<close>

section \<open>The sending side\<close>

definition disconnected :: error where
  "disconnected = Parser_error ''stream consumer disconnected''"

text \<open>
  \<open>ChannelConsumer\<close>: every batch is sent; once the reader is gone, after \<open>k\<close> batches say, sending
  fails.
\<close>

definition channel_consume :: "nat option \<Rightarrow> record_batch list \<Rightarrow> record_batch \<Rightarrow> unit result" where
  "channel_consume gone sent b =
     (case gone of None \<Rightarrow> Inr () | Some k \<Rightarrow> if k \<le> length sent then Inl disconnected else Inr ())"

text \<open>The batches, and the error the run returned, if it did.\<close>

definition worker_messages :: "record_batch list \<Rightarrow> unit result option \<Rightarrow> record_batch result list" where
  "worker_messages bs ended = map Inr bs @ (case ended of Some (Inl err) \<Rightarrow> [Inl err] | _ \<Rightarrow> [])"

section \<open>The iterators\<close>

text \<open>\<open>handle\<close> holds whether the thread panicked, until it is joined.\<close>

record batch_iterator =
  inbox :: "record_batch result list"
  handle :: "bool option"
  it_done :: bool

definition iterator_new :: "record_batch list \<Rightarrow> unit result option \<Rightarrow> batch_iterator" where
  "iterator_new bs ended = \<lparr>inbox = worker_messages bs ended, handle = Some (ended = None), it_done = False\<rparr>"

definition streaming_panic :: error where
  "streaming_panic = Parser_error ''streaming worker panicked''"

definition parallel_panic :: error where
  "parallel_panic = Parser_error ''parallel streaming worker panicked''"

definition serial_next :: "batch_iterator \<Rightarrow> record_batch result option \<times> batch_iterator" where
  "serial_next it =
     (if it_done it then (None, it)
      else case inbox it of
          r # rest \<Rightarrow> (Some r, it\<lparr>inbox := rest\<rparr>)
        | [] \<Rightarrow> (if handle it = Some True then Some (Inl streaming_panic) else None, it\<lparr>it_done := True, handle := None\<rparr>))"

definition parallel_next :: "batch_iterator \<Rightarrow> record_batch result option \<times> batch_iterator" where
  "parallel_next it =
     (if it_done it then (None, it)
      else case inbox it of
          Inr b # rest \<Rightarrow> (Some (Inr b), it\<lparr>inbox := rest\<rparr>)
        | Inl err # rest \<Rightarrow> (Some (Inl err), it\<lparr>inbox := rest, it_done := True\<rparr>)
        | [] \<Rightarrow> (if handle it = Some True then Some (Inl parallel_panic) else None, it\<lparr>it_done := True, handle := None\<rparr>))"

fun pull :: "(batch_iterator \<Rightarrow> record_batch result option \<times> batch_iterator) \<Rightarrow> nat \<Rightarrow> batch_iterator \<Rightarrow>
    record_batch result option list" where
  "pull step 0 it = []"
| "pull step (Suc n) it = (case step it of (r, it) \<Rightarrow> r # pull step n it)"

text \<open>
  \<open>StreamingBatchIterator::new_bytes\<close>: the run has half of the budget. The result is \<open>None\<close> where
  the sink is lost, with the batches it had handed over: a panic, or a builder that does not fit.
\<close>

definition stream_bytes ::
    "env \<Rightarrow> sink_parser \<Rightarrow> execution_plan \<Rightarrow> memory_budget \<Rightarrow> splitter \<Rightarrow> (record_batch \<Rightarrow> nat) \<Rightarrow> nat option \<Rightarrow> string \<Rightarrow>
     batch_iterator option" where
  "stream_bytes E P p b S sizes gone bytes =
     (case run_slice_spill E P p (budget_share b 2) S sizes (channel_consume gone) bytes (ledger_new (budget_share b 2)) no_stats of
        Some (r, Some s) \<Rightarrow> Some (iterator_new (taken s) (Some r))
      | Some (Inr _, None) \<Rightarrow> Some (iterator_new [] (Some (Inr ())))
      | _ \<Rightarrow> None)"

section \<open>What the reader sees\<close>

text \<open>What comes after the batches.\<close>

definition last_item :: "error \<Rightarrow> unit result option \<Rightarrow> record_batch result option list" where
  "last_item panic ended =
     (case ended of None \<Rightarrow> [Some (Inl panic)] | Some (Inl err) \<Rightarrow> [Some (Inl err)] | Some (Inr _) \<Rightarrow> [])"

lemma serial_steps:
  "it_done it \<Longrightarrow> serial_next it = (None, it)"
  "\<not> it_done it \<Longrightarrow> inbox it = r # rs \<Longrightarrow> serial_next it = (Some r, it\<lparr>inbox := rs\<rparr>)"
  "\<not> it_done it \<Longrightarrow> inbox it = [] \<Longrightarrow>
     serial_next it = (if handle it = Some True then Some (Inl streaming_panic) else None, it\<lparr>it_done := True, handle := None\<rparr>)"
  by (simp_all add: serial_next_def)

lemma parallel_steps:
  "it_done it \<Longrightarrow> parallel_next it = (None, it)"
  "\<not> it_done it \<Longrightarrow> inbox it = Inr b # rs \<Longrightarrow> parallel_next it = (Some (Inr b), it\<lparr>inbox := rs\<rparr>)"
  "\<not> it_done it \<Longrightarrow> inbox it = Inl e # rs \<Longrightarrow> parallel_next it = (Some (Inl e), it\<lparr>inbox := rs, it_done := True\<rparr>)"
  "\<not> it_done it \<Longrightarrow> inbox it = [] \<Longrightarrow>
     parallel_next it = (if handle it = Some True then Some (Inl parallel_panic) else None, it\<lparr>it_done := True, handle := None\<rparr>)"
  by (simp_all add: parallel_next_def)

lemma pull_done:
  "it_done it \<Longrightarrow> pull serial_next n it = replicate n None" "it_done it \<Longrightarrow> pull parallel_next n it = replicate n None"
  by (induction n) (simp_all add: serial_steps parallel_steps)

lemma take_more: "take n (xs @ replicate n None) = take n (xs @ None # replicate n None)"
proof -
  have "replicate (n - length xs) None = take (n - length xs) (replicate (Suc n) None)" by (simp del: replicate_Suc)
  then show ?thesis by simp
qed

lemma take_nones: "take n (None # replicate n None) = replicate n None"
  by (rule sym) (use take_more [of n "[]"] in simp)

lemma pull_serial:
  "\<lbrakk>inbox it = rs; handle it = Some panicked; \<not> it_done it\<rbrakk> \<Longrightarrow>
     pull serial_next n it = take n (map Some rs @ (if panicked then [Some (Inl streaming_panic)] else []) @ replicate n None)"
proof (induction rs arbitrary: n it)
  case Nil
  then show ?case by (cases n) (simp_all add: serial_steps pull_done take_nones)
next
  case (Cons r rs)
  show ?case
  proof (cases n)
    case (Suc k)
    then have "pull serial_next n it = Some r # pull serial_next k (it\<lparr>inbox := rs\<rparr>)"
      using Cons.prems by (simp add: serial_steps)
    also have "pull serial_next k (it\<lparr>inbox := rs\<rparr>) =
        take k ((map Some rs @ (if panicked then [Some (Inl streaming_panic)] else [])) @ replicate k None)"
      using Cons.IH [of "it\<lparr>inbox := rs\<rparr>" k] Cons.prems by simp
    finally show ?thesis unfolding take_more [of k] using Suc by simp
  qed simp
qed

lemma pull_parallel:
  "\<lbrakk>inbox it = map Inr bs @ errs; errs = [] \<or> (\<exists>e. errs = [Inl e] \<and> \<not> panicked); handle it = Some panicked; \<not> it_done it\<rbrakk> \<Longrightarrow>
     pull parallel_next n it =
       take n (map Some (map Inr bs @ errs) @ (if panicked then [Some (Inl parallel_panic)] else []) @ replicate n None)"
proof (induction bs arbitrary: n it)
  case Nil
  then show ?case by (cases n) (auto simp: parallel_steps pull_done take_nones)
next
  case (Cons b bs)
  show ?case
  proof (cases n)
    case (Suc k)
    then have "pull parallel_next n it = Some (Inr b) # pull parallel_next k (it\<lparr>inbox := map Inr bs @ errs\<rparr>)"
      using Cons.prems by (simp add: parallel_steps)
    also have "pull parallel_next k (it\<lparr>inbox := map Inr bs @ errs\<rparr>) =
        take k ((map Some (map Inr bs @ errs) @ (if panicked then [Some (Inl parallel_panic)] else [])) @ replicate k None)"
      using Cons.IH [of "it\<lparr>inbox := map Inr bs @ errs\<rparr>" k] Cons.prems by simp
    finally show ?thesis unfolding take_more [of k] using Suc by simp
  qed simp
qed

text \<open>
  Both iterators give the batches in the order they were sent, then the error of the run or of its
  panic, once, and from then on nothing, however often they are asked.
\<close>

lemma iterators_are_fused:
  "pull serial_next n (iterator_new bs ended) = take n (map (\<lambda>b. Some (Inr b)) bs @ last_item streaming_panic ended @ replicate n None) \<and>
   pull parallel_next n (iterator_new bs ended) = take n (map (\<lambda>b. Some (Inr b)) bs @ last_item parallel_panic ended @ replicate n None)"
proof -
  let ?errs = "case ended of Some (Inl err) \<Rightarrow> [Inl err] | _ \<Rightarrow> []"
  have "pull serial_next n (iterator_new bs ended) =
      take n (map Some (map Inr bs @ ?errs) @ (if ended = None then [Some (Inl streaming_panic)] else []) @ replicate n None)"
    by (rule pull_serial) (simp_all add: iterator_new_def worker_messages_def)
  moreover have "pull parallel_next n (iterator_new bs ended) =
      take n (map Some (map Inr bs @ ?errs) @ (if ended = None then [Some (Inl parallel_panic)] else []) @ replicate n None)"
    by (rule pull_parallel) (auto simp: iterator_new_def worker_messages_def split: option.splits sum.splits)
  ultimately show ?thesis
    by (auto simp: last_item_def comp_def split: option.splits sum.splits)
qed

text \<open>
  C37. A reader that pulls from a stream over bytes gets batches that hold consecutive segments of the
  records' rows, all rows once and in order, no batch longer than planned for half of the budget,
  and then the end of the iteration, for good.

  The conditions. The plan has no filter, no strict types, and at least a column to show (\<open>has_columns\<close>). The budget is
  not strict: a strict one can end the stream with a memory error. The input is not empty and shorter than
  \<open>2 ^ 31 - 2\<close> bytes, the parser puts the fields of its records into the sink, and the values fit (\<open>spill_fits\<close>). Every
  record fills a cell: the batch of a first record without a cell is lost when it is spilled alone. The reader
  takes every message; one that hangs up ends the run with an error.
\<close>

theorem pulled_stream_is_sequential:
  assumes "bytes \<noteq> []" "plan_filter p = None" "\<not> strict_types p" "has_columns p" "\<not> is_strict b"
    and "parses_into E f (spill_setup_of (budget_share b 2) S sizes (channel_consume None) bytes) P"
    and "spill_fits E (spill_setup_of (budget_share b 2) S sizes (channel_consume None) bytes) (lines_records f bytes)
           (snd (spill_start E p (spill_setup_of (budget_share b 2) S sizes (channel_consume None) bytes)
              (ledger_new (budget_share b 2)) no_stats))"
    and "\<forall>r \<in> set (rows_of E p (lines_records f bytes)). some_cell r" "length bytes + 2 < 2 ^ 31"
  shows "\<exists>it bs segs. stream_bytes E P p b S sizes None bytes = Some it \<and>
    (\<forall>n. pull serial_next n it = take n (map (\<lambda>b. Some (Inr b)) bs @ replicate n None)) \<and>
    concat segs = rows_of E p (lines_records f bytes) \<and> list_all2 (batch_holds p) bs segs \<and>
    (\<forall>seg \<in> set segs. seg \<noteq> [] \<and>
       length seg \<le> rows_per_batch (spill_setup_of (budget_share b 2) S sizes (channel_consume None) bytes))"
proof -
  have b: "\<not> is_strict (budget_share b 2)" using assms(5) by (simp add: budget_share_def)
  have eat: "\<forall>bs x. channel_consume None bs x = Inr ()" by (simp add: channel_consume_def)
  obtain s segs where s: "run_slice_spill E P p (budget_share b 2) S sizes (channel_consume None) bytes
        (ledger_new (budget_share b 2)) no_stats = Some (Inr (), Some s)"
    "concat segs = rows_of E p (lines_records f bytes)" "list_all2 (batch_holds p) (taken s) segs"
    "\<forall>seg \<in> set segs. seg \<noteq> [] \<and>
       length seg \<le> rows_per_batch (spill_setup_of (budget_share b 2) S sizes (channel_consume None) bytes)"
    using spilled_segments [OF assms(1-4) b eat assms(6-9)] by (elim exE conjE) (rule that)
  have "stream_bytes E P p b S sizes None bytes = Some (iterator_new (taken s) (Some (Inr ())))"
    by (simp add: stream_bytes_def s(1))
  moreover have "pull serial_next n (iterator_new (taken s) (Some (Inr ()))) =
      take n (map (\<lambda>b. Some (Inr b)) (taken s) @ replicate n None)" for n
    using iterators_are_fused [of n "taken s" "Some (Inr ())"] by (simp add: last_item_def)
  ultimately show ?thesis using s(2-4) by blast
qed

theorem pulled_stream_is_sequential_witness:
  "\<exists>it bs segs. stream_bytes sample_env (line_sink_parser sample_env sample_setup) chunked_plan (budget_new 256) line_splitter (\<lambda>_. 0) None
      [newline, newline] = Some it \<and>
    (\<forall>n. pull serial_next n it = take n (map (\<lambda>b. Some (Inr b)) bs @ replicate n None)) \<and>
    concat segs = [no_cells(''b'' := Some (TV_Int64 1)), no_cells(''b'' := Some (TV_Int64 1))] \<and>
    list_all2 (batch_holds chunked_plan) bs segs"
proof -
  have Z: "spill_setup_of (budget_share (budget_new 256) 2) line_splitter (\<lambda>_. 0) (channel_consume None) [newline, newline] = sample_setup"
  proof -
    have "budget_share (budget_new 256) 2 = budget_new 128" by (simp add: budget_share_def budget_new_def max_def)
    moreover have "channel_consume None = (\<lambda>_ _. Inr ())" by (simp add: channel_consume_def [abs_def])
    ultimately show ?thesis by (simp only: sample_setup_def)
  qed
  have n: "[newline, newline] \<noteq> []" "\<not> is_strict (budget_new 256)" "length [newline, newline] + 2 < 2 ^ 31"
    by (simp_all add: budget_new_def)
  have "\<exists>it bs segs. stream_bytes sample_env (line_sink_parser sample_env sample_setup) chunked_plan (budget_new 256) line_splitter (\<lambda>_. 0) None
      [newline, newline] = Some it \<and>
    (\<forall>n. pull serial_next n it = take n (map (\<lambda>b. Some (Inr b)) bs @ replicate n None)) \<and>
    concat segs = rows_of sample_env chunked_plan (lines_records length_line [newline, newline]) \<and>
    list_all2 (batch_holds chunked_plan) bs segs \<and>
    (\<forall>seg \<in> set segs. seg \<noteq> [] \<and> length seg \<le>
       rows_per_batch (spill_setup_of (budget_share (budget_new 256) 2) line_splitter (\<lambda>_. 0) (channel_consume None) [newline, newline]))"
    by (rule pulled_stream_is_sequential [OF n(1) chunked_plan_simps(1,2) sample_columns n(2) _ _ sample_cells n(3)])
      (unfold Z, rule sample_parses, rule sample_fits)
  then show ?thesis unfolding sample_rows(1) by blast
qed

end
