(* ===== verification/Engine_Choice.thy ===== *)
theory Engine_Choice
  imports Filter_Specs Scalar
begin

text \<open>
  The choice of an execution mode (\<open>auto.rs\<close>) and its Python entry point with the parsing of memory
  sizes (\<open>resolve_engine\<close>, \<open>parse_memory_string\<close> in \<open>lib.rs\<close> of rypipe-python).
\<close>

section \<open>The heuristic\<close>

datatype engine_mode = Columnar | Parallel_Mode | Stream_Mode | Parallel_Streaming

fun mode_as_str :: "engine_mode \<Rightarrow> string" where
  "mode_as_str Columnar = ''columnar''"
| "mode_as_str Parallel_Mode = ''parallel''"
| "mode_as_str Stream_Mode = ''stream''"
| "mode_as_str Parallel_Streaming = ''parallel_streaming''"

record auto_config =
  file_size :: nat
  memory :: "nat option"
  threads :: "nat option"
  auto_schema :: "string list option"
  has_parallel :: bool
  has_columnar :: bool

definition resolve_engine :: "auto_config \<Rightarrow> engine_mode" where
  "resolve_engine c =
     (let n = (case threads c of None \<Rightarrow> 1 | Some n \<Rightarrow> n)
      in if memory c \<noteq> None then (if 1 < n then Parallel_Streaming else Stream_Mode)
         else if 1 < n then (if 100 * 1024 * 1024 \<le> file_size c then Parallel_Streaming else Parallel_Mode)
         else if auto_schema c \<noteq> None \<and> 100 * 1024 * 1024 \<le> file_size c then Stream_Mode
         else if file_size c < 8 * 1024 * 1024 then (if has_columnar c then Columnar else Stream_Mode)
         else if has_parallel c then Parallel_Mode
         else Stream_Mode)"

section \<open>Memory sizes\<close>

text \<open>How far the digits with at most one point go.\<close>

fun number_end :: "bool \<Rightarrow> string \<Rightarrow> nat" where
  "number_end seen_dot [] = 0"
| "number_end seen_dot (c # s) =
     (if c = CHR ''.'' \<and> \<not> seen_dot then Suc (number_end True s)
      else if is_ascii_digit c then Suc (number_end seen_dot s) else 0)"

definition unit_multiplier :: "string \<Rightarrow> nat option" where
  "unit_multiplier u =
     (if u = '''' \<or> u = ''B'' then Some 1
      else if u = ''KB'' then Some 1000
      else if u = ''MB'' then Some 1000000
      else if u = ''GB'' then Some 1000000000
      else if u = ''TB'' then Some 1000000000000
      else if u = ''KIB'' then Some 1024
      else if u = ''MIB'' then Some (1024 * 1024)
      else if u = ''GIB'' then Some (1024 * 1024 * 1024)
      else if u = ''TIB'' then Some (1024 * 1024 * 1024 * 1024)
      else None)"

definition f64_is_finite :: "f64 \<Rightarrow> bool" where
  "f64_is_finite x = (case x of Finite _ _ _ \<Rightarrow> True | _ \<Rightarrow> False)"

definition parse_memory_string :: "externals \<Rightarrow> string \<Rightarrow> nat py_result" where
  "parse_memory_string X text =
     (let s = trim text; n = number_end False s;
          (num_str, unit_str) = (if 0 < n then (take n s, trim (drop n s)) else (''1'', trim s))
      in if s = [] then Inl (Value_err ''empty memory string'')
         else case parse_f64 num_str of
             None \<Rightarrow> Inl (Value_err ''invalid memory value'')
           | Some num \<Rightarrow>
               if \<not> f64_is_finite num \<or> f64_le num (f64_of_int 0)
               then Inl (Value_err ''memory value must be a positive finite number'')
               else case unit_multiplier (to_uppercase X unit_str) of
                   None \<Rightarrow> Inl (Value_err ''unknown memory unit'')
                 | Some m \<Rightarrow> Inr (f64_as_usize (f64_mul num (f64_of_int (int m)))))"

text \<open>\<open>extract::<u64>\<close> takes booleans and integers in range.\<close>

definition extract_u64 :: "py \<Rightarrow> nat option" where
  "extract_u64 v =
     (case v of
        PyInt n \<Rightarrow> if 0 \<le> n \<and> n < 2 ^ 64 then Some (nat n) else None
      | PyBool b \<Rightarrow> Some (if b then 1 else 0)
      | _ \<Rightarrow> None)"

definition memory_argument :: "externals \<Rightarrow> py \<Rightarrow> nat option py_result" where
  "memory_argument X v =
     (case v of
        PyNone \<Rightarrow> Inr None
      | _ \<Rightarrow>
         (case extract_u64 v of
            Some n \<Rightarrow> Inr (Some n)
          | None \<Rightarrow>
             (case v of
                PyStr s \<Rightarrow> and_then (parse_memory_string X s) (\<lambda>n. Inr (Some n))
              | _ \<Rightarrow> Inl (Value_err ''memory must be a string or int''))))"

definition resolve_engine_py ::
    "externals \<Rightarrow> nat \<Rightarrow> py \<Rightarrow> nat option \<Rightarrow> string list option \<Rightarrow> bool \<Rightarrow> bool \<Rightarrow> string py_result" where
  "resolve_engine_py X len mem n names par col =
     and_then (memory_argument X mem) (\<lambda>bytes.
     and_then (guard_plan (n \<noteq> Some 0) ''threads must be >= 1'') (\<lambda>_.
       Inr (mode_as_str (resolve_engine
         \<lparr>file_size = len, memory = bytes, threads = n, auto_schema = names, has_parallel = par, has_columnar = col\<rparr>))))"

section \<open>Exact arithmetic\<close>

lemma bit_len_bounds: "0 < n \<Longrightarrow> 2 ^ (bit_len n - 1) \<le> n \<and> n < 2 ^ bit_len n \<and> 0 < bit_len n"
proof (induction n rule: bit_len.induct)
  case (1 n)
  show ?case
  proof (cases "n div 2 = 0")
    case True
    then have "n = 1" using 1(2) by simp
    then show ?thesis by (simp add: bit_len.simps)
  next
    case False
    have ih: "2 ^ (bit_len (n div 2) - 1) \<le> n div 2" "n div 2 < 2 ^ bit_len (n div 2)" "0 < bit_len (n div 2)"
      using 1 False by auto
    then obtain k where k: "bit_len (n div 2) = Suc k" by (cases "bit_len (n div 2)") auto
    have "2 * 2 ^ k \<le> n" "n < 4 * 2 ^ k" using ih(1,2) unfolding k by simp_all
    then show ?thesis using 1(2) k by (simp add: bit_len.simps [of n])
  qed
qed

lemma bit_len_shift: "0 < n \<Longrightarrow> bit_len (n * 2 ^ k) = bit_len n + k"
proof (induction k)
  case (Suc k)
  have "bit_len (n * 2 ^ Suc k) = Suc (bit_len (n * 2 ^ Suc k div 2))"
    using Suc.prems by (subst bit_len.simps) simp
  also have "n * 2 ^ Suc k div 2 = n * 2 ^ k" by simp
  finally show ?case using Suc by simp
qed simp

lemma bit_len_le: "n < 2 ^ k \<Longrightarrow> bit_len n \<le> k"
proof (cases "n = 0")
  case False
  assume "n < 2 ^ k"
  moreover have "2 ^ (bit_len n - 1) \<le> n" using False bit_len_bounds by simp
  ultimately have "(2::nat) ^ (bit_len n - 1) < 2 ^ k" by (rule order_le_less_trans [rotated])
  then show ?thesis by (simp add: power_strict_increasing_iff)
qed (simp add: bit_len.simps)

text \<open>A whole number below \<open>2 ^ 53\<close>, given over any power of two, rounds to itself.\<close>

lemma f64_round_exact:
  assumes "0 < v" "v < 2 ^ 53"
  shows "f64_round s (v * 2 ^ k) (2 ^ k) = Finite s (v * 2 ^ (53 - bit_len v)) (int (bit_len v) - 53)"
proof -
  define l where "l = bit_len v"
  have l: "0 < l" "l \<le> 53" "2 ^ (l - 1) \<le> v" "v < 2 ^ l"
    using bit_len_bounds [OF assms(1)] bit_len_le [OF assms(2)] by (simp_all add: l_def)
  have lens: "bit_len (v * 2 ^ k) = l + k" "bit_len (2 ^ k) = Suc k"
    using bit_len_shift [OF assms(1), of k] bit_len_shift [of 1 k] by (simp_all add: l_def bit_len.simps)
  obtain p where p: "l = Suc p" using l(1) by (cases l) auto
  have d: "int (bit_len (v * 2 ^ k)) - int (bit_len (2 ^ k)) = int p" by (simp add: lens p)
  have "(2 :: nat) ^ k * 2 ^ p \<le> v * 2 ^ k" using l(3) by (simp add: p mult.commute)
  then have e: "max (if (if 0 \<le> int p then 2 ^ k * 2 ^ nat (int p) \<le> v * 2 ^ k else 2 ^ k \<le> v * 2 ^ k * 2 ^ nat (- int p))
      then int p - 52 else int p - 53) (- 1074) = int l - 53" by (simp add: p)
  have m: "(if 0 \<le> int l - 53 then round_even_div (v * 2 ^ k) (2 ^ k * 2 ^ nat (int l - 53))
      else round_even_div (v * 2 ^ k * 2 ^ nat (- (int l - 53))) (2 ^ k)) = v * 2 ^ (53 - l)"
  proof (cases "l = 53")
    case False
    then have "nat (- (int l - 53)) = 53 - l" "\<not> 0 \<le> int l - 53" using l(2) by simp_all
    moreover have "v * 2 ^ k * 2 ^ (53 - l) = (v * 2 ^ (53 - l)) * 2 ^ k" by simp
    ultimately show ?thesis by (simp only: if_False round_even_div_def) simp
  qed (simp add: round_even_div_def)
  have "v * 2 ^ (53 - l) < 2 ^ l * 2 ^ (53 - l)" using l(4) by simp
  also have "\<dots> = 2 ^ 53" using l(2) by (simp flip: power_add)
  finally have small: "v * 2 ^ (53 - l) < 2 ^ 53" .
  have "f64_round s (v * 2 ^ k) (2 ^ k) = Finite s (v * 2 ^ (53 - l)) (int l - 53)"
    unfolding f64_round_def d Let_def e m using assms(1) small l(2) by simp
  then show ?thesis by (simp add: l_def)
qed

lemma f64_of_small: "0 < v \<Longrightarrow> v < 2 ^ 53 \<Longrightarrow> f64_of_int (int v) = Finite False (v * 2 ^ (53 - bit_len v)) (int (bit_len v) - 53)"
  using f64_round_exact [of v False 0] by (simp add: f64_of_int_def)

lemma f64_mul_exact:
  assumes "0 < v" "0 < w" "v * w < 2 ^ 53"
  shows "f64_as_usize (f64_mul (f64_of_int (int v)) (f64_of_int (int w))) = v * w"
proof -
  have b: "v < 2 ^ 53" "w < 2 ^ 53"
    using mult_le_mono [of v v 1 w] mult_le_mono [of 1 v w w] assms by linarith+
  let ?i = "53 - bit_len v" and ?j = "53 - bit_len w"
  have len: "bit_len v \<le> 53" "bit_len w \<le> 53" using bit_len_le b by blast+
  have exps: "int (bit_len v) - 53 + (int (bit_len w) - 53) = - int (?i + ?j)" using len by simp
  have prod: "v * 2 ^ ?i * (w * 2 ^ ?j) = v * w * 2 ^ (?i + ?j)" by (simp add: power_add)
  have "f64_mul (f64_of_int (int v)) (f64_of_int (int w)) = f64_round False (v * w * 2 ^ (?i + ?j)) (2 ^ (?i + ?j))"
  proof (cases "?i + ?j = 0")
    case True
    then have "bit_len v = 53" "bit_len w = 53" using len by simp_all
    then show ?thesis using assms(1,2) unfolding f64_of_small [OF assms(1) b(1)] f64_of_small [OF assms(2) b(2)] by simp
  next
    case False
    then have "\<not> 0 \<le> - int (?i + ?j)" by linarith
    moreover have "nat (- (- int (?i + ?j))) = ?i + ?j" by (simp only: minus_minus nat_int)
    ultimately show ?thesis using assms(1,2) unfolding f64_of_small [OF assms(1) b(1)] f64_of_small [OF assms(2) b(2)]
      by (simp only: f64_mul.simps exps prod) simp
  qed
  also have "\<dots> = Finite False (v * w * 2 ^ (53 - bit_len (v * w))) (int (bit_len (v * w)) - 53)"
    using assms by (intro f64_round_exact) simp_all
  finally have mul: "f64_mul (f64_of_int (int v)) (f64_of_int (int w)) =
      Finite False (v * w * 2 ^ (53 - bit_len (v * w))) (int (bit_len (v * w)) - 53)" .
  have "trunc_nat (v * w * 2 ^ (53 - bit_len (v * w))) (int (bit_len (v * w)) - 53) = v * w"
  proof (cases "bit_len (v * w) = 53")
    case False
    then have "\<not> 0 \<le> int (bit_len (v * w)) - 53" "nat (- (int (bit_len (v * w)) - 53)) = 53 - bit_len (v * w)"
      using bit_len_le [OF assms(3)] by simp_all
    then show ?thesis by (simp add: trunc_nat_def)
  qed (simp add: trunc_nat_def)
  then show ?thesis using assms(3) by (simp add: mul usize_max_def)
qed

section \<open>Sizes read back\<close>

lemma number_end_digits:
  "list_all is_ascii_digit ds \<Longrightarrow> u = [] \<or> \<not> is_ascii_digit (hd u) \<and> hd u \<noteq> CHR ''.'' \<Longrightarrow> number_end seen (ds @ u) = length ds"
proof (induction ds)
  case Nil
  then show ?case by (cases u) auto
next
  case (Cons d ds)
  moreover from this have "d \<noteq> CHR ''.''" by (auto simp: is_ascii_digit_def byte_of_def)
  ultimately show ?case by simp
qed

lemma parse_f64_digits:
  assumes "list_all is_ascii_digit ds" "ds \<noteq> []"
  shows "parse_f64 ds = Some (f64_of_int (int (digits_val ds)))"
proof -
  obtain c t where ds: "ds = c # t" using assms(2) by (cases ds) auto
  then have c: "is_ascii_digit c" using assms(1) by simp
  then have sign: "c \<noteq> CHR ''-''" "c \<noteq> CHR ''+''" by (auto simp: is_ascii_digit_def byte_of_def)
  have low: "lower_ascii ds = ds"
    using assms(1) unfolding lower_ascii_def list_all_iff is_ascii_digit_def by (intro map_idI) fastforce
  have word: "ds \<noteq> ''inf''" "ds \<noteq> ''infinity''" "ds \<noteq> ''nan''" using c by (auto simp: ds is_ascii_digit_def byte_of_def)
  have tw: "takeWhile is_ascii_digit ds = ds" "dropWhile is_ascii_digit ds = []"
    using assms(1) by (simp_all add: list_all_iff takeWhile_eq_all_conv dropWhile_eq_Nil_conv)
  have "parse_unsigned_f64 False ds = Some (f64_of_int (int (digits_val ds)))"
    using assms(2) by (simp add: parse_unsigned_f64_def tw f64_of_decimal_def f64_of_int_def)
  then show ?thesis using sign low word by (auto simp: parse_f64_def ds Let_def)
qed

definition memory_units :: "(string \<times> nat) list" where
  "memory_units = [([], 1), (''B'', 1), (''KB'', 1000), (''MB'', 1000000), (''GB'', 1000000000), (''TB'', 1000000000000),
     (''KiB'', 2 ^ 10), (''MiB'', 2 ^ 20), (''GiB'', 2 ^ 30), (''TiB'', 2 ^ 40)]"

text \<open>What the unit parser relies on: upper case of ASCII text.\<close>

definition uppercases :: "externals \<Rightarrow> bool" where
  "uppercases X \<longleftrightarrow> (\<forall>s. (\<forall>c \<in> set s. byte_of c < 128) \<longrightarrow>
     to_uppercase X s = map (\<lambda>c. if 97 \<le> byte_of c \<and> byte_of c \<le> 122 then char_of (byte_of c - 32) else c) s)"

lemma unit_letters:
  assumes "(u, m) \<in> set memory_units"
  shows "0 < m" "u = [] \<or> \<not> is_ascii_digit (hd u) \<and> hd u \<noteq> CHR ''.''" "\<forall>c \<in> set u. 33 \<le> byte_of c \<and> byte_of c < 128"
    "unit_multiplier (map (\<lambda>c. if 97 \<le> byte_of c \<and> byte_of c \<le> 122 then char_of (byte_of c - 32) else c) u) = Some m"
  using assms by (auto simp: memory_units_def is_ascii_digit_def byte_of_def unit_multiplier_def char_of_def bit_Suc_0_iff)

lemma unit_facts:
  assumes "(u, m) \<in> set memory_units" "uppercases X"
  shows "unit_multiplier (to_uppercase X u) = Some m" "trim u = u"
proof -
  note l = unit_letters [OF assms(1)]
  show "unit_multiplier (to_uppercase X u) = Some m" using assms(2) l(3,4) by (simp add: uppercases_def)
  show "trim u = u"
  proof (cases "u = []")
    case True
    then show ?thesis by (simp add: trim_def trim_start_id trim_end_id)
  next
    case False
    then show ?thesis using l(3) by (intro trim_id) auto
  qed
qed

text \<open>
  C38. A memory size written as a whole number above zero and a unit reads back as exactly that many bytes,
  although the code computes it in floating point, as long as it is below \<open>2 ^ 53\<close>. The units are the
  ones the code knows, with its meaning: none and \<open>B\<close> are one byte, \<open>KB\<close>, \<open>MB\<close>, \<open>GB\<close> and \<open>TB\<close> are powers of 1000, and
  \<open>KiB\<close>, \<open>MiB\<close>, \<open>GiB\<close> and \<open>TiB\<close> powers of 1024. (The streaming guide says that both forms are powers of 1024; the code
  and its Python counterpart tell them apart.) What is assumed of the standard library is that \<open>to_uppercase\<close>
  raises the letters of ASCII text.
\<close>

theorem memory_size_roundtrip:
  assumes "(u, m) \<in> set memory_units" "0 < n" "n * m < 2 ^ 53" "uppercases X"
  shows "parse_memory_string X (nat_to_string n @ u) = Inr (n * m)"
proof -
  note u = unit_letters [OF assms(1)]
  let ?d = "nat_to_string n"
  have d: "list_all is_ascii_digit ?d" "?d \<noteq> []" by simp_all
  have "\<forall>c \<in> set (?d @ u). 33 \<le> byte_of c \<and> byte_of c < 128"
    using d(1) u(3) by (auto simp: list_all_iff is_ascii_digit_def)
  then have "trim (?d @ u) = ?d @ u"
    using d(2) by (intro trim_id) (metis append_is_Nil_conv hd_in_set last_in_set)+
  moreover have "number_end False (?d @ u) = length ?d" by (rule number_end_digits [OF d(1) u(2)])
  moreover have "parse_f64 ?d = Some (f64_of_int (int n))" using parse_f64_digits [OF d] by simp
  moreover have small: "n < 2 ^ 53" using mult_le_mono [of n n 1 m] u(1) assms(3) by linarith
  moreover have "f64_is_finite (f64_of_int (int n))" "\<not> f64_le (f64_of_int (int n)) (f64_of_int 0)"
    unfolding f64_of_small [OF assms(2) small]
    using assms(2) by (auto simp: f64_is_finite_def f64_le_def f64_ge_def f64_of_int_def f64_round_def scaled_def mult_less_0_iff)
  ultimately show ?thesis
    using unit_facts [OF assms(1,4)] d(2) f64_mul_exact [OF assms(2) u(1) assms(3)] by (simp add: parse_memory_string_def)
qed

theorem memory_size_roundtrip_witness:
  "parse_memory_string sample_externals ''64MiB'' = Inr (64 * 2 ^ 20)"
proof -
  have "nat_to_string 64 = ''64''" by (simp add: nat_to_string.simps digit_char_def char_of_def bit_Suc_0_iff)
  moreover have "uppercases sample_externals" by (simp add: uppercases_def sample_externals_def)
  ultimately show ?thesis
    using memory_size_roundtrip [of "''MiB''" "2 ^ 20" 64 sample_externals] by (simp add: memory_units_def)
qed

section \<open>What is chosen\<close>

text \<open>A memory limit always chooses a streaming mode, and an adapter without columnar reads is never asked for one.\<close>

lemma memory_limit_streams:
  "memory c \<noteq> None \<Longrightarrow> resolve_engine c \<in> {Stream_Mode, Parallel_Streaming}"
  "\<not> has_columnar c \<Longrightarrow> resolve_engine c \<noteq> Columnar"
  by (auto simp: resolve_engine_def Let_def)

text \<open>More than one thread chooses a parallel mode also for an adapter that has none.\<close>

lemma threads_ignore_support:
  "threads c = Some n \<Longrightarrow> 1 < n \<Longrightarrow> resolve_engine c \<in> {Parallel_Mode, Parallel_Streaming}"
  by (auto simp: resolve_engine_def)

end
