(* ===== verification/String_Cast.thy ===== *)
theory String_Cast
  imports Table_Properties Filter_Specs
begin

text \<open>
  Casting a column of strings to a declared type (\<open>_cast_strings\<close> and \<open>py_err_from_rypipe\<close> in \<open>lib.rs\<close> of
  rypipe-python): the strings go through the table builder as a single strict column. The table
  that comes in is its column types and the cells of each batch.
\<close>

section \<open>Errors for Python\<close>

fun py_err_from_rypipe :: "error \<Rightarrow> py_error" where
  "py_err_from_rypipe (Utf8_error e) = Parse_err e"
| "py_err_from_rypipe (Plan_error msg) = Plan_err msg"
| "py_err_from_rypipe (Memory_error used limit) = Memory_err"
| "py_err_from_rypipe (Merge_error msg) = Merge_err msg"
| "py_err_from_rypipe (Parser_error msg) = Parser_err msg"
| "py_err_from_rypipe (Lifetime_error msg) = Parser_err (''lifetime error: '' @ msg)"
| "py_err_from_rypipe (Io_error e) = Io_err e"
| "py_err_from_rypipe (Arrow_error e) = Exception_err (''Arrow error: '' @ e)"

section \<open>The cast\<close>

datatype input_type = Utf8 | Large_Utf8 | Other_Type

definition cast_plan :: "field_type \<Rightarrow> execution_plan" where
  "cast_plan ty = plan_new\<lparr>field_types := [(''value'', ty)], schema_order := [''value''], strict_types := True\<rparr>"

definition cast_record :: "string option \<Rightarrow> (string \<times> field_value) list" where
  "cast_record cell = (case cell of None \<Rightarrow> [] | Some s \<Rightarrow> [(''value'', Str s)])"

definition cast_strings :: "env \<Rightarrow> input_type list \<Rightarrow> string option list list \<Rightarrow> string \<Rightarrow> arrow_array py_result option" where
  "cast_strings E cols batches ty_text =
     (if length cols \<noteq> 1 then Some (Inl (Value_err ''_cast_strings expects a one-column Arrow table''))
      else if hd cols = Other_Type then Some (Inl (Type_err ''_cast_strings expects string or large_string input''))
      else case field_type_from_str ty_text of
          Inl msg \<Rightarrow> Some (Inl (Plan_err msg))
        | Inr ty \<Rightarrow>
            Option.bind (parse_rows E (map cast_record (concat batches)) (tb_with_plan (sum_list (map length batches)) (cast_plan ty))) (\<lambda>t.
            Option.bind (finish E t) (\<lambda>(r, _).
              case r of Inl err \<Rightarrow> Some (Inl (py_err_from_rypipe err))
              | Inr [] \<Rightarrow> None
              | Inr ((_, column) # _) \<Rightarrow> Some (Inr column))))"

section \<open>The strict column\<close>

lemma cast_plan_simps [simp]:
  "plan_filter (cast_plan ty) = None" "strict_types (cast_plan ty)" "schema_order (cast_plan ty) = [''value'']"
  "drop_fields (cast_plan ty) = []" "map_of (field_types (cast_plan ty)) ''value'' = Some ty"
  "resolve_field (cast_plan ty) ''value'' = Some ''value''" "column_type (cast_plan ty) ''value'' = ty"
  by (simp_all add: cast_plan_def plan_new_def resolve_field_def renamed_def column_type_def contains_key_def)

text \<open>The column is at slot 0 under its name, and the first string that did not parse is remembered.\<close>

definition strict_column :: "field_type \<Rightarrow> error option \<Rightarrow> table_builder \<Rightarrow> bool" where
  "strict_column ty err t \<longleftrightarrow> plan t = cast_plan ty \<and> field_index t = [(''value'', 0)] \<and> column_order t = [''value''] \<and>
     errors t = (err, None) \<and> unbudgeted t \<and> \<not> is_exact_frozen t"

definition layout :: "table_builder \<Rightarrow> (string, nat) hmap \<times> string list \<times> execution_plan \<times> frozen_schema option \<times> nat option" where
  "layout t = (field_index t, column_order t, plan t, frozen t, memory_limit t)"

lemma strict_column_same: "layout u = layout t \<Longrightarrow> errors u = (err', None) \<Longrightarrow> strict_column ty err t \<Longrightarrow> strict_column ty err' u"
  by (auto simp: strict_column_def layout_def unbudgeted_def is_exact_frozen_def)

lemma layout_simps [simp]:
  "layout (notify e t) = layout t" "layout (notify_put_field i v t) = layout t" "layout (track_ordinal i n t) = layout t"
  "layout (record_strict_violation_at E i v t) = layout t" "layout (update_buf f t) = layout t" "layout (commit_row t) = layout t"
  by (auto simp: layout_def notify_def notify_put_field_def track_ordinal_def record_strict_violation_at_def update_buf_def
      commit_row_def Let_def split: option.splits field_value.splits)

lemma layout_store: "store_at E i v t = Some u \<Longrightarrow> layout u = layout t"
  by (auto simp: store_at_def layout_def Let_def split: bind_splits)

lemma layout_begin: "unbudgeted t \<Longrightarrow> layout (begin_row E t) = layout t"
  by (simp add: begin_row_def layout_def update_buf_def notify_def Let_def)

lemma layout_finish_row: "finish_row E t = Some u \<Longrightarrow> layout u = layout t"
  by (auto simp: finish_row_def null_fill_def layout_def commit_row_def notify_def split: bind_splits option.splits if_splits)

definition violation :: error where
  "violation = Plan_error ''strict_types: column value''"

definition noted :: "env \<Rightarrow> field_type \<Rightarrow> error option \<Rightarrow> string option \<Rightarrow> error option" where
  "noted E ty err cell =
     (case err of Some e \<Rightarrow> Some e
      | None \<Rightarrow> (case cell of Some s \<Rightarrow> if parses_as (ext E) s ty then None else Some violation | None \<Rightarrow> None))"

lemma strict_put:
  assumes c: "strict_column ty err t" and u: "put_field E ''value'' (Str s) t = Some u"
  shows "strict_column ty (noted E ty err (Some s)) u"
proof -
  note c' = c [unfolded strict_column_def]
  have path: "direct_path t" using c' by (simp add: direct_path_def)
  have "ensure_column_idx E ''value'' t = (0, t)" using c' by (simp add: ensure_column_idx_def)
  then have st: "store_at E 0 (Str s) (track_ordinal 0 ''value'' (notify_put_field 0 (Str s) (record_strict_violation_at E 0 (Str s) t))) = Some u"
    using u c' path by (simp add: put_field_direct push_field_resolves push_field_resolved_def)
  have "errors (record_strict_violation_at E 0 (Str s) t) = (noted E ty err (Some s), None)"
    using c' by (auto simp: record_strict_violation_at_def errors_def noted_def violation_def idx_def split: option.splits)
  then show ?thesis using layout_store [OF st] errors_store [OF st] strict_column_same [OF _ _ c] by simp
qed

lemma strict_row:
  assumes c: "strict_column ty err t" and u: "parse_row E (cast_record cell) t = Some u"
  shows "strict_column ty (noted E ty err cell) u"
proof -
  note c' = c [unfolded strict_column_def]
  have un: "unbudgeted t" using c' by simp
  have b: "strict_column ty err (begin_row E t)"
    using c' by (intro strict_column_same [OF layout_begin [OF un] _ c]) (simp add: errors_begin [OF un])
  from u obtain w where w: "put_all E (cast_record cell) (begin_row E t) = Some w" "end_row E w = Some u"
    by (auto simp: parse_row_def bind_eq_Some_conv)
  have p: "strict_column ty (noted E ty err cell) w"
  proof (cases cell)
    case None
    then show ?thesis using w(1) b by (auto simp: cast_record_def noted_def split: option.splits)
  next
    case (Some s)
    then have "put_field E ''value'' (Str s) (begin_row E t) = Some w"
      using w(1) by (auto simp: cast_record_def bind_eq_Some_conv)
    then show ?thesis using strict_put [OF b] Some by simp
  qed
  then have "finish_row E w = Some u" using w(2) by (simp add: strict_column_def end_row_def)
  then show ?thesis
    using p by (intro strict_column_same [OF layout_finish_row _ p]) (simp_all add: errors_finish_row strict_column_def)
qed

lemma strict_rows:
  "strict_column ty err t \<Longrightarrow> parse_rows E (map cast_record cells) t = Some u \<Longrightarrow> strict_column ty (fold (\<lambda>c e. noted E ty e c) cells err) u"
proof (induction cells arbitrary: t err)
  case (Cons c cells)
  then obtain w where "parse_row E (cast_record c) t = Some w" "parse_rows E (map cast_record cells) w = Some u"
    by (auto simp: bind_eq_Some_conv)
  then show ?case using Cons.IH [OF strict_row [OF Cons.prems(1)]] by simp
qed simp

lemma noted_all:
  "fold (\<lambda>c e. noted E ty e c) cells err =
     (if err \<noteq> None then err else if \<forall>s. Some s \<in> set cells \<longrightarrow> parses_as (ext E) s ty then None else Some violation)"
  by (induction cells arbitrary: err) (auto simp: noted_def split: option.splits)

lemma strict_start: "strict_column ty None (tb_with_plan cap (cast_plan ty))"
  by (simp add: strict_column_def tb_with_plan_def tb_with_capacity_def predeclare_schema_columns_def predeclare_names_def
      contains_key_def declare_column_def add_column_def cover_columns_def errors_def unbudgeted_def is_exact_frozen_def Let_def)

lemma parses_iff_converts: "parses_as X s ty \<longleftrightarrow> convert X ty (Str s) \<noteq> None"
  by (cases ty) (auto simp: parses_as_def convert_def)

lemma written_cast:
  "written X (cast_plan ty) (cast_record cell) no_cells ''value'' = Option.bind cell (\<lambda>s. convert X ty (Str s))"
  by (cases cell) (simp_all add: cast_record_def)

lemma cast_scale: "field_type_from_str s = Inr ty \<Longrightarrow> scales_fit (cast_plan ty)"
  by (auto simp: field_type_from_str_def scales_fit_def cast_plan_def parse_timestamp_spec_def
      split: if_splits option.splits prod.splits)

text \<open>
  C39. A cast gives the strings read as the declared type, nulls staying null, exactly when every string
  parses; no string ever becomes a null in silence, and otherwise the cast fails with the
  violation of the strict column.
\<close>

theorem cast_is_total_or_fails:
  assumes "cols = [Utf8] \<or> cols = [Large_Utf8]" "field_type_from_str ty_text = Inr ty"
    and "rows_fit E (map cast_record (concat batches)) (tb_with_plan (sum_list (map length batches)) (cast_plan ty))"
    and "length (concat batches) + 2 < 2 ^ 31"
  shows "if \<forall>s. Some s \<in> set (concat batches) \<longrightarrow> convert (ext E) ty (Str s) \<noteq> None
    then \<exists>column. cast_strings E cols batches ty_text = Some (Inr column) \<and>
      acells column = map (\<lambda>cell. Option.bind cell (\<lambda>s. convert (ext E) ty (Str s))) (concat batches) \<and>
      list_all2 (\<lambda>cell read. read = None \<longleftrightarrow> cell = None) (concat batches) (acells column)
    else cast_strings E cols batches ty_text = Some (Inl (Plan_err ''strict_types: column value''))"
proof -
  let ?cells = "concat batches" and ?t = "tb_with_plan (sum_list (map length batches)) (cast_plan ty)"
  let ?read = "\<lambda>cell. Option.bind cell (\<lambda>s. convert (ext E) ty (Str s))"
  have t: "tb_wf ?t" "tb_rows ?t = []" "cur_row ?t = no_cells" "plan ?t = cast_plan ty" "unbudgeted ?t" "direct_path ?t" "\<not> is_exact_frozen ?t"
    using tb_with_plan_ok [of _ "cast_plan ty"] strict_start [of ty] by (auto simp: strict_column_def direct_path_def)
  have all: "filter (accepts (ext E) (cast_plan ty)) xs = xs" for xs by (simp add: accepts_def)
  from parse_rows_direct [OF t(1,5,6,7,3) assms(3)] obtain u where
    u: "parse_rows E (map cast_record ?cells) ?t = Some u" "tb_wf u"
      "tb_rows u = map (\<lambda>kvs. written (ext E) (cast_plan ty) kvs no_cells) (map cast_record ?cells)"
    by (auto simp: t(2,4) all)
  have c: "strict_column ty (if \<forall>s. Some s \<in> set ?cells \<longrightarrow> parses_as (ext E) s ty then None else Some violation) u"
    using strict_rows [OF strict_start u(1)] unfolding noted_all by simp
  have cast: "cast_strings E cols batches ty_text = Option.bind (finish E u) (\<lambda>(r, _). case r of Inl err \<Rightarrow> Some (Inl (py_err_from_rypipe err))
      | Inr [] \<Rightarrow> None | Inr ((_, column) # _) \<Rightarrow> Some (Inr column))"
    using assms(1,2) u(1) by (auto simp: cast_strings_def)
  show ?thesis
  proof (cases "\<forall>s. Some s \<in> set ?cells \<longrightarrow> parses_as (ext E) s ty")
    case True
    then have ok: "strict_error u = None" "unknown_error u = None" "unbudgeted u" "plan u = cast_plan ty" "column_order u \<noteq> []"
      using c by (simp_all add: strict_column_def errors_def)
    have names: "batch_names u = [''value'']" by (simp add: batch_names_def ok(4))
    have "row_count u = length ?cells" using arg_cong [OF u(3), of length] by (simp add: tb_rows_def)
    then have "\<exists>b w. finish E u = Some (Inr b, w) \<and> map fst b = batch_names u \<and> (\<forall>(n, a) \<in> set b. acells a = map (\<lambda>r. r n) (tb_rows u))"
      using assms(4) names cast_scale [OF assms(2)] by (intro finish_ok [OF u(2) ok(3,2,1) _ ok(5)]) (simp_all add: ok(4))
    then obtain a w where "finish E u = Some (Inr [(''value'', a)], w)" "acells a = map (\<lambda>r. r ''value'') (tb_rows u)"
      unfolding names by (auto simp: map_eq_Cons_conv)
    then have "cast_strings E cols batches ty_text = Some (Inr a)" "acells a = map ?read ?cells"
      by (simp_all add: cast u(3) written_cast comp_def)
    moreover have "list_all2 (\<lambda>cell read. read = None \<longleftrightarrow> cell = None) ?cells (map ?read ?cells)"
    proof -
      have "?read cell = None \<longleftrightarrow> cell = None" if "cell \<in> set ?cells" for cell
        using True that by (cases cell) (auto simp: parses_iff_converts)
      then show ?thesis by (simp add: list_all2_map2 list_all2_same)
    qed
    ultimately show ?thesis using True by (auto simp: parses_iff_converts)
  next
    case False
    then have "strict_error u = Some violation" "unknown_error u = None" using c by (simp_all add: strict_column_def errors_def)
    then have "cast_strings E cols batches ty_text = Some (Inl (Plan_err ''strict_types: column value''))"
      by (simp add: cast finish_def prepare_finish_def violation_def)
    then show ?thesis using False by (simp add: parses_iff_converts)
  qed
qed

theorem cast_is_total_or_fails_witness:
  "\<exists>column. cast_strings sample_env [Utf8] [[Some ''1'', None]] ''int64'' = Some (Inr column) \<and> acells column = [Some (TV_Int64 1), None]"
proof -
  let ?t = "tb_with_plan (sum_list (map length [[Some ''1'', None]])) (cast_plan FT_Int64)"
  have t: "tb_wf ?t" "unbudgeted ?t" "direct_path ?t" "\<not> is_exact_frozen ?t" "cur_row ?t = no_cells" "plan ?t = cast_plan FT_Int64"
    using tb_with_plan_ok [of _ "cast_plan FT_Int64"] strict_start [of FT_Int64] by (auto simp: strict_column_def direct_path_def)
  have "rows_fit sample_env (map cast_record (concat [[Some ''1'', None]])) ?t"
    by (rule rows_fit_inline [OF t(1-5)]) (unfold t(6), simp add: cast_record_def inline_record_def inline_type_def)
  moreover have "field_type_from_str ''int64'' = Inr FT_Int64" by code_simp
  moreover have "convert (ext sample_env) FT_Int64 (Str ''1'') = Some (TV_Int64 1)"
    unfolding convert_def sample_env_def sample_externals_def by code_simp
  ultimately show ?thesis
    using cast_is_total_or_fails [of "[Utf8]" "''int64''" FT_Int64 sample_env "[[Some ''1'', None]]"]
    by auto
qed

end
