(* ===== verification/Spec2Isabelle.thy ===== *)
theory Spec2Isabelle
  imports Filter_Properties Block_Laws Stream_Properties Spill_Laws Scan Feeds Inputs Filter_Spec_Laws Pipeline
    Discovery Iterators Engine_Choice String_Cast
begin

text \<open>
  A verification of rypipe-core, the columnar parsing engine of rypipe, and of the part of its Python
  crate that decides how it runs. File names below are under \<open>crates/rypipe-core/src\<close> unless said otherwise.

  \<^bold>\<open>The program.\<close> An adapter gives a splitter, which finds record boundaries, and a parser, which hands records
  field by field to a sink. The sink is the table builder: it resolves names by the execution plan,
  converts values into typed columns, filters rows, and gives an Arrow batch. Around it are the ways
  to run: one builder over all bytes, builders over chunks in parallel whose tables are exported
  together, a bounded stream that splits batches off, and a parallel stream that delivers the
  batches of chunks in order through a channel. Text \<open>&str\<close> and \<open>&[u8]\<close> are lists of characters of
  one byte, \<open>Vec\<close> is a list, \<open>usize\<close> and \<open>u64\<close> are numbers with the saturating, checked or wrapping
  operations written out, masks are words; a panic is \<open>None\<close> and an error is \<open>Inl\<close>.

  \<^bold>\<open>Values and columns.\<close> \<open>Prelude\<close> and \<open>Rust_Std\<close> hold errors, orderings, slices and the operations of Rust's standard
  library; \<open>F64\<close> is binary64 with its rounding. \<open>Plan\<close> is \<open>value.rs\<close>, \<open>plan.rs\<close> and the data of
  \<open>plan/predicate.rs\<close>; \<open>Scalar\<close> is \<open>columnar/scalar_parse.rs\<close>. \<open>Validity\<close>, \<open>Columns\<close>, \<open>Str_Columns\<close>, \<open>Dict_Table\<close> and
  \<open>Column_Builder\<close> are \<open>columnar.rs\<close>; \<open>Column_Laws\<close> shows that each operation acts on the list of cells
  a column stands for. \<open>Row_Store\<close> is the interface, a locale, through which the table uses columns, and
  \<open>Column_Laws\<close> interprets it on the column builder.

  \<^bold>\<open>The table.\<close> \<open>Table_State\<close> and \<open>Table_Builder\<close> are \<open>engine/table_builder.rs\<close> with \<open>memory.rs\<close>, \<open>observer.rs\<close> and
  \<open>engine/predicate.rs\<close>; \<open>Filter_Check\<close> is the columnar filter and \<open>Filter_Meaning\<close> what a filter means, stated without
  the code's comparison helpers, \<open>Row_Filter\<close> the evaluation on a row that is still
  buffered (\<open>engine/table_builder/predicates.rs\<close>). \<open>Table_Laws\<close>, \<open>Table_Parse\<close> and \<open>Buffered_Rows\<close> carry the invariant
  that columns, index and dirty bits agree, and the refinement to a list of rows; \<open>Table_Properties\<close> and
  \<open>Filter_Properties\<close> state what follows: parsing gives the rows of the records, a filter keeps those that satisfy
  it, splitting loses nothing, errors stick. A table with rows, a column and no recorded error exports; an empty
  one may not, when a decimal column has a scale Arrow refuses.

  \<^bold>\<open>Cutting the input.\<close> \<open>Decoder\<close> is \<open>decoder.rs\<close>: chunk counts, record boundaries and split points that never cut a
  record. \<open>Block_Masks\<close> and \<open>Block_Laws\<close> are \<open>block_masks.rs\<close>: every CPU variant gives the same masks, and the searches find
  the first occurrence, quotes respected. \<open>Scan\<close> is \<open>scan/mod.rs\<close>. \<open>Schema\<close> is \<open>schema.rs\<close> and \<open>Discovery\<close> is
  \<open>parallel_stream/discovery.rs\<close> with \<open>engine/locate.rs\<close>: a discovered schema resolves every kept name that was
  scanned, files and memory agree, and the cache of layouts does not show as long as no two layouts asked
  for have the same length and 64-bit hash.

  \<^bold>\<open>Running.\<close> \<open>Merge_Tables\<close> and \<open>Chunk_Export\<close> are \<open>merge.rs\<close> and \<open>arrow_export.rs\<close>, with \<open>Chunk_Laws\<close>; \<open>Dict_Unify\<close> is
  \<open>dict.rs\<close>; \<open>Parallel\<close> and \<open>Parallel_Laws\<close> are \<open>parallel.rs\<close>: chunks in parallel give the sequential table.
  \<open>Budget\<close>, \<open>Spill\<close> and \<open>Spill_Laws\<close> are \<open>budget.rs\<close>, \<open>bounded.rs\<close> and \<open>spill.rs\<close>. \<open>Coordinator\<close> is the parallel stream
  as a step relation over the states of workers, queue, channel and coordinator, so that every
  interleaving is a run; \<open>Stream_Executor\<close> gives its sizes and a worker's chunk, \<open>Coordinator_Laws\<close> and \<open>Stream_Runs\<close> the
  invariant and the measure, \<open>Stream_Properties\<close> delivery in order and in full, progress, termination and
  memory within the budget. \<open>Consumers\<close> aligns collected batches (\<open>consumer.rs\<close>), \<open>Iterators\<close> pulls from a
  stream (\<open>streaming.rs\<close>), \<open>Pipeline\<close> is \<open>pipeline.rs\<close>: its modes give the same columns.
  \<open>Feeds\<close> is \<open>streaming_parser.rs\<close> over the locale of an incremental parser, interpreted on the line parser;
  \<open>Inputs\<close> is \<open>input.rs\<close> over the locale of a byte source, interpreted on slices.

  \<^bold>\<open>Configuration.\<close> \<open>Filter_Specs\<close> and \<open>Filter_Spec_Laws\<close> are \<open>plan_kwargs.rs\<close> and \<open>py_observer.rs\<close> of \<open>crates/rypipe-python/src\<close>: filter
  specs round-trip, accepted plans are well formed. \<open>Engine_Choice\<close> is \<open>auto.rs\<close> and its Python entry point, and
  \<open>String_Cast\<close> the strict cast of a column of strings (\<open>lib.rs\<close>): every string is read or the cast fails.

  \<^bold>\<open>Parameters and bounds.\<close> What is not in this repository is a parameter: number and date parsing of the lexical and chrono
  crates, regular expressions, upper and lower case beyond ASCII (\<open>externals\<close>), Arrow's compute kernels
  and schema merge, allocator capacities, codecs, the 64-bit layout hash, and the adapter's parser and splitter; the
  properties name what they assume of them. Lengths stay below \<open>2 ^ 31\<close> where the code keeps offsets in
  \<open>i32\<close>: \<open>rows_fit\<close> and \<open>spill_fits\<close> say that the values of the records fit, and hold for every input with inline types. Loops
  recur on their data or on a measure, with three step counts. \<open>parse_filter_spec_depth\<close> counts the nesting levels
  left, which is the limit of the source. \<open>pieces\<close> (\<open>Schema\<close>) has one step more than the window has bytes, and every step
  moves on; \<open>pieces_cover\<close> proves it enough. \<open>shortest_from\<close> (\<open>F64\<close>) searches the shortest decimal of a float in 1100
  steps; 17 significant digits name every value, so at most 342 are taken. The parallel stream ends by a
  bound on its steps.

  \<^bold>\<open>Not modelled.\<close> Memory mapping and the file system: a file is its bytes. Profiling, diagnostics, allocation statistics and
  benchmarks (\<open>profiling.rs\<close>, \<open>diagnostics.rs\<close>, \<open>alloc_stats.rs\<close>, \<open>bench\<close>) count and print and decide nothing. CPU
  detection: the variant is an argument. The module definition of the Python crate, the calls of
  Python hooks and the handover to pyarrow (\<open>lib.rs\<close>, \<open>py_observer.rs\<close>, \<open>export.rs\<close>) are calls of PyO3. Locks and reference
  counts appear as the atomic steps they make. Most of \<open>table_builder.rs\<close>, \<open>columnar.rs\<close> and \<open>parallel_stream.rs\<close> that
  the map leaves out are their tests. Error messages are shortened to their fixed part.
\<close>

end
